(* ===== verification/Prelude.thy ===== *)
theory Prelude
  imports Main "HOL-Library.Word"
begin

text \<open>
  Shared vocabulary of the development: the machine integers and byte strings the
  Rust code works on, the fixed-width integer encodings (\<open>to_le_bytes\<close>,
  \<open>to_be_bytes\<close> and their inverses), the slice reads used by the decoders, binary
  search, and the generic lemmas on lists the component theories share. The
  collection \<open>byte_simps\<close> holds the facts that evaluate an encoder followed by a
  decoder. The locale \<open>codec\<close> is the contract every on-disk format of the program
  fulfils; each format interprets it in its own theory.
\<close>

unbundle bit_operations_syntax

named_theorems byte_simps \<open>facts that evaluate a decoder on encoded bytes\<close>

section \<open>Machine integers\<close>

type_synonym u8 = "8 word"
type_synonym u16 = "16 word"
type_synonym u32 = "32 word"
type_synonym u64 = "64 word"
type_synonym bytes = "u8 list"

lemma unat_u64_max: "unat (- 1 :: u64) = 2 ^ 64 - 1"
  by (simp add: unsigned_minus_1_eq_mask mask_eq_exp_minus_1)

lemma unat_u64_less: "unat (w :: u64) < 2 ^ 64"
  using unsigned_less [of w, where ?'a = nat] by simp

lemma unat_u32_less: "unat (w :: u32) < 2 ^ 32"
  using unsigned_less [of w, where ?'a = nat] by simp

section \<open>Fixed-width integers as bytes\<close>

text \<open>Little-endian digits of a number in base 256 and the value of such digits.\<close>

fun le_digits :: "nat \<Rightarrow> nat \<Rightarrow> bytes" where
  "le_digits 0 x = []"
| "le_digits (Suc n) x = of_nat x # le_digits n (x div 256)"

fun le_value :: "bytes \<Rightarrow> nat" where
  "le_value [] = 0"
| "le_value (b # bs) = unat b + 256 * le_value bs"

definition to_le_bytes :: "'a::len word \<Rightarrow> bytes" where
  "to_le_bytes w = le_digits (LENGTH('a) div 8) (unat w)"

definition from_le_bytes :: "bytes \<Rightarrow> 'a::len word" where
  "from_le_bytes bs = of_nat (le_value bs)"

definition to_be_bytes :: "'a::len word \<Rightarrow> bytes" where
  "to_be_bytes w = rev (to_le_bytes w)"

definition from_be_bytes :: "bytes \<Rightarrow> 'a::len word" where
  "from_be_bytes bs = from_le_bytes (rev bs)"

lemma unat_u8_less: "unat (b :: u8) < 256"
  using unsigned_less [of b, where ?'a = nat] by simp

lemma le_digits_numeral: "le_digits (numeral k) x = of_nat x # le_digits (pred_numeral k) (x div 256)"
  by (simp only: numeral_eq_Suc [of k] le_digits.simps)

lemma length_le_digits [simp]: "length (le_digits n x) = n"
  by (induction n arbitrary: x) auto

lemma le_value_le_digits: "le_value (le_digits n x) = x mod 256 ^ n"
proof (induction n arbitrary: x)
  case (Suc n)
  have "unat (of_nat x :: u8) = x mod 256"
    by (simp add: unat_of_nat)
  with Suc show ?case
    by (simp add: mod_mult2_eq)
qed simp

lemma le_value_bound: "le_value bs < 256 ^ length bs"
proof (induction bs)
  case (Cons b bs)
  have "unat b < 256"
    by (rule unat_u8_less)
  moreover have "le_value bs + 1 \<le> 256 ^ length bs"
    using Cons by simp
  then have "256 * (le_value bs + 1) \<le> 256 * 256 ^ length bs"
    by (rule mult_le_mono2)
  ultimately show ?case
    by simp
qed simp

lemma le_digits_le_value: "le_digits (length bs) (le_value bs) = bs"
proof (induction bs)
  case (Cons b bs)
  have b: "unat b < 256"
    by (rule unat_u8_less)
  have "(of_nat (unat b + 256 * le_value bs) :: u8) = b"
  proof -
    have "(256 :: u8) = 0"
      by simp
    then show ?thesis
      by (simp only: of_nat_add of_nat_mult of_nat_numeral mult_zero_left of_nat_unat ucast_id add_0_right)
  qed
  moreover have "(unat b + 256 * le_value bs) div 256 = le_value bs"
    using b by simp
  ultimately show ?case
    using Cons by (simp only: le_digits.simps le_value.simps length_Cons)
qed simp

lemma length_to_le_bytes [simp, byte_simps]:
  "length (to_le_bytes (w :: 'a::len word)) = LENGTH('a) div 8"
  by (simp add: to_le_bytes_def)

lemma length_to_be_bytes [simp, byte_simps]:
  "length (to_be_bytes (w :: 'a::len word)) = LENGTH('a) div 8"
  by (simp add: to_be_bytes_def)

lemma from_to_le_bytes:
  assumes "8 dvd LENGTH('a)"
  shows "from_le_bytes (to_le_bytes (w :: 'a::len word)) = w"
proof -
  have "(256 :: nat) ^ (LENGTH('a) div 8) = 2 ^ (8 * (LENGTH('a) div 8))"
    by (simp add: power_mult)
  also have "\<dots> = 2 ^ LENGTH('a)"
    using assms by simp
  finally have "(256 :: nat) ^ (LENGTH('a) div 8) = 2 ^ LENGTH('a)" .
  then show ?thesis
    by (simp add: from_le_bytes_def to_le_bytes_def le_value_le_digits)
qed

lemma to_from_le_bytes:
  assumes "8 * length bs = LENGTH('a)"
  shows "to_le_bytes (from_le_bytes bs :: 'a::len word) = bs"
proof -
  have "le_value bs < 2 ^ LENGTH('a)"
    using le_value_bound [of bs] assms [symmetric] by (simp add: power_mult)
  then have "unat (of_nat (le_value bs) :: 'a word) = le_value bs"
    by (simp add: unat_of_nat)
  moreover have "LENGTH('a) div 8 = length bs"
    using assms by simp
  ultimately show ?thesis
    by (simp add: to_le_bytes_def from_le_bytes_def le_digits_le_value)
qed

lemma from_to_le_u16 [simp, byte_simps]: "from_le_bytes (to_le_bytes (w :: u16)) = w"
  by (rule from_to_le_bytes) simp

lemma from_to_le_u32 [simp, byte_simps]: "from_le_bytes (to_le_bytes (w :: u32)) = w"
  by (rule from_to_le_bytes) simp

lemma from_to_le_u64 [simp, byte_simps]: "from_le_bytes (to_le_bytes (w :: u64)) = w"
  by (rule from_to_le_bytes) simp

lemma from_to_be_u16 [simp, byte_simps]: "from_be_bytes (to_be_bytes (w :: u16)) = w"
  by (simp add: from_be_bytes_def to_be_bytes_def)

lemma from_to_be_u32 [simp, byte_simps]: "from_be_bytes (to_be_bytes (w :: u32)) = w"
  by (simp add: from_be_bytes_def to_be_bytes_def)

lemma from_to_be_u64 [simp, byte_simps]: "from_be_bytes (to_be_bytes (w :: u64)) = w"
  by (simp add: from_be_bytes_def to_be_bytes_def)

lemma to_from_be_u64: "length bs = 8 \<Longrightarrow> to_be_bytes (from_be_bytes bs :: u64) = bs"
  by (simp add: from_be_bytes_def to_be_bytes_def to_from_le_bytes)

lemma to_from_be_u32: "length bs = 4 \<Longrightarrow> to_be_bytes (from_be_bytes bs :: u32) = bs"
  by (simp add: from_be_bytes_def to_be_bytes_def to_from_le_bytes)

section \<open>Reads from a byte buffer\<close>

text \<open>A slice \<open>buf[a..a + n]\<close> whose bounds the caller has checked.\<close>

definition slice :: "'a list \<Rightarrow> nat \<Rightarrow> nat \<Rightarrow> 'a list" where
  "slice buf a n = take n (drop a buf)"

text \<open>\<open>copy_from_slice\<close> into \<open>buf[a..a + length xs]\<close>, bounds checked by the caller.\<close>

definition splice :: "'a list \<Rightarrow> nat \<Rightarrow> 'a list \<Rightarrow> 'a list" where
  "splice buf a xs = take a buf @ xs @ drop (a + length xs) buf"

lemma length_slice [simp]: "a + n \<le> length buf \<Longrightarrow> length (slice buf a n) = n"
  by (simp add: slice_def)

lemma length_splice [simp]: "a + length xs \<le> length buf \<Longrightarrow> length (splice buf a xs) = length buf"
  by (simp add: splice_def)

lemma nth_splice:
  assumes "a + length xs \<le> length buf" and "i < length buf"
  shows "splice buf a xs ! i = (if a \<le> i \<and> i < a + length xs then xs ! (i - a) else buf ! i)"
  using assms by (auto simp: splice_def nth_append min_def)

lemma nth_slice: "a + n \<le> length buf \<Longrightarrow> i < n \<Longrightarrow> slice buf a n ! i = buf ! (a + i)"
  by (simp add: slice_def)

lemma slice_splice_same [simp]:
  "a + length xs \<le> length buf \<Longrightarrow> n = length xs \<Longrightarrow> slice (splice buf a xs) a n = xs"
  by (simp add: slice_def splice_def)

lemma slice_splice_disjoint:
  assumes "a + length xs \<le> length buf" and "b + n \<le> length buf"
    and "b + n \<le> a \<or> a + length xs \<le> b"
  shows "slice (splice buf a xs) b n = slice buf b n"
proof (rule nth_equalityI)
  show "length (slice (splice buf a xs) b n) = length (slice buf b n)"
    using assms by simp
next
  fix i
  assume "i < length (slice (splice buf a xs) b n)"
  then have "i < n"
    using assms by simp
  then show "slice (splice buf a xs) b n ! i = slice buf b n ! i"
    using assms by (auto simp: nth_slice nth_splice)
qed

lemma slice_append_left [simp]: "a + n \<le> length xs \<Longrightarrow> slice (xs @ ys) a n = slice xs a n"
  by (simp add: slice_def)

lemma slice_append_mid: "length p = a \<Longrightarrow> length m = n \<Longrightarrow> slice (p @ m @ s) a n = m"
  by (simp add: slice_def)

section \<open>Binary search in a sorted vector\<close>

text \<open>
  \<open>slice::binary_search\<close> of the standard library: the window \<open>[lo, hi)\<close> halves until
  it is empty or the middle element is the one sought.
\<close>

function bsearch :: "'a::linorder list \<Rightarrow> 'a \<Rightarrow> nat \<Rightarrow> nat \<Rightarrow> nat option" where
  "bsearch xs x lo hi =
     (if lo < hi then
        let mid = lo + (hi - lo) div 2 in
        if xs ! mid = x then Some mid
        else if xs ! mid < x then bsearch xs x (Suc mid) hi
        else bsearch xs x lo mid
      else None)"
  by pat_completeness auto
termination
  by (relation "measure (\<lambda>(xs, x, lo, hi). hi - lo)") auto

declare bsearch.simps [simp del]

definition binary_search :: "'a::linorder list \<Rightarrow> 'a \<Rightarrow> nat option" where
  "binary_search xs x = bsearch xs x 0 (length xs)"

lemma bsearch_Some: "bsearch xs x lo hi = Some i \<Longrightarrow> lo \<le> i \<and> i < hi \<and> xs ! i = x"
proof (induction xs x lo hi rule: bsearch.induct)
  case (1 xs x lo hi)
  define mid where "mid = lo + (hi - lo) div 2"
  have lh: "lo < hi"
    using 1(3) by (subst (asm) bsearch.simps) (simp split: if_splits)
  then have mid: "lo \<le> mid" "mid < hi"
    by (auto simp: mid_def)
  have eq: "bsearch xs x lo hi =
      (if xs ! mid = x then Some mid else if xs ! mid < x then bsearch xs x (Suc mid) hi
       else bsearch xs x lo mid)"
    using lh by (subst bsearch.simps) (simp add: Let_def mid_def)
  show ?case
    using 1(3) 1(1) [OF lh mid_def] 1(2) [OF lh mid_def] mid
    unfolding eq by (simp split: if_splits)
qed

lemma bsearch_None:
  assumes "sorted xs"
  shows "hi \<le> length xs \<Longrightarrow> bsearch xs x lo hi = None \<Longrightarrow> lo \<le> i \<Longrightarrow> i < hi \<Longrightarrow> xs ! i \<noteq> x"
  using assms
proof (induction xs x lo hi arbitrary: i rule: bsearch.induct)
  case (1 xs x lo hi)
  define mid where "mid = lo + (hi - lo) div 2"
  have lh: "lo < hi" and mid: "lo \<le> mid" "mid < hi"
    using 1(5,6) by (auto simp: mid_def)
  have eq: "bsearch xs x lo hi =
      (if xs ! mid = x then Some mid else if xs ! mid < x then bsearch xs x (Suc mid) hi
       else bsearch xs x lo mid)"
    using lh by (subst bsearch.simps) (simp add: Let_def mid_def)
  then have ne: "xs ! mid \<noteq> x"
    using 1(4) by auto
  show ?case
  proof (cases "xs ! mid < x")
    case True
    show ?thesis
    proof (cases "i \<le> mid")
      case le: True
      have "xs ! i \<le> xs ! mid"
        by (rule sorted_nth_mono [OF 1(7) le]) (use mid 1(3) in simp)
      with True show ?thesis by auto
    next
      case False
      have "bsearch xs x (Suc mid) hi = None"
        using eq ne True 1(4) by simp
      then show ?thesis
        using 1(1) [OF lh mid_def ne True 1(3) _ _ 1(6) 1(7)] False by simp
    qed
  next
    case False
    show ?thesis
    proof (cases "mid \<le> i")
      case le: True
      have "xs ! mid \<le> xs ! i"
        by (rule sorted_nth_mono [OF 1(7) le]) (use 1(3,6) in simp)
      with False ne show ?thesis by auto
    next
      case lt: False
      have "bsearch xs x lo mid = None"
        using eq ne False 1(4) by simp
      then show ?thesis
        using 1(2) [OF lh mid_def ne False _ _ 1(5) _ 1(7)] lt mid 1(3) by simp
    qed
  qed
qed

lemma binary_search_iff:
  assumes "sorted xs"
  shows "binary_search xs x \<noteq> None \<longleftrightarrow> x \<in> set xs"
proof
  assume "binary_search xs x \<noteq> None"
  then show "x \<in> set xs"
    by (auto simp: binary_search_def dest: bsearch_Some)
next
  assume "x \<in> set xs"
  then show "binary_search xs x \<noteq> None"
    using bsearch_None [OF assms, of "length xs" x 0]
    by (fastforce simp: binary_search_def in_set_conv_nth)
qed

section \<open>The contract of an on-disk format\<close>

text \<open>
  A format is an encoder, a decoder and the values the encoder is meant for; decoding
  what was encoded gives the value back, whatever bytes follow it.
\<close>

locale codec =
  fixes enc :: "'v \<Rightarrow> bytes"
    and dec :: "bytes \<Rightarrow> 'v option"
    and valid :: "'v \<Rightarrow> bool"
  assumes dec_enc: "valid v \<Longrightarrow> dec (enc v @ rest) = Some v"
begin

lemma round_trip: "valid v \<Longrightarrow> dec (enc v) = Some v"
  using dec_enc [of v "[]"] by simp

lemma prefix_free:
  assumes "valid v" "valid w" "enc v @ r = enc w @ s"
  shows "v = w \<and> r = s"
proof -
  have "Some v = Some w"
    using dec_enc [OF assms(1), of r] dec_enc [OF assms(2), of s] assms(3) by simp
  with assms(3) show ?thesis by simp
qed

lemma inj: "valid v \<Longrightarrow> valid w \<Longrightarrow> enc v = enc w \<Longrightarrow> v = w"
  using prefix_free [of v w "[]" "[]"] by simp

end

end
