(* ===== verification/Txid.thy ===== *)
theory Txid
  imports Prelude
begin

text \<open>
  The transaction-id allocator of \<open>src/src/txn/txid.rs\<close>: a 64-bit counter whose
  \<open>fetch_add\<close> wraps, the reserved id 0, the persistence of the counter in a system
  page and its recovery after a crash. The locale \<open>id_source\<close> is what the global
  transaction state relies on; the allocator interprets it.
\<close>

section \<open>Definitions\<close>

type_synonym txid = u64

definition TX_ID_INVALID :: txid where
  "TX_ID_INVALID = 0"

definition TX_ID_BOOTSTRAP :: txid where
  "TX_ID_BOOTSTRAP = 1"

definition PERSIST_OFFSET :: nat where
  "PERSIST_OFFSET = 0"

definition RECOVERY_BUMP :: u64 where
  "RECOVERY_BUMP = 1000000"

lemmas txid_consts = TX_ID_INVALID_def TX_ID_BOOTSTRAP_def PERSIST_OFFSET_def RECOVERY_BUMP_def

record txid_allocator =
  counter :: u64

definition txid_new :: txid_allocator where
  "txid_new = \<lparr>counter = TX_ID_BOOTSTRAP\<rparr>"

definition txid_with_start :: "txid \<Rightarrow> txid_allocator" where
  "txid_with_start start =
     \<lparr>counter = (if start = TX_ID_INVALID then TX_ID_BOOTSTRAP else start)\<rparr>"

text \<open>
  The loop of \<open>allocate\<close>: one atomic \<open>fetch_add\<close> per round, repeated only when the
  reserved value was drawn. The counter is non-zero in the second round at the latest.
\<close>

function txid_allocate :: "txid_allocator \<Rightarrow> txid \<times> txid_allocator" where
  "txid_allocate a =
     (let i = counter a; a' = a\<lparr>counter := counter a + 1\<rparr> in
      if i \<noteq> TX_ID_INVALID then (i, a') else txid_allocate a')"
  by pat_completeness auto
termination
  by (relation "measure (\<lambda>a. if counter a = 0 then 1 else 0)") (auto simp: txid_consts)

declare txid_allocate.simps [simp del]

definition txid_peek_next :: "txid_allocator \<Rightarrow> txid" where
  "txid_peek_next a = (let v = counter a in if v = TX_ID_INVALID then TX_ID_BOOTSTRAP else v)"

text \<open>
  \<open>persist\<close> and \<open>recover\<close> index \<open>page[0..8]\<close>, which panics on a shorter page: the
  panic is \<open>None\<close>.
\<close>

definition txid_persist :: "txid_allocator \<Rightarrow> bytes \<Rightarrow> bytes option" where
  "txid_persist a page =
     (if length page < PERSIST_OFFSET + 8 then None
      else Some (splice page PERSIST_OFFSET (to_le_bytes (counter a))))"

definition checked_add_u64 :: "u64 \<Rightarrow> u64 \<Rightarrow> u64 option" where
  "checked_add_u64 x y = (if unat x + unat y < 2 ^ 64 then Some (x + y) else None)"

definition txid_recover :: "bytes \<Rightarrow> txid_allocator option" where
  "txid_recover page =
     (if length page < PERSIST_OFFSET + 8 then None
      else
        let stored = from_le_bytes (slice page PERSIST_OFFSET 8);
            start = max (case checked_add_u64 stored RECOVERY_BUMP of
                           None \<Rightarrow> TX_ID_BOOTSTRAP | Some s \<Rightarrow> s) TX_ID_BOOTSTRAP
        in Some (txid_with_start start))"

text \<open>A run of \<open>n\<close> allocations.\<close>

fun txid_allocate_n :: "nat \<Rightarrow> txid_allocator \<Rightarrow> txid list \<times> txid_allocator" where
  "txid_allocate_n 0 a = ([], a)"
| "txid_allocate_n (Suc n) a =
     (let (i, a') = txid_allocate a; (is, a'') = txid_allocate_n n a' in (i # is, a''))"

section \<open>Allocation\<close>

lemma txid_allocate_eq:
  "txid_allocate a = (txid_peek_next a, a\<lparr>counter := txid_peek_next a + 1\<rparr>)"
proof (cases "counter a = 0")
  case True
  then have "txid_allocate a = txid_allocate (a\<lparr>counter := 1\<rparr>)"
    by (subst txid_allocate.simps) (simp add: txid_consts)
  also have "\<dots> = (1, a\<lparr>counter := 2\<rparr>)"
    by (subst txid_allocate.simps) (simp add: txid_consts)
  finally show ?thesis
    using True by (simp add: txid_peek_next_def txid_consts)
qed (subst txid_allocate.simps, simp add: txid_peek_next_def Let_def txid_consts)

lemma txid_peek_next_nonzero: "txid_peek_next a \<noteq> TX_ID_INVALID"
  by (simp add: txid_peek_next_def Let_def txid_consts)

text \<open>What a client of the allocator relies on: every id is the one announced by
  \<open>peek_next\<close>, is valid, and the announced id moves on by one.\<close>

locale id_source =
  fixes next_id :: "'s \<Rightarrow> txid"
    and draw :: "'s \<Rightarrow> txid \<times> 's"
  assumes draw_next: "fst (draw s) = next_id s"
    and next_valid: "next_id s \<noteq> TX_ID_INVALID"
    and next_step: "next_id s \<noteq> - 1 \<Longrightarrow> next_id (snd (draw s)) = next_id s + 1"
begin

lemma next_increases:
  assumes "next_id s \<noteq> - 1"
  shows "unat (next_id (snd (draw s))) = Suc (unat (next_id s))"
proof -
  have "next_id s + 1 \<noteq> 0"
    using assms by (metis add_eq_0_iff2)
  then show ?thesis
    using next_step [OF assms] by (simp add: unatSuc add.commute)
qed

lemma drawn_below_next:
  assumes "next_id s \<noteq> - 1"
  shows "fst (draw s) < next_id (snd (draw s))"
  using next_increases [OF assms] by (simp add: draw_next word_less_nat_alt)

end

interpretation alloc: id_source txid_peek_next txid_allocate
proof unfold_locales
  fix s :: txid_allocator
  show "fst (txid_allocate s) = txid_peek_next s"
    by (simp add: txid_allocate_eq)
  show "txid_peek_next s \<noteq> TX_ID_INVALID"
    by (rule txid_peek_next_nonzero)
  assume "txid_peek_next s \<noteq> - 1"
  then have "txid_peek_next s + 1 \<noteq> 0"
    by (metis add_eq_0_iff2)
  then show "txid_peek_next (snd (txid_allocate s)) = txid_peek_next s + 1"
    by (simp add: txid_allocate_eq txid_peek_next_def [of "_\<lparr>counter := _\<rparr>"] txid_consts)
qed

text \<open>Ids are handed out densely and in order: \<open>n\<close> allocations from an allocator
  whose next id leaves room for them return exactly the next \<open>n\<close> consecutive ids, so
  all of them are valid, distinct and increasing.\<close>

theorem txid_allocate_n_consecutive:
  assumes "unat (txid_peek_next a) + n < 2 ^ 64"
  shows "map unat (fst (txid_allocate_n n a)) =
           [unat (txid_peek_next a)..<unat (txid_peek_next a) + n]
       \<and> TX_ID_INVALID \<notin> set (fst (txid_allocate_n n a))
       \<and> unat (txid_peek_next (snd (txid_allocate_n n a))) = unat (txid_peek_next a) + n"
  using assms
proof (induction n arbitrary: a)
  case (Suc n)
  have ne: "txid_peek_next a \<noteq> - 1"
    using Suc.prems by (auto simp: unat_u64_max)
  let ?a' = "snd (txid_allocate a)"
  have step: "unat (txid_peek_next ?a') = Suc (unat (txid_peek_next a))"
    by (rule alloc.next_increases [OF ne])
  have "unat (txid_peek_next ?a') + n < 2 ^ 64"
    using Suc.prems step by simp
  from Suc.IH [OF this] step show ?case
    by (simp add: case_prod_unfold Let_def alloc.draw_next alloc.next_valid [symmetric]
        upt_rec [of "unat (txid_peek_next a)"])
qed simp

theorem txid_allocate_n_consecutive_witness:
  "map unat (fst (txid_allocate_n 3 txid_new)) = [1, 2, 3]"
  using txid_allocate_n_consecutive [of txid_new 3]
  by (simp add: txid_new_def txid_peek_next_def txid_consts upt_rec)

section \<open>Persistence\<close>

lemma max_ge_one: "1 \<le> (s :: u64) \<Longrightarrow> max s 1 = s"
  by (simp add: max_def)

lemma txid_recover_persisted_bytes:
  fixes n :: u64
  assumes len: "8 \<le> length page" and room: "unat n + 1000000 < 2 ^ 64"
  shows "\<exists>a'. txid_recover (splice page 0 (to_le_bytes n)) = Some a'
            \<and> unat (txid_peek_next a') = unat n + 1000000"
proof -
  let ?page' = "splice page 0 (to_le_bytes n)"
  have read: "from_le_bytes (slice ?page' 0 8) = n"
    using len by simp
  have add: "checked_add_u64 n 1000000 = Some (n + 1000000)"
    using room by (simp add: checked_add_u64_def)
  have val: "unat (n + 1000000) = unat n + 1000000"
    using room by (subst unat_add_lem [THEN iffD1]) simp_all
  then have "1 \<le> n + 1000000" and nz: "n + 1000000 \<noteq> 0"
    by (auto simp: word_le_nat_alt unat_eq_0 [symmetric])
  then have "max (n + 1000000) 1 = n + 1000000"
    by (simp add: max_ge_one)
  moreover have "length ?page' \<ge> 8"
    using len by simp
  ultimately have "txid_recover ?page' = Some \<lparr>counter = n + 1000000\<rparr>"
    using nz by (simp add: txid_recover_def read add txid_with_start_def Let_def txid_consts)
  then show ?thesis
    using nz val by (simp add: txid_peek_next_def txid_consts)
qed

text \<open>Recovery moves past every id issued before the crash: an allocator persisted
  to a page and recovered from it hands out only ids above every id the persisted
  allocator had issued, with a gap of \<open>RECOVERY_BUMP\<close>, unless the counter is within
  \<open>RECOVERY_BUMP\<close> of the end of the 64-bit range.\<close>

theorem txid_recover_after_persist:
  assumes "txid_persist a page = Some page'"
    and "unat (counter a) + 1000000 < 2 ^ 64"
  shows "\<exists>a'. txid_recover page' = Some a' \<and> unat (txid_peek_next a') = unat (counter a) + 1000000"
proof -
  have "8 \<le> length page" and "page' = splice page 0 (to_le_bytes (counter a))"
    using assms(1) by (auto simp: txid_persist_def txid_consts split: if_splits)
  with txid_recover_persisted_bytes assms(2) show ?thesis by blast
qed

theorem txid_recover_after_persist_witness:
  "\<exists>a'. txid_recover (splice (replicate 16 0) 0 (to_le_bytes (7 :: u64))) = Some a'
        \<and> unat (txid_peek_next a') = 1000007"
proof -
  have "txid_persist \<lparr>counter = 7\<rparr> (replicate 16 0) = Some (splice (replicate 16 0) 0 (to_le_bytes (7 :: u64)))"
    by (simp add: txid_persist_def PERSIST_OFFSET_def)
  from txid_recover_after_persist [OF this] show ?thesis by simp
qed

end
