(* ===== verification/Mvcc.thy ===== *)
theory Mvcc
  imports Txid
begin

text \<open>
  The MVCC tuple header of \<open>src/src/txn/mvcc.rs\<close>: sixteen bytes in front of every
  versioned record. The 64-bit transaction ids of the in-memory system are stored
  truncated to 32 bits (\<open>as u32\<close>) and zero-extended on load. \<open>#[repr(C)]\<close> copies are
  the little-endian field bytes in declaration order, as on the supported targets.
\<close>

section \<open>Definitions\<close>

definition TUPLE_TXID_INVALID :: u32 where
  "TUPLE_TXID_INVALID = 0"

definition XMIN_COMMITTED :: u16 where "XMIN_COMMITTED = 0x0001"
definition XMIN_ABORTED :: u16 where "XMIN_ABORTED = 0x0002"
definition XMAX_COMMITTED :: u16 where "XMAX_COMMITTED = 0x0004"
definition XMAX_ABORTED :: u16 where "XMAX_ABORTED = 0x0008"
definition HAS_NEXT_VERSION :: u16 where "HAS_NEXT_VERSION = 0x0010"
definition IS_UPDATED :: u16 where "IS_UPDATED = 0x0020"

lemmas infomask_defs = XMIN_COMMITTED_def XMIN_ABORTED_def XMAX_COMMITTED_def XMAX_ABORTED_def
  HAS_NEXT_VERSION_def IS_UPDATED_def

record tuple_header =
  th_xmin :: u32
  th_xmax :: u32
  th_cid :: u16
  th_infomask :: u16
  th_next_version_ptr :: u32

definition TUPLE_HEADER_SIZE :: nat where
  "TUPLE_HEADER_SIZE = 16"

definition th_new_insert :: "txid \<Rightarrow> u16 \<Rightarrow> tuple_header" where
  "th_new_insert xmin cid =
     \<lparr>th_xmin = ucast xmin, th_xmax = TUPLE_TXID_INVALID, th_cid = cid, th_infomask = 0,
      th_next_version_ptr = 0\<rparr>"

definition th_is_live :: "tuple_header \<Rightarrow> bool" where
  "th_is_live h \<longleftrightarrow> th_xmax h = TUPLE_TXID_INVALID"

definition th_is_deleted :: "tuple_header \<Rightarrow> bool" where
  "th_is_deleted h \<longleftrightarrow> th_xmax h \<noteq> TUPLE_TXID_INVALID"

definition th_mark_deleted :: "tuple_header \<Rightarrow> txid \<Rightarrow> tuple_header" where
  "th_mark_deleted h xmax = h\<lparr>th_xmax := ucast xmax\<rparr>"

definition th_xmin_txid :: "tuple_header \<Rightarrow> txid" where
  "th_xmin_txid h = ucast (th_xmin h)"

definition th_xmax_txid :: "tuple_header \<Rightarrow> txid" where
  "th_xmax_txid h = ucast (th_xmax h)"

definition th_set_flag :: "tuple_header \<Rightarrow> u16 \<Rightarrow> tuple_header" where
  "th_set_flag h flag = h\<lparr>th_infomask := th_infomask h OR flag\<rparr>"

definition th_clear_flag :: "tuple_header \<Rightarrow> u16 \<Rightarrow> tuple_header" where
  "th_clear_flag h flag = h\<lparr>th_infomask := th_infomask h AND NOT flag\<rparr>"

definition th_has_flag :: "tuple_header \<Rightarrow> u16 \<Rightarrow> bool" where
  "th_has_flag h flag \<longleftrightarrow> th_infomask h AND flag \<noteq> 0"

text \<open>The bytes \<open>copy_nonoverlapping\<close> copies out of the struct.\<close>

definition th_bytes :: "tuple_header \<Rightarrow> bytes" where
  "th_bytes h =
     to_le_bytes (th_xmin h) @ to_le_bytes (th_xmax h) @ to_le_bytes (th_cid h) @
     to_le_bytes (th_infomask h) @ to_le_bytes (th_next_version_ptr h)"

text \<open>\<open>encode\<close> panics (\<open>None\<close>) unless the output buffer has the header's size.\<close>

definition th_encode :: "tuple_header \<Rightarrow> bytes \<Rightarrow> bytes option" where
  "th_encode h out = (if length out \<noteq> TUPLE_HEADER_SIZE then None else Some (th_bytes h))"

definition th_decode :: "bytes \<Rightarrow> tuple_header option" where
  "th_decode bs =
     (if length bs < TUPLE_HEADER_SIZE then None
      else Some \<lparr>th_xmin = from_le_bytes (slice bs 0 4), th_xmax = from_le_bytes (slice bs 4 4),
                 th_cid = from_le_bytes (slice bs 8 2), th_infomask = from_le_bytes (slice bs 10 2),
                 th_next_version_ptr = from_le_bytes (slice bs 12 4)\<rparr>)"

section \<open>The on-disk format\<close>

lemma length_th_bytes [simp]: "length (th_bytes h) = TUPLE_HEADER_SIZE"
  by (simp add: th_bytes_def TUPLE_HEADER_SIZE_def)

lemma th_decode_bytes: "th_decode (th_bytes h @ rest) = Some h"
  by (simp add: th_decode_def th_bytes_def TUPLE_HEADER_SIZE_def slice_def)

interpretation header: codec th_bytes th_decode "\<lambda>_. True"
  by unfold_locales (rule th_decode_bytes)

text \<open>Header round trip: encoding any header into a buffer of the header's size
  succeeds, and decoding the buffer, with any record bytes behind it, gives exactly the
  same header; encoding into a buffer of another size panics, and a shorter buffer does
  not decode.\<close>

theorem th_round_trip:
  "(length out = 16 \<longrightarrow>
      (\<exists>bs. th_encode h out = Some bs \<and> length bs = 16 \<and> th_decode (bs @ rest) = Some h))
   \<and> (length out \<noteq> 16 \<longrightarrow> th_encode h out = None)
   \<and> (length short < 16 \<longrightarrow> th_decode short = None)"
proof -
  have "length out = 16 \<Longrightarrow> th_encode h out = Some (th_bytes h) \<and> length (th_bytes h) = 16"
    by (simp add: th_encode_def TUPLE_HEADER_SIZE_def)
  moreover have "length short < 16 \<Longrightarrow> th_decode short = None"
    by (simp add: th_decode_def TUPLE_HEADER_SIZE_def)
  moreover have "length out \<noteq> 16 \<Longrightarrow> th_encode h out = None"
    by (simp add: th_encode_def TUPLE_HEADER_SIZE_def)
  ultimately show ?thesis
    using th_decode_bytes by blast
qed

theorem th_round_trip_witness:
  "(\<exists>bs. th_encode (th_new_insert 7 3) (replicate 16 0) = Some bs \<and>
         th_decode (bs @ [1, 2]) = Some (th_new_insert 7 3))
   \<and> th_encode (th_new_insert 7 3) [] = None \<and> th_decode [] = None"
  using th_round_trip [of "replicate 16 0" "th_new_insert 7 3" "[1, 2]" "[]"]
    th_round_trip [of "[]" "th_new_insert 7 3" "[]" "[]"]
  by auto

section \<open>Flags and deletion marks\<close>

lemma word_and_bit_iff: "(x :: u16) AND flag \<noteq> 0 \<longleftrightarrow> (\<exists>i. bit x i \<and> bit flag i)"
  using bit_imp_le_length [of x] by (fastforce simp: bit_eq_iff bit_simps)

lemmas flag_defs = th_has_flag_def th_set_flag_def th_clear_flag_def word_and_bit_iff bit_simps

text \<open>The infomask is a set of independent flags: setting a flag makes it tested,
  clearing it makes it untested, and neither changes the answer for a flag that shares
  no bit with it.\<close>

theorem th_flags:
  "(flag \<noteq> 0 \<longrightarrow> th_has_flag (th_set_flag h flag) flag)
   \<and> \<not> th_has_flag (th_clear_flag h flag) flag
   \<and> (flag AND other = 0 \<longrightarrow>
        th_has_flag (th_set_flag h flag) other = th_has_flag h other
      \<and> th_has_flag (th_clear_flag h flag) other = th_has_flag h other)"
proof -
  have "flag \<noteq> 0 \<Longrightarrow> \<exists>i. bit flag i"
    by (auto simp: bit_eq_iff)
  then have "flag \<noteq> 0 \<Longrightarrow> th_has_flag (th_set_flag h flag) flag"
    by (auto simp: flag_defs)
  moreover have "\<not> th_has_flag (th_clear_flag h flag) flag"
    by (auto simp: flag_defs)
  moreover have "th_has_flag (th_set_flag h flag) other = th_has_flag h other
      \<and> th_has_flag (th_clear_flag h flag) other = th_has_flag h other"
    if "flag AND other = 0"
  proof -
    have "\<not> (bit flag i \<and> bit other i)" for i
      using that word_and_bit_iff [of flag other] by auto
    then show ?thesis
      using bit_imp_le_length [of other] by (fastforce simp: flag_defs)
  qed
  ultimately show ?thesis by blast
qed

theorem th_flags_witness:
  "th_has_flag (th_set_flag (th_new_insert 7 0) XMIN_COMMITTED) XMIN_COMMITTED
   \<and> \<not> th_has_flag (th_set_flag (th_new_insert 7 0) XMIN_COMMITTED) XMAX_COMMITTED
   \<and> \<not> th_has_flag (th_clear_flag (th_new_insert 7 0) XMIN_COMMITTED) XMAX_COMMITTED"
proof -
  have "XMIN_COMMITTED AND XMAX_COMMITTED = 0" "XMIN_COMMITTED \<noteq> 0"
    by (simp_all add: infomask_defs)
  moreover have "\<not> th_has_flag (th_new_insert 7 0) XMAX_COMMITTED"
    by (simp add: th_has_flag_def th_new_insert_def)
  ultimately show ?thesis
    using th_flags [of XMIN_COMMITTED "th_new_insert 7 0" XMAX_COMMITTED] by simp
qed

lemma unat_ucast_32: "unat (ucast (t :: u64) :: u32) = unat t mod 2 ^ 32"
  by (simp add: unsigned_ucast_eq take_bit_eq_mod)

lemma unat_ucast_64: "unat (ucast (t :: u32) :: u64) = unat t"
  by (simp add: unsigned_ucast_eq take_bit_eq_mod order_less_trans [OF unsigned_less])

lemma ucast_32_64: "unat t < 2 ^ 32 \<Longrightarrow> ucast (ucast (t :: u64) :: u32) = t"
  by (simp add: word_unat_eq_iff unat_ucast_64 unat_ucast_32)

text \<open>What truncation to 32 bits does to the header: for ids below \<open>2^32\<close> the
  header gives back the creating and deleting transaction exactly and a marked version
  is deleted, while marking a version with an id that is a multiple of \<open>2^32\<close>, which is a
  valid 64-bit id, leaves the version live.\<close>

theorem th_truncation:
  "(unat t < 2 ^ 32 \<longrightarrow> th_xmin_txid (th_new_insert t c) = t
      \<and> th_xmax_txid (th_mark_deleted h t) = t
      \<and> th_is_deleted (th_mark_deleted h t) = (t \<noteq> TX_ID_INVALID))
   \<and> (unat t mod 2 ^ 32 = 0 \<longrightarrow> th_is_live (th_mark_deleted h t))"
proof -
  have "th_xmin_txid (th_new_insert t c) = t \<and> th_xmax_txid (th_mark_deleted h t) = t
      \<and> th_is_deleted (th_mark_deleted h t) = (t \<noteq> TX_ID_INVALID)"
    if "unat t < 2 ^ 32"
  proof -
    note tr = ucast_32_64 [OF that]
    then have "(ucast t :: u32) = 0 \<longleftrightarrow> t = 0"
      by auto
    with tr show ?thesis
      by (simp add: th_xmin_txid_def th_xmax_txid_def th_new_insert_def th_mark_deleted_def
          th_is_deleted_def TUPLE_TXID_INVALID_def TX_ID_INVALID_def)
  qed
  moreover have "th_is_live (th_mark_deleted h t)" if "unat t mod 2 ^ 32 = 0"
    using that unat_ucast_32 [of t]
    by (simp add: th_is_live_def th_mark_deleted_def TUPLE_TXID_INVALID_def unat_eq_0)
  ultimately show ?thesis by blast
qed

theorem th_truncation_witness:
  "th_xmin_txid (th_new_insert 9 0) = 9
   \<and> th_is_deleted (th_mark_deleted (th_new_insert 9 0) 9)
   \<and> th_is_live (th_mark_deleted (th_new_insert 9 0) 0x100000000)"
  using th_truncation [of 9 0 "th_new_insert 9 0"]
    th_truncation [of "0x100000000" 0 "th_new_insert 9 0"]
  by (simp add: TX_ID_INVALID_def)

end
