(* ===== verification/Snapshot.thy ===== *)
theory Snapshot
  imports Txid
begin

text \<open>
  The snapshot of \<open>src/src/txn/snapshot.rs\<close> and its tuple-visibility evaluator. The
  abort registry is shared and mutable (\<open>Arc<Mutex<HashSet>>\<close>): a snapshot only records
  whether a registry is attached, and every query takes the registry's contents at the
  time of the query.
\<close>

section \<open>Definitions\<close>

record snapshot =
  sn_xmin :: txid
  sn_xmax :: txid
  sn_active :: "txid list"
  sn_owner_txid :: txid
  sn_aborted :: bool

definition snapshot_new :: "txid \<Rightarrow> txid \<Rightarrow> txid list \<Rightarrow> txid \<Rightarrow> snapshot" where
  "snapshot_new xmin xmax active owner_txid =
     \<lparr>sn_xmin = xmin, sn_xmax = xmax, sn_active = sort active, sn_owner_txid = owner_txid,
      sn_aborted = False\<rparr>"

definition with_aborted :: "snapshot \<Rightarrow> snapshot" where
  "with_aborted sn = sn\<lparr>sn_aborted := True\<rparr>"

definition sn_is_aborted :: "txid set \<Rightarrow> snapshot \<Rightarrow> txid \<Rightarrow> bool" where
  "sn_is_aborted registry sn t \<longleftrightarrow> sn_aborted sn \<and> t \<in> registry"

definition sn_is_active :: "snapshot \<Rightarrow> txid \<Rightarrow> bool" where
  "sn_is_active sn t \<longleftrightarrow> binary_search (sn_active sn) t \<noteq> None"

definition txid_committed_before_snapshot :: "txid set \<Rightarrow> snapshot \<Rightarrow> txid \<Rightarrow> bool \<Rightarrow> bool" where
  "txid_committed_before_snapshot registry sn t committed_hint =
     (if t = TX_ID_INVALID then False
      else if sn_is_aborted registry sn t then False
      else if committed_hint then True
      else if t < sn_xmin sn then True
      else if t \<ge> sn_xmax sn then False
      else \<not> sn_is_active sn t)"

definition is_visible :: "txid set \<Rightarrow> snapshot \<Rightarrow> txid \<Rightarrow> txid \<Rightarrow> bool \<Rightarrow> bool \<Rightarrow> bool" where
  "is_visible registry sn xmin_tuple xmax_tuple xmin_committed xmax_committed =
     (let xmin_visible = txid_committed_before_snapshot registry sn xmin_tuple xmin_committed in
      if \<not> xmin_visible \<and> xmin_tuple \<noteq> sn_owner_txid sn then False
      else if xmax_tuple = TX_ID_INVALID then True
      else if xmax_tuple = sn_owner_txid sn then False
      else \<not> txid_committed_before_snapshot registry sn xmax_tuple xmax_committed)"

section \<open>The active list\<close>

definition sn_wf :: "snapshot \<Rightarrow> bool" where
  "sn_wf sn \<longleftrightarrow> sorted (sn_active sn)"

lemma sn_wf_new [simp]: "sn_wf (snapshot_new xmin xmax active owner)"
  by (simp add: sn_wf_def snapshot_new_def)

lemma sn_wf_with_aborted [simp]: "sn_wf (with_aborted sn) = sn_wf sn"
  by (simp add: sn_wf_def with_aborted_def)

lemma sn_is_active_iff: "sn_wf sn \<Longrightarrow> sn_is_active sn t \<longleftrightarrow> t \<in> set (sn_active sn)"
  by (simp add: sn_is_active_def sn_wf_def binary_search_iff del: not_None_eq)

section \<open>Visibility\<close>

text \<open>
  The rule of the module documentation, over a set \<open>C\<close> of transactions that committed
  before the snapshot: the creator is in \<open>C\<close> or is the owner, and the deleter is absent
  or is neither in \<open>C\<close> nor the owner.
\<close>

definition visible_spec :: "txid set \<Rightarrow> txid \<Rightarrow> txid \<Rightarrow> txid \<Rightarrow> bool" where
  "visible_spec C owner xmin_tuple xmax_tuple \<longleftrightarrow>
     (xmin_tuple \<in> C \<or> xmin_tuple = owner) \<and>
     (xmax_tuple = TX_ID_INVALID \<or> (xmax_tuple \<noteq> owner \<and> xmax_tuple \<notin> C))"


lemma is_visible_no_hints:
  assumes "\<And>t. txid_committed_before_snapshot registry sn t False \<longleftrightarrow> t \<in> C"
  shows "is_visible registry sn a b False False = visible_spec C (sn_owner_txid sn) a b"
  by (auto simp: is_visible_def visible_spec_def Let_def assms)

text \<open>A committed hint overrides the snapshot: with the creator's infomask hint set
  and the creator not in the abort registry, a live version is visible even when its
  creator got its id after the snapshot was taken or was still running at that time.\<close>

theorem committed_hint_overrides_snapshot:
  assumes "t \<noteq> TX_ID_INVALID" "t \<notin> registry" "t \<ge> sn_xmax sn \<or> sn_is_active sn t"
  shows "is_visible registry sn t TX_ID_INVALID True dh"
  using assms by (simp add: is_visible_def txid_committed_before_snapshot_def sn_is_aborted_def)

theorem committed_hint_overrides_snapshot_witness:
  "is_visible {} (snapshot_new 2 5 [2, 3] 4) 9 TX_ID_INVALID True False
   \<and> \<not> is_visible {} (snapshot_new 2 5 [2, 3] 4) 9 TX_ID_INVALID False False"
proof -
  have "is_visible {} (snapshot_new 2 5 [2, 3] 4) 9 TX_ID_INVALID True False"
    by (rule committed_hint_overrides_snapshot) (simp_all add: snapshot_new_def TX_ID_INVALID_def)
  then show ?thesis
    by (simp add: is_visible_def txid_committed_before_snapshot_def sn_is_aborted_def
        snapshot_new_def TX_ID_INVALID_def)
qed

end
