(* ===== verification/TxState.thy ===== *)
theory TxState
  imports Snapshot
begin

text \<open>
  The global transaction state of \<open>src/src/txn/state.rs\<close>. The \<open>BTreeSet\<close> of active ids
  is the strictly ascending list its iterator yields. Every method runs under the
  \<open>inner\<close> mutex except for the last part of \<open>remove_active\<close>, which drops the guard and
  then raises \<open>global_xmin\<close>: that gap is kept, as a pending raise, in the step relation
  \<open>tx_step\<close> below, so that the invariants hold for every interleaving of threads.
\<close>

section \<open>Definitions\<close>

record tx_state =
  gs_xmin :: txid
  gs_xmax :: txid
  gs_active :: "txid list"
  gs_allocator :: txid_allocator
  gs_aborted :: "txid set"

definition tx_state_with :: "txid_allocator \<Rightarrow> tx_state" where
  "tx_state_with allocator =
     (let xmax = txid_peek_next allocator in
      \<lparr>gs_xmin = xmax, gs_xmax = xmax, gs_active = [], gs_allocator = allocator, gs_aborted = {}\<rparr>)"

definition tx_state_new :: tx_state where
  "tx_state_new = tx_state_with txid_new"

definition tx_state_recover :: "bytes \<Rightarrow> tx_state option" where
  "tx_state_recover system_page = map_option tx_state_with (txid_recover system_page)"

text \<open>\<open>iter().next().copied()\<close> on the ordered set, with the caller's default.\<close>

definition first_active :: "txid list \<Rightarrow> txid \<Rightarrow> txid" where
  "first_active active dflt = (case active of [] \<Rightarrow> dflt | t # _ \<Rightarrow> t)"

definition begin_tx :: "tx_state \<Rightarrow> txid \<times> snapshot \<times> tx_state" where
  "begin_tx s =
     (let (t, allocator') = txid_allocate (gs_allocator s);
          xmax = txid_peek_next allocator';
          xmin = first_active (gs_active s) t;
          active_snapshot = gs_active s;
          s' = s\<lparr>gs_allocator := allocator', gs_active := insort_insert t (gs_active s),
                 gs_xmax := xmax, gs_xmin := min xmin t\<rparr>
      in (t, with_aborted (snapshot_new xmin xmax active_snapshot t), s'))"

text \<open>\<open>remove_active\<close> up to the drop of the guard, with the candidate it computed.\<close>

definition remove_active_locked :: "tx_state \<Rightarrow> txid \<Rightarrow> tx_state \<times> txid" where
  "remove_active_locked s t =
     (let active' = remove1 t (gs_active s) in
      (s\<lparr>gs_active := active'\<rparr>, first_active active' (gs_xmax s)))"

text \<open>The compare-exchange loop takes effect at its successful exchange: an atomic raise.\<close>

definition advance_xmin :: "tx_state \<Rightarrow> txid \<Rightarrow> tx_state" where
  "advance_xmin s candidate =
     (if candidate \<le> gs_xmin s then s else s\<lparr>gs_xmin := candidate\<rparr>)"

definition remove_active :: "tx_state \<Rightarrow> txid \<Rightarrow> tx_state" where
  "remove_active s t = (let (s', new_xmin) = remove_active_locked s t in advance_xmin s' new_xmin)"

definition commit_tx :: "tx_state \<Rightarrow> txid \<Rightarrow> tx_state" where
  "commit_tx s t = remove_active s t"

definition log_abort :: "tx_state \<Rightarrow> txid \<Rightarrow> tx_state" where
  "log_abort s t = s\<lparr>gs_aborted := insert t (gs_aborted s)\<rparr>"

definition abort_tx :: "tx_state \<Rightarrow> txid \<Rightarrow> tx_state" where
  "abort_tx s t = remove_active (log_abort s t) t"

definition active_snapshot :: "tx_state \<Rightarrow> snapshot" where
  "active_snapshot s =
     (let xmax = txid_peek_next (gs_allocator s);
          xmin = first_active (gs_active s) xmax
      in with_aborted (snapshot_new xmin xmax (gs_active s) TX_ID_INVALID))"

definition persist_txid_counter :: "tx_state \<Rightarrow> bytes \<Rightarrow> bytes option" where
  "persist_txid_counter s page = txid_persist (gs_allocator s) page"

section \<open>Interleaved executions\<close>

text \<open>
  Beside the program's state a configuration records what the theorems speak of: the
  transactions that have committed, the raises of \<open>global_xmin\<close> computed but not yet
  performed by some thread, and every snapshot handed out, with the set of transactions
  that had committed when it was taken.
\<close>

record tx_config =
  cf_state :: tx_state
  cf_committed :: "txid set"
  cf_pending :: "txid list"
  cf_issued :: "(snapshot \<times> txid set) list"

definition tx_config_init :: tx_config where
  "tx_config_init = \<lparr>cf_state = tx_state_new, cf_committed = {}, cf_pending = [], cf_issued = []\<rparr>"

definition cf_begin :: "tx_config \<Rightarrow> tx_config" where
  "cf_begin c = (case begin_tx (cf_state c) of (t, sn, s') \<Rightarrow>
     c\<lparr>cf_state := s', cf_issued := (sn, cf_committed c) # cf_issued c\<rparr>)"

definition cf_remove :: "txid \<Rightarrow> tx_config \<Rightarrow> tx_config" where
  "cf_remove t c = (case remove_active_locked (cf_state c) t of (s', candidate) \<Rightarrow>
     c\<lparr>cf_state := s', cf_pending := candidate # cf_pending c\<rparr>)"

definition cf_next :: "tx_config \<Rightarrow> txid" where
  "cf_next c = txid_peek_next (gs_allocator (cf_state c))"

inductive tx_step :: "tx_config \<Rightarrow> tx_config \<Rightarrow> bool" where
  step_begin: "cf_next c \<noteq> - 1 \<Longrightarrow> tx_step c (cf_begin c)"
| step_commit: "t \<in> set (gs_active (cf_state c)) \<Longrightarrow> t \<notin> gs_aborted (cf_state c) \<Longrightarrow>
     tx_step c ((cf_remove t c)\<lparr>cf_committed := insert t (cf_committed c)\<rparr>)"
| step_log_abort: "t \<in> set (gs_active (cf_state c)) \<Longrightarrow>
     tx_step c (c\<lparr>cf_state := log_abort (cf_state c) t\<rparr>)"
| step_abort: "t \<in> set (gs_active (cf_state c)) \<Longrightarrow> t \<in> gs_aborted (cf_state c) \<Longrightarrow>
     tx_step c (cf_remove t c)"
| step_advance: "m \<in> set (cf_pending c) \<Longrightarrow>
     tx_step c (c\<lparr>cf_state := advance_xmin (cf_state c) m, cf_pending := remove1 m (cf_pending c)\<rparr>)"

inductive tx_reachable :: "tx_config \<Rightarrow> bool" where
  reach_init: "tx_reachable tx_config_init"
| reach_step: "tx_reachable c \<Longrightarrow> tx_step c d \<Longrightarrow> tx_reachable d"

section \<open>The invariant\<close>

text \<open>Every id below the next one is active, committed or aborted; the horizon and every
  pending raise lie at or below every active id.\<close>

definition ids_ok :: "tx_config \<Rightarrow> bool" where
  "ids_ok c \<longleftrightarrow>
     (let s = cf_state c; A = set (gs_active s) in
      sorted (gs_active s) \<and> distinct (gs_active s) \<and>
      gs_xmax s = cf_next c \<and>
      A \<union> cf_committed c \<union> gs_aborted s = {t. 0 < t \<and> t < cf_next c} \<and>
      cf_committed c \<inter> A = {} \<and> cf_committed c \<inter> gs_aborted s = {})"

definition horizon_ok :: "tx_config \<Rightarrow> bool" where
  "horizon_ok c \<longleftrightarrow>
     (\<forall>m \<in> insert (gs_xmin (cf_state c)) (set (cf_pending c)).
        m \<le> cf_next c \<and> (\<forall>t \<in> set (gs_active (cf_state c)). m \<le> t))"

text \<open>What a snapshot knows: apart from its owner, the ids it takes for committed are
  those of the set recorded with it.\<close>

definition issued_ok :: "tx_config \<Rightarrow> snapshot \<times> txid set \<Rightarrow> bool" where
  "issued_ok c = (\<lambda>(sn, C).
     sn_wf sn \<and> sn_aborted sn \<and> C \<subseteq> cf_committed c \<and> sn_owner_txid sn \<noteq> 0 \<and> sn_owner_txid sn \<notin> C \<and>
     (\<forall>t. t \<noteq> 0 \<longrightarrow> t \<noteq> sn_owner_txid sn \<longrightarrow>
        (t \<in> C) = (t \<notin> gs_aborted (cf_state c) \<and>
                   (t < sn_xmin sn \<or> (t < sn_xmax sn \<and> t \<notin> set (sn_active sn))))))"

definition tx_inv :: "tx_config \<Rightarrow> bool" where
  "tx_inv c \<longleftrightarrow> ids_ok c \<and> horizon_ok c \<and> (\<forall>p \<in> set (cf_issued c). issued_ok c p)"

lemmas tx_cf_simps = cf_next_def cf_remove_def remove_active_locked_def log_abort_def
  advance_xmin_def Let_def

lemma ids_okD:
  assumes "ids_ok c"
  shows "sorted (gs_active (cf_state c))" "distinct (gs_active (cf_state c))"
    "gs_xmax (cf_state c) = cf_next c"
    "set (gs_active (cf_state c)) \<union> cf_committed c \<union> gs_aborted (cf_state c) = {t. 0 < t \<and> t < cf_next c}"
    "cf_committed c \<inter> set (gs_active (cf_state c)) = {}"
    "cf_committed c \<inter> gs_aborted (cf_state c) = {}"
  using assms by (auto simp: ids_ok_def Let_def)

lemma ids_ok_active:
  "ids_ok c \<Longrightarrow> t \<in> set (gs_active (cf_state c)) \<Longrightarrow> 0 < t \<and> t < cf_next c \<and> t \<notin> cf_committed c"
  using ids_okD(4,5) by blast

lemma first_active_le:
  "sorted xs \<Longrightarrow> t \<in> set xs \<Longrightarrow> first_active xs d \<le> t"
  by (cases xs) (auto simp: first_active_def)

lemma first_active_le_next: "ids_ok c \<Longrightarrow> first_active (gs_active (cf_state c)) (cf_next c) \<le> cf_next c"
  by (cases "gs_active (cf_state c)") (auto simp: first_active_def dest!: ids_ok_active less_imp_le)

lemma first_active_mem: "xs \<noteq> [] \<Longrightarrow> first_active xs d \<in> set xs"
  by (cases xs) (auto simp: first_active_def)

lemma tx_inv_init: "tx_inv tx_config_init"
  by (simp add: tx_inv_def ids_ok_def horizon_ok_def tx_config_init_def tx_state_new_def
      tx_state_with_def cf_next_def txid_peek_next_def txid_new_def txid_consts Let_def)

section \<open>Every step keeps the invariant\<close>

lemma begin_tx_eq:
  assumes "txid_peek_next (gs_allocator s) = n" and "n \<noteq> - 1"
  shows "begin_tx s =
    (n, with_aborted (snapshot_new (first_active (gs_active s) n) (n + 1) (gs_active s) n),
     s\<lparr>gs_allocator := snd (txid_allocate (gs_allocator s)), gs_active := insort_insert n (gs_active s),
       gs_xmax := n + 1, gs_xmin := min (first_active (gs_active s) n) n\<rparr>)"
  using assms alloc.next_step [of "gs_allocator s"] alloc.draw_next [of "gs_allocator s"]
  by (simp add: begin_tx_def case_prod_unfold Let_def)

lemma less_succ_iff:
  fixes n :: u64
  assumes "n \<noteq> - 1"
  shows "t < n + 1 \<longleftrightarrow> t < n \<or> t = n" and "n < n + 1"
proof -
  have "n + 1 \<noteq> 0"
    using assms by (metis add_eq_0_iff2)
  then have "unat (n + 1) = Suc (unat n)"
    by (simp add: unatSuc add.commute)
  then show "t < n + 1 \<longleftrightarrow> t < n \<or> t = n" and "n < n + 1"
    by (auto simp: word_less_nat_alt word_unat_eq_iff)
qed

lemma cf_begin_ids:
  assumes "ids_ok c" "cf_next c \<noteq> - 1"
  shows "ids_ok (cf_begin c)" and "cf_next (cf_begin c) = cf_next c + 1"
proof -
  let ?n = "cf_next c" and ?s = "cf_state c"
  note d = ids_okD [OF assms(1)]
  have n0: "0 < ?n"
    using txid_peek_next_nonzero by (simp add: cf_next_def TX_ID_INVALID_def word_gt_0)
  have out: "?n \<notin> set (gs_active ?s) \<union> cf_committed c \<union> gs_aborted ?s"
    using d(4) by simp
  show next': "cf_next (cf_begin c) = ?n + 1"
    using alloc.next_step [of "gs_allocator ?s"] assms(2)
    by (simp add: cf_begin_def begin_tx_eq [OF refl] cf_next_def)
  have st: "cf_state (cf_begin c) =
      ?s\<lparr>gs_allocator := snd (txid_allocate (gs_allocator ?s)), gs_active := insort_insert ?n (gs_active ?s),
         gs_xmax := ?n + 1, gs_xmin := min (first_active (gs_active ?s) ?n) ?n\<rparr>"
    and com: "cf_committed (cf_begin c) = cf_committed c"
    using assms(2) by (simp_all add: cf_begin_def begin_tx_eq [OF refl] cf_next_def)
  have "insert ?n {t. 0 < t \<and> t < ?n} = {t. 0 < t \<and> t < ?n + 1}"
    using less_succ_iff [OF assms(2)] n0 by auto
  then show "ids_ok (cf_begin c)"
    using d out by (auto simp: ids_ok_def Let_def st com next' set_insort_insert
        sorted_insort_insert distinct_insort_insert)
qed

lemma cf_begin_horizon:
  assumes "ids_ok c" "horizon_ok c" "cf_next c \<noteq> - 1"
  shows "horizon_ok (cf_begin c)" and "gs_xmin (cf_state c) \<le> gs_xmin (cf_state (cf_begin c))"
proof -
  let ?n = "cf_next c" and ?act = "gs_active (cf_state c)"
  let ?f = "first_active ?act ?n"
  note d = ids_okD [OF assms(1)]
  have st: "gs_xmin (cf_state (cf_begin c)) = min ?f ?n"
    "gs_active (cf_state (cf_begin c)) = insort_insert ?n ?act" "cf_pending (cf_begin c) = cf_pending c"
    using assms(3) by (simp_all add: cf_begin_def begin_tx_eq [OF refl] cf_next_def)
  have n: "?n < ?n + 1"
    by (rule less_succ_iff [OF assms(3)])
  have f: "?f \<le> t" if "t \<in> set ?act" for t
    using first_active_le [OF d(1) that] .
  show "horizon_ok (cf_begin c)"
    using assms(2) n f
    by (fastforce simp: horizon_ok_def st cf_begin_ids [OF assms(1,3)] set_insort_insert min_le_iff_disj)
  have "gs_xmin (cf_state c) \<le> ?f"
    using assms(2) first_active_mem [of ?act ?n]
    by (cases "?act = []") (auto simp: horizon_ok_def first_active_def)
  moreover have "gs_xmin (cf_state c) \<le> ?n"
    using assms(2) by (simp add: horizon_ok_def)
  ultimately show "gs_xmin (cf_state c) \<le> gs_xmin (cf_state (cf_begin c))"
    by (simp add: st)
qed

lemma cf_begin_issued:
  assumes "ids_ok c" "\<forall>p \<in> set (cf_issued c). issued_ok c p" "cf_next c \<noteq> - 1"
  shows "\<forall>p \<in> set (cf_issued (cf_begin c)). issued_ok (cf_begin c) p"
proof -
  let ?n = "cf_next c" and ?act = "gs_active (cf_state c)"
  define sn where "sn = with_aborted (snapshot_new (first_active ?act ?n) (?n + 1) ?act ?n)"
  note d = ids_okD [OF assms(1)]
  have eq: "cf_issued (cf_begin c) = (sn, cf_committed c) # cf_issued c"
    "cf_committed (cf_begin c) = cf_committed c"
    "gs_aborted (cf_state (cf_begin c)) = gs_aborted (cf_state c)"
    using assms(3) by (simp_all add: cf_begin_def begin_tx_eq [OF refl] cf_next_def sn_def)
  have sn: "sn_wf sn" "sn_aborted sn" "sn_owner_txid sn = ?n" "sn_xmin sn = first_active ?act ?n"
    "sn_xmax sn = ?n + 1" "set (sn_active sn) = set ?act"
    by (simp_all add: sn_def) (simp_all add: with_aborted_def snapshot_new_def)
  have n0: "0 < ?n"
    using txid_peek_next_nonzero by (simp add: cf_next_def TX_ID_INVALID_def word_gt_0)
  have nC: "?n \<notin> cf_committed c"
    using d(4) by auto
  have "(t \<in> cf_committed c) = (t \<notin> gs_aborted (cf_state c) \<and>
      (t < first_active ?act ?n \<or> (t < ?n + 1 \<and> t \<notin> set ?act)))"
    if "t \<noteq> 0" "t \<noteq> ?n" for t
  proof -
    have below: "t < first_active ?act ?n \<Longrightarrow> t < ?n \<and> t \<notin> set ?act"
      using first_active_le [OF d(1), of t ?n] first_active_le_next [OF assms(1)] by auto
    have "t < ?n + 1 \<longleftrightarrow> t < ?n"
      using less_succ_iff [OF assms(3)] that by auto
    moreover have "t < ?n \<longleftrightarrow> t \<in> set ?act \<or> t \<in> cf_committed c \<or> t \<in> gs_aborted (cf_state c)"
      using d(4) that(1) by (auto simp: word_gt_0)
    ultimately show ?thesis
      using below d(5,6) by auto
  qed
  then have "issued_ok (cf_begin c) (sn, cf_committed c)"
    using sn n0 nC by (auto simp: issued_ok_def eq)
  moreover have "\<forall>p \<in> set (cf_issued c). issued_ok (cf_begin c) p"
    using assms(2) by (auto simp: issued_ok_def eq)
  ultimately show ?thesis
    by (simp add: eq)
qed

text \<open>Removing an active id, committed or logged as aborted.\<close>

lemma cf_remove_horizon:
  assumes "ids_ok c" "horizon_ok c"
  shows "horizon_ok ((cf_remove t c)\<lparr>cf_committed := C\<rparr>)"
proof -
  let ?act' = "remove1 t (gs_active (cf_state c))"
  note d = ids_okD [OF assms(1)]
  have sub: "set ?act' \<subseteq> set (gs_active (cf_state c))"
    by (rule set_remove1_subset)
  have "sorted ?act'"
    using d(1) by (rule sorted_remove1)
  then have "first_active ?act' (cf_next c) \<le> u" if "u \<in> set ?act'" for u
    using that by (rule first_active_le)
  moreover have "first_active ?act' (cf_next c) \<le> cf_next c"
    using first_active_mem [of ?act' "cf_next c"] sub ids_ok_active [OF assms(1)]
    by (cases "?act' = []") (auto simp: first_active_def less_imp_le)
  ultimately show ?thesis
    using assms(2) sub d(3) by (auto simp: horizon_ok_def cf_remove_def remove_active_locked_def
        Let_def cf_next_def)
qed

lemma cf_remove_ids:
  assumes "ids_ok c" "t \<in> set (gs_active (cf_state c))"
    and "C = cf_committed c \<and> t \<in> gs_aborted (cf_state c)
       \<or> C = insert t (cf_committed c) \<and> t \<notin> gs_aborted (cf_state c)"
  shows "ids_ok ((cf_remove t c)\<lparr>cf_committed := C\<rparr>)"
proof -
  note d = ids_okD [OF assms(1)]
  have "set (remove1 t (gs_active (cf_state c))) = set (gs_active (cf_state c)) - {t}"
    using d(2) by simp
  then show ?thesis
    using d assms(2,3) by (auto simp: ids_ok_def tx_cf_simps sorted_remove1)
qed

lemma cf_remove_issued:
  assumes "\<forall>p \<in> set (cf_issued c). issued_ok c p" "cf_committed c \<subseteq> C"
  shows "\<forall>p \<in> set (cf_issued c). issued_ok ((cf_remove t c)\<lparr>cf_committed := C\<rparr>) p"
proof
  fix p
  assume "p \<in> set (cf_issued c)"
  with assms(1) have "issued_ok c p" by blast
  then show "issued_ok ((cf_remove t c)\<lparr>cf_committed := C\<rparr>) p"
    using assms(2) by (cases p) (auto simp: issued_ok_def tx_cf_simps)
qed

lemma cf_remove_inv:
  assumes "tx_inv c" "t \<in> set (gs_active (cf_state c))"
    and "C = cf_committed c \<and> t \<in> gs_aborted (cf_state c)
       \<or> C = insert t (cf_committed c) \<and> t \<notin> gs_aborted (cf_state c)"
  shows "tx_inv ((cf_remove t c)\<lparr>cf_committed := C\<rparr>)"
proof -
  have "cf_issued ((cf_remove t c)\<lparr>cf_committed := C\<rparr>) = cf_issued c" "cf_committed c \<subseteq> C"
    using assms(3) by (auto simp: tx_cf_simps)
  then show ?thesis
    using assms cf_remove_ids cf_remove_horizon cf_remove_issued
    unfolding tx_inv_def by metis
qed

lemma log_abort_inv:
  assumes "tx_inv c" "t \<in> set (gs_active (cf_state c))"
  shows "tx_inv (c\<lparr>cf_state := log_abort (cf_state c) t\<rparr>)"
proof -
  have ids: "ids_ok c" and iss: "\<forall>p \<in> set (cf_issued c). issued_ok c p" and hor: "horizon_ok c"
    using assms(1) by (auto simp: tx_inv_def)
  note t = ids_ok_active [OF ids assms(2)] and d = ids_okD [OF ids]
  let ?c = "c\<lparr>cf_state := log_abort (cf_state c) t\<rparr>"
  have "ids_ok ?c"
    using d t by (auto simp: ids_ok_def tx_cf_simps)
  moreover have "horizon_ok ?c"
    using hor by (simp add: horizon_ok_def tx_cf_simps)
  moreover have "issued_ok ?c p" if "p \<in> set (cf_issued c)" for p
  proof -
    obtain sn C where p: "p = (sn, C)" by (cases p)
    have "issued_ok c (sn, C)"
      using iss that p by blast
    moreover from this have "t \<notin> C"
      using t by (auto simp: issued_ok_def)
    ultimately show ?thesis
      by (auto simp: p issued_ok_def tx_cf_simps)
  qed
  ultimately show ?thesis
    by (simp add: tx_inv_def)
qed

lemma advance_inv:
  assumes "tx_inv c" "m \<in> set (cf_pending c)"
  shows "tx_inv (c\<lparr>cf_state := advance_xmin (cf_state c) m, cf_pending := remove1 m (cf_pending c)\<rparr>)"
proof -
  let ?c = "c\<lparr>cf_state := advance_xmin (cf_state c) m, cf_pending := remove1 m (cf_pending c)\<rparr>"
  have "ids_ok ?c"
    using assms(1) by (simp add: tx_inv_def ids_ok_def tx_cf_simps)
  moreover have "horizon_ok ?c"
    using assms notin_set_remove1 [of _ "cf_pending c" m]
    by (auto simp: tx_inv_def horizon_ok_def tx_cf_simps dest: set_remove1_subset [THEN subsetD])
  moreover have "\<forall>p \<in> set (cf_issued c). issued_ok ?c p"
    using assms(1) by (auto simp: tx_inv_def issued_ok_def tx_cf_simps)
  ultimately show ?thesis
    by (simp add: tx_inv_def)
qed

lemma tx_step_inv: "tx_step c d \<Longrightarrow> tx_inv c \<Longrightarrow> tx_inv d"
proof (induction rule: tx_step.induct)
  case (step_begin c)
  then show ?case
    using cf_begin_ids cf_begin_horizon cf_begin_issued by (simp add: tx_inv_def)
next
  case (step_commit t c)
  then show ?case
    using cf_remove_inv by blast
next
  case (step_log_abort t c)
  then show ?case
    by (simp add: log_abort_inv)
next
  case (step_abort t c)
  then have "tx_inv ((cf_remove t c)\<lparr>cf_committed := cf_committed c\<rparr>)"
    by (intro cf_remove_inv) auto
  moreover have "(cf_remove t c)\<lparr>cf_committed := cf_committed c\<rparr> = cf_remove t c"
    by (simp add: tx_cf_simps)
  ultimately show ?case by simp
next
  case (step_advance m c)
  then show ?case
    by (simp add: advance_inv)
qed

lemma tx_reachable_inv: "tx_reachable c \<Longrightarrow> tx_inv c"
  by (induction rule: tx_reachable.induct) (auto intro: tx_inv_init tx_step_inv)

section \<open>Snapshot isolation\<close>

lemma issued_committed_before:
  assumes "issued_ok c (sn, C)" "t \<noteq> sn_owner_txid sn"
  shows "txid_committed_before_snapshot (gs_aborted (cf_state c)) sn t False \<longleftrightarrow> t \<in> C \<and> t \<noteq> 0"
  using assms by (auto simp: issued_ok_def txid_committed_before_snapshot_def sn_is_aborted_def
      TX_ID_INVALID_def sn_is_active_iff)


text \<open>A concrete run: transaction 1 commits, 2 and 3 begin, 2 commits.\<close>

definition demo1 :: tx_config where
  "demo1 = cf_begin tx_config_init"

definition demo2 :: tx_config where
  "demo2 = (cf_remove 1 demo1)\<lparr>cf_committed := insert 1 (cf_committed demo1)\<rparr>"

definition demo4 :: tx_config where
  "demo4 = cf_begin (cf_begin demo2)"

definition demo5 :: tx_config where
  "demo5 = (cf_remove 2 demo4)\<lparr>cf_committed := insert 2 (cf_committed demo4)\<rparr>"

definition demo6 :: tx_config where
  "demo6 = demo5\<lparr>cf_state := advance_xmin (cf_state demo5) 3, cf_pending := remove1 3 (cf_pending demo5)\<rparr>"

lemmas demo_defs = demo1_def demo2_def demo4_def demo5_def demo6_def
lemmas demo_eval = tx_config_init_def tx_state_new_def tx_state_with_def
  cf_begin_def begin_tx_def txid_allocate_eq txid_peek_next_def txid_new_def txid_consts tx_cf_simps
  first_active_def snapshot_new_def with_aborted_def insort_insert_key_def

lemma demo1_eq: "demo1 = \<lparr>cf_state = \<lparr>gs_xmin = 1, gs_xmax = 2, gs_active = [1],
    gs_allocator = \<lparr>counter = 2\<rparr>, gs_aborted = {}\<rparr>, cf_committed = {}, cf_pending = [],
    cf_issued = [(\<lparr>sn_xmin = 1, sn_xmax = 2, sn_active = [], sn_owner_txid = 1, sn_aborted = True\<rparr>, {})]\<rparr>"
  by (simp add: demo1_def demo_eval)

lemma demo4_eq: "cf_state demo4 = \<lparr>gs_xmin = 2, gs_xmax = 4, gs_active = [2, 3],
    gs_allocator = \<lparr>counter = 4\<rparr>, gs_aborted = {}\<rparr> \<and> cf_committed demo4 = {1} \<and> cf_pending demo4 = [2]
  \<and> (\<lparr>sn_xmin = 2, sn_xmax = 4, sn_active = [2], sn_owner_txid = 3, sn_aborted = True\<rparr>, {1})
     \<in> set (cf_issued demo4)"
  by (simp add: demo4_def demo2_def demo1_eq) (simp add: demo_eval)

lemma demo6_eq: "cf_state demo6 = \<lparr>gs_xmin = 3, gs_xmax = 4, gs_active = [3],
    gs_allocator = \<lparr>counter = 4\<rparr>, gs_aborted = {}\<rparr> \<and> cf_committed demo6 = {1, 2}
  \<and> (\<lparr>sn_xmin = 2, sn_xmax = 4, sn_active = [2], sn_owner_txid = 3, sn_aborted = True\<rparr>, {1})
     \<in> set (cf_issued demo6)"
  using demo4_eq by (auto simp: demo6_def demo5_def tx_cf_simps first_active_def)

lemma demo6_reachable: "tx_reachable demo6"
proof -
  have "tx_reachable demo1"
    unfolding demo1_def
    by (rule reach_step [OF reach_init step_begin])
      (simp add: demo_eval)
  then have "tx_reachable demo2"
    unfolding demo2_def by (rule reach_step) (rule step_commit, simp_all add: demo1_eq)
  moreover have "cf_next demo2 \<noteq> - 1" "cf_next (cf_begin demo2) \<noteq> - 1"
    by (simp_all add: demo2_def demo1_eq) (simp_all add: demo_eval)
  ultimately have "tx_reachable demo4"
    unfolding demo4_def by (blast intro: reach_step step_begin)
  then have "tx_reachable demo5"
    unfolding demo5_def by (rule reach_step) (rule step_commit, simp_all add: demo4_eq)
  then show ?thesis
    unfolding demo6_def by (rule reach_step)
      (rule step_advance, simp add: demo5_def tx_cf_simps demo4_eq first_active_def)
qed


section \<open>The horizon\<close>

lemma tx_step_xmin_mono:
  assumes "tx_step c d" "tx_inv c"
  shows "gs_xmin (cf_state c) \<le> gs_xmin (cf_state d)"
  using assms by (induction rule: tx_step.induct)
    (auto simp: tx_inv_def tx_cf_simps cf_begin_horizon)

text \<open>C36. The horizon under interleaving: in every reachable configuration \<open>global_xmin\<close> is
  at most every active transaction id and at most the next id, no step lowers it, and
  \<open>global_xmax\<close> is the next id to be issued, although \<open>remove_active\<close> raises the horizon
  after it has released the mutex.\<close>

theorem horizon_below_active_and_monotone:
  assumes "tx_reachable c"
  shows "(\<forall>t \<in> set (gs_active (cf_state c)). gs_xmin (cf_state c) \<le> t)
    \<and> gs_xmin (cf_state c) \<le> gs_xmax (cf_state c)
    \<and> gs_xmax (cf_state c) = txid_peek_next (gs_allocator (cf_state c))
    \<and> (\<forall>d. tx_step c d \<longrightarrow> gs_xmin (cf_state c) \<le> gs_xmin (cf_state d))"
proof -
  have inv: "tx_inv c"
    using assms by (rule tx_reachable_inv)
  then have "gs_xmax (cf_state c) = cf_next c"
    by (auto simp: tx_inv_def dest: ids_okD(3))
  with inv show ?thesis
    using tx_step_xmin_mono by (auto simp: tx_inv_def horizon_ok_def cf_next_def)
qed

theorem horizon_below_active_and_monotone_witness:
  "gs_xmin (cf_state demo6) \<le> 3 \<and> 3 \<in> set (gs_active (cf_state demo6))"
  using horizon_below_active_and_monotone [OF demo6_reachable] demo6_eq by simp

text \<open>C37. The horizon is not a reclamation bound: there is a reachable configuration in
  which a version deleted by a committed transaction below \<open>global_xmin\<close> is still visible
  to the snapshot of an active transaction, since the horizon tracks active ids and not
  the oldest \<open>xmin\<close> of the snapshots in use.\<close>

theorem gc_horizon_reclaims_visible_version:
  "\<exists>c sn C xmin_tuple xmax_tuple.
     tx_reachable c \<and> (sn, C) \<in> set (cf_issued c) \<and> sn_owner_txid sn \<in> set (gs_active (cf_state c))
   \<and> xmax_tuple \<in> cf_committed c \<and> xmax_tuple < gs_xmin (cf_state c)
   \<and> is_visible (gs_aborted (cf_state c)) sn xmin_tuple xmax_tuple False False"
proof -
  let ?sn = "\<lparr>sn_xmin = 2, sn_xmax = 4, sn_active = [2], sn_owner_txid = 3, sn_aborted = True\<rparr>"
  have vis: "is_visible (gs_aborted (cf_state demo6)) ?sn 1 2 False False"
    by (simp add: is_visible_def txid_committed_before_snapshot_def sn_is_aborted_def
        sn_is_active_def binary_search_def bsearch.simps TX_ID_INVALID_def demo6_eq)
  have "(?sn, {1}) \<in> set (cf_issued demo6)" "sn_owner_txid ?sn \<in> set (gs_active (cf_state demo6))"
    "2 \<in> cf_committed demo6" "2 < gs_xmin (cf_state demo6)"
    using demo6_eq by auto
  with vis demo6_reachable show ?thesis by blast
qed

section \<open>Recovery of the state\<close>

text \<open>A state recovered from a persisted counter starts clean: no transaction is active
  or aborted, and both bounds equal the next id, which lies \<open>RECOVERY_BUMP\<close> above every id
  the persisted state had issued.\<close>

theorem tx_state_recover_persisted:
  assumes "persist_txid_counter s page = Some page'"
    and "unat (counter (gs_allocator s)) + 1000000 < 2 ^ 64"
  shows "\<exists>r. tx_state_recover page' = Some r \<and> gs_active r = [] \<and> gs_aborted r = {}
    \<and> gs_xmin r = gs_xmax r \<and> gs_xmax r = txid_peek_next (gs_allocator r)
    \<and> unat (gs_xmax r) = unat (counter (gs_allocator s)) + 1000000"
proof -
  let ?stored = "counter (gs_allocator s)"
  have len: "8 \<le> length page" and page': "page' = splice page 0 (to_le_bytes ?stored)"
    using assms(1) by (auto simp: persist_txid_counter_def txid_persist_def txid_consts split: if_splits)
  obtain a' where "txid_recover page' = Some a'" "unat (txid_peek_next a') = unat ?stored + 1000000"
    using txid_recover_persisted_bytes [OF len assms(2)] page' by blast
  then show ?thesis
    by (simp add: tx_state_recover_def tx_state_with_def Let_def)
qed

theorem tx_state_recover_persisted_witness:
  "\<exists>r. tx_state_recover (splice (replicate 8 0) 0 (to_le_bytes (1 :: u64))) = Some r
      \<and> gs_active r = [] \<and> unat (gs_xmax r) = 1000001"
proof -
  have "persist_txid_counter tx_state_new (replicate 8 0) =
      Some (splice (replicate 8 0) 0 (to_le_bytes (1 :: u64)))"
    by (simp add: persist_txid_counter_def txid_persist_def tx_state_new_def tx_state_with_def
        txid_new_def txid_consts Let_def)
  from tx_state_recover_persisted [OF this] show ?thesis
    by (auto simp: tx_state_new_def tx_state_with_def txid_new_def txid_consts Let_def)
qed

end
