(* ===== verification/LockTable.thy ===== *)
theory LockTable
  imports Txid "HOL-Library.Multiset"
begin

text \<open>
  The sharded lock table of \<open>src/src/txn/lock_table.rs\<close>. A notification channel is an
  opaque number; sending \<open>Granted\<close> on it is returned as the list of channels notified,
  in the order of the sends. The table is the vector of its shards; \<open>lt_entry\<close> is the
  lookup through the shard function. The locale \<open>lock_service\<close> is the contract the
  transaction manager relies on; the table interprets it.
\<close>

section \<open>Definitions\<close>

datatype lock_mode = IntentionShared | IntentionExclusive | Shared | Exclusive

fun compatible_with :: "lock_mode \<Rightarrow> lock_mode \<Rightarrow> bool" where
  "compatible_with IntentionShared IntentionShared = True"
| "compatible_with IntentionShared IntentionExclusive = True"
| "compatible_with IntentionShared Shared = True"
| "compatible_with IntentionExclusive IntentionShared = True"
| "compatible_with IntentionExclusive IntentionExclusive = True"
| "compatible_with Shared IntentionShared = True"
| "compatible_with Shared Shared = True"
| "compatible_with _ _ = False"

fun allows_multiple_holders :: "lock_mode \<Rightarrow> bool" where
  "allows_multiple_holders Exclusive = False"
| "allows_multiple_holders _ = True"

datatype lock_result = Granted | Denied

type_synonym channel = nat

record holder =
  h_txid :: txid
  h_mode :: lock_mode

record lock_entry =
  holders :: "holder list"
  waiters :: "(txid \<times> lock_mode \<times> channel) list"

definition entry_new :: lock_entry where
  "entry_new = \<lparr>holders = [], waiters = []\<rparr>"

fun mode_at_least_as_strong :: "lock_mode \<Rightarrow> lock_mode \<Rightarrow> bool" where
  "mode_at_least_as_strong held IntentionShared = True"
| "mode_at_least_as_strong held IntentionExclusive = (held = IntentionExclusive \<or> held = Exclusive)"
| "mode_at_least_as_strong held Shared = (held = Shared \<or> held = Exclusive)"
| "mode_at_least_as_strong held Exclusive = (held = Exclusive)"

definition already_holds :: "lock_entry \<Rightarrow> txid \<Rightarrow> lock_mode \<Rightarrow> bool" where
  "already_holds e t mode =
     list_ex (\<lambda>h. h_txid h = t \<and> mode_at_least_as_strong (h_mode h) mode) (holders e)"

definition compatible_with_holders :: "lock_entry \<Rightarrow> txid \<Rightarrow> lock_mode \<Rightarrow> bool" where
  "compatible_with_holders e requesting mode =
     list_all (\<lambda>h. h_txid h = requesting \<or> compatible_with mode (h_mode h)) (holders e)"

definition add_holder :: "lock_entry \<Rightarrow> txid \<Rightarrow> lock_mode \<Rightarrow> lock_entry" where
  "add_holder e t mode =
     (if \<not> list_ex (\<lambda>h. h_txid h = t) (holders e)
      then e\<lparr>holders := holders e @ [\<lparr>h_txid = t, h_mode = mode\<rparr>]\<rparr> else e)"

text \<open>\<open>Iterator::position\<close> and \<open>Vec::swap_remove\<close> of the standard library.\<close>

fun position :: "('a \<Rightarrow> bool) \<Rightarrow> 'a list \<Rightarrow> nat option" where
  "position P [] = None"
| "position P (x # xs) = (if P x then Some 0 else map_option Suc (position P xs))"

definition swap_remove :: "'a list \<Rightarrow> nat \<Rightarrow> 'a list" where
  "swap_remove xs i = butlast (xs[i := last xs])"

definition remove_holder :: "lock_entry \<Rightarrow> txid \<Rightarrow> lock_entry" where
  "remove_holder e t =
     (case position (\<lambda>h. h_txid h = t) (holders e) of
        Some pos \<Rightarrow> e\<lparr>holders := swap_remove (holders e) pos\<rparr>
      | None \<Rightarrow> e)"

definition entry_is_empty :: "lock_entry \<Rightarrow> bool" where
  "entry_is_empty e \<longleftrightarrow> holders e = []"

text \<open>The loop over the wait queue, with the queue as the argument that shrinks.\<close>

fun grant_loop :: "holder list \<Rightarrow> (txid \<times> lock_mode \<times> channel) list \<Rightarrow> lock_entry \<times> channel list" where
  "grant_loop hs [] = (\<lparr>holders = hs, waiters = []\<rparr>, [])"
| "grant_loop hs ((t, mode, sender) # ws) =
     (let e = \<lparr>holders = hs, waiters = ws\<rparr> in
      if compatible_with_holders e t mode then
        (let (e', sent) = grant_loop (holders (add_holder e t mode)) ws in (e', sender # sent))
      else (e\<lparr>waiters := (t, mode, sender) # ws\<rparr>, []))"

definition grant_compatible_waiters :: "lock_entry \<Rightarrow> lock_entry \<times> channel list" where
  "grant_compatible_waiters e = grant_loop (holders e) (waiters e)"

definition N_SHARDS :: nat where
  "N_SHARDS = 1024"

record lock_table =
  shards :: "(u64 \<rightharpoonup> lock_entry) list"
  next_channel :: channel

definition lock_table_new :: lock_table where
  "lock_table_new = \<lparr>shards = replicate N_SHARDS Map.empty, next_channel = 0\<rparr>"

definition shard_index :: "u64 \<Rightarrow> nat" where
  "shard_index resource_id = unat (drop_bit (64 - 10) (resource_id * 0x9E3779B97F4A7C15))"

definition lt_entry :: "lock_table \<Rightarrow> u64 \<Rightarrow> lock_entry option" where
  "lt_entry lt r = (shards lt ! shard_index r) r"

definition put_entry :: "lock_table \<Rightarrow> u64 \<Rightarrow> lock_entry option \<Rightarrow> lock_table" where
  "put_entry lt r eo =
     lt\<lparr>shards := (shards lt)[shard_index r := (shards lt ! shard_index r)(r := eo)]\<rparr>"

definition try_acquire ::
    "lock_table \<Rightarrow> u64 \<Rightarrow> txid \<Rightarrow> lock_mode \<Rightarrow> lock_result \<times> channel option \<times> lock_table" where
  "try_acquire lt r t mode =
     (let e = (case lt_entry lt r of None \<Rightarrow> entry_new | Some e \<Rightarrow> e);
          lt' = put_entry lt r (Some e)
      in if already_holds e t mode then (Granted, None, lt')
         else if compatible_with_holders e t mode then
           (Granted, None, put_entry lt' r (Some (add_holder e t mode)))
         else if list_ex (\<lambda>(w, _, _). w = t) (waiters e) then (Denied, None, lt')
         else let ch = next_channel lt in
           (Denied, Some ch,
            (put_entry lt' r (Some (e\<lparr>waiters := waiters e @ [(t, mode, ch)]\<rparr>)))\<lparr>next_channel := Suc ch\<rparr>))"

definition release :: "lock_table \<Rightarrow> u64 \<Rightarrow> txid \<Rightarrow> lock_table \<times> channel list" where
  "release lt r t =
     (case lt_entry lt r of
        None \<Rightarrow> (lt, [])
      | Some e \<Rightarrow>
          (let (e', sent) = grant_compatible_waiters (remove_holder e t) in
           if entry_is_empty e' \<and> waiters e' = [] then (put_entry lt r None, sent)
           else (put_entry lt r (Some e'), sent)))"

fun release_all :: "lock_table \<Rightarrow> txid \<Rightarrow> u64 list \<Rightarrow> lock_table \<times> channel list" where
  "release_all lt t [] = (lt, [])"
| "release_all lt t (r # rs) =
     (let (lt', sent) = release lt r t; (lt'', sent') = release_all lt' t rs in (lt'', sent @ sent'))"

definition lt_holders :: "lock_table \<Rightarrow> u64 \<Rightarrow> (txid \<times> lock_mode) list" where
  "lt_holders lt r =
     (case lt_entry lt r of Some e \<Rightarrow> map (\<lambda>h. (h_txid h, h_mode h)) (holders e) | None \<Rightarrow> [])"

section \<open>Shards\<close>

lemma shard_index_less: "shard_index r < N_SHARDS"
proof -
  let ?w = "r * 0x9E3779B97F4A7C15"
  have "unat (drop_bit 54 ?w) = unat ?w div 2 ^ 54"
    by (simp add: drop_bit_eq_div unat_div)
  also have "\<dots> < 1024"
    using unat_u64_less [of ?w] by (simp add: div_less_iff_less_mult)
  finally show ?thesis
    by (simp add: shard_index_def N_SHARDS_def)
qed

definition lt_wf :: "lock_table \<Rightarrow> bool" where
  "lt_wf lt \<longleftrightarrow> length (shards lt) = N_SHARDS"

lemma lt_entry_put [simp]:
  assumes "lt_wf lt"
  shows "lt_entry (put_entry lt r eo) r' = (if r' = r then eo else lt_entry lt r')"
  using assms shard_index_less [of r]
  by (cases "shard_index r' = shard_index r") (auto simp: lt_entry_def put_entry_def lt_wf_def)

lemma lt_wf_put [simp]: "lt_wf (put_entry lt r eo) = lt_wf lt"
  by (simp add: lt_wf_def put_entry_def)

lemma lt_wf_next [simp]: "lt_wf (lt\<lparr>next_channel := n\<rparr>) = lt_wf lt"
  by (simp add: lt_wf_def)

lemma lt_entry_next [simp]: "lt_entry (lt\<lparr>next_channel := n\<rparr>) r = lt_entry lt r"
  by (simp add: lt_entry_def)

lemma next_channel_put [simp]: "next_channel (put_entry lt r eo) = next_channel lt"
  by (simp add: put_entry_def)

lemma next_channel_new: "next_channel lock_table_new = 0"
  by (simp add: lock_table_new_def)

lemma lt_wf_new: "lt_wf lock_table_new"
  by (simp add: lt_wf_def lock_table_new_def)

lemma lt_entry_new: "lt_entry lock_table_new r = None"
  using shard_index_less [of r] by (simp add: lt_entry_def lock_table_new_def)

section \<open>Entries\<close>

text \<open>
  Holders are distinct transactions with pairwise compatible modes, a transaction waits
  at most once, and the first waiter is always blocked by some other holder: a waiter
  that could run is never left waiting.
\<close>

definition holders_ok :: "holder list \<Rightarrow> bool" where
  "holders_ok hs \<longleftrightarrow> distinct (map h_txid hs) \<and>
     (\<forall>h \<in> set hs. \<forall>h' \<in> set hs. h_txid h \<noteq> h_txid h' \<longrightarrow> compatible_with (h_mode h) (h_mode h'))"

definition head_blocked :: "lock_entry \<Rightarrow> bool" where
  "head_blocked e \<longleftrightarrow>
     (case waiters e of [] \<Rightarrow> True | (t, mode, _) # _ \<Rightarrow> \<not> compatible_with_holders e t mode)"

definition entry_ok :: "lock_entry \<Rightarrow> bool" where
  "entry_ok e \<longleftrightarrow> holders_ok (holders e) \<and> distinct (map fst (waiters e)) \<and> head_blocked e"

lemma compatible_with_sym: "compatible_with a b = compatible_with b a"
  by (cases a; cases b) simp_all

lemma holders_ok_Nil [simp]: "holders_ok []"
  by (simp add: holders_ok_def)

lemma entry_ok_new [simp]: "entry_ok entry_new"
  by (simp add: entry_ok_def entry_new_def head_blocked_def)

lemma holders_add_holder:
  "holders (add_holder e t mode) =
     (if t \<in> h_txid ` set (holders e) then holders e else holders e @ [\<lparr>h_txid = t, h_mode = mode\<rparr>])"
  by (auto simp: add_holder_def list_ex_iff)

lemma waiters_add_holder [simp]: "waiters (add_holder e t mode) = waiters e"
  by (simp add: add_holder_def)

lemma compatible_with_holders_cong:
  "holders e = holders e' \<Longrightarrow> compatible_with_holders e = compatible_with_holders e'"
  by (simp add: compatible_with_holders_def fun_eq_iff)

lemma holders_ok_add:
  assumes "holders_ok (holders e)" "compatible_with_holders e t mode"
  shows "holders_ok (holders (add_holder e t mode))"
  using assms compatible_with_sym
  by (auto simp: holders_add_holder holders_ok_def compatible_with_holders_def list_all_iff)

lemma position_Some: "position P xs = Some i \<Longrightarrow> i < length xs \<and> P (xs ! i)"
  by (induction xs arbitrary: i) (auto split: if_splits)

lemma position_None: "position P xs = None \<longleftrightarrow> (\<forall>x \<in> set xs. \<not> P x)"
  by (induction xs) auto

lemma mset_swap_remove: "i < length xs \<Longrightarrow> mset (swap_remove xs i) = mset xs - {#xs ! i#}"
proof (cases xs rule: rev_cases)
  case (snoc ys y)
  assume "i < length xs"
  with snoc show ?thesis
    by (cases "i = length ys")
      (auto simp: swap_remove_def list_update_append mset_update nth_append)
qed simp

lemma set_swap_remove:
  assumes "i < length xs" "distinct (map f xs)"
  shows "set (swap_remove xs i) = {x \<in> set xs. f x \<noteq> f (xs ! i)}"
    and "distinct (map f (swap_remove xs i))"
proof -
  let ?r = "remove1 (xs ! i) xs"
  have m: "mset (swap_remove xs i) = mset ?r"
    using assms(1) by (simp add: mset_swap_remove)
  have xs: "distinct xs" and inj: "inj_on f (set xs)"
    using assms(2) by (auto simp: distinct_map)
  have "set (swap_remove xs i) = set xs - {xs ! i}"
    using mset_eq_setD [OF m] xs by simp
  moreover have "f x = f (xs ! i) \<longleftrightarrow> x = xs ! i" if "x \<in> set xs" for x
    using inj assms(1) that by (auto simp: inj_on_eq_iff)
  ultimately show "set (swap_remove xs i) = {x \<in> set xs. f x \<noteq> f (xs ! i)}"
    by auto
  have "mset (map f (swap_remove xs i)) = mset (map f ?r)"
    using m by simp
  moreover have "distinct (map f ?r)"
    using xs inj by (auto simp: distinct_map intro: inj_on_subset)
  ultimately show "distinct (map f (swap_remove xs i))"
    by (metis mset_eq_imp_distinct_iff)
qed

lemma remove_holder_ok:
  assumes "holders_ok (holders e)"
  shows "holders_ok (holders (remove_holder e t))"
    and "set (holders (remove_holder e t)) = {h \<in> set (holders e). h_txid h \<noteq> t}"
    and "waiters (remove_holder e t) = waiters e"
proof -
  let ?hs = "holders e"
  show "waiters (remove_holder e t) = waiters e"
    by (simp add: remove_holder_def split: option.split)
  have "holders_ok (holders (remove_holder e t)) \<and>
        set (holders (remove_holder e t)) = {h \<in> set ?hs. h_txid h \<noteq> t}"
  proof (cases "position (\<lambda>h. h_txid h = t) ?hs")
    case None
    then have "remove_holder e t = e"
      by (simp add: remove_holder_def)
    then show ?thesis
      using assms None [unfolded position_None] by auto
  next
    case (Some i)
    then have i: "i < length ?hs" "h_txid (?hs ! i) = t"
      using position_Some [OF Some] by auto
    have "holders (remove_holder e t) = swap_remove ?hs i"
      by (simp add: remove_holder_def Some)
    then show ?thesis
      using set_swap_remove [OF i(1), of h_txid] i(2) assms
      by (auto simp: holders_ok_def)
  qed
  then show "holders_ok (holders (remove_holder e t))"
    and "set (holders (remove_holder e t)) = {h \<in> set ?hs. h_txid h \<noteq> t}"
    by auto
qed

text \<open>The granting loop hands the lock to a prefix of the queue, in order, and stops only
  when the queue is empty or its head is blocked.\<close>

lemma grant_loop_spec:
  assumes "holders_ok hs" "grant_loop hs ws = (e', sent)"
  shows "\<exists>granted. ws = granted @ waiters e' \<and> sent = map (snd \<circ> snd) granted
      \<and> holders_ok (holders e') \<and> head_blocked e' \<and> set hs \<subseteq> set (holders e')
      \<and> h_txid ` set (holders e') = h_txid ` set hs \<union> fst ` set granted"
  using assms
proof (induction hs ws arbitrary: e' sent rule: grant_loop.induct)
  case (1 hs)
  then show ?case
    by (auto simp: head_blocked_def)
next
  case (2 hs t mode sender ws)
  let ?e = "\<lparr>holders = hs, waiters = ws\<rparr>"
  show ?case
  proof (cases "compatible_with_holders ?e t mode")
    case True
    let ?hs' = "holders (add_holder ?e t mode)"
    obtain sent' where rec: "grant_loop ?hs' ws = (e', sent')" and s: "sent = sender # sent'"
      using "2.prems"(2) True by (auto simp: Let_def split: prod.splits)
    have ok: "holders_ok ?hs'"
      using holders_ok_add [of ?e t mode] "2.prems"(1) True by simp
    from "2.IH" [OF refl True ok rec]
    obtain granted where g: "ws = granted @ waiters e'" "sent' = map (snd \<circ> snd) granted"
      "holders_ok (holders e')" "head_blocked e'" "set ?hs' \<subseteq> set (holders e')"
      "h_txid ` set (holders e') = h_txid ` set ?hs' \<union> fst ` set granted"
      by blast
    have "set hs \<subseteq> set ?hs'" and "h_txid ` set ?hs' = insert t (h_txid ` set hs)"
      by (auto simp: holders_add_holder)
    then show ?thesis
      using g s by (intro exI [of _ "(t, mode, sender) # granted"]) auto
  next
    case False
    then show ?thesis
      using "2.prems" by (auto simp: Let_def head_blocked_def compatible_with_holders_def)
  qed
qed

lemma grant_ok:
  assumes "holders_ok (holders e)" "distinct (map fst (waiters e))"
  shows "entry_ok (fst (grant_compatible_waiters e))"
proof -
  obtain e' sent where g: "grant_loop (holders e) (waiters e) = (e', sent)"
    by fastforce
  from grant_loop_spec [OF assms(1) g] show ?thesis
    using assms(2) g by (auto simp: entry_ok_def grant_compatible_waiters_def)
qed

lemma add_holder_ok:
  assumes "entry_ok e" "compatible_with_holders e t mode"
  shows "entry_ok (add_holder e t mode)"
proof -
  have "set (holders e) \<subseteq> set (holders (add_holder e t mode))"
    by (auto simp: holders_add_holder)
  then have "head_blocked (add_holder e t mode)"
    using assms(1) by (auto simp: entry_ok_def head_blocked_def compatible_with_holders_def
        list_all_iff split: list.splits)
  then show ?thesis
    using assms holders_ok_add [of e t mode] by (simp add: entry_ok_def)
qed

lemma enqueue_ok:
  assumes "entry_ok e" "\<not> compatible_with_holders e t mode" "t \<notin> fst ` set (waiters e)"
  shows "entry_ok (e\<lparr>waiters := waiters e @ [(t, mode, ch)]\<rparr>)"
  using assms by (auto simp: entry_ok_def head_blocked_def compatible_with_holders_def
      split: list.splits)

section \<open>The table\<close>

definition lt_ok :: "lock_table \<Rightarrow> bool" where
  "lt_ok lt \<longleftrightarrow> lt_wf lt \<and> (\<forall>r e. lt_entry lt r = Some e \<longrightarrow> entry_ok e)"

lemma lt_ok_new: "lt_ok lock_table_new"
  by (simp add: lt_ok_def lt_wf_new lt_entry_new)

lemma lt_ok_put: "lt_ok lt \<Longrightarrow> (\<And>e. eo = Some e \<Longrightarrow> entry_ok e) \<Longrightarrow> lt_ok (put_entry lt r eo)"
  by (auto simp: lt_ok_def split: if_splits)

lemma lt_ok_next: "lt_ok (lt\<lparr>next_channel := n\<rparr>) = lt_ok lt"
  by (simp add: lt_ok_def)

definition entry_or_new :: "lock_table \<Rightarrow> u64 \<Rightarrow> lock_entry" where
  "entry_or_new lt r = (case lt_entry lt r of None \<Rightarrow> entry_new | Some e \<Rightarrow> e)"

lemma entry_or_new_ok: "lt_ok lt \<Longrightarrow> entry_ok (entry_or_new lt r)"
  by (auto simp: lt_ok_def entry_or_new_def split: option.splits)

text \<open>The cases of \<open>try_acquire\<close>: held already, granted, waiting already, queued.\<close>

lemma try_acquire_cases:
  assumes "try_acquire lt r t mode = (res, ch, lt')"
  defines "e \<equiv> entry_or_new lt r"
  obtains
    (held) "already_holds e t mode" "res = Granted" "ch = None" "lt' = put_entry lt r (Some e)"
  | (grant) "compatible_with_holders e t mode" "\<not> already_holds e t mode" "res = Granted" "ch = None"
      "lt' = put_entry (put_entry lt r (Some e)) r (Some (add_holder e t mode))"
  | (waiting) "\<not> compatible_with_holders e t mode" "t \<in> fst ` set (waiters e)" "res = Denied" "ch = None"
      "lt' = put_entry lt r (Some e)"
  | (queued) "\<not> compatible_with_holders e t mode" "t \<notin> fst ` set (waiters e)" "res = Denied"
      "ch = Some (next_channel lt)"
      "lt' = (put_entry (put_entry lt r (Some e)) r
                (Some (e\<lparr>waiters := waiters e @ [(t, mode, next_channel lt)]\<rparr>)))
                \<lparr>next_channel := Suc (next_channel lt)\<rparr>"
proof -
  have "list_ex (\<lambda>(w, _, _). w = t) (waiters e) \<longleftrightarrow> t \<in> fst ` set (waiters e)"
    by (force simp: list_ex_iff)
  then show thesis
    using assms(1) that unfolding try_acquire_def e_def [symmetric] entry_or_new_def [symmetric]
    by (auto simp: Let_def e_def split: if_splits)
qed

lemma try_acquire_ok:
  assumes "lt_ok lt" "try_acquire lt r t mode = (res, ch, lt')"
  shows "lt_ok lt'"
  using assms(2)
proof (cases rule: try_acquire_cases)
  case held
  then show ?thesis
    using assms(1) by (auto intro!: lt_ok_put entry_or_new_ok)
next
  case grant
  then show ?thesis
    using assms(1) by (auto intro!: lt_ok_put entry_or_new_ok add_holder_ok)
next
  case waiting
  then show ?thesis
    using assms(1) by (auto intro!: lt_ok_put entry_or_new_ok)
next
  case queued
  then show ?thesis
    using assms(1) by (auto simp: lt_ok_next intro!: lt_ok_put entry_or_new_ok enqueue_ok)
qed

lemma release_ok:
  assumes "lt_ok lt"
  shows "lt_ok (fst (release lt r t))"
proof (cases "lt_entry lt r")
  case (Some e)
  then have "entry_ok e"
    using assms by (auto simp: lt_ok_def)
  then have "entry_ok (fst (grant_compatible_waiters (remove_holder e t)))"
    by (intro grant_ok) (simp_all add: entry_ok_def remove_holder_ok)
  then show ?thesis
    using assms Some by (auto simp: release_def case_prod_unfold Let_def intro!: lt_ok_put)
qed (simp add: release_def assms)

lemma release_all_ok: "lt_ok lt \<Longrightarrow> lt_ok (fst (release_all lt t rs))"
  by (induction rs arbitrary: lt) (simp_all add: case_prod_unfold Let_def release_ok)

section \<open>The lock service\<close>

text \<open>
  What the transaction manager relies on: a table state satisfying an invariant that
  both operations keep, in which the holders of a resource are distinct transactions
  with pairwise compatible modes.
\<close>

datatype lock_op = Acquire u64 txid lock_mode | Release u64 txid

locale lock_service =
  fixes acquire :: "'t \<Rightarrow> u64 \<Rightarrow> txid \<Rightarrow> lock_mode \<Rightarrow> lock_result \<times> channel option \<times> 't"
    and rel :: "'t \<Rightarrow> u64 \<Rightarrow> txid \<Rightarrow> 't \<times> channel list"
    and held :: "'t \<Rightarrow> u64 \<Rightarrow> (txid \<times> lock_mode) list"
    and inv :: "'t \<Rightarrow> bool"
  assumes inv_acquire: "inv lt \<Longrightarrow> inv (snd (snd (acquire lt r t m)))"
    and inv_release: "inv lt \<Longrightarrow> inv (fst (rel lt r t))"
    and held_distinct: "inv lt \<Longrightarrow> distinct (map fst (held lt r))"
    and held_compatible: "inv lt \<Longrightarrow> (t, m) \<in> set (held lt r) \<Longrightarrow> (u, n) \<in> set (held lt r) \<Longrightarrow>
          t \<noteq> u \<Longrightarrow> compatible_with m n"
begin

primrec apply_op :: "'t \<Rightarrow> lock_op \<Rightarrow> 't" where
  "apply_op lt (Acquire r t m) = snd (snd (acquire lt r t m))"
| "apply_op lt (Release r t) = fst (rel lt r t)"

lemma inv_run: "inv lt \<Longrightarrow> inv (foldl apply_op lt ops)"
proof (induction ops arbitrary: lt)
  case (Cons a ops)
  then show ?case
    by (cases a) (simp_all add: inv_acquire inv_release)
qed simp

lemma exclusive_sole_holder:
  assumes "inv lt" "(t, Exclusive) \<in> set (held (foldl apply_op lt ops) r)"
  shows "held (foldl apply_op lt ops) r = [(t, Exclusive)]"
proof -
  let ?hs = "held (foldl apply_op lt ops) r"
  have inv: "inv (foldl apply_op lt ops)"
    by (rule inv_run [OF assms(1)])
  have "u = t" if "(u, n) \<in> set ?hs" for u n
    using held_compatible [OF inv assms(2) that] by (cases n) auto
  then have "fst ` set ?hs \<subseteq> {t}"
    by (metis fst_conv image_subsetI prod.collapse singletonI)
  moreover have "t \<in> fst ` set ?hs"
    using imageI [OF assms(2), of fst] by simp
  ultimately have "set (map fst ?hs) = {t}"
    unfolding set_map by blast
  then have "length ?hs = 1"
    using distinct_card [OF held_distinct [OF inv, of r]] by simp
  then obtain x where "?hs = [x]"
    by (metis One_nat_def length_0_conv length_Suc_conv)
  then show ?thesis
    using assms(2) by simp
qed

end

lemma lt_holders_ok: "lt_ok lt \<Longrightarrow> holders_ok (case lt_entry lt r of None \<Rightarrow> [] | Some e \<Rightarrow> holders e)"
  by (auto simp: lt_ok_def entry_ok_def split: option.split)

lemma lt_holders_map:
  "lt_holders lt r = map (\<lambda>h. (h_txid h, h_mode h)) (case lt_entry lt r of None \<Rightarrow> [] | Some e \<Rightarrow> holders e)"
  by (simp add: lt_holders_def split: option.split)

interpretation locks: lock_service try_acquire release lt_holders lt_ok
proof unfold_locales
  fix lt r t m u n
  assume ok: "lt_ok lt"
  show "lt_ok (snd (snd (try_acquire lt r t m)))"
    using try_acquire_ok [OF ok, of r t m] by (metis prod.collapse)
  show "lt_ok (fst (release lt r t))"
    by (rule release_ok [OF ok])
  show "distinct (map fst (lt_holders lt r))"
    using lt_holders_ok [OF ok, of r] by (simp add: lt_holders_map holders_ok_def comp_def)
  assume "(t, m) \<in> set (lt_holders lt r)" "(u, n) \<in> set (lt_holders lt r)" "t \<noteq> u"
  then show "compatible_with m n"
    using lt_holders_ok [OF ok, of r] by (auto simp: lt_holders_map holders_ok_def)
qed

fun lock_run :: "lock_table \<Rightarrow> lock_op list \<Rightarrow> lock_table" where
  "lock_run lt [] = lt"
| "lock_run lt (Acquire r t m # ops) = lock_run (snd (snd (try_acquire lt r t m))) ops"
| "lock_run lt (Release r t # ops) = lock_run (fst (release lt r t)) ops"

lemma lock_run_foldl: "lock_run lt ops = foldl locks.apply_op lt ops"
  by (induction lt ops rule: lock_run.induct) simp_all

lemma lock_run_ok: "lt_ok (lock_run lock_table_new ops)"
  unfolding lock_run_foldl by (rule locks.inv_run [OF lt_ok_new])

lemma lock_run_wf: "lt_wf (lock_run lock_table_new ops)"
  using lock_run_ok [of ops] by (simp add: lt_ok_def)

text \<open>C12. Lock safety: after any sequence of acquisitions and releases on a fresh table, the
  recorded holders of every resource are distinct transactions whose modes are pairwise
  compatible, an exclusive holder is the only holder, and the first transaction in the
  wait queue of a resource is in conflict with one of its holders, so no grantable
  request is left asleep.\<close>

theorem lock_table_safety:
  assumes lt_def: "lt = lock_run lock_table_new ops"
  shows "distinct (map fst (lt_holders lt r))
    \<and> (\<forall>t m u n. (t, m) \<in> set (lt_holders lt r) \<and> (u, n) \<in> set (lt_holders lt r) \<and> t \<noteq> u
         \<longrightarrow> compatible_with m n)
    \<and> (\<forall>t. (t, Exclusive) \<in> set (lt_holders lt r) \<longrightarrow> lt_holders lt r = [(t, Exclusive)])
    \<and> (\<forall>e t m ch ws. lt_entry lt r = Some e \<and> waiters e = (t, m, ch) # ws
         \<longrightarrow> \<not> compatible_with_holders e t m)"
proof -
  have ok: "lt_ok lt"
    unfolding lt_def by (rule lock_run_ok)
  moreover have "\<forall>t. (t, Exclusive) \<in> set (lt_holders lt r) \<longrightarrow> lt_holders lt r = [(t, Exclusive)]"
    unfolding lt_def lock_run_foldl by (blast intro: locks.exclusive_sole_holder [OF lt_ok_new])
  moreover have "\<not> compatible_with_holders e t m"
    if "lt_entry lt r = Some e" "waiters e = (t, m, ch) # ws" for e t m ch ws
  proof -
    have "head_blocked e"
      using ok that(1) by (auto simp: lt_ok_def entry_ok_def)
    then show ?thesis
      by (simp add: head_blocked_def that(2))
  qed
  ultimately show ?thesis
    using locks.held_distinct locks.held_compatible by blast
qed

lemmas lock_eval = try_acquire_def release_def grant_compatible_waiters_def already_holds_def
  compatible_with_holders_def add_holder_def remove_holder_def swap_remove_def entry_is_empty_def
  entry_new_def lt_holders_def Let_def

theorem lock_table_safety_witness:
  "lt_holders (lock_run lock_table_new [Acquire 7 1 Exclusive, Acquire 7 2 Shared]) 7 = [(1, Exclusive)]"
proof -
  have "(1, Exclusive) \<in> set (lt_holders (lock_run lock_table_new [Acquire 7 1 Exclusive, Acquire 7 2 Shared]) 7)"
    by (simp add: lock_eval lt_entry_new lt_wf_new)
  with lock_table_safety [OF refl, of "[Acquire 7 1 Exclusive, Acquire 7 2 Shared]" 7] show ?thesis
    by blast
qed

section \<open>What a grant means\<close>

lemma mode_strong_refl: "mode_at_least_as_strong m m"
  by (cases m) simp_all

text \<open>A grant is recorded: when a request is granted to a transaction that held nothing
  on the resource, the table then holds it in the requested mode (or a stronger one),
  the transaction is listed among the holders with exactly that mode, and no other
  resource changes.\<close>

theorem grant_is_recorded:
  assumes "lt_wf lt" and "try_acquire lt r t mode = (Granted, ch, lt')"
    and "t \<notin> fst ` set (lt_holders lt r)"
  shows "(t, mode) \<in> set (lt_holders lt' r) \<and> already_holds (entry_or_new lt' r) t mode
    \<and> (\<forall>r'. r' \<noteq> r \<longrightarrow> lt_entry lt' r' = lt_entry lt r')"
  using assms(2)
proof (cases rule: try_acquire_cases)
  case held
  then have "t \<in> h_txid ` set (holders (entry_or_new lt r))"
    by (auto simp: already_holds_def list_ex_iff)
  then show ?thesis
    using assms(3) by (auto simp: lt_holders_map entry_or_new_def entry_new_def image_image split: option.splits)
next
  case grant
  have "t \<notin> h_txid ` set (holders (entry_or_new lt r))"
    using assms(3) by (auto simp: lt_holders_map entry_or_new_def entry_new_def image_image split: option.splits)
  then show ?thesis
    using grant assms(1) mode_strong_refl
    by (auto simp: lt_holders_def entry_or_new_def [of "put_entry _ _ _"] holders_add_holder already_holds_def)
qed simp_all

theorem grant_is_recorded_witness:
  "(2, Shared) \<in> set (lt_holders (lock_run lock_table_new [Acquire 7 1 Shared, Acquire 7 2 Shared]) 7)"
proof -
  let ?lt = "lock_run lock_table_new [Acquire 7 1 Shared]"
  have "lt_wf ?lt"
    by (rule lock_run_wf)
  moreover have "try_acquire ?lt 7 2 Shared = (Granted, None, lock_run lock_table_new [Acquire 7 1 Shared, Acquire 7 2 Shared])"
    by (simp add: lock_eval lt_entry_new lt_wf_new)
  moreover have "2 \<notin> fst ` set (lt_holders ?lt 7)"
    by (simp add: lock_eval lt_entry_new lt_wf_new)
  ultimately show ?thesis
    using grant_is_recorded by blast
qed

text \<open>An upgrade is granted and lost: a transaction holding a shared lock that asks for
  the exclusive one is told it was granted, the table keeps recording it as shared, and
  a second transaction is then granted a shared lock on the same resource at once.\<close>

theorem upgrade_granted_but_not_recorded:
  assumes "lt_wf lt" and "lt_holders lt r = [(t, Shared)]" and "u \<noteq> t"
    and "try_acquire lt r t Exclusive = (res, ch, lt')"
  shows "res = Granted \<and> lt_holders lt' r = [(t, Shared)]
    \<and> fst (try_acquire lt' r u Shared) = Granted"
proof -
  obtain e where e: "lt_entry lt r = Some e" "holders e = [\<lparr>h_txid = t, h_mode = Shared\<rparr>]"
    using assms(2) by (auto simp: lt_holders_def split: option.splits)
  have eo: "entry_or_new lt r = e"
    by (simp add: entry_or_new_def e(1))
  have "res = Granted \<and> lt_entry lt' r = Some (add_holder e t Exclusive)"
    using assms(4)
  proof (cases rule: try_acquire_cases)
    case grant
    then show ?thesis using assms(1) by (simp add: eo)
  qed (simp_all add: eo e already_holds_def compatible_with_holders_def)
  moreover have "add_holder e t Exclusive = e"
    by (simp add: add_holder_def e)
  ultimately have lt': "res = Granted" "lt_entry lt' r = Some e"
    by auto
  have "lt_holders lt' r = [(t, Shared)]"
    by (simp add: lt_holders_def lt' e)
  moreover have "fst (try_acquire lt' r u Shared) = Granted"
    by (simp add: try_acquire_def lt' compatible_with_holders_def e Let_def)
  ultimately show ?thesis
    using lt' by simp
qed

theorem upgrade_granted_but_not_recorded_witness:
  "fst (try_acquire (lock_run lock_table_new [Acquire 7 1 Shared, Acquire 7 1 Exclusive]) 7 2 Shared) = Granted"
proof -
  let ?lt = "lock_run lock_table_new [Acquire 7 1 Shared]"
  have "lt_wf ?lt"
    by (rule lock_run_wf)
  moreover have "lt_holders ?lt 7 = [(1, Shared)]"
    by (simp add: lock_eval lt_entry_new lt_wf_new)
  moreover obtain res ch lt' where "try_acquire ?lt 7 1 Exclusive = (res, ch, lt')"
    by (metis prod_cases3)
  ultimately show ?thesis
    using upgrade_granted_but_not_recorded [of ?lt 7 1 2 res ch lt'] by simp
qed

text \<open>Releases wake the queue in order: releasing a lock removes the releasing
  transaction from the holders, then hands the lock to a prefix of the wait queue in
  first-in first-out order, notifies exactly those waiters, and stops at the first waiter
  in conflict with a holder; other resources are untouched.\<close>

theorem release_grants_fifo_prefix:
  assumes "lt_ok lt" and "lt_entry lt r = Some e" and "release lt r t = (lt', sent)"
  shows "\<exists>granted rest. waiters e = granted @ rest \<and> sent = map (snd \<circ> snd) granted
    \<and> fst ` set (lt_holders lt' r) = {u. u \<in> fst ` set (lt_holders lt r) \<and> u \<noteq> t} \<union> fst ` set granted
    \<and> (rest \<noteq> [] \<longrightarrow> (\<exists>e'. lt_entry lt' r = Some e' \<and> waiters e' = rest \<and> head_blocked e'))
    \<and> (\<forall>r'. r' \<noteq> r \<longrightarrow> lt_entry lt' r' = lt_entry lt r')"
proof -
  have wf: "lt_wf lt" and ok: "entry_ok e"
    using assms(1,2) by (auto simp: lt_ok_def)
  then have hok: "holders_ok (holders e)"
    by (simp add: entry_ok_def)
  let ?e1 = "remove_holder e t"
  obtain e' where g: "grant_loop (holders ?e1) (waiters e) = (e', sent)"
    and lt': "lt' = put_entry lt r (if holders e' = [] \<and> waiters e' = [] then None else Some e')"
    using assms(2,3) by (auto simp: release_def grant_compatible_waiters_def entry_is_empty_def
        remove_holder_ok(3) [OF hok] split: prod.splits if_splits)
  from grant_loop_spec [OF remove_holder_ok(1) [OF hok] g]
  obtain granted where gr: "waiters e = granted @ waiters e'" "sent = map (snd \<circ> snd) granted"
    "head_blocked e'" "h_txid ` set (holders e') = h_txid ` set (holders ?e1) \<union> fst ` set granted"
    by blast
  have "fst ` set (lt_holders lt' r) = h_txid ` set (holders e')"
    using wf by (auto simp: lt' lt_holders_def image_image)
  also have "\<dots> = {u. u \<in> fst ` set (lt_holders lt r) \<and> u \<noteq> t} \<union> fst ` set granted"
    using remove_holder_ok(2) [OF hok, of t] by (auto simp: gr(4) lt_holders_def assms(2) image_iff)
  finally have "fst ` set (lt_holders lt' r) =
      {u. u \<in> fst ` set (lt_holders lt r) \<and> u \<noteq> t} \<union> fst ` set granted" .
  moreover have "lt_entry lt' r = Some e'" if "waiters e' \<noteq> []"
    using that wf by (simp add: lt')
  moreover have "\<forall>r'. r' \<noteq> r \<longrightarrow> lt_entry lt' r' = lt_entry lt r'"
    using wf by (simp add: lt')
  ultimately show ?thesis
    using gr by (intro exI [of _ granted] exI [of _ "waiters e'"]) auto
qed

theorem release_grants_fifo_prefix_witness:
  "fst ` set (lt_holders (fst (release (lock_run lock_table_new
     [Acquire 7 1 Exclusive, Acquire 7 2 Shared, Acquire 7 3 Shared]) 7 1)) 7) = {2, 3}"
proof -
  define lt where "lt = lock_run lock_table_new [Acquire 7 1 Exclusive, Acquire 7 2 Shared, Acquire 7 3 Shared]"
  let ?e = "\<lparr>holders = [\<lparr>h_txid = 1, h_mode = Exclusive\<rparr>],
      waiters = [(2, Shared, 0), (3, Shared, 1)]\<rparr>"
  have e: "lt_entry lt 7 = Some ?e"
    by (simp add: lock_eval lt_entry_new lt_wf_new next_channel_new lt_def)
  have "snd (release lt 7 1) = [0, 1]"
    by (simp add: lock_eval e)
  then obtain lt' where r: "release lt 7 1 = (lt', [0, 1])"
    by (metis prod.collapse)
  have "lt_ok lt"
    unfolding lt_def by (rule lock_run_ok)
  from release_grants_fifo_prefix [OF this e r] obtain granted rest
    where g: "waiters ?e = granted @ rest" "[0, 1] = map (snd \<circ> snd) granted"
      "fst ` set (lt_holders lt' 7) = {u. u \<in> fst ` set (lt_holders lt 7) \<and> u \<noteq> 1} \<union> fst ` set granted"
    by (elim exE conjE) (rule that; assumption)
  have "length granted = 2"
    using arg_cong [OF g(2), of length] by simp
  then have "granted = take 2 (granted @ rest)"
    by simp
  then have "fst ` set granted = {2, 3}"
    by (simp add: g(1) [symmetric])
  moreover have "{u. u \<in> fst ` set (lt_holders lt 7) \<and> u \<noteq> 1} = {}"
    by (simp add: lt_holders_def e)
  ultimately have "fst ` set (lt_holders (fst (release lt 7 1)) 7) = {2, 3}"
    using g(3) by (simp only: r fst_conv Un_empty_left)
  then show ?thesis
    by (simp only: lt_def)
qed

end
