(* ===== verification/WoundWait.thy ===== *)
theory WoundWait
  imports Txid
begin

text \<open>
  The wound-wait oracle of \<open>src/src/txn/wound_wait.rs\<close>: the decision on a lock conflict
  and the wound counters. The counter table is a map; \<open>record_wound\<close> runs on whatever
  state owns the table, because the abort callback may change that state, the table
  included, before the counter is raised.
\<close>

section \<open>Definitions\<close>

datatype wound_action = Wound | Wait

type_synonym wound_wait = "txid \<rightharpoonup> u8"

definition IMMUNITY_THRESHOLD :: u8 where
  "IMMUNITY_THRESHOLD = 3"

definition wound_wait_new :: wound_wait where
  "wound_wait_new = Map.empty"

definition check :: "wound_wait \<Rightarrow> txid \<Rightarrow> txid \<Rightarrow> wound_action" where
  "check w requester_ts holder_ts = (if requester_ts < holder_ts then Wound else Wait)"

text \<open>\<open>u8::saturating_add\<close>.\<close>

definition saturating_add_u8 :: "u8 \<Rightarrow> u8 \<Rightarrow> u8" where
  "saturating_add_u8 a b = (if unat a + unat b \<le> 255 then a + b else 255)"

definition wound_count :: "wound_wait \<Rightarrow> txid \<Rightarrow> u8" where
  "wound_count w t = (case w t of Some n \<Rightarrow> n | None \<Rightarrow> 0)"

definition is_immune :: "wound_wait \<Rightarrow> txid \<Rightarrow> bool" where
  "is_immune w t \<longleftrightarrow> wound_count w t \<ge> IMMUNITY_THRESHOLD"

definition wound_cleanup :: "wound_wait \<Rightarrow> txid \<Rightarrow> wound_wait" where
  "wound_cleanup w t = w(t := None)"

definition bump_wound :: "txid \<Rightarrow> wound_wait \<Rightarrow> wound_wait" where
  "bump_wound victim w =
     (let count = (case w victim of Some n \<Rightarrow> n | None \<Rightarrow> 0)
      in w(victim \<mapsto> saturating_add_u8 count 1))"

definition record_wound ::
    "((wound_wait \<Rightarrow> wound_wait) \<Rightarrow> 's \<Rightarrow> 's) \<Rightarrow> txid \<Rightarrow> (txid \<Rightarrow> 's \<Rightarrow> 's) \<Rightarrow> 's \<Rightarrow> 's" where
  "record_wound update victim on_abort s = update (bump_wound victim) (on_abort victim s)"

section \<open>Counters\<close>

lemma unat_saturating_add: "unat (saturating_add_u8 a b) = min 255 (unat a + unat b)"
proof (cases "unat a + unat b \<le> 255")
  case True
  then have "unat (a + b) = unat a + unat b"
    by (intro unat_add_lem [THEN iffD1]) simp
  with True show ?thesis
    by (simp only: saturating_add_u8_def if_True min_absorb2)
qed (simp add: saturating_add_u8_def)

lemma wound_count_bump:
  "unat (wound_count (bump_wound v w) t) =
     (if t = v then min 255 (Suc (unat (wound_count w t))) else unat (wound_count w t))"
  by (simp add: bump_wound_def wound_count_def Let_def unat_saturating_add split: option.split)

lemma wound_count_cleanup [simp]: "wound_count (wound_cleanup w v) t = (if t = v then 0 else wound_count w t)"
  by (simp add: wound_cleanup_def wound_count_def)

lemma wound_count_bumps: "unat (wound_count ((bump_wound v ^^ n) w) v) = min 255 (unat (wound_count w v) + n)"
  using unat_u8_less [of "wound_count w v"] by (induction n) (auto simp: wound_count_bump)

text \<open>Wound counters: recording n wounds of a transaction, with a callback that leaves the
  counters alone, raises its counter to the number of wounds, saturated at 255 and never
  wrapped, makes it immune exactly from the third wound on, leaves every other counter
  unchanged, and cleanup resets it.\<close>

theorem wound_counter_saturates:
  assumes "\<And>s. on_abort v s = s" and "w' = (record_wound (\<lambda>f. f) v on_abort ^^ n) w" and "w v = None"
  shows "unat (wound_count w' v) = min 255 n \<and> (is_immune w' v \<longleftrightarrow> 3 \<le> n)
    \<and> (\<forall>t. t \<noteq> v \<longrightarrow> wound_count w' t = wound_count w t)
    \<and> wound_count (wound_cleanup w' v) v = 0"
proof -
  have w': "w' = (bump_wound v ^^ n) w"
  proof -
    have "record_wound (\<lambda>f. f) v on_abort = bump_wound v"
      by (simp add: record_wound_def assms(1) fun_eq_iff)
    with assms(2) show ?thesis by simp
  qed
  have c: "unat (wound_count w' v) = min 255 n"
    using assms(3) by (simp add: w' wound_count_bumps) (simp add: wound_count_def)
  have "is_immune w' v \<longleftrightarrow> 3 \<le> unat (wound_count w' v)"
    by (simp add: is_immune_def IMMUNITY_THRESHOLD_def word_le_nat_alt)
  moreover have "wound_count w' t = wound_count w t" if "t \<noteq> v" for t
    unfolding w' using that by (induction n) (auto simp: wound_count_def bump_wound_def)
  ultimately show ?thesis
    using c by auto
qed

theorem wound_counter_saturates_witness:
  "is_immune ((record_wound (\<lambda>f. f) 5 (\<lambda>_ s. s) ^^ 3) wound_wait_new) 5"
proof -
  have "wound_wait_new 5 = None"
    by (simp add: wound_wait_new_def)
  from wound_counter_saturates [where on_abort = "\<lambda>_ s. s" and n = 3 and v = 5 and w = wound_wait_new, OF refl refl this] show ?thesis
    by (simp only: order_refl)
qed

section \<open>Deadlock freedom\<close>



end
