(* ===== verification/Phantom.thy ===== *)
theory Phantom
  imports Txid
begin

text \<open>
  Phantom and write-skew tracking of \<open>src/src/txn/phantom.rs\<close>: the global tracker of
  read-write antidependencies, the per-transaction flags, and the synthetic resource ids
  of ranges and predicates.
\<close>

section \<open>Definitions\<close>

record ssi_tracker =
  out_set :: "txid set"
  in_set :: "txid set"

definition ssi_tracker_new :: ssi_tracker where
  "ssi_tracker_new = \<lparr>out_set = {}, in_set = {}\<rparr>"

record ssi_flags =
  in_conflict :: bool
  out_conflict :: bool

definition ssi_flags_new :: ssi_flags where
  "ssi_flags_new = \<lparr>in_conflict = False, out_conflict = False\<rparr>"

definition flags_is_doomed :: "ssi_flags \<Rightarrow> bool" where
  "flags_is_doomed f \<longleftrightarrow> in_conflict f \<and> out_conflict f"

definition record_rw_antidependency ::
    "ssi_tracker \<Rightarrow> txid \<Rightarrow> txid \<Rightarrow> ssi_flags \<Rightarrow> ssi_flags \<Rightarrow> ssi_tracker \<times> ssi_flags \<times> ssi_flags" where
  "record_rw_antidependency s reader writer reader_flags writer_flags =
     (s\<lparr>out_set := insert reader (out_set s), in_set := insert writer (in_set s)\<rparr>,
      reader_flags\<lparr>out_conflict := True\<rparr>, writer_flags\<lparr>in_conflict := True\<rparr>)"

definition mark_out_conflict :: "ssi_tracker \<Rightarrow> txid \<Rightarrow> ssi_tracker" where
  "mark_out_conflict s t = s\<lparr>out_set := insert t (out_set s)\<rparr>"

definition ssi_is_doomed :: "ssi_tracker \<Rightarrow> txid \<Rightarrow> ssi_flags \<Rightarrow> bool" where
  "ssi_is_doomed s t flags =
     (let has_out = (out_conflict flags \<or> t \<in> out_set s);
          has_in = (in_conflict flags \<or> t \<in> in_set s)
      in has_out \<and> has_in)"

definition ssi_cleanup :: "ssi_tracker \<Rightarrow> txid \<Rightarrow> ssi_tracker" where
  "ssi_cleanup s t = s\<lparr>out_set := out_set s - {t}, in_set := in_set s - {t}\<rparr>"

definition range_resource_id :: "u64 \<Rightarrow> u64" where
  "range_resource_id page_id = page_id OR push_bit 63 1"

definition FNV_OFFSET :: u64 where
  "FNV_OFFSET = 0x811c9dc5"

definition FNV_PRIME :: u64 where
  "FNV_PRIME = 0x01000193"

definition fnv_step :: "u64 \<Rightarrow> u8 \<Rightarrow> u64" where
  "fnv_step hash byte = (hash XOR ucast byte) * FNV_PRIME"

definition predicate_resource_id :: "bytes \<Rightarrow> u64" where
  "predicate_resource_id predicate = foldl fnv_step FNV_OFFSET predicate OR push_bit 63 1"

section \<open>The dangerous structure\<close>

text \<open>
  A sequence of recorded antidependencies (reader, writer), starting from an empty tracker,
  on flags of the transaction under test that both start clear.
\<close>

fun record_all :: "txid \<Rightarrow> ssi_tracker \<Rightarrow> ssi_flags \<Rightarrow> (txid \<times> txid) list \<Rightarrow> ssi_tracker \<times> ssi_flags" where
  "record_all t s f [] = (s, f)"
| "record_all t s f ((reader, writer) # deps) =
     (let (s', rf, wf) = record_rw_antidependency s reader writer f f;
          f' = f\<lparr>out_conflict := out_conflict (if reader = t then rf else f),
                 in_conflict := in_conflict (if writer = t then wf else f)\<rparr>
      in record_all t s' f' deps)"

lemma record_all_sets:
  "record_all t s f deps = (s', f') \<Longrightarrow>
     out_set s' = out_set s \<union> fst ` set deps \<and> in_set s' = in_set s \<union> snd ` set deps \<and>
     (out_conflict f' \<longleftrightarrow> out_conflict f \<or> t \<in> fst ` set deps) \<and>
     (in_conflict f' \<longleftrightarrow> in_conflict f \<or> t \<in> snd ` set deps)"
  by (induction t s f deps rule: record_all.induct) (auto simp: record_rw_antidependency_def Let_def)

text \<open>The commit check finds exactly the pivots: after any sequence of recorded
  antidependencies a transaction is doomed if and only if it is the reader of one and the
  writer of another (or the same), the global tracker and the transaction's own flags
  agree on it, and cleanup removes it without affecting other transactions.\<close>

theorem ssi_doomed_iff_pivot:
  assumes "record_all t ssi_tracker_new ssi_flags_new deps = (s, f)"
  shows "(ssi_is_doomed s t f \<longleftrightarrow> (\<exists>w. (t, w) \<in> set deps) \<and> (\<exists>r. (r, t) \<in> set deps))
    \<and> ssi_is_doomed s t ssi_flags_new = flags_is_doomed f
    \<and> \<not> ssi_is_doomed (ssi_cleanup s t) t ssi_flags_new
    \<and> (\<forall>u g. u \<noteq> t \<longrightarrow> ssi_is_doomed (ssi_cleanup s t) u g = ssi_is_doomed s u g)"
proof -
  note r = record_all_sets [OF assms]
  have "t \<in> fst ` set deps \<longleftrightarrow> (\<exists>w. (t, w) \<in> set deps)" "t \<in> snd ` set deps \<longleftrightarrow> (\<exists>r. (r, t) \<in> set deps)"
    by force+
  with r show ?thesis
    by (simp add: ssi_is_doomed_def ssi_cleanup_def flags_is_doomed_def ssi_tracker_new_def
        ssi_flags_new_def conj_commute)
qed

theorem ssi_doomed_iff_pivot_witness:
  "ssi_is_doomed (fst (record_all 2 ssi_tracker_new ssi_flags_new [(1, 2), (2, 3)])) 2
     (snd (record_all 2 ssi_tracker_new ssi_flags_new [(1, 2), (2, 3)]))"
  using ssi_doomed_iff_pivot [of 2 "[(1, 2), (2, 3)]"]
  by (metis list.set_intros(1) list.set_intros(2) prod.collapse)

section \<open>Resource ids\<close>

lemma bit_msb_mask: "bit (w OR push_bit 63 1 :: u64) n \<longleftrightarrow> bit w n \<or> n = 63"
proof -
  have "bit (push_bit 63 1 :: u64) n \<longleftrightarrow> n = 63"
    unfolding bit_push_bit_iff by (auto simp: bit_1_iff)
  then show ?thesis
    by (simp only: bit_or_iff)
qed

text \<open>Range ids and predicate ids live in the upper half of the id space: their top bit is
  set, so they differ from every row id below 2 to the 63; on page ids below 2 to the 63
  the range id is injective.\<close>

theorem synthetic_ids_disjoint_from_rows:
  "bit (range_resource_id p) 63 \<and> bit (predicate_resource_id bs) 63
   \<and> (\<forall>row. \<not> bit row 63 \<longrightarrow> range_resource_id p \<noteq> row \<and> predicate_resource_id bs \<noteq> row)
   \<and> (\<forall>q. \<not> bit p 63 \<longrightarrow> \<not> bit q 63 \<longrightarrow> range_resource_id p = range_resource_id q \<longrightarrow> p = q)"
proof -
  have msb: "bit (range_resource_id p) 63" "bit (predicate_resource_id bs) 63"
    unfolding range_resource_id_def predicate_resource_id_def bit_msb_mask by simp_all
  have "p = q" if "\<not> bit p 63" "\<not> bit q 63" "range_resource_id p = range_resource_id q" for q
  proof (rule bit_eqI)
    fix n
    have "bit (range_resource_id p) n \<longleftrightarrow> bit (range_resource_id q) n"
      using that(3) by simp
    then show "bit p n = bit q n"
      using that(1,2) unfolding range_resource_id_def bit_msb_mask by auto
  qed
  with msb show ?thesis
    by blast
qed

theorem synthetic_ids_disjoint_from_rows_witness:
  "range_resource_id 5 \<noteq> 6"
  using synthetic_ids_disjoint_from_rows [of 5 "[]"] by (auto simp: bit_numeral_rec)

end
