(* ===== verification/WalRecord.thy ===== *)
theory WalRecord
  imports Prelude "HOL-Library.Monad_Syntax"
begin

text \<open>
  The write-ahead-log record format of \<open>src/src/wal/record.rs\<close>. The two digests come from
  the crates \<open>crc32c\<close> and \<open>twox_hash\<close>: they are the fields of the parameter \<open>H\<close>. The
  clock read by \<open>WalRecord::new\<close> is the argument \<open>now\<close>. Decoding follows the cursor of the
  source, an early return being \<open>None\<close>.
\<close>

section \<open>Definitions\<close>

record digests =
  crc32c :: "bytes \<Rightarrow> u32"
  xxh64 :: "bytes \<Rightarrow> u64"

definition WAL_MAGIC_START :: u32 where
  "WAL_MAGIC_START = 0x57414C21"

definition WAL_MAGIC_END :: u32 where
  "WAL_MAGIC_END = 0x214C4157"

definition WAL_VERSION :: u8 where
  "WAL_VERSION = 1"

definition WAL_RECORD_MIN_SIZE :: nat where
  "WAL_RECORD_MIN_SIZE = 4 + 1 + 1 + 8 + 8 + 8 + 8 + 4 + 4 + 8 + 4"

datatype record_type =
    Begin | Commit | Abort | PageInsert
  | PageUpdate | PageFree | BitmapUpdate | CheckpointBegin
  | CheckpointEnd | NodeInsert | NodeDelete | EdgeInsert
  | EdgeDelete | PropertyInsert | NodeUpdate | EdgeUpdate
  | PropertyUpdate | RdfTripleInsert | RdfTripleDelete | Clr
  | SegmentDescriptor | CompactionBegin | CompactionEnd | IndexPageInsert
  | IndexPageUpdate | IndexPageFree

fun record_type_code :: "record_type \<Rightarrow> u8" where
  "record_type_code Begin = 0x01"
| "record_type_code Commit = 0x02"
| "record_type_code Abort = 0x03"
| "record_type_code PageInsert = 0x10"
| "record_type_code PageUpdate = 0x11"
| "record_type_code PageFree = 0x12"
| "record_type_code BitmapUpdate = 0x13"
| "record_type_code CheckpointBegin = 0x20"
| "record_type_code CheckpointEnd = 0x21"
| "record_type_code NodeInsert = 0x30"
| "record_type_code NodeDelete = 0x31"
| "record_type_code EdgeInsert = 0x32"
| "record_type_code EdgeDelete = 0x33"
| "record_type_code PropertyInsert = 0x34"
| "record_type_code NodeUpdate = 0x35"
| "record_type_code EdgeUpdate = 0x36"
| "record_type_code PropertyUpdate = 0x37"
| "record_type_code RdfTripleInsert = 0x38"
| "record_type_code RdfTripleDelete = 0x39"
| "record_type_code Clr = 0x40"
| "record_type_code SegmentDescriptor = 0x50"
| "record_type_code CompactionBegin = 0x60"
| "record_type_code CompactionEnd = 0x61"
| "record_type_code IndexPageInsert = 0x70"
| "record_type_code IndexPageUpdate = 0x71"
| "record_type_code IndexPageFree = 0x72"

definition record_type_of :: "u8 \<Rightarrow> record_type option" where
  "record_type_of b =
     (if b = 0x01 then Some Begin
      else if b = 0x02 then Some Commit
      else if b = 0x03 then Some Abort
      else if b = 0x10 then Some PageInsert
      else if b = 0x11 then Some PageUpdate
      else if b = 0x12 then Some PageFree
      else if b = 0x13 then Some BitmapUpdate
      else if b = 0x20 then Some CheckpointBegin
      else if b = 0x21 then Some CheckpointEnd
      else if b = 0x30 then Some NodeInsert
      else if b = 0x31 then Some NodeDelete
      else if b = 0x32 then Some EdgeInsert
      else if b = 0x33 then Some EdgeDelete
      else if b = 0x34 then Some PropertyInsert
      else if b = 0x35 then Some NodeUpdate
      else if b = 0x36 then Some EdgeUpdate
      else if b = 0x37 then Some PropertyUpdate
      else if b = 0x38 then Some RdfTripleInsert
      else if b = 0x39 then Some RdfTripleDelete
      else if b = 0x40 then Some Clr
      else if b = 0x50 then Some SegmentDescriptor
      else if b = 0x60 then Some CompactionBegin
      else if b = 0x61 then Some CompactionEnd
      else if b = 0x70 then Some IndexPageInsert
      else if b = 0x71 then Some IndexPageUpdate
      else if b = 0x72 then Some IndexPageFree
      else None)"


record wal_record =
  record_type :: record_type
  r_txid :: u64
  r_lsn :: u64
  r_prev_lsn :: u64
  r_timestamp :: u64
  r_payload :: bytes
  r_header_crc :: u32
  r_payload_hash :: u64

definition header_bytes :: "wal_record \<Rightarrow> bytes" where
  "header_bytes r =
     to_be_bytes WAL_MAGIC_START @ [WAL_VERSION] @ [record_type_code (record_type r)] @
     to_be_bytes (r_txid r) @ to_be_bytes (r_lsn r) @ to_be_bytes (r_prev_lsn r) @
     to_be_bytes (r_timestamp r) @ to_be_bytes (of_nat (length (r_payload r)) :: u32)"

definition compute_header_crc :: "digests \<Rightarrow> wal_record \<Rightarrow> u32" where
  "compute_header_crc H r = crc32c H (header_bytes r @ to_be_bytes (0 :: u32))"

definition compute_payload_hash :: "digests \<Rightarrow> wal_record \<Rightarrow> u64" where
  "compute_payload_hash H r = xxh64 H (r_payload r)"

definition seal :: "digests \<Rightarrow> wal_record \<Rightarrow> wal_record" where
  "seal H r =
     (let r1 = r\<lparr>r_payload_hash := compute_payload_hash H r\<rparr>
      in r1\<lparr>r_header_crc := compute_header_crc H r1\<rparr>)"

definition wal_record_new ::
    "digests \<Rightarrow> u64 \<Rightarrow> record_type \<Rightarrow> u64 \<Rightarrow> u64 \<Rightarrow> u64 \<Rightarrow> bytes \<Rightarrow> wal_record" where
  "wal_record_new H now rt t lsn prev_lsn payload =
     seal H \<lparr>record_type = rt, r_txid = t, r_lsn = lsn, r_prev_lsn = prev_lsn, r_timestamp = now,
             r_payload = payload, r_header_crc = 0, r_payload_hash = 0\<rparr>"

definition set_lsn :: "digests \<Rightarrow> wal_record \<Rightarrow> u64 \<Rightarrow> wal_record" where
  "set_lsn H r lsn = seal H (r\<lparr>r_lsn := lsn\<rparr>)"

definition on_disk_size :: "wal_record \<Rightarrow> nat" where
  "on_disk_size r = WAL_RECORD_MIN_SIZE + length (r_payload r)"

definition wal_encode :: "wal_record \<Rightarrow> bytes" where
  "wal_encode r =
     header_bytes r @ to_be_bytes (r_header_crc r) @ r_payload r @
     to_be_bytes (r_payload_hash r) @ to_be_bytes WAL_MAGIC_END"

definition read_u8 :: "bytes \<Rightarrow> nat \<Rightarrow> u8 option" where
  "read_u8 buf offset = (if offset < length buf then Some (buf ! offset) else None)"

definition read_arr :: "nat \<Rightarrow> bytes \<Rightarrow> nat \<Rightarrow> bytes option" where
  "read_arr n buf offset = (if length buf < offset + n then None else Some (slice buf offset n))"

definition wal_decode :: "digests \<Rightarrow> bytes \<Rightarrow> nat \<Rightarrow> (wal_record \<times> nat) option" where
  "wal_decode H buf offset =
     (if length buf < offset + WAL_RECORD_MIN_SIZE then None else do {
        ms \<leftarrow> read_arr 4 buf offset;
        if (from_be_bytes ms :: u32) \<noteq> WAL_MAGIC_START then None else do {
        version \<leftarrow> read_u8 buf (offset + 4);
        if version \<noteq> WAL_VERSION then None else do {
        tb \<leftarrow> read_u8 buf (offset + 5);
        rt \<leftarrow> record_type_of tb;
        t \<leftarrow> read_arr 8 buf (offset + 6);
        lsn \<leftarrow> read_arr 8 buf (offset + 14);
        prev \<leftarrow> read_arr 8 buf (offset + 22);
        ts \<leftarrow> read_arr 8 buf (offset + 30);
        pl \<leftarrow> read_arr 4 buf (offset + 38);
        crc \<leftarrow> read_arr 4 buf (offset + 42);
        let payload_len = unat (from_be_bytes pl :: u32);
        if length buf < offset + 46 + payload_len + 8 + 4 then None else do {
        let payload = slice buf (offset + 46) payload_len;
        h \<leftarrow> read_arr 8 buf (offset + 46 + payload_len);
        me \<leftarrow> read_arr 4 buf (offset + 54 + payload_len);
        if (from_be_bytes me :: u32) \<noteq> WAL_MAGIC_END then None else do {
        let r = \<lparr>record_type = rt, r_txid = from_be_bytes t, r_lsn = from_be_bytes lsn,
                 r_prev_lsn = from_be_bytes prev, r_timestamp = from_be_bytes ts, r_payload = payload,
                 r_header_crc = from_be_bytes crc, r_payload_hash = from_be_bytes h\<rparr>;
        if compute_header_crc H r \<noteq> r_header_crc r then None
        else if compute_payload_hash H r \<noteq> r_payload_hash r then None
        else Some (r, 58 + payload_len)
        }}}}})"

section \<open>Reading back what was written\<close>

definition record_ok :: "digests \<Rightarrow> wal_record \<Rightarrow> bool" where
  "record_ok H r \<longleftrightarrow> length (r_payload r) < 2 ^ 32 \<and>
     r_header_crc r = compute_header_crc H r \<and> r_payload_hash r = compute_payload_hash H r"

lemma record_type_of_code [simp]: "record_type_of (record_type_code t) = Some t"
  by (cases t) (simp_all add: record_type_of_def)

lemma record_type_code_of: "record_type_of b = Some t \<Longrightarrow> record_type_code t = b"
  by (auto simp: record_type_of_def split: if_splits)

lemma header_bytes_digests [simp]:
  "header_bytes (r\<lparr>r_header_crc := c\<rparr>) = header_bytes r"
  "header_bytes (r\<lparr>r_payload_hash := h\<rparr>) = header_bytes r"
  by (simp_all add: header_bytes_def)

lemma seal_ok [simp]: "record_ok H (seal H r) \<longleftrightarrow> length (r_payload r) < 2 ^ 32"
  by (simp add: record_ok_def seal_def Let_def compute_header_crc_def compute_payload_hash_def)

lemma seal_simps [simp]:
  "record_type (seal H r) = record_type r" "r_txid (seal H r) = r_txid r" "r_lsn (seal H r) = r_lsn r"
  "r_prev_lsn (seal H r) = r_prev_lsn r" "r_timestamp (seal H r) = r_timestamp r"
  "r_payload (seal H r) = r_payload r"
  by (simp_all add: seal_def Let_def)

lemma length_header_bytes [simp]: "length (header_bytes r) = 42"
  by (simp add: header_bytes_def)

lemma length_wal_encode [simp]: "length (wal_encode r) = on_disk_size r"
  by (simp add: wal_encode_def on_disk_size_def WAL_RECORD_MIN_SIZE_def)

lemma read_u8_drop: "off \<le> length buf \<Longrightarrow> read_u8 buf (off + k) = read_u8 (drop off buf) k"
  by (simp add: read_u8_def less_diff_conv add.commute)

lemma read_arr_drop: "off \<le> length buf \<Longrightarrow> read_arr n buf (off + k) = read_arr n (drop off buf) k"
  by (auto simp: read_arr_def slice_def add.commute add.left_commute)

lemma slice_drop: "slice buf (off + k) n = slice (drop off buf) k n"
  by (simp add: slice_def add.commute)

lemma wal_decode_drop: "wal_decode H buf off = wal_decode H (drop off buf) 0"
proof (cases "off \<le> length buf")
  case True
  have len: "length buf < off + k \<longleftrightarrow> length (drop off buf) < k" for k
    using True by auto
  show ?thesis
    unfolding wal_decode_def add.assoc len read_u8_drop [OF True] read_arr_drop [OF True]
      read_arr_drop [OF True, where k = 0, simplified] slice_drop add_0
    by (rule refl)
qed (simp add: wal_decode_def WAL_RECORD_MIN_SIZE_def)

text \<open>The fields of an encoded record, at the offsets the decoder reads them.\<close>

lemma wal_encode_fields:
  fixes r rest
  defines "buf \<equiv> wal_encode r @ rest" and "n \<equiv> length (r_payload r)"
  shows "slice buf 0 4 = to_be_bytes WAL_MAGIC_START" "buf ! 4 = WAL_VERSION"
    "buf ! 5 = record_type_code (record_type r)" "slice buf 6 8 = to_be_bytes (r_txid r)"
    "slice buf 14 8 = to_be_bytes (r_lsn r)" "slice buf 22 8 = to_be_bytes (r_prev_lsn r)"
    "slice buf 30 8 = to_be_bytes (r_timestamp r)" "slice buf 38 4 = to_be_bytes (of_nat n :: u32)"
    "slice buf 42 4 = to_be_bytes (r_header_crc r)" "slice buf 46 n = r_payload r"
    "slice buf (46 + n) 8 = to_be_bytes (r_payload_hash r)"
    "slice buf (54 + n) 4 = to_be_bytes WAL_MAGIC_END"
    "length buf = 58 + n + length rest"
proof -
  have 1: "buf = (header_bytes r @ to_be_bytes (r_header_crc r) @ r_payload r) @
      to_be_bytes (r_payload_hash r) @ to_be_bytes WAL_MAGIC_END @ rest"
    by (simp add: buf_def wal_encode_def)
  show "slice buf (46 + n) 8 = to_be_bytes (r_payload_hash r)"
    unfolding 1 by (rule slice_append_mid) (simp_all add: n_def)
  have 2: "buf = (header_bytes r @ to_be_bytes (r_header_crc r) @ r_payload r @
      to_be_bytes (r_payload_hash r)) @ to_be_bytes WAL_MAGIC_END @ rest"
    by (simp add: buf_def wal_encode_def)
  show "slice buf (54 + n) 4 = to_be_bytes WAL_MAGIC_END"
    unfolding 2 by (rule slice_append_mid) (simp_all add: n_def)
qed (simp_all add: assms wal_encode_def header_bytes_def slice_def nth_append on_disk_size_def)

lemma wal_record_eta:
  "\<lparr>record_type = record_type r, r_txid = r_txid r, r_lsn = r_lsn r, r_prev_lsn = r_prev_lsn r,
    r_timestamp = r_timestamp r, r_payload = r_payload r, r_header_crc = r_header_crc r,
    r_payload_hash = r_payload_hash r\<rparr> = r"
  by simp

lemma wal_decode_encode_0:
  assumes "record_ok H r"
  shows "wal_decode H (wal_encode r @ rest) 0 = Some (r, on_disk_size r)"
proof -
  have n: "unat (of_nat (length (r_payload r)) :: u32) = length (r_payload r)"
    using assms by (simp add: record_ok_def unat_of_nat)
  have crc: "compute_header_crc H r = r_header_crc r" "compute_payload_hash H r = r_payload_hash r"
    using assms by (simp_all add: record_ok_def)
  show ?thesis
    by (simp add: wal_decode_def read_arr_def read_u8_def wal_encode_fields n crc wal_record_eta
        WAL_RECORD_MIN_SIZE_def on_disk_size_def Let_def del: length_append)
qed

lemma wal_decode_encode:
  assumes "record_ok H r" "length pre = off"
  shows "wal_decode H (pre @ wal_encode r @ rest) off = Some (r, on_disk_size r)"
  using assms by (simp add: wal_decode_drop [of H _ off] wal_decode_encode_0)

interpretation wal_format: codec wal_encode "\<lambda>bs. map_option fst (wal_decode H bs 0)" "record_ok H" for H
  by unfold_locales (simp add: wal_decode_encode_0)

text \<open>Conversely, whatever decodes is an encoding.\<close>

lemma slices_take: "i + j \<le> length b \<Longrightarrow> take i b @ slice b i j = take (i + j) b"
  by (simp add: slice_def take_add)

lemma slice_single: "i < length b \<Longrightarrow> [b ! i] = slice b i 1"
  by (simp add: slice_def take_Suc_conv_app_nth hd_drop_conv_nth take_Suc)

lemma wal_decode_0D:
  assumes "wal_decode H b 0 = Some (r, n)"
  defines "p \<equiv> unat (from_be_bytes (slice b 38 4) :: u32)"
  shows "58 + p \<le> length b" "n = 58 + p" "(from_be_bytes (slice b 0 4) :: u32) = WAL_MAGIC_START"
    "b ! 4 = WAL_VERSION" "record_type_of (b ! 5) = Some (record_type r)"
    "r_txid r = from_be_bytes (slice b 6 8)" "r_lsn r = from_be_bytes (slice b 14 8)"
    "r_prev_lsn r = from_be_bytes (slice b 22 8)" "r_timestamp r = from_be_bytes (slice b 30 8)"
    "r_header_crc r = from_be_bytes (slice b 42 4)" "r_payload r = slice b 46 p"
    "r_payload_hash r = from_be_bytes (slice b (46 + p) 8)"
    "(from_be_bytes (slice b (54 + p) 4) :: u32) = WAL_MAGIC_END"
    "compute_header_crc H r = r_header_crc r" "compute_payload_hash H r = r_payload_hash r"
  using assms by (auto simp: wal_decode_def read_arr_def read_u8_def Let_def WAL_RECORD_MIN_SIZE_def
      split: if_splits option.splits bind_splits)

lemma wal_decode_0_encode:
  assumes "wal_decode H b 0 = Some (r, n)"
  shows "record_ok H r \<and> n = on_disk_size r \<and> n \<le> length b \<and> take n b = wal_encode r"
proof -
  define p where "p = unat (from_be_bytes (slice b 38 4) :: u32)"
  note d = wal_decode_0D [OF assms, folded p_def]
  have p: "length (r_payload r) = p" and n: "n = on_disk_size r"
    using d(1,2,11) by (simp_all add: on_disk_size_def WAL_RECORD_MIN_SIZE_def)
  have s0: "slice b 0 4 = take 4 b"
    by (simp add: slice_def)
  have "(of_nat p :: u32) = from_be_bytes (slice b 38 4)"
    by (simp add: p_def)
  then have "header_bytes r = slice b 0 4 @ slice b 4 1 @ slice b 5 1 @ slice b 6 8 @ slice b 14 8 @
      slice b 22 8 @ slice b 30 8 @ slice b 38 4"
    using d(1) by (simp add: header_bytes_def p d(3)[symmetric] d(4) [symmetric] d(6-9)
        record_type_code_of [OF d(5)] to_from_be_u64 to_from_be_u32 slice_single)
  also have "\<dots> = take 42 b"
    using d(1) s0 by (simp add: slices_take flip: append_assoc)
  finally have "wal_encode r = take 42 b @ slice b 42 4 @ slice b 46 p @ slice b (46 + p) 8 @ slice b (54 + p) 4"
    using d(1) by (simp add: wal_encode_def d(10-12) d(13) [symmetric] to_from_be_u64 to_from_be_u32)
  also have "\<dots> = take n b"
    using d(1,2) by (simp add: slices_take flip: append_assoc)
  finally have "take n b = wal_encode r"
    by simp
  moreover have "record_ok H r"
    using d(14,15) p unat_u32_less [of "from_be_bytes (slice b 38 4)"] by (simp add: record_ok_def p_def)
  ultimately show ?thesis
    using n d(1,2) by simp
qed

lemma wal_decode_imp_encode:
  assumes "wal_decode H buf off = Some (r, n)"
  shows "record_ok H r \<and> n = on_disk_size r \<and> off + n \<le> length buf \<and> slice buf off n = wal_encode r"
proof -
  have d: "record_ok H r" "n = on_disk_size r" "n \<le> length buf - off" "slice buf off n = wal_encode r"
    using wal_decode_0_encode [OF assms [unfolded wal_decode_drop [of H buf off]]]
    by (auto simp: slice_def)
  have "0 < n"
    by (simp add: d(2) on_disk_size_def WAL_RECORD_MIN_SIZE_def)
  with d show ?thesis
    by auto
qed

text \<open>Log record round trip: a record built by the constructor and stamped with its log
  sequence number, with a payload below 4 GiB, decodes at the offset where its encoding
  starts, whatever bytes surround it, to exactly that record and its size on disk.\<close>

theorem wal_record_round_trip:
  assumes "length payload < 2 ^ 32" and "r = set_lsn H (wal_record_new H now rt t lsn prev payload) lsn'"
  shows "wal_decode H (pre @ wal_encode r @ rest) (length pre) = Some (r, on_disk_size r)
    \<and> length (wal_encode r) = on_disk_size r \<and> record_type r = rt \<and> r_txid r = t \<and> r_lsn r = lsn'
    \<and> r_prev_lsn r = prev \<and> r_timestamp r = now \<and> r_payload r = payload"
  using assms wal_decode_encode [of H r pre "length pre" rest] by (simp add: set_lsn_def wal_record_new_def)

text \<open>Stand-ins for the two digest functions, used by the witnesses.\<close>

definition demo_digests :: digests where
  "demo_digests = \<lparr>crc32c = \<lambda>bs. of_nat (length bs), xxh64 = \<lambda>bs. of_nat (le_value bs)\<rparr>"

theorem wal_record_round_trip_witness:
  "wal_decode demo_digests ([9] @ wal_encode (set_lsn demo_digests (wal_record_new demo_digests 5 Commit 7 0 0 [1, 2]) 33) @ [0]) 1
   = Some (set_lsn demo_digests (wal_record_new demo_digests 5 Commit 7 0 0 [1, 2]) 33, 60)"
proof -
  let ?r = "set_lsn demo_digests (wal_record_new demo_digests 5 Commit 7 0 0 [1, 2]) 33"
  have "length [1, 2 :: u8] < 2 ^ 32"
    by simp
  note w = wal_record_round_trip [OF this refl, where H = demo_digests and now = 5 and rt = Commit and t = 7
      and lsn = 0 and prev = 0 and lsn' = 33 and pre = "[9]" and rest = "[0]"]
  then have "on_disk_size ?r = 60"
    by (simp add: on_disk_size_def WAL_RECORD_MIN_SIZE_def)
  with w show ?thesis
    by (simp only: list.size One_nat_def add_0)
qed



end
