(* ===== verification/Io.thy ===== *)
theory Io
  imports Prelude
begin

text \<open>
  The file-system interface of \<open>src/src/io/mod.rs\<close> as its POSIX backend
  (\<open>src/src/io/posix.rs\<close>) behaves. The operating system is the parameter \<open>plan\<close>: the
  outcome of each operation, in order; an exhausted plan lets every operation succeed. A
  failing write may leave any prefix of its bytes in the file. Beside the contents a file
  has a durable image, set by a sync, and a name is durable once its directory was synced.
  Fallible code is a function from the state to an error or a result with the next state;
  \<open>io_bind\<close> is the \<open>?\<close> operator.
\<close>

section \<open>Definitions\<close>

datatype io_error =
    InvalidData | UnexpectedEof | NotFound | AlreadyExists | OsError
  | Unsupported | InvalidInput | OutOfMemory | NotConnected

datatype io_event = Succeed | Fail nat

record 'p fsys =
  files :: "'p \<rightharpoonup> bytes"
  durable :: "'p \<rightharpoonup> bytes"
  dir_durable :: "'p set"
  plan :: "io_event list"

type_synonym ('a, 's) io = "'s \<Rightarrow> (io_error + 'a) \<times> 's"

definition io_return :: "'a \<Rightarrow> ('a, 's) io" where
  "io_return x = (\<lambda>s. (Inr x, s))"

definition io_throw :: "io_error \<Rightarrow> ('a, 's) io" where
  "io_throw e = (\<lambda>s. (Inl e, s))"

definition io_bind :: "('a, 's) io \<Rightarrow> ('a \<Rightarrow> ('b, 's) io) \<Rightarrow> ('b, 's) io" where
  "io_bind m f = (\<lambda>s. case m s of (Inl e, s') \<Rightarrow> (Inl e, s') | (Inr x, s') \<Rightarrow> f x s')"

text \<open>A result thrown away: \<open>let _ = op;\<close>\<close>

definition io_ignore :: "('a, 's) io \<Rightarrow> (unit, 's) io" where
  "io_ignore m = (\<lambda>s. (Inr (), snd (m s)))"

definition io_step :: "'p fsys \<Rightarrow> io_event \<times> 'p fsys" where
  "io_step fs = (case plan fs of [] \<Rightarrow> (Succeed, fs) | e # es \<Rightarrow> (e, fs\<lparr>plan := es\<rparr>))"

text \<open>An operation that changes the state by \<open>f\<close> when the system lets it, and not at all
  otherwise.\<close>

definition io_op :: "('p fsys \<Rightarrow> (io_error + 'a) \<times> 'p fsys) \<Rightarrow> ('a, 'p fsys) io" where
  "io_op f = (\<lambda>fs. case io_step fs of (Succeed, fs') \<Rightarrow> f fs' | (Fail _, fs') \<Rightarrow> (Inl OsError, fs'))"

definition fs_exists :: "'p \<Rightarrow> 'p fsys \<Rightarrow> bool" where
  "fs_exists p fs \<longleftrightarrow> files fs p \<noteq> None"

definition fs_open :: "'p \<Rightarrow> bool \<Rightarrow> ('p, 'p fsys) io" where
  "fs_open p create = io_op (\<lambda>fs.
     if fs_exists p fs then (Inr p, fs)
     else if create then (Inr p, fs\<lparr>files := (files fs)(p \<mapsto> [])\<rparr>)
     else (Inl NotFound, fs))"

definition fs_remove :: "'p \<Rightarrow> (unit, 'p fsys) io" where
  "fs_remove p = io_op (\<lambda>fs.
     if fs_exists p fs then (Inr (), fs\<lparr>files := (files fs)(p := None), durable := (durable fs)(p := None)\<rparr>)
     else (Inl NotFound, fs))"

definition fs_rename :: "'p \<Rightarrow> 'p \<Rightarrow> (unit, 'p fsys) io" where
  "fs_rename p q = io_op (\<lambda>fs.
     if fs_exists p fs then
       (Inr (), fs\<lparr>files := (files fs)(q := files fs p, p := None),
                   durable := (durable fs)(q := durable fs p, p := None)\<rparr>)
     else (Inl NotFound, fs))"

definition fs_symlink :: "'p \<Rightarrow> (unit, 'p fsys) io" where
  "fs_symlink link = io_op (\<lambda>fs.
     if fs_exists link fs then (Inl AlreadyExists, fs)
     else (Inr (), fs\<lparr>files := (files fs)(link \<mapsto> [])\<rparr>))"

definition fs_create_dir_all :: "'p \<Rightarrow> (unit, 'p fsys) io" where
  "fs_create_dir_all d = io_op (\<lambda>fs.
     (Inr (), if fs_exists d fs then fs else fs\<lparr>files := (files fs)(d \<mapsto> [])\<rparr>))"

definition fs_sync_dir :: "(unit, 'p fsys) io" where
  "fs_sync_dir = io_op (\<lambda>fs. (Inr (), fs\<lparr>dir_durable := dom (files fs)\<rparr>))"

definition contents :: "'p fsys \<Rightarrow> 'p \<Rightarrow> bytes" where
  "contents fs h = (case files fs h of Some d \<Rightarrow> d | None \<Rightarrow> [])"

definition fh_len :: "'p \<Rightarrow> (nat, 'p fsys) io" where
  "fh_len h = io_op (\<lambda>fs. (Inr (length (contents fs h)), fs))"

definition fh_read_at :: "'p \<Rightarrow> nat \<Rightarrow> nat \<Rightarrow> (bytes, 'p fsys) io" where
  "fh_read_at h off n = io_op (\<lambda>fs.
     if off + n \<le> length (contents fs h) then (Inr (slice (contents fs h) off n), fs)
     else (Inl UnexpectedEof, fs))"

definition file_write :: "bytes \<Rightarrow> nat \<Rightarrow> bytes \<Rightarrow> bytes" where
  "file_write d off buf =
     (let d' = d @ replicate (off - length d) 0 in take off d' @ buf @ drop (off + length buf) d')"

definition fh_write_at :: "'p \<Rightarrow> bytes \<Rightarrow> nat \<Rightarrow> (unit, 'p fsys) io" where
  "fh_write_at h buf off = (\<lambda>fs. case io_step fs of
     (Succeed, fs') \<Rightarrow> (Inr (), fs'\<lparr>files := (files fs')(h \<mapsto> file_write (contents fs' h) off buf)\<rparr>)
   | (Fail k, fs') \<Rightarrow>
       (Inl OsError, fs'\<lparr>files := (files fs')(h \<mapsto>
          (if take k buf = [] then contents fs' h else file_write (contents fs' h) off (take k buf)))\<rparr>))"

definition fh_sync :: "'p \<Rightarrow> (unit, 'p fsys) io" where
  "fh_sync h = io_op (\<lambda>fs. (Inr (), fs\<lparr>durable := (durable fs)(h \<mapsto> contents fs h)\<rparr>))"

definition fh_set_len :: "'p \<Rightarrow> nat \<Rightarrow> (unit, 'p fsys) io" where
  "fh_set_len h n = io_op (\<lambda>fs. (Inr (), fs\<lparr>files := (files fs)(h \<mapsto>
     take n (contents fs h) @ replicate (n - length (contents fs h)) 0)\<rparr>))"

subsection \<open>Crashes\<close>

text \<open>What a crash makes of a file: it may keep the durable image, keep the current contents,
  or, when a write in place was under way, keep a prefix of the current contents in front of
  the durable bytes; of a file that was never synced any prefix may be left, or nothing.\<close>

definition crash_file :: "bytes option \<Rightarrow> bytes option \<Rightarrow> bytes option \<Rightarrow> bool" where
  "crash_file dur cur aft \<longleftrightarrow>
     aft = dur \<or> aft = cur
     \<or> (\<exists>d c k. dur = Some d \<and> cur = Some c \<and> length d = length c \<and> aft = Some (take k c @ drop k d))
     \<or> (\<exists>c k. dur = None \<and> cur = Some c \<and> aft = Some (take k c))"

definition crash :: "'p fsys \<Rightarrow> 'p fsys \<Rightarrow> bool" where
  "crash fs fs' \<longleftrightarrow> plan fs' = [] \<and> (\<forall>p. crash_file (durable fs p) (files fs p) (files fs' p))"

section \<open>Rules\<close>

lemma io_bind_Inr [simp]: "m s = (Inr x, s') \<Longrightarrow> io_bind m f s = f x s'"
  by (simp add: io_bind_def)

lemma io_bind_Inl [simp]: "m s = (Inl e, s') \<Longrightarrow> io_bind m f s = (Inl e, s')"
  by (simp add: io_bind_def)

lemma io_bind_InrE:
  assumes "io_bind m f s = (Inr y, t)"
  obtains x s' where "m s = (Inr x, s')" "f x s' = (Inr y, t)"
  using assms by (auto simp: io_bind_def split: prod.splits sum.splits)

lemma io_bind_InlE:
  assumes "io_bind m f s = (Inl e, t)"
  obtains "m s = (Inl e, t)" | x s' where "m s = (Inr x, s')" "f x s' = (Inl e, t)"
  using assms by (auto simp: io_bind_def split: prod.splits sum.splits)

lemma io_bind_assoc: "io_bind (io_bind m f) g = io_bind m (\<lambda>x. io_bind (f x) g)"
  by (auto simp: io_bind_def fun_eq_iff split: prod.split sum.split)

lemma io_bind_return: "io_bind (io_return x) f = f x"
  by (simp add: io_bind_def io_return_def)

lemma io_op_Inr:
  "io_op f fs = (Inr x, fs') \<longleftrightarrow> fst (io_step fs) = Succeed \<and> f (snd (io_step fs)) = (Inr x, fs')"
  by (auto simp: io_op_def split: prod.splits io_event.splits)

lemma io_step_frame [simp]:
  "files (snd (io_step fs)) = files fs" "durable (snd (io_step fs)) = durable fs"
  "dir_durable (snd (io_step fs)) = dir_durable fs" "contents (snd (io_step fs)) = contents fs"
  by (simp_all add: io_step_def contents_def fun_eq_iff split: list.split)

lemma io_step_Nil [simp]: "plan fs = [] \<Longrightarrow> io_step fs = (Succeed, fs)"
  by (simp add: io_step_def)

lemma io_op_Nil [simp]: "plan fs = [] \<Longrightarrow> io_op f fs = f fs"
  by (simp add: io_op_def)

lemma file_write_append [simp]: "file_write d (length d) buf = d @ buf"
  by (simp add: file_write_def)

lemma fh_len_Inr: "fh_len h fs = (Inr n, fs') \<Longrightarrow>
    n = length (contents fs h) \<and> fs' = snd (io_step fs) \<and> fst (io_step fs) = Succeed"
  by (simp add: fh_len_def io_op_Inr)

lemma fh_write_at_Inr: "fh_write_at h buf off fs = (Inr u, fs') \<Longrightarrow> fst (io_step fs) = Succeed \<and>
    fs' = (snd (io_step fs))\<lparr>files := (files fs)(h \<mapsto> file_write (contents fs h) off buf)\<rparr>"
  by (auto simp: fh_write_at_def split: prod.splits io_event.splits) (metis io_step_frame snd_conv)+

lemma fh_sync_Inr: "fh_sync h fs = (Inr u, fs') \<Longrightarrow> fst (io_step fs) = Succeed \<and>
    fs' = (snd (io_step fs))\<lparr>durable := (durable fs)(h \<mapsto> contents fs h)\<rparr>"
  by (auto simp: fh_sync_def io_op_Inr)


lemma crash_synced: "crash fs fs' \<Longrightarrow> durable fs p = files fs p \<Longrightarrow> files fs p \<noteq> None \<Longrightarrow> files fs' p = files fs p"
  by (auto simp: crash_def crash_file_def dest!: spec [of _ p])

lemma crash_plan: "crash fs fs' \<Longrightarrow> plan fs' = []"
  by (simp add: crash_def)

lemma crash_in_place:
  assumes "crash fs fs'" "durable fs p = Some d" "files fs p = Some c" "length d = length c"
  obtains k where "files fs' p = Some (take k c @ drop k d)"
proof -
  have "crash_file (Some d) (Some c) (files fs' p)"
    using assms(1-3) unfolding crash_def by metis
  then consider "files fs' p = Some d" | "files fs' p = Some c" | k where "files fs' p = Some (take k c @ drop k d)"
    by (auto simp: crash_file_def)
  then show thesis
  proof cases
    case 1
    then show thesis
      using that [of 0] by simp
  next
    case 2
    then show thesis
      using that [of "length c"] assms(4) by simp
  qed (rule that)
qed

end
