(* ===== verification/WalWriter.thy ===== *)
theory WalWriter
  imports WalRecord Io
begin

text \<open>
  The log writer of \<open>src/src/wal/writer.rs\<close> over the file system of theory Io. The fields
  \<open>buffer\<close> and \<open>buffered\<close> of the source are one list, the valid bytes; the open handle of
  the current segment is its path (it is set by \<open>open\<close> and never cleared). Arithmetic on
  the 32-bit offset wraps, as in a release build. The segment hash is the digest of the
  whole segment: hashing chunk by chunk is how the hasher is fed.
\<close>

section \<open>Definitions\<close>

definition make_lsn :: "u32 \<Rightarrow> u32 \<Rightarrow> u64" where
  "make_lsn seg_id offset = push_bit 32 (ucast seg_id) OR ucast offset"

definition lsn_segment_id :: "u64 \<Rightarrow> u32" where
  "lsn_segment_id lsn = ucast (drop_bit 32 lsn)"

definition lsn_offset :: "u64 \<Rightarrow> u32" where
  "lsn_offset lsn = ucast lsn"

record segment_descriptor =
  sd_segment_id :: u64
  sd_segment_start_lsn :: u64
  sd_previous_segment_id :: u64
  sd_record_count :: u64
  sd_integrity_hash :: u64

definition SD_SIZE :: nat where
  "SD_SIZE = 4096"

definition SD_MAGIC :: u32 where
  "SD_MAGIC = 0x57414453"

definition sd_encode :: "segment_descriptor \<Rightarrow> bytes" where
  "sd_encode d =
     (let block = replicate SD_SIZE 0;
          block = splice block 0 (to_be_bytes SD_MAGIC);
          block = splice block 4 (to_be_bytes (sd_segment_id d));
          block = splice block 12 (to_be_bytes (sd_segment_start_lsn d));
          block = splice block 20 (to_be_bytes (sd_previous_segment_id d));
          block = splice block 28 (to_be_bytes (sd_record_count d))
      in splice block 36 (to_be_bytes (sd_integrity_hash d)))"

definition sd_decode :: "bytes \<Rightarrow> segment_descriptor option" where
  "sd_decode bs =
     (if length bs < SD_SIZE then None
      else if (from_be_bytes (slice bs 0 4) :: u32) \<noteq> SD_MAGIC then None
      else Some \<lparr>sd_segment_id = from_be_bytes (slice bs 4 8),
                 sd_segment_start_lsn = from_be_bytes (slice bs 12 8),
                 sd_previous_segment_id = from_be_bytes (slice bs 20 8),
                 sd_record_count = from_be_bytes (slice bs 28 8),
                 sd_integrity_hash = from_be_bytes (slice bs 36 8)\<rparr>)"

datatype wal_path =
    WalDir | Live nat | Archived nat | ArchiveDir | CurrentLink | CurrentTmp
  | DataDir | DataFile | DwFile

type_synonym wal_fs = "wal_path fsys"

record wal_writer =
  current_lsn :: u64
  segment_path :: wal_path
  buffer :: bytes
  unsynced :: nat
  segment_id :: nat
  segment_start_lsn :: u64
  segment_record_count :: u64
  total_segment_count :: nat
  segment_handle :: wal_path
  durable_lsn :: u64
  bytes_since_checkpoint :: nat

definition SEGMENT_SIZE :: nat where
  "SEGMENT_SIZE = 64 * 1024 * 1024"

definition BUFFER_SIZE :: nat where
  "BUFFER_SIZE = 1024 * 1024"

definition LIVE_SEGMENT_RETENTION :: nat where
  "LIVE_SEGMENT_RETENTION = 2"

definition CHECKPOINT_INTERVAL :: nat where
  "CHECKPOINT_INTERVAL = 8 * 1024 * 1024"

text \<open>The probe for the highest segment: ids from 0 to \<open>u32::MAX\<close>, stopping at a gap.\<close>

function find_loop :: "(nat \<Rightarrow> bool) \<Rightarrow> nat \<Rightarrow> nat \<Rightarrow> nat" where
  "find_loop exists i max_id =
     (if i \<ge> 2 ^ 32 then max_id
      else if exists i then find_loop exists (Suc i) i
      else if i > max_id then max_id
      else find_loop exists (Suc i) max_id)"
  by pat_completeness auto
termination
  by (relation "measure (\<lambda>(e, i, m). 2 ^ 32 - i)") auto

declare find_loop.simps [simp del]

definition find_highest_segment_id :: "wal_fs \<Rightarrow> nat" where
  "find_highest_segment_id fs = find_loop (\<lambda>i. fs_exists (Live i) fs) 0 0"

function valid_end :: "digests \<Rightarrow> bytes \<Rightarrow> nat \<Rightarrow> nat" where
  "valid_end H raw offset =
     (if offset < length raw then
        (case wal_decode H raw offset of
           Some (_, sz) \<Rightarrow> (if sz > 0 then valid_end H raw (offset + sz) else offset)
         | None \<Rightarrow> offset)
      else offset)"
  by pat_completeness auto
termination
  by (relation "measure (\<lambda>(H, raw, offset). length raw - offset)") auto

declare valid_end.simps [simp del]

definition last_valid_offset :: "digests \<Rightarrow> wal_path \<Rightarrow> nat \<Rightarrow> (nat, wal_fs) io" where
  "last_valid_offset H h len =
     (if len = 0 then io_return 0
      else io_bind (fh_read_at h 0 len) (\<lambda>raw. io_return (valid_end H raw 0)))"

definition wal_open :: "digests \<Rightarrow> (wal_writer, wal_fs) io" where
  "wal_open H = io_bind (fs_create_dir_all WalDir) (\<lambda>_ fs.
     let seg = find_highest_segment_id fs; path = Live seg;
         mk = (\<lambda>offset :: u32. io_return
           \<lparr>current_lsn = make_lsn (of_nat seg) offset, segment_path = path, buffer = [],
            unsynced = 0, segment_id = seg, segment_start_lsn = make_lsn (of_nat seg) 0,
            segment_record_count = 0, total_segment_count = seg + 1, segment_handle = path,
            durable_lsn = make_lsn (of_nat seg) offset, bytes_since_checkpoint = 0\<rparr>)
     in (if fs_exists path fs then
           io_bind (fs_open path False) (\<lambda>h.
           io_bind (fh_len h) (\<lambda>len.
           io_bind (last_valid_offset H h len) (\<lambda>valid.
           io_bind (if valid < len then io_bind (fh_set_len h valid) (\<lambda>_. fh_sync h) else io_return ())
             (\<lambda>_. mk (if seg = 0 then max (of_nat valid) 1 else of_nat valid)))))
         else
           io_bind (fs_open path True) (\<lambda>h.
           io_bind (fh_sync h) (\<lambda>_.
           io_bind fs_sync_dir (\<lambda>_. mk (if seg = 0 then 1 else 0))))) fs)"

text \<open>The writer and the file system together; \<open>on_fs\<close> runs a file-system operation.\<close>

type_synonym wal_state = "wal_writer \<times> wal_fs"

definition on_fs :: "('a, wal_fs) io \<Rightarrow> ('a, wal_state) io" where
  "on_fs m = (\<lambda>(w, fs). case m fs of (res, fs') \<Rightarrow> (res, (w, fs')))"

definition on_writer :: "(wal_writer \<Rightarrow> wal_writer) \<Rightarrow> (unit, wal_state) io" where
  "on_writer f = (\<lambda>(w, fs). (Inr (), (f w, fs)))"

definition wal_flush :: "(unit, wal_state) io" where
  "wal_flush = (\<lambda>(w, fs).
     if buffer w = [] then (Inr (), (w, fs))
     else io_bind (on_fs (fh_len (segment_handle w))) (\<lambda>file_offset.
          io_bind (on_fs (fh_write_at (segment_handle w) (buffer w) file_offset)) (\<lambda>_.
          io_bind (on_fs (fh_sync (segment_handle w))) (\<lambda>_.
          on_writer (\<lambda>w. w\<lparr>buffer := [], unsynced := 0,
                            durable_lsn := max (durable_lsn w) (current_lsn w)\<rparr>)))) (w, fs))"

definition advance_lsn :: "u64 \<Rightarrow> nat \<Rightarrow> u64" where
  "advance_lsn lsn n = make_lsn (lsn_segment_id lsn) (lsn_offset lsn + of_nat n)"

definition wal_append :: "digests \<Rightarrow> wal_record \<Rightarrow> (u64, wal_state) io" where
  "wal_append H r = (\<lambda>(w0, fs0).
     let r = set_lsn H r (current_lsn w0); bs = wal_encode r
     in io_bind
          (if length (buffer w0) + length bs > BUFFER_SIZE then
             io_bind wal_flush (\<lambda>_. if length bs > BUFFER_SIZE then io_throw InvalidData else io_return ())
           else io_return ())
          (\<lambda>_. io_bind
             (on_writer (\<lambda>w. w\<lparr>buffer := buffer w @ bs, unsynced := unsynced w + length bs,
                current_lsn := advance_lsn (current_lsn w) (length bs),
                segment_record_count := segment_record_count w + 1,
                bytes_since_checkpoint := bytes_since_checkpoint w + length bs\<rparr>))
             (\<lambda>_. io_return (r_lsn r))) (w0, fs0))"

definition needs_checkpoint :: "wal_writer \<Rightarrow> bool" where
  "needs_checkpoint w \<longleftrightarrow> bytes_since_checkpoint w \<ge> CHECKPOINT_INTERVAL"

definition reset_checkpoint_counter :: "wal_writer \<Rightarrow> wal_writer" where
  "reset_checkpoint_counter w = w\<lparr>bytes_since_checkpoint := 0\<rparr>"

definition wal_sync :: "(unit, wal_state) io" where
  "wal_sync = wal_flush"

definition needs_rotation :: "wal_writer \<Rightarrow> bool" where
  "needs_rotation w \<longleftrightarrow>
     unat (lsn_offset (current_lsn w)) - unat (lsn_offset (segment_start_lsn w)) \<ge> SEGMENT_SIZE"

definition compute_segment_hash :: "digests \<Rightarrow> (u64, wal_state) io" where
  "compute_segment_hash H = (\<lambda>(w, fs).
     io_bind (on_fs (fh_len (segment_handle w))) (\<lambda>len.
       if len = 0 then io_return 0
       else io_bind (on_fs (fh_read_at (segment_handle w) 0 len)) (\<lambda>raw. io_return (xxh64 H raw))) (w, fs))"

definition update_symlink :: "(unit, wal_state) io" where
  "update_symlink =
     io_bind (on_fs (fs_symlink CurrentTmp)) (\<lambda>_.
     io_bind (on_fs (fs_rename CurrentTmp CurrentLink)) (\<lambda>_. on_fs fs_sync_dir))"

fun archive_loop :: "nat \<Rightarrow> nat \<Rightarrow> (unit, wal_fs) io" where
  "archive_loop 0 seg = io_return ()"
| "archive_loop (Suc n) seg =
     io_bind (\<lambda>fs. if fs_exists (Live seg) fs then io_ignore (fs_rename (Live seg) (Archived seg)) fs
                   else (Inr (), fs))
       (\<lambda>_. archive_loop n (Suc seg))"

definition archive_old_segments :: "nat \<Rightarrow> (unit, wal_fs) io" where
  "archive_old_segments current_segment_id =
     (if current_segment_id < LIVE_SEGMENT_RETENTION then io_return ()
      else io_bind (fs_create_dir_all ArchiveDir) (\<lambda>_.
        archive_loop (current_segment_id - (LIVE_SEGMENT_RETENTION - 1)) 0))"

definition write_at_end :: "bytes \<Rightarrow> (unit, wal_state) io" where
  "write_at_end bs = (\<lambda>(w, fs).
     io_bind (on_fs (fh_len (segment_handle w))) (\<lambda>offset.
     io_bind (on_fs (fh_write_at (segment_handle w) bs offset)) (\<lambda>_.
     on_fs (fh_sync (segment_handle w)))) (w, fs))"

definition rotate :: "digests \<Rightarrow> u64 \<Rightarrow> (unit, wal_state) io" where
  "rotate H now = io_bind wal_flush (\<lambda>_. io_bind (compute_segment_hash H) (\<lambda>integrity_hash (w, fs).
     let desc_block = sd_encode
           \<lparr>sd_segment_id = of_nat (segment_id w), sd_segment_start_lsn = segment_start_lsn w,
            sd_previous_segment_id = of_nat (segment_id w - 1),
            sd_record_count = segment_record_count w, sd_integrity_hash = integrity_hash\<rparr>;
         desc_bytes = wal_encode (wal_record_new H now SegmentDescriptor 0 0 0 desc_block);
         next = segment_id w + 1
     in io_bind (write_at_end desc_block) (\<lambda>_.
        io_bind (write_at_end desc_bytes) (\<lambda>_.
        io_bind (on_writer (\<lambda>w. w\<lparr>current_lsn := advance_lsn (current_lsn w) (length desc_bytes)\<rparr>)) (\<lambda>_.
        io_bind (on_fs (io_bind (fs_open (Live next) True) (\<lambda>h.
                        io_bind (fh_sync h) (\<lambda>_. io_bind fs_sync_dir (\<lambda>_. io_return h))))) (\<lambda>h.
        io_bind (on_writer (\<lambda>w. w\<lparr>segment_handle := h, segment_path := Live next\<rparr>)) (\<lambda>_.
        io_bind update_symlink (\<lambda>_.
        io_bind (on_writer (\<lambda>w. w\<lparr>segment_id := next, segment_start_lsn := make_lsn (of_nat next) 0,
                                  current_lsn := make_lsn (of_nat next) 0, segment_record_count := 0,
                                  total_segment_count := total_segment_count w + 1\<rparr>)) (\<lambda>_.
        on_fs (archive_old_segments (segment_id w))))))))) (w, fs)))"

fun reclaim_loop :: "nat \<Rightarrow> nat \<Rightarrow> nat \<Rightarrow> (nat, wal_fs) io" where
  "reclaim_loop 0 seg reclaimed = io_return reclaimed"
| "reclaim_loop (Suc n) seg reclaimed = (\<lambda>fs.
     if fs_exists (Archived seg) fs
     then io_bind (fs_remove (Archived seg)) (\<lambda>_. reclaim_loop n (Suc seg) (Suc reclaimed)) fs
     else reclaim_loop n (Suc seg) reclaimed fs)"

definition reclaim_archived_segments_before :: "u64 \<Rightarrow> (nat, wal_fs) io" where
  "reclaim_archived_segments_before checkpoint_lsn = (\<lambda>fs.
     let ckpt_seg = unat (lsn_segment_id checkpoint_lsn) in
     if ckpt_seg = 0 \<or> \<not> fs_exists ArchiveDir fs then (Inr 0, fs) else reclaim_loop ckpt_seg 0 0 fs)"

section \<open>Log sequence numbers\<close>

lemma unat_ucast_u32_u64: "unat (ucast (w :: u32) :: u64) = unat w"
  by (simp add: unsigned_ucast_eq take_bit_eq_mod order_less_trans [OF unsigned_less])

lemma make_lsn_plus: "make_lsn s x = ucast s * 2 ^ 32 + ucast x"
proof -
  have "push_bit 32 (ucast s) AND (ucast x :: u64) = 0"
    by (rule bit_eqI) (auto simp: bit_simps dest: bit_imp_le_length)
  then show ?thesis
    unfolding make_lsn_def by (simp add: push_bit_eq_mult flip: disjunctive_add_eq_or)
qed

lemma unat_make_lsn: "unat (make_lsn s x) = unat s * 2 ^ 32 + unat x"
proof -
  have s: "unat s < 2 ^ 32" and x: "unat x < 2 ^ 32"
    by (rule unat_u32_less)+
  have m: "unat (ucast s * 2 ^ 32 :: u64) = unat s * 2 ^ 32"
    using s by (simp add: unat_mult_lem [THEN iffD1] unat_ucast_u32_u64)
  have "unat s * 2 ^ 32 + unat x < 2 ^ 64"
    using s x by simp
  then show ?thesis
    unfolding make_lsn_plus
    by (subst unat_add_lem [THEN iffD1]) (simp_all add: m [simplified] unat_ucast_u32_u64)
qed

lemma lsn_fields [simp]: "lsn_segment_id (make_lsn s x) = s" "lsn_offset (make_lsn s x) = x"
proof -
  have x: "unat x < 2 ^ 32" and s: "unat s < 2 ^ 32"
    by (rule unat_u32_less)+
  show "lsn_offset (make_lsn s x) = x"
    by (simp add: lsn_offset_def word_unat_eq_iff unsigned_ucast_eq take_bit_eq_mod unat_make_lsn x [simplified])
  have "unat (drop_bit 32 (make_lsn s x)) = unat s"
    using x by (simp add: drop_bit_eq_div unat_div unat_make_lsn)
  then show "lsn_segment_id (make_lsn s x) = s"
    using s by (simp add: lsn_segment_id_def word_unat_eq_iff unsigned_ucast_eq take_bit_eq_mod)
qed

text \<open>Log sequence numbers: packing a segment id and an offset and taking them apart again
  is the identity, and the 64-bit order of packed numbers is the lexicographic order of
  segment and offset.\<close>

theorem lsn_pack_order:
  "lsn_segment_id (make_lsn s x) = s \<and> lsn_offset (make_lsn s x) = x
   \<and> make_lsn (lsn_segment_id l) (lsn_offset l) = l
   \<and> (make_lsn s x < make_lsn t y \<longleftrightarrow> s < t \<or> s = t \<and> x < y)"
proof -
  have "unat (make_lsn (lsn_segment_id l) (lsn_offset l)) = unat l"
  proof -
    have "unat l div 2 ^ 32 < 2 ^ 32"
      using unat_u64_less [of l] by (simp add: div_less_iff_less_mult)
    then have "unat (lsn_segment_id l) = unat l div 2 ^ 32"
      by (simp add: lsn_segment_id_def unsigned_ucast_eq take_bit_eq_mod drop_bit_eq_div unat_div)
    moreover have "unat (lsn_offset l) = unat l mod 2 ^ 32"
      by (simp add: lsn_offset_def unsigned_ucast_eq take_bit_eq_mod)
    ultimately show ?thesis
      by (simp only: unat_make_lsn div_mult_mod_eq)
  qed
  moreover have "make_lsn s x < make_lsn t y \<longleftrightarrow> s < t \<or> s = t \<and> x < y"
  proof -
    have "unat s * k + unat x < unat t * k + unat y \<longleftrightarrow>
        unat s < unat t \<or> unat s = unat t \<and> unat x < unat y"
      if "unat x < k" "unat y < k" for k
    proof (cases "unat s" "unat t" rule: linorder_cases)
      case less
      then have "Suc (unat s) * k \<le> unat t * k"
        by (intro mult_le_mono1) simp
      with less that show ?thesis by simp
    next
      case greater
      then have "Suc (unat t) * k \<le> unat s * k"
        by (intro mult_le_mono1) simp
      with greater that show ?thesis by simp
    qed simp
    from this [OF unat_u32_less unat_u32_less] show ?thesis
      by (simp only: word_less_nat_alt unat_make_lsn word_unat_eq_iff)
  qed
  ultimately show ?thesis
    by (simp add: word_unat_eq_iff)
qed

section \<open>Segment descriptors\<close>

lemma length_sd_encode [simp]: "length (sd_encode d) = SD_SIZE"
  by (simp add: sd_encode_def Let_def SD_SIZE_def)

lemma sd_decode_encode: "sd_decode (sd_encode d @ rest) = Some d"
  by (simp add: sd_decode_def) (simp add: sd_encode_def Let_def SD_SIZE_def slice_splice_disjoint)

interpretation descriptor: codec sd_encode sd_decode "\<lambda>_. True"
  by unfold_locales (rule sd_decode_encode)

section \<open>Scanning a segment\<close>

text \<open>The decoding loop shared by the recovery scans.\<close>

lemma wal_decode_size: "wal_decode H raw off = Some (r, n) \<Longrightarrow> 58 \<le> n \<and> off + n \<le> length raw"
  using wal_decode_imp_encode [of H raw off r n] by (auto simp: on_disk_size_def WAL_RECORD_MIN_SIZE_def)

function scan_log :: "digests \<Rightarrow> bytes \<Rightarrow> nat \<Rightarrow> wal_record list" where
  "scan_log H raw offset =
     (if offset < length raw then
        (case wal_decode H raw offset of
           Some (rec, sz) \<Rightarrow> rec # scan_log H raw (offset + sz)
         | None \<Rightarrow> [])
      else [])"
  by pat_completeness auto
termination
  by (relation "measure (\<lambda>(H, raw, offset). length raw - offset)") (auto dest: wal_decode_size)

declare scan_log.simps [simp del]

definition log_bytes :: "wal_record list \<Rightarrow> bytes" where
  "log_bytes rs = concat (map wal_encode rs)"

lemma log_bytes_simps [simp]:
  "log_bytes [] = []" "log_bytes (r # rs) = wal_encode r @ log_bytes rs"
  "log_bytes (rs @ rs') = log_bytes rs @ log_bytes rs'"
  by (simp_all add: log_bytes_def)

lemma wal_decode_Nil [simp]: "wal_decode H [] 0 = None"
  by (simp add: wal_decode_def WAL_RECORD_MIN_SIZE_def)

lemma scan_log_bytes:
  assumes "\<forall>r \<in> set rs. record_ok H r" "wal_decode H tail 0 = None"
  shows "scan_log H (pre @ log_bytes rs @ tail) (length pre) = rs
    \<and> valid_end H (pre @ log_bytes rs @ tail) (length pre) = length pre + length (log_bytes rs)"
  using assms(1)
proof (induction rs arbitrary: pre)
  case Nil
  have "wal_decode H (pre @ tail) (length pre) = None"
    using assms(2) by (simp add: wal_decode_drop [of H "pre @ tail"])
  then show ?case
    by (subst scan_log.simps, subst valid_end.simps) simp
next
  case (Cons r rs)
  have d: "wal_decode H (pre @ wal_encode r @ log_bytes rs @ tail) (length pre) = Some (r, on_disk_size r)"
    using Cons.prems by (intro wal_decode_encode) simp_all
  have pos: "0 < on_disk_size r"
    by (simp add: on_disk_size_def WAL_RECORD_MIN_SIZE_def)
  have "scan_log H ((pre @ wal_encode r) @ log_bytes rs @ tail) (length (pre @ wal_encode r)) = rs"
    "valid_end H ((pre @ wal_encode r) @ log_bytes rs @ tail) (length (pre @ wal_encode r))
       = length (pre @ wal_encode r) + length (log_bytes rs)"
    using Cons.IH [of "pre @ wal_encode r"] Cons.prems by simp_all
  then show ?case
    by (subst scan_log.simps, subst valid_end.simps) (simp add: d pos)
qed

lemma torn_not_decodable:
  assumes "record_ok H r" "k < on_disk_size r"
  shows "wal_decode H (take k (wal_encode r)) 0 = None"
proof (rule ccontr)
  assume "wal_decode H (take k (wal_encode r)) 0 \<noteq> None"
  then obtain r' n where d: "wal_decode H (take k (wal_encode r)) 0 = Some (r', n)"
    by auto
  note d' = wal_decode_0_encode [OF d]
  have "wal_encode r = wal_encode r' @ drop n (wal_encode r)"
    using d' assms(2) by (metis append_take_drop_id length_take min.absorb2 min.bounded_iff take_take)
  then have "r = r'"
    using wal_format.prefix_free [of H r r' "[]" "drop n (wal_encode r)"] assms(1) d' by simp
  with d' assms(2) show False
    by simp
qed

text \<open>A torn tail is cut exactly: when a segment holds whole records followed by a proper
  prefix of one more, the scan of the segment returns exactly the whole records and the
  writer finds the end of the last of them as the end of the valid log.\<close>

theorem torn_tail_is_cut:
  assumes "\<forall>r \<in> set rs. record_ok H r" and "record_ok H torn" and "k < on_disk_size torn"
    and "raw = log_bytes rs @ take k (wal_encode torn)"
  shows "scan_log H raw 0 = rs \<and> valid_end H raw 0 = length (log_bytes rs)"
  using scan_log_bytes [OF assms(1) torn_not_decodable [OF assms(2,3)], of "[]"]
  by (simp add: assms(4))

theorem torn_tail_is_cut_witness:
  "scan_log demo_digests (log_bytes [wal_record_new demo_digests 5 Begin 7 1 0 []] @
     take 20 (wal_encode (wal_record_new demo_digests 5 Commit 7 59 0 []))) 0
   = [wal_record_new demo_digests 5 Begin 7 1 0 []]"
proof -
  let ?a = "wal_record_new demo_digests 5 Begin 7 1 0 []" and ?b = "wal_record_new demo_digests 5 Commit 7 59 0 []"
  have "\<forall>r \<in> set [?a]. record_ok demo_digests r" "record_ok demo_digests ?b" "20 < on_disk_size ?b"
    by (simp_all add: wal_record_new_def on_disk_size_def WAL_RECORD_MIN_SIZE_def)
  from torn_tail_is_cut [OF this refl] show ?thesis
    by blast
qed

section \<open>Appending and flushing\<close>

text \<open>The log as the writer sees it: the bytes in the current segment and those still
  buffered.\<close>

definition wal_log :: "wal_state \<Rightarrow> bytes" where
  "wal_log s = contents (snd s) (segment_handle (fst s)) @ buffer (fst s)"

lemma on_fs_Inr: "on_fs m (w, fs) = (Inr x, s') \<longleftrightarrow> (\<exists>fs'. m fs = (Inr x, fs') \<and> s' = (w, fs'))"
  by (auto simp: on_fs_def split: prod.splits)

lemma on_fs_Inl: "on_fs m (w, fs) = (Inl e, s') \<longleftrightarrow> (\<exists>fs'. m fs = (Inl e, fs') \<and> s' = (w, fs'))"
  by (auto simp: on_fs_def split: prod.splits)

lemma wal_flush_Inr:
  assumes "wal_flush (w, fs) = (Inr u, (w', fs'))"
  shows "w' = (if buffer w = [] then w
               else w\<lparr>buffer := [], unsynced := 0, durable_lsn := max (durable_lsn w) (current_lsn w)\<rparr>)"
    and "contents fs' (segment_handle w) = contents fs (segment_handle w) @ buffer w"
    and "buffer w \<noteq> [] \<Longrightarrow> durable fs' (segment_handle w) = Some (contents fs' (segment_handle w))"
    and "buffer w = [] \<Longrightarrow> fs' = fs"
    and "p \<noteq> segment_handle w \<Longrightarrow> files fs' p = files fs p"
proof -
  let ?h = "segment_handle w"
  have "(w' = (if buffer w = [] then w
               else w\<lparr>buffer := [], unsynced := 0, durable_lsn := max (durable_lsn w) (current_lsn w)\<rparr>))
    \<and> contents fs' ?h = contents fs ?h @ buffer w
    \<and> (buffer w \<noteq> [] \<longrightarrow> durable fs' ?h = Some (contents fs' ?h)) \<and> (buffer w = [] \<longrightarrow> fs' = fs)
    \<and> (p \<noteq> ?h \<longrightarrow> files fs' p = files fs p)"
  proof (cases "buffer w = []")
    case False
    then obtain n fs1 fs2 fs3 where io: "fh_len ?h fs = (Inr n, fs1)"
      "fh_write_at ?h (buffer w) n fs1 = (Inr (), fs2)" "fh_sync ?h fs2 = (Inr (), fs3)"
      and w': "w' = w\<lparr>buffer := [], unsynced := 0, durable_lsn := max (durable_lsn w) (current_lsn w)\<rparr>"
      "fs' = fs3"
      using assms by (auto simp: wal_flush_def on_fs_Inr on_writer_def elim!: io_bind_InrE)
    then show ?thesis
      using False fh_len_Inr [OF io(1)] fh_write_at_Inr [OF io(2)] fh_sync_Inr [OF io(3)]
      by (auto simp: contents_def)
  qed (use assms in \<open>simp add: wal_flush_def\<close>)
  then show "w' = (if buffer w = [] then w
               else w\<lparr>buffer := [], unsynced := 0, durable_lsn := max (durable_lsn w) (current_lsn w)\<rparr>)"
    and "contents fs' ?h = contents fs ?h @ buffer w"
    and "buffer w \<noteq> [] \<Longrightarrow> durable fs' ?h = Some (contents fs' ?h)"
    and "buffer w = [] \<Longrightarrow> fs' = fs"
    and "p \<noteq> ?h \<Longrightarrow> files fs' p = files fs p"
    by blast+
qed

lemma r_lsn_set_lsn [simp]: "r_lsn (set_lsn H r lsn) = lsn"
  by (simp add: set_lsn_def)

lemma wal_encode_not_Nil [simp]: "wal_encode r \<noteq> []"
  by (simp add: wal_encode_def header_bytes_def)

lemma on_disk_size_set_lsn [simp]: "on_disk_size (set_lsn H r lsn) = on_disk_size r"
  by (simp add: set_lsn_def on_disk_size_def)

lemma wal_append_Inr:
  assumes "wal_append H r (w, fs) = (Inr lsn, (w', fs'))"
  shows "lsn = current_lsn w \<and> wal_log (w', fs') = wal_log (w, fs) @ wal_encode (set_lsn H r lsn)
    \<and> current_lsn w' = advance_lsn (current_lsn w) (on_disk_size r)
    \<and> segment_handle w' = segment_handle w \<and> buffer w' \<noteq> []"
proof -
  define bs where "bs = wal_encode (set_lsn H r (current_lsn w))"
  have len: "length bs = on_disk_size r"
    by (simp add: bs_def)
  have ne: "bs \<noteq> []"
    using len by (auto simp: on_disk_size_def WAL_RECORD_MIN_SIZE_def)
  have lsn: "r_lsn (set_lsn H r (current_lsn w)) = current_lsn w"
    by (simp add: set_lsn_def)
  show ?thesis
  proof (cases "length (buffer w) + on_disk_size r > BUFFER_SIZE")
    case True
    with assms obtain w1 where f: "wal_flush (w, fs) = (Inr (), (w1, fs'))"
      and w': "lsn = current_lsn w" "w' = w1\<lparr>buffer := buffer w1 @ bs, unsynced := unsynced w1 + on_disk_size r,
                current_lsn := advance_lsn (current_lsn w1) (on_disk_size r),
                segment_record_count := segment_record_count w1 + 1,
                bytes_since_checkpoint := bytes_since_checkpoint w1 + on_disk_size r\<rparr>"
      by (auto simp: wal_append_def Let_def bs_def [symmetric] len lsn on_writer_def io_return_def io_throw_def
          elim!: io_bind_InrE split: if_splits)
    show ?thesis
      using wal_flush_Inr(1,2) [OF f] ne len
      by (simp add: wal_log_def w' bs_def split: if_splits)
  next
    case False
    with assms have "lsn = current_lsn w" "fs' = fs"
      "w' = w\<lparr>buffer := buffer w @ bs, unsynced := unsynced w + on_disk_size r,
                current_lsn := advance_lsn (current_lsn w) (on_disk_size r),
                segment_record_count := segment_record_count w + 1,
                bytes_since_checkpoint := bytes_since_checkpoint w + on_disk_size r\<rparr>"
      by (auto simp: wal_append_def Let_def bs_def [symmetric] len lsn on_writer_def io_return_def
          elim!: io_bind_InrE)
    then show ?thesis
      using ne len by (simp add: wal_log_def bs_def)
  qed
qed

text \<open>A sequence of appends, each of which must succeed.\<close>

fun append_all :: "digests \<Rightarrow> wal_record list \<Rightarrow> (u64 list, wal_state) io" where
  "append_all H [] = io_return []"
| "append_all H (r # rs) =
     io_bind (wal_append H r) (\<lambda>lsn. io_bind (append_all H rs) (\<lambda>lsns. io_return (lsn # lsns)))"

lemma append_all_log:
  assumes "append_all H rs s = (Inr lsns, s')"
  shows "length lsns = length rs \<and> segment_handle (fst s') = segment_handle (fst s) \<and>
    wal_log s' = wal_log s @ log_bytes (map2 (set_lsn H) rs lsns) \<and> (rs \<noteq> [] \<longrightarrow> buffer (fst s') \<noteq> [])"
  using assms
proof (induction rs arbitrary: s lsns)
  case (Cons r rs)
  obtain w fs where s: "s = (w, fs)"
    by (cases s)
  from Cons.prems obtain lsn w1 fs1 lsns1 where a: "wal_append H r (w, fs) = (Inr lsn, (w1, fs1))"
    "append_all H rs (w1, fs1) = (Inr lsns1, s')" "lsns = lsn # lsns1"
    by (auto simp: s io_return_def elim!: io_bind_InrE)
  note wa = wal_append_Inr [OF a(1)]
  show ?case
  proof (cases rs)
    case Nil
    with a wa show ?thesis
      by (auto simp: s io_return_def)
  next
    case (Cons r' rs')
    with Cons.IH [OF a(2)] wa a(3) show ?thesis
      by (simp add: s)
  qed
qed (simp add: io_return_def)

lemma unat_advance_lsn:
  assumes "unat (lsn_offset l) + n < 2 ^ 32"
  shows "unat (advance_lsn l n) = unat l + n" "unat (lsn_offset (advance_lsn l n)) = unat (lsn_offset l) + n"
proof -
  have n: "unat (of_nat n :: u32) = n"
    using assms by (simp add: unat_of_nat)
  have o: "unat (lsn_offset l + of_nat n) = unat (lsn_offset l) + n"
    using assms by (subst unat_add_lem [THEN iffD1]) (simp_all add: n)
  then show "unat (lsn_offset (advance_lsn l n)) = unat (lsn_offset l) + n"
    by (simp add: advance_lsn_def)
  have "unat l = unat (lsn_segment_id l) * 2 ^ 32 + unat (lsn_offset l)"
  proof -
    have "unat l div 2 ^ 32 < 2 ^ 32"
      using unat_u64_less [of l] by (simp add: div_less_iff_less_mult)
    then show ?thesis
      by (simp add: lsn_segment_id_def lsn_offset_def unsigned_ucast_eq take_bit_eq_mod drop_bit_eq_div unat_div)
  qed
  then show "unat (advance_lsn l n) = unat l + n"
    unfolding advance_lsn_def unat_make_lsn o by simp
qed

lemma append_all_lsns:
  assumes "append_all H rs s = (Inr lsns, s')"
    and "unat (lsn_offset (current_lsn (fst s))) + sum_list (map on_disk_size rs) < 2 ^ 32"
  shows "sorted_wrt (<) lsns \<and> (\<forall>l \<in> set lsns. current_lsn (fst s) \<le> l \<and> l < current_lsn (fst s'))
    \<and> current_lsn (fst s) \<le> current_lsn (fst s')"
  using assms
proof (induction rs arbitrary: s lsns)
  case (Cons r rs)
  obtain w fs where s: "s = (w, fs)"
    by (cases s)
  from Cons.prems obtain lsn w1 fs1 lsns1 where a: "wal_append H r (w, fs) = (Inr lsn, (w1, fs1))"
    "append_all H rs (w1, fs1) = (Inr lsns1, s')" "lsns = lsn # lsns1"
    by (auto simp: s io_return_def elim!: io_bind_InrE)
  have lsn: "lsn = current_lsn w" and w1: "current_lsn w1 = advance_lsn (current_lsn w) (on_disk_size r)"
    using wal_append_Inr [OF a(1)] by simp_all
  have b: "unat (lsn_offset (current_lsn w)) + on_disk_size r < 2 ^ 32"
    using Cons.prems(2) by (simp add: s)
  note adv = unat_advance_lsn [OF b]
  have IH: "sorted_wrt (<) lsns1 \<and> (\<forall>l \<in> set lsns1. current_lsn w1 \<le> l \<and> l < current_lsn (fst s'))
    \<and> current_lsn w1 \<le> current_lsn (fst s')"
    using Cons.IH [OF a(2)] Cons.prems(2) adv(2) by (simp add: s w1)
  have "current_lsn w < current_lsn w1"
    using adv(1) by (simp add: w1 word_less_nat_alt on_disk_size_def WAL_RECORD_MIN_SIZE_def)
  with IH show ?case
    unfolding a(3) lsn s by fastforce
qed (simp add: io_return_def)

text \<open>C18. What was flushed is in the log: after a sequence of successful appends and a
  successful flush, the durable image of the segment decodes to exactly the records that
  were there before followed by the appended ones, in order and stamped with the returned
  sequence numbers; those numbers increase strictly while the 32-bit offset has room, and
  the durable watermark covers them all.\<close>

theorem flushed_records_are_durable:
  assumes "wal_log s = log_bytes rs0" and "\<forall>r \<in> set rs0. record_ok H r"
    and "\<forall>r \<in> set rs. length (r_payload r) < 2 ^ 32" and "rs \<noteq> []"
    and "unat (lsn_offset (current_lsn (fst s))) + sum_list (map on_disk_size rs) < 2 ^ 32"
    and "append_all H rs s = (Inr lsns, s1)" and "wal_flush s1 = (Inr (), (w', fs'))"
  shows "\<exists>d. durable fs' (segment_handle w') = Some d
      \<and> scan_log H d 0 = rs0 @ map2 (set_lsn H) rs lsns \<and> map r_lsn (map2 (set_lsn H) rs lsns) = lsns
      \<and> sorted_wrt (<) lsns \<and> (\<forall>l \<in> set lsns. l < durable_lsn w')"
proof -
  obtain w1 fs1 where s1: "s1 = (w1, fs1)"
    by (cases s1)
  note log = append_all_log [OF assms(6)] and lsns = append_all_lsns [OF assms(6,5)]
  note fl = wal_flush_Inr [OF assms(7) [unfolded s1]]
  have ne: "buffer w1 \<noteq> []"
    using log assms(4) by (simp add: s1)
  have h: "segment_handle w' = segment_handle w1" and dl: "current_lsn w1 \<le> durable_lsn w'"
    using fl(1) ne by simp_all
  let ?all = "rs0 @ map2 (set_lsn H) rs lsns"
  have d: "durable fs' (segment_handle w') = Some (log_bytes ?all)"
    using fl(2) fl(3) [OF ne] log assms(1) by (auto simp: s1 wal_log_def h)
  have "\<forall>r \<in> set ?all. record_ok H r"
    using assms(2,3) by (auto simp: set_lsn_def dest!: set_zip_leftD)
  then have "scan_log H (log_bytes ?all) 0 = ?all"
    using scan_log_bytes [of ?all H "[]" "[]"] by simp
  moreover have "map r_lsn (map2 (set_lsn H) rs lsns) = lsns"
    using log by (simp add: comp_def case_prod_unfold map_snd_zip)
  moreover have "\<forall>l \<in> set lsns. l < durable_lsn w'"
    using lsns dl by (auto simp: s1)
  ultimately show ?thesis
    using d lsns by blast
qed

text \<open>A freshly created log and one commit record.\<close>

definition demo_fs :: wal_fs where
  "demo_fs = \<lparr>files = [Live 0 \<mapsto> []], durable = [Live 0 \<mapsto> []], dir_durable = {Live 0}, plan = []\<rparr>"

definition demo_writer :: wal_writer where
  "demo_writer = \<lparr>current_lsn = 1, segment_path = Live 0, buffer = [], unsynced = 0, segment_id = 0,
     segment_start_lsn = 0, segment_record_count = 0, total_segment_count = 1, segment_handle = Live 0,
     durable_lsn = 1, bytes_since_checkpoint = 0\<rparr>"

definition demo_commit :: wal_record where
  "demo_commit = wal_record_new demo_digests 5 Commit 7 0 0 []"

lemma demo_commit_size [simp]: "on_disk_size demo_commit = 58" "r_payload demo_commit = []"
  by (simp_all add: demo_commit_def wal_record_new_def on_disk_size_def WAL_RECORD_MIN_SIZE_def)

lemma demo_append:
  "wal_append demo_digests demo_commit (demo_writer, fs) = (Inr 1,
     (demo_writer\<lparr>buffer := wal_encode (set_lsn demo_digests demo_commit 1), unsynced := 58,
        current_lsn := advance_lsn 1 58, segment_record_count := 1, bytes_since_checkpoint := 58\<rparr>, fs))"
  by (simp add: wal_append_def demo_writer_def Let_def BUFFER_SIZE_def io_return_def on_writer_def
      io_bind_def)

lemma demo_flush:
  assumes "buffer w \<noteq> []" "segment_handle w = Live 0"
  shows "wal_flush (w, demo_fs) =
    (Inr (), (w\<lparr>buffer := [], unsynced := 0, durable_lsn := max (durable_lsn w) (current_lsn w)\<rparr>,
       \<lparr>files = [Live 0 \<mapsto> buffer w], durable = [Live 0 \<mapsto> buffer w], dir_durable = {Live 0}, plan = []\<rparr>))"
  using assms
  by (simp add: wal_flush_def io_bind_def on_fs_def on_writer_def fh_len_def fh_write_at_def fh_sync_def
      io_op_def io_step_def demo_fs_def contents_def file_write_def)

theorem flushed_records_are_durable_witness:
  "\<exists>d. durable (snd (snd (wal_flush (snd (append_all demo_digests [demo_commit] (demo_writer, demo_fs)))))) (Live 0)
         = Some d \<and> scan_log demo_digests d 0 = [set_lsn demo_digests demo_commit 1]"
proof -
  let ?w = "demo_writer\<lparr>buffer := wal_encode (set_lsn demo_digests demo_commit 1), unsynced := 58,
        current_lsn := advance_lsn 1 58, segment_record_count := 1, bytes_since_checkpoint := 58\<rparr>"
  have a: "append_all demo_digests [demo_commit] (demo_writer, demo_fs) = (Inr [1], (?w, demo_fs))"
    by (simp add: io_bind_def demo_append io_return_def)
  have ne: "buffer ?w \<noteq> []"
    by simp
  have h: "segment_handle ?w = Live 0"
    by (simp add: demo_writer_def)
  note f = demo_flush [OF ne h]
  have 1: "wal_log (demo_writer, demo_fs) = log_bytes []"
    by (simp add: wal_log_def demo_writer_def demo_fs_def contents_def)
  have 2: "unat (lsn_offset (current_lsn (fst (demo_writer, demo_fs)))) + sum_list (map on_disk_size [demo_commit]) < 2 ^ 32"
    by (simp add: demo_writer_def lsn_offset_def)
  from flushed_records_are_durable [OF 1 _ _ _ 2 a f] h show ?thesis
    unfolding a snd_conv f by auto
qed

section \<open>A failed flush that is retried\<close>

lemma magic_bytes: "to_be_bytes WAL_MAGIC_START = [0x57, 0x41, 0x4C, 0x21]"
  by (simp add: to_be_bytes_def to_le_bytes_def WAL_MAGIC_START_def le_digits_numeral)

lemma wal_encode_magic: "\<exists>t. wal_encode r = [0x57, 0x41, 0x4C, 0x21] @ t"
  by (simp add: wal_encode_def header_bytes_def magic_bytes)

lemma wal_decode_no_magic:
  assumes "take 4 b \<noteq> [0x57, 0x41, 0x4C, 0x21]"
  shows "wal_decode H b 0 = None"
proof (rule ccontr)
  assume "wal_decode H b 0 \<noteq> None"
  then obtain r n where "wal_decode H b 0 = Some (r, n)"
    by auto
  note d = wal_decode_0_encode [OF this]
  then have "4 \<le> n"
    by (simp add: on_disk_size_def WAL_RECORD_MIN_SIZE_def)
  then have "take 4 (wal_encode r) = take 4 b"
    using d by (metis min.absorb1 take_take)
  with assms wal_encode_magic [of r] show False
    by auto
qed

text \<open>C34. A torn write followed by a successful retry: when a flush fails after the first one to
  three bytes of a record reached the file and the caller retries, the retry reports
  success and everything is durable, but the record was appended behind the torn bytes:
  the scan of the durable segment stops in front of them and the flushed record is not
  found.\<close>

theorem flush_retry_hides_record:
  assumes "contents fs h = log_bytes rs" and "\<forall>r \<in> set rs. record_ok H r"
    and "segment_handle w = h" and "buffer w = wal_encode r @ behind" and "plan fs = [Succeed, Fail k]"
    and "0 < k" and "k < 4"
  shows "\<exists>s1 w2 fs2 d. wal_flush (w, fs) = (Inl OsError, s1) \<and> wal_flush s1 = (Inr (), (w2, fs2))
    \<and> durable fs2 h = Some d \<and> d = log_bytes rs @ take k (buffer w) @ buffer w
    \<and> scan_log H d 0 = rs \<and> current_lsn w \<le> durable_lsn w2"
proof -
  let ?tail = "take k (buffer w) @ buffer w"
  define fs1 where "fs1 = fs\<lparr>plan := [], files := (files fs)(h \<mapsto> log_bytes rs @ take k (buffer w))\<rparr>"
  have ne: "buffer w \<noteq> []" "take k (buffer w) \<noteq> []"
    using assms(4,6) by simp_all
  have 1: "wal_flush (w, fs) = (Inl OsError, (w, fs1))"
    using ne assms(1,3,5)
    by (simp add: wal_flush_def io_bind_def on_fs_def fh_len_def fh_write_at_def io_op_def io_step_def
        fs1_def contents_def [of "fs\<lparr>plan := _\<rparr>"] contents_def [of fs, symmetric])
  have p: "plan fs1 = []" "contents fs1 h = log_bytes rs @ take k (buffer w)"
    by (simp_all add: fs1_def contents_def)
  obtain w2 fs2 where 2: "wal_flush (w, fs1) = (Inr (), (w2, fs2))"
    using ne(1) p(1) by (simp add: wal_flush_def io_bind_def on_fs_def fh_len_def fh_write_at_def
        fh_sync_def io_op_def on_writer_def)
  have d: "durable fs2 h = Some (log_bytes rs @ ?tail)" and w2: "current_lsn w \<le> durable_lsn w2"
    using wal_flush_Inr [OF 2] ne(1) p(2) assms(3) by (simp_all split: if_splits)
  obtain t where t: "buffer w = [0x57, 0x41, 0x4C, 0x21] @ t"
    using wal_encode_magic [of r] assms(4) by auto
  have "k = 1 \<or> k = 2 \<or> k = 3"
    using assms(6,7) by auto
  then have "take 4 ?tail \<noteq> [0x57, 0x41, 0x4C, 0x21]"
    unfolding t by (elim disjE) simp_all
  then have "scan_log H (log_bytes rs @ ?tail) 0 = rs"
    using scan_log_bytes [OF assms(2) wal_decode_no_magic, of ?tail "[]"] by simp
  with 1 2 d w2 show ?thesis
    by blast
qed

theorem flush_retry_hides_record_witness:
  "\<exists>s1 w2 fs2 d. wal_flush (demo_writer\<lparr>buffer := wal_encode demo_commit\<rparr>, demo_fs\<lparr>plan := [Succeed, Fail 1]\<rparr>)
       = (Inl OsError, s1) \<and> wal_flush s1 = (Inr (), (w2, fs2)) \<and> durable fs2 (Live 0) = Some d
     \<and> scan_log demo_digests d 0 = []"
proof -
  have "contents (demo_fs\<lparr>plan := [Succeed, Fail 1]\<rparr>) (Live 0) = log_bytes []"
    "segment_handle (demo_writer\<lparr>buffer := wal_encode demo_commit\<rparr>) = Live 0"
    "buffer (demo_writer\<lparr>buffer := wal_encode demo_commit\<rparr>) = wal_encode demo_commit @ []"
    by (simp_all add: demo_fs_def contents_def demo_writer_def)
  from flush_retry_hides_record [OF this(1) _ this(2,3), of demo_digests 1] show ?thesis
    by auto
qed

section \<open>Reopening\<close>

lemma find_loop_up:
  assumes "\<And>j. i \<le> j \<Longrightarrow> j \<le> hi \<Longrightarrow> ex j" "\<not> ex (Suc hi)" "i \<le> hi" "Suc hi < 2 ^ 32"
  shows "find_loop ex i m = hi"
  using assms
proof (induction "hi - i" arbitrary: i m)
  case 0
  then have "i = hi" "ex hi"
    by auto
  then show ?case
    using 0(3,5) by (subst find_loop.simps, subst find_loop.simps) simp
next
  case (Suc n)
  then have "ex i" "i < 2 ^ 32" "i < hi"
    by auto
  then show ?case
    using Suc(1) [of "Suc i" i] Suc.hyps(2) Suc.prems by (subst find_loop.simps) simp
qed

text \<open>The probe on a directory whose live segments are a contiguous range.\<close>

lemma find_highest_range:
  assumes "\<And>i. fs_exists (Live i) fs \<longleftrightarrow> lo \<le> i \<and> i \<le> hi" "lo \<le> hi" "Suc hi < 2 ^ 32"
  shows "find_highest_segment_id fs = (if lo \<le> 1 then hi else 0)"
proof -
  let ?ex = "\<lambda>i. lo \<le> i \<and> i \<le> hi"
  have "find_loop ?ex 0 0 = (if lo \<le> 1 then hi else 0)"
  proof (cases "lo = 0")
    case True
    then show ?thesis
      using find_loop_up [of 0 hi ?ex 0] assms(2,3) by simp
  next
    case False
    then have "find_loop ?ex 0 0 = find_loop ?ex 1 0"
      by (subst find_loop.simps) simp
    also have "\<dots> = (if lo \<le> 1 then hi else 0)"
    proof (cases "lo = 1")
      case True
      then show ?thesis
        using find_loop_up [of 1 hi ?ex 0] assms(2,3) by simp
    next
      case False
      with \<open>lo \<noteq> 0\<close> show ?thesis
        by (subst find_loop.simps) simp
    qed
    finally show ?thesis .
  qed
  then show ?thesis
    by (simp add: find_highest_segment_id_def assms(1))
qed

lemma archive_loop_live:
  assumes "plan fs = []"
  shows "\<exists>fs'. archive_loop n seg fs = (Inr (), fs') \<and> plan fs' = [] \<and> files fs' WalDir = files fs WalDir \<and>
    (\<forall>i. fs_exists (Live i) fs' \<longleftrightarrow> fs_exists (Live i) fs \<and> \<not> (seg \<le> i \<and> i < seg + n))"
  using assms
proof (induction n arbitrary: seg fs)
  case (Suc n)
  define fs1 where "fs1 = (if fs_exists (Live seg) fs then snd (fs_rename (Live seg) (Archived seg) fs) else fs)"
  have p: "plan fs1 = []" and d: "files fs1 WalDir = files fs WalDir"
    and ex: "fs_exists (Live i) fs1 \<longleftrightarrow> fs_exists (Live i) fs \<and> i \<noteq> seg" for i
    using Suc.prems by (auto simp: fs1_def fs_rename_def fs_exists_def)
  have "archive_loop (Suc n) seg fs = archive_loop n (Suc seg) fs1"
    using Suc.prems by (simp add: io_bind_def io_ignore_def fs1_def split: prod.splits)
  with Suc.IH [OF p, of "Suc seg"] ex d show ?case
    by fastforce
qed (simp add: io_return_def)

lemma wal_open_existing:
  assumes "plan fs = []" "find_highest_segment_id fs = seg" "files fs (Live seg) = Some d" "files fs WalDir \<noteq> None"
  shows "wal_open H fs = (Inr
      \<lparr>current_lsn = make_lsn (of_nat seg) (if seg = 0 then max (of_nat (valid_end H d 0)) 1 else of_nat (valid_end H d 0)),
       segment_path = Live seg, buffer = [], unsynced = 0, segment_id = seg,
       segment_start_lsn = make_lsn (of_nat seg) 0, segment_record_count = 0, total_segment_count = seg + 1,
       segment_handle = Live seg,
       durable_lsn = make_lsn (of_nat seg) (if seg = 0 then max (of_nat (valid_end H d 0)) 1 else of_nat (valid_end H d 0)),
       bytes_since_checkpoint = 0\<rparr>,
     if valid_end H d 0 < length d then
       fs\<lparr>files := (files fs)(Live seg \<mapsto> take (valid_end H d 0) d),
          durable := (durable fs)(Live seg \<mapsto> take (valid_end H d 0) d)\<rparr>
     else fs)"
proof -
  have v: "valid_end H [] 0 = 0"
    by (subst valid_end.simps) simp
  have "last_valid_offset H (Live seg) (length d) fs = (Inr (valid_end H d 0), fs)"
    using assms(1,3) v
    by (simp add: last_valid_offset_def io_bind_def fh_read_at_def contents_def io_return_def slice_def)
  then show ?thesis
    using assms by (auto simp: wal_open_def io_bind_def fs_create_dir_all_def fs_exists_def Let_def
        fs_open_def fh_len_def contents_def fh_set_len_def fh_sync_def io_return_def)
qed

lemma wal_open_fresh:
  assumes "plan fs = []" "find_highest_segment_id fs = seg" "files fs (Live seg) = None" "files fs WalDir \<noteq> None"
  shows "\<exists>w fs'. wal_open H fs = (Inr w, fs') \<and> segment_handle w = Live seg \<and>
    current_lsn w = make_lsn (of_nat seg) (if seg = 0 then 1 else 0)"
  using assms by (auto simp: wal_open_def io_bind_def fs_create_dir_all_def fs_exists_def Let_def
      fs_open_def contents_def fh_sync_def fs_sync_dir_def io_return_def)

text \<open>C21. Reopening after a crash: opening the log whose last segment holds whole records and a
  torn one truncates the segment, durably, to the whole records; the writer then continues
  behind them, so that records appended and flushed later are found by the scan.\<close>

theorem reopen_resumes_after_torn_tail:
  assumes "plan fs = []" and "files fs WalDir \<noteq> None" and "find_highest_segment_id fs = seg"
    and "files fs (Live seg) = Some (log_bytes rs @ take k (wal_encode torn))"
    and "\<forall>r \<in> set rs. record_ok H r" and "record_ok H torn" and "0 < k" and "k < on_disk_size torn"
  shows "\<exists>w fs'. wal_open H fs = (Inr w, fs') \<and> wal_log (w, fs') = log_bytes rs
    \<and> durable fs' (Live seg) = Some (log_bytes rs) \<and> segment_handle w = Live seg
    \<and> lsn_segment_id (current_lsn w) = of_nat seg
    \<and> (\<forall>r lsn s1 w2 fs2. length (r_payload r) < 2 ^ 32 \<longrightarrow> wal_append H r (w, fs') = (Inr lsn, s1) \<longrightarrow>
         wal_flush s1 = (Inr (), (w2, fs2)) \<longrightarrow>
         scan_log H (contents fs2 (Live seg)) 0 = rs @ [set_lsn H r lsn])"
proof -
  let ?d = "log_bytes rs @ take k (wal_encode torn)"
  have v: "valid_end H ?d 0 = length (log_bytes rs)"
    using scan_log_bytes [OF assms(5) torn_not_decodable [OF assms(6,8)], of "[]"] by simp
  have lt: "length (log_bytes rs) < length ?d" and tk: "take (length (log_bytes rs)) ?d = log_bytes rs"
    using assms(7,8) by simp_all
  obtain w where w: "wal_open H fs = (Inr w, fs\<lparr>files := (files fs)(Live seg \<mapsto> log_bytes rs),
          durable := (durable fs)(Live seg \<mapsto> log_bytes rs)\<rparr>)"
      "segment_handle w = Live seg" "buffer w = []" "lsn_segment_id (current_lsn w) = of_nat seg"
    using wal_open_existing [OF assms(1,3,4,2), of H] lt unfolding v tk by auto
  let ?fs = "fs\<lparr>files := (files fs)(Live seg \<mapsto> log_bytes rs), durable := (durable fs)(Live seg \<mapsto> log_bytes rs)\<rparr>"
  have log: "wal_log (w, ?fs) = log_bytes rs"
    using w by (simp add: wal_log_def contents_def)
  have "scan_log H (contents fs2 (Live seg)) 0 = rs @ [set_lsn H r lsn]"
    if a: "length (r_payload r) < 2 ^ 32" "wal_append H r (w, ?fs) = (Inr lsn, s1)" "wal_flush s1 = (Inr (), (w2, fs2))"
    for r lsn s1 w2 fs2
  proof -
    obtain w1 fs1 where s1: "s1 = (w1, fs1)"
      by (cases s1)
    note wa = wal_append_Inr [OF a(2) [unfolded s1]]
    have "contents fs2 (Live seg) = wal_log (w1, fs1)"
      using wal_flush_Inr(2) [OF a(3) [unfolded s1]] wa w(2) by (simp add: wal_log_def)
    also have "\<dots> = log_bytes (rs @ [set_lsn H r lsn])"
      using wa log by simp
    finally show ?thesis
      using scan_log_bytes [of "rs @ [set_lsn H r lsn]" H "[]" "[]"] assms(5) a(1) by (simp add: set_lsn_def)
  qed
  with w log show ?thesis
    by (intro exI [of _ w] exI [of _ ?fs]) auto
qed

text \<open>Archiving breaks reopening: once rotation out of segment 3 or later has archived the
  oldest segments, the probe for the highest segment stops at the gap they left and
  reports segment 0, although the live segment that was being written still exists; the
  reopened writer creates segment 0 again and restarts sequence numbers at its first
  offset, below every number already in the log.\<close>

theorem reopen_after_archive_restarts_at_zero:
  assumes "plan fs = []" and "\<And>i. fs_exists (Live i) fs \<longleftrightarrow> i \<le> n + 1" and "3 \<le> n" and "n + 2 < 2 ^ 32"
    and "files fs WalDir \<noteq> None"
  shows "\<exists>fs' w fs''. archive_old_segments n fs = (Inr (), fs') \<and> fs_exists (Live (n + 1)) fs'
    \<and> find_highest_segment_id fs' = 0 \<and> wal_open H fs' = (Inr w, fs'') \<and> segment_handle w = Live 0
    \<and> current_lsn w = make_lsn 0 1 \<and> current_lsn w < make_lsn (of_nat (n + 1)) 0"
proof -
  define fs0 where "fs0 = (if fs_exists ArchiveDir fs then fs else fs\<lparr>files := (files fs)(ArchiveDir \<mapsto> [])\<rparr>)"
  have p0: "plan fs0 = []" and ex0: "fs_exists (Live i) fs0 \<longleftrightarrow> i \<le> n + 1" for i
    using assms(1,2) by (simp_all add: fs0_def fs_exists_def)
  obtain fs' where l: "archive_loop (n - 1) 0 fs0 = (Inr (), fs')" "plan fs' = []"
    and d: "files fs' WalDir = files fs0 WalDir" and ex: "\<And>i. fs_exists (Live i) fs' \<longleftrightarrow> i \<le> n + 1 \<and> \<not> i < n - 1"
    using archive_loop_live [OF p0, of "n - 1" 0] ex0 by auto
  have arch: "archive_old_segments n fs = (Inr (), fs')"
    using assms(1,3) l(1) by (simp add: archive_old_segments_def LIVE_SEGMENT_RETENTION_def io_bind_def
        fs_create_dir_all_def fs0_def)
  have high: "find_highest_segment_id fs' = 0"
  proof -
    have "fs_exists (Live i) fs' \<longleftrightarrow> n - 1 \<le> i \<and> i \<le> n + 1" for i
      using ex [of i] by linarith
    from find_highest_range [OF this] assms(3,4) show ?thesis
      by simp
  qed
  have "files fs' (Live 0) = None" "files fs' WalDir \<noteq> None"
    using ex [of 0] assms(3,5) d by (auto simp: fs_exists_def fs0_def)
  from wal_open_fresh [OF l(2) high this, of H] obtain w fs''
    where "wal_open H fs' = (Inr w, fs'')" "segment_handle w = Live 0" "current_lsn w = make_lsn 0 1"
    by auto
  moreover have "make_lsn 0 1 < make_lsn (of_nat (n + 1)) 0"
  proof -
    have "unat (of_nat (n + 1) :: u32) = n + 1"
      using assms(4) by (simp only: unat_of_nat mod_less) simp
    then show ?thesis
      using assms(3) by (simp add: word_less_nat_alt unat_make_lsn)
  qed
  ultimately show ?thesis
    using arch ex [of "n + 1"] high by auto
qed

theorem reopen_resumes_after_torn_tail_witness:
  "\<exists>w fs'. wal_open demo_digests (demo_fs\<lparr>files := [WalDir \<mapsto> [], Live 0 \<mapsto> take 20 (wal_encode demo_commit)]\<rparr>)
      = (Inr w, fs') \<and> durable fs' (Live 0) = Some []"
proof -
  let ?fs = "demo_fs\<lparr>files := [WalDir \<mapsto> [], Live 0 \<mapsto> take 20 (wal_encode demo_commit)]\<rparr>"
  have "plan ?fs = []" "files ?fs WalDir \<noteq> None"
    "files ?fs (Live 0) = Some (log_bytes [] @ take 20 (wal_encode demo_commit))"
    "\<forall>r \<in> set []. record_ok demo_digests r" "record_ok demo_digests demo_commit" "(0 :: nat) < 20"
    "20 < on_disk_size demo_commit"
    by (simp_all add: demo_fs_def) (simp add: demo_commit_def wal_record_new_def)
  moreover have "find_highest_segment_id ?fs = 0"
    using find_highest_range [of ?fs 0 0] by (simp add: fs_exists_def demo_fs_def)
  ultimately show ?thesis
    using reopen_resumes_after_torn_tail [of ?fs 0 "[]" 20 demo_commit demo_digests] by auto
qed

theorem reopen_after_archive_restarts_at_zero_witness:
  "\<exists>fs' w fs''. archive_old_segments 3 (demo_fs\<lparr>files := (\<lambda>p. case p of Live i \<Rightarrow> if i \<le> 4 then Some [] else None
       | WalDir \<Rightarrow> Some [] | _ \<Rightarrow> None)\<rparr>) = (Inr (), fs') \<and> fs_exists (Live 4) fs'
     \<and> wal_open demo_digests fs' = (Inr w, fs'') \<and> current_lsn w = make_lsn 0 1"
proof -
  let ?fs = "demo_fs\<lparr>files := (\<lambda>p. case p of Live i \<Rightarrow> if i \<le> 4 then Some [] else None
       | WalDir \<Rightarrow> Some [] | _ \<Rightarrow> None)\<rparr>"
  have "plan ?fs = []" "files ?fs WalDir \<noteq> None"
    by (simp_all add: demo_fs_def)
  moreover have "fs_exists (Live i) ?fs \<longleftrightarrow> i \<le> 3 + 1" for i
    by (simp add: fs_exists_def)
  ultimately show ?thesis
    using reopen_after_archive_restarts_at_zero [of ?fs 3 demo_digests] by fastforce
qed

end
