(* ===== verification/TxManager.thy ===== *)
theory TxManager
  imports TxState LockTable WoundWait Phantom WalWriter
begin

text \<open>
  The transaction manager of \<open>src/src/txn/manager.rs\<close>, over the components it shares
  between transactions: the global state, the lock table, the wound-wait counters, the SSI
  tracker and the registry of wounded transactions. Every call to a component is atomic,
  as in the source, where each component has its own mutex.

  The three lock-acquisition loops of the source differ in the list the granted resource is
  pushed to and in whether a denied request or a notification re-checks the registry; they
  are one definition with these two arguments. What other threads do, and how the bounded
  wait ends, is the argument \<open>env\<close>: one entry for each time the loop gives up the processor,
  \<open>None\<close> being the result while the loop has not returned. Secondary-index mutations are of
  an arbitrary type, and the index manager's \<open>apply_batch\<close> is an argument.
\<close>

section \<open>Definitions\<close>

datatype isolation_level = ReadUncommitted | ReadCommitted | RepeatableRead | Serializable

datatype tx_status = Active | Committed | Aborted

datatype tx_error =
    WalFlush io_error
  | WoundWait txid
  | NotActive txid tx_status
  | AlreadyFinalised txid
  | IndexMutation string
  | PhantomConflict txid
  | WriteConflict txid u64

record 'm transaction =
  t_txid :: txid
  t_snapshot :: snapshot
  t_status :: tx_status
  t_isolation_level :: isolation_level
  t_held_locks :: "u64 list"
  t_wound_count :: u8
  t_index_mutations :: "'m list"
  t_ssi :: ssi_flags
  t_read_ranges :: "u64 list"
  t_write_set :: "(u64 \<times> u32) list"

definition is_active :: "'m transaction \<Rightarrow> bool" where
  "is_active tx \<longleftrightarrow> t_status tx = Active"

record tx_manager =
  tm_global_state :: tx_state
  tm_lock_table :: lock_table
  tm_wound_wait :: wound_wait
  tm_ssi_tracker :: ssi_tracker
  tm_abort_registry :: "txid set"
  tm_default_isolation :: isolation_level

definition mark_aborted :: "txid \<Rightarrow> tx_manager \<Rightarrow> tx_manager" where
  "mark_aborted t tm = tm\<lparr>tm_abort_registry := insert t (tm_abort_registry tm)\<rparr>"

definition registry_is_aborted :: "tx_manager \<Rightarrow> txid \<Rightarrow> bool" where
  "registry_is_aborted tm t \<longleftrightarrow> t \<in> tm_abort_registry tm"

definition registry_clear :: "txid \<Rightarrow> tx_manager \<Rightarrow> tx_manager" where
  "registry_clear t tm = tm\<lparr>tm_abort_registry := tm_abort_registry tm - {t}\<rparr>"

definition with_components :: "tx_state \<Rightarrow> lock_table \<Rightarrow> wound_wait \<Rightarrow> ssi_tracker \<Rightarrow> tx_manager" where
  "with_components g l w s =
     \<lparr>tm_global_state = g, tm_lock_table = l, tm_wound_wait = w, tm_ssi_tracker = s,
      tm_abort_registry = {}, tm_default_isolation = RepeatableRead\<rparr>"

definition tx_manager_new :: tx_manager where
  "tx_manager_new = with_components tx_state_new lock_table_new wound_wait_new ssi_tracker_new"

definition begin_with_isolation :: "tx_manager \<Rightarrow> isolation_level \<Rightarrow> 'm transaction \<times> tx_manager" where
  "begin_with_isolation tm level =
     (let (t, snap, s') = begin_tx (tm_global_state tm) in
      (\<lparr>t_txid = t, t_snapshot = snap, t_status = Active, t_isolation_level = level, t_held_locks = [],
        t_wound_count = 0, t_index_mutations = [], t_ssi = ssi_flags_new, t_read_ranges = [],
        t_write_set = []\<rparr>,
       tm\<lparr>tm_global_state := s'\<rparr>))"

definition tm_begin :: "tx_manager \<Rightarrow> 'm transaction \<times> tx_manager" where
  "tm_begin tm = begin_with_isolation tm (tm_default_isolation tm)"

definition tm_release_all :: "txid \<Rightarrow> u64 list \<Rightarrow> tx_manager \<Rightarrow> tx_manager" where
  "tm_release_all t rs tm = tm\<lparr>tm_lock_table := fst (release_all (tm_lock_table tm) t rs)\<rparr>"

text \<open>Release of the ordinary locks, then of the range locks, with the lists cleared.\<close>

definition release_locks :: "tx_manager \<Rightarrow> 'm transaction \<Rightarrow> tx_manager \<times> 'm transaction" where
  "release_locks tm tx =
     (let tm1 = tm_release_all (t_txid tx) (t_held_locks tx) tm;
          tx1 = tx\<lparr>t_held_locks := []\<rparr>;
          tm2 = tm_release_all (t_txid tx) (t_read_ranges tx1) tm1
      in (tm2, tx1\<lparr>t_read_ranges := []\<rparr>))"

definition on_state :: "(tx_state \<Rightarrow> tx_state) \<Rightarrow> tx_manager \<Rightarrow> tx_manager" where
  "on_state f tm = tm\<lparr>tm_global_state := f (tm_global_state tm)\<rparr>"

definition tm_wound_cleanup :: "txid \<Rightarrow> tx_manager \<Rightarrow> tx_manager" where
  "tm_wound_cleanup t tm = tm\<lparr>tm_wound_wait := wound_cleanup (tm_wound_wait tm) t\<rparr>"

definition tm_ssi_cleanup :: "txid \<Rightarrow> tx_manager \<Rightarrow> tx_manager" where
  "tm_ssi_cleanup t tm = tm\<lparr>tm_ssi_tracker := ssi_cleanup (tm_ssi_tracker tm) t\<rparr>"

type_synonym 'm tx_result = "(tx_error + unit) \<times> tx_manager \<times> 'm transaction \<times> wal_state"

definition rollback ::
    "digests \<Rightarrow> u64 \<Rightarrow> tx_manager \<Rightarrow> 'm transaction \<Rightarrow> wal_state \<Rightarrow> 'm tx_result" where
  "rollback H now tm tx ws =
     (if \<not> is_active tx then (Inl (NotActive (t_txid tx) (t_status tx)), tm, tx, ws)
      else let abort_rec = wal_record_new H now Abort (t_txid tx) 0 0 [];
               ws1 = snd (wal_append H abort_rec ws);
               (tm1, tx1) = release_locks tm (tx\<lparr>t_index_mutations := []\<rparr>);
               t = t_txid tx;
               tm2 = tm_ssi_cleanup t (registry_clear t (tm_wound_cleanup t
                       (on_state (\<lambda>s. abort_tx s t) tm1)))
           in (Inr (), tm2, tx1\<lparr>t_status := Aborted\<rparr>, ws1))"

definition commit ::
    "digests \<Rightarrow> u64 \<Rightarrow> tx_manager \<Rightarrow> 'm transaction \<Rightarrow> wal_state \<Rightarrow> 'm tx_result" where
  "commit H now tm tx ws =
     (if \<not> is_active tx then (Inl (NotActive (t_txid tx) (t_status tx)), tm, tx, ws)
      else if t_isolation_level tx = Serializable \<and> ssi_is_doomed (tm_ssi_tracker tm) (t_txid tx) (t_ssi tx)
      then case rollback H now tm tx ws of
             (_, tm', tx', ws') \<Rightarrow> (Inl (PhantomConflict (t_txid tx')), tm', tx', ws')
      else case wal_append H (wal_record_new H now Commit (t_txid tx) 0 0 []) ws of
             (Inl e, ws1) \<Rightarrow> (Inl (WalFlush e), tm, tx, ws1)
           | (Inr _, ws1) \<Rightarrow>
               (case wal_flush ws1 of
                  (Inl e, ws2) \<Rightarrow> (Inl (WalFlush e), tm, tx, ws2)
                | (Inr _, ws2) \<Rightarrow>
                    (let (tm1, tx1) = release_locks tm tx;
                         t = t_txid tx;
                         tm2 = tm_ssi_cleanup t (tm_wound_cleanup t (on_state (\<lambda>s. commit_tx s t) tm1))
                     in (Inr (), tm2, tx1\<lparr>t_status := Committed\<rparr>, ws2))))"

definition commit_with_indexes ::
    "('m list \<Rightarrow> 'ix \<Rightarrow> (string + unit) \<times> 'ix) \<Rightarrow> digests \<Rightarrow> u64 \<Rightarrow> tx_manager \<Rightarrow> 'm transaction \<Rightarrow> 'ix \<Rightarrow>
     wal_state \<Rightarrow> 'm tx_result \<times> 'ix" where
  "commit_with_indexes apply_batch H now tm tx ix ws =
     (if \<not> is_active tx then ((Inl (NotActive (t_txid tx) (t_status tx)), tm, tx, ws), ix)
      else case apply_batch (t_index_mutations tx) ix of
             (Inl e, ix') \<Rightarrow>
               (case rollback H now tm tx ws of
                  (_, tm', tx', ws') \<Rightarrow> ((Inl (IndexMutation e), tm', tx', ws'), ix'))
           | (Inr _, ix') \<Rightarrow> (commit H now tm (tx\<lparr>t_index_mutations := []\<rparr>) ws, ix'))"

definition stage_index_mutation :: "'m transaction \<Rightarrow> 'm \<Rightarrow> (tx_error + unit) \<times> 'm transaction" where
  "stage_index_mutation tx mutation =
     (if \<not> is_active tx then (Inl (NotActive (t_txid tx) (t_status tx)), tx)
      else (Inr (), tx\<lparr>t_index_mutations := t_index_mutations tx @ [mutation]\<rparr>))"

definition abort_waiter :: "tx_manager \<Rightarrow> 'm transaction \<Rightarrow> tx_error \<times> tx_manager \<times> 'm transaction" where
  "abort_waiter tm tx =
     (let t = t_txid tx;
          (tm1, tx1) = release_locks tm (tx\<lparr>t_status := Aborted\<rparr>)
      in (WoundWait t,
          tm_ssi_cleanup t (registry_clear t (tm_wound_cleanup t (on_state (\<lambda>s. abort_tx s t) tm1))), tx1))"

text \<open>The callback the manager passes to \<open>record_wound\<close>, and the wound itself.\<close>

definition abort_victim :: "u64 \<Rightarrow> txid \<Rightarrow> tx_manager \<Rightarrow> tx_manager" where
  "abort_victim r v tm =
     tm_ssi_cleanup v (tm_wound_cleanup v (on_state (\<lambda>s. abort_tx s v)
       ((mark_aborted v tm)\<lparr>tm_lock_table := fst (release (tm_lock_table tm) r v)\<rparr>)))"

definition wound_victim :: "u64 \<Rightarrow> txid \<Rightarrow> tx_manager \<Rightarrow> tx_manager" where
  "wound_victim r v tm = record_wound tm_wound_wait_update v (abort_victim r) tm"

text \<open>The loop over the holders: the victim if one was wounded, whether another holder was
  met, and the new states.\<close>

fun wound_holders ::
    "tx_manager \<Rightarrow> 'm transaction \<Rightarrow> u64 \<Rightarrow> (txid \<times> lock_mode) list \<Rightarrow> bool \<Rightarrow>
     txid option \<times> bool \<times> tx_manager \<times> 'm transaction" where
  "wound_holders tm tx r [] found = (None, found, tm, tx)"
| "wound_holders tm tx r ((h, _) # hs) found =
     (if h = t_txid tx then wound_holders tm tx r hs found
      else case check (tm_wound_wait tm) (t_txid tx) h of
             Wound \<Rightarrow> (Some h, True, wound_victim r h tm, tx)
           | Wait \<Rightarrow> wound_holders tm (tx\<lparr>t_wound_count := wound_count (tm_wound_wait tm) (t_txid tx)\<rparr>) r hs True)"

datatype attempt = Return "tx_error + unit" | Retry | Block channel

definition push_new :: "u64 \<Rightarrow> u64 list \<Rightarrow> u64 list" where
  "push_new r rs = (if r \<in> set rs then rs else rs @ [r])"

definition push_held :: "u64 \<Rightarrow> 'm transaction \<Rightarrow> 'm transaction" where
  "push_held r tx = tx\<lparr>t_held_locks := push_new r (t_held_locks tx)\<rparr>"

definition push_range :: "u64 \<Rightarrow> 'm transaction \<Rightarrow> 'm transaction" where
  "push_range r tx = tx\<lparr>t_read_ranges := push_new r (t_read_ranges tx)\<rparr>"

definition fail_aborted :: "tx_manager \<Rightarrow> 'm transaction \<Rightarrow> attempt \<times> tx_manager \<times> 'm transaction" where
  "fail_aborted tm tx = (case abort_waiter tm tx of (e, tm', tx') \<Rightarrow> (Return (Inl e), tm', tx'))"

text \<open>One turn of a lock loop up to the return or to the point where it blocks.\<close>

definition lock_attempt ::
    "bool \<Rightarrow> ('m transaction \<Rightarrow> 'm transaction) \<Rightarrow> u64 \<Rightarrow> lock_mode \<Rightarrow> tx_manager \<Rightarrow> 'm transaction \<Rightarrow>
     attempt \<times> tx_manager \<times> 'm transaction" where
  "lock_attempt recheck push r mode tm tx =
     (case try_acquire (tm_lock_table tm) r (t_txid tx) mode of
        (Granted, _, lt) \<Rightarrow> (Return (Inr ()), tm\<lparr>tm_lock_table := lt\<rparr>, push tx)
      | (Denied, rx_opt, lt) \<Rightarrow>
          (let tm1 = tm\<lparr>tm_lock_table := lt\<rparr> in
           if recheck \<and> registry_is_aborted tm1 (t_txid tx) then fail_aborted tm1 tx
           else case wound_holders tm1 tx r (lt_holders (tm_lock_table tm1) r) False of
                  (Some victim, _, tm2, tx2) \<Rightarrow> (Return (Inl (WoundWait victim)), tm2, tx2)
                | (None, found_incompatible, tm2, tx2) \<Rightarrow>
                    (if \<not> found_incompatible then (Retry, tm2, tx2)
                     else case rx_opt of Some rx \<Rightarrow> (Block rx, tm2, tx2) | None \<Rightarrow> (Retry, tm2, tx2))))"

datatype wake = Notified lock_result | TimedOut

definition lock_wake ::
    "bool \<Rightarrow> ('m transaction \<Rightarrow> 'm transaction) \<Rightarrow> wake \<Rightarrow> tx_manager \<Rightarrow> 'm transaction \<Rightarrow>
     attempt \<times> tx_manager \<times> 'm transaction" where
  "lock_wake recheck push wk tm tx =
     (case wk of
        TimedOut \<Rightarrow> (if registry_is_aborted tm (t_txid tx) then fail_aborted tm tx else (Retry, tm, tx))
      | Notified Granted \<Rightarrow>
          (if recheck \<and> registry_is_aborted tm (t_txid tx) then fail_aborted tm tx
           else (Return (Inr ()), tm, push tx))
      | Notified Denied \<Rightarrow> (Retry, tm, tx))"

type_synonym lock_env = "((tx_manager \<Rightarrow> tx_manager) \<times> wake) list"

fun lock_loop ::
    "bool \<Rightarrow> ('m transaction \<Rightarrow> 'm transaction) \<Rightarrow> u64 \<Rightarrow> lock_mode \<Rightarrow> lock_env \<Rightarrow> tx_manager \<Rightarrow>
     'm transaction \<Rightarrow> ((tx_error + unit) \<times> tx_manager \<times> 'm transaction) option" where
  "lock_loop recheck push r mode [] tm tx =
     (case lock_attempt recheck push r mode tm tx of
        (Return res, tm', tx') \<Rightarrow> Some (res, tm', tx') | _ \<Rightarrow> None)"
| "lock_loop recheck push r mode ((others, wk) # env) tm tx =
     (case lock_attempt recheck push r mode tm tx of
        (Return res, tm', tx') \<Rightarrow> Some (res, tm', tx')
      | (Retry, tm', tx') \<Rightarrow> lock_loop recheck push r mode env (others tm') tx'
      | (Block rx, tm', tx') \<Rightarrow>
          (case lock_wake recheck push wk (others tm') tx' of
             (Return res, tm'', tx'') \<Rightarrow> Some (res, tm'', tx'')
           | (_, tm'', tx'') \<Rightarrow> lock_loop recheck push r mode env tm'' tx''))"

definition acquire_lock ::
    "lock_env \<Rightarrow> tx_manager \<Rightarrow> 'm transaction \<Rightarrow> u64 \<Rightarrow> lock_mode \<Rightarrow>
     ((tx_error + unit) \<times> tx_manager \<times> 'm transaction) option" where
  "acquire_lock env tm tx r mode =
     (if \<not> is_active tx then Some (Inl (NotActive (t_txid tx) (t_status tx)), tm, tx)
      else if registry_is_aborted tm (t_txid tx)
      then case abort_waiter tm tx of (e, tm', tx') \<Rightarrow> Some (Inl e, tm', tx')
      else lock_loop True (push_held r) r mode env tm tx)"

definition acquire_range_lock ::
    "lock_env \<Rightarrow> tx_manager \<Rightarrow> 'm transaction \<Rightarrow> u64 \<Rightarrow>
     ((tx_error + unit) \<times> tx_manager \<times> 'm transaction) option" where
  "acquire_range_lock env tm tx range_id =
     (if \<not> is_active tx then Some (Inl (NotActive (t_txid tx) (t_status tx)), tm, tx)
      else lock_loop False (push_range range_id) range_id Shared env tm tx)"

fun mark_readers ::
    "snapshot \<Rightarrow> (txid \<times> lock_mode) list \<Rightarrow> tx_manager \<Rightarrow> 'm transaction \<Rightarrow> tx_manager \<times> 'm transaction" where
  "mark_readers snap [] tm tx = (tm, tx)"
| "mark_readers snap ((h, mode) # hs) tm tx =
     (if h = t_txid tx then mark_readers snap hs tm tx
      else if (mode = Shared \<or> mode = IntentionShared) \<and> sn_is_active snap h
      then mark_readers snap hs (tm\<lparr>tm_ssi_tracker := mark_out_conflict (tm_ssi_tracker tm) h\<rparr>)
             (tx\<lparr>t_ssi := (t_ssi tx)\<lparr>in_conflict := True\<rparr>\<rparr>)
      else mark_readers snap hs tm tx)"

definition record_phantom_write ::
    "lock_env \<Rightarrow> tx_manager \<Rightarrow> 'm transaction \<Rightarrow> u64 \<Rightarrow>
     ((tx_error + unit) \<times> tx_manager \<times> 'm transaction) option" where
  "record_phantom_write env tm tx range_id =
     (if \<not> is_active tx then Some (Inl (NotActive (t_txid tx) (t_status tx)), tm, tx)
      else let (tm1, tx1) = mark_readers (active_snapshot (tm_global_state tm))
                              (lt_holders (tm_lock_table tm) range_id) tm tx
           in lock_loop False (push_held range_id) range_id Exclusive env tm1 tx1)"

definition record_write :: "'m transaction \<Rightarrow> u64 \<Rightarrow> u32 \<Rightarrow> (tx_error + unit) \<times> 'm transaction" where
  "record_write tx r xmax_at_write =
     (if \<not> is_active tx then (Inl (NotActive (t_txid tx) (t_status tx)), tx)
      else (Inr (), if \<exists>p \<in> set (t_write_set tx). fst p = r then tx
                    else tx\<lparr>t_write_set := t_write_set tx @ [(r, xmax_at_write)]\<rparr>))"

definition snapshot_gc_horizon :: "tx_manager \<Rightarrow> txid" where
  "snapshot_gc_horizon tm = gs_xmin (tm_global_state tm)"

section \<open>Projections\<close>

lemma release_locks_eq:
  "release_locks tm tx =
     (tm\<lparr>tm_lock_table := fst (release_all (tm_lock_table tm) (t_txid tx) (t_held_locks tx @ t_read_ranges tx))\<rparr>,
      tx\<lparr>t_held_locks := [], t_read_ranges := []\<rparr>)"
proof -
  have "fst (release_all (fst (release_all lt t xs)) t ys) = fst (release_all lt t (xs @ ys))" for lt t xs ys
    by (induction xs arbitrary: lt) (simp_all add: case_prod_unfold Let_def)
  then show ?thesis
    by (simp add: release_locks_def tm_release_all_def Let_def)
qed

lemmas tm_cleanup_defs = on_state_def tm_wound_cleanup_def tm_ssi_cleanup_def registry_clear_def
  mark_aborted_def release_locks_eq

lemma rollback_active:
  assumes "is_active tx"
  shows "rollback H now tm tx ws =
    (Inr (),
     tm\<lparr>tm_lock_table := fst (release_all (tm_lock_table tm) (t_txid tx) (t_held_locks tx @ t_read_ranges tx)),
        tm_global_state := abort_tx (tm_global_state tm) (t_txid tx),
        tm_wound_wait := wound_cleanup (tm_wound_wait tm) (t_txid tx),
        tm_abort_registry := tm_abort_registry tm - {t_txid tx},
        tm_ssi_tracker := ssi_cleanup (tm_ssi_tracker tm) (t_txid tx)\<rparr>,
     tx\<lparr>t_index_mutations := [], t_held_locks := [], t_read_ranges := [], t_status := Aborted\<rparr>,
     snd (wal_append H (wal_record_new H now Abort (t_txid tx) 0 0 []) ws))"
  using assms by (simp add: rollback_def tm_cleanup_defs Let_def)

lemma abort_waiter_eq:
  "abort_waiter tm tx =
    (WoundWait (t_txid tx),
     tm\<lparr>tm_lock_table := fst (release_all (tm_lock_table tm) (t_txid tx) (t_held_locks tx @ t_read_ranges tx)),
        tm_global_state := abort_tx (tm_global_state tm) (t_txid tx),
        tm_wound_wait := wound_cleanup (tm_wound_wait tm) (t_txid tx),
        tm_abort_registry := tm_abort_registry tm - {t_txid tx},
        tm_ssi_tracker := ssi_cleanup (tm_ssi_tracker tm) (t_txid tx)\<rparr>,
     tx\<lparr>t_status := Aborted, t_held_locks := [], t_read_ranges := []\<rparr>)"
  by (simp add: abort_waiter_def tm_cleanup_defs Let_def)

lemma abort_victim_eq:
  "abort_victim r v tm =
     tm\<lparr>tm_abort_registry := insert v (tm_abort_registry tm),
        tm_lock_table := fst (release (tm_lock_table tm) r v),
        tm_global_state := abort_tx (tm_global_state tm) v,
        tm_wound_wait := wound_cleanup (tm_wound_wait tm) v,
        tm_ssi_tracker := ssi_cleanup (tm_ssi_tracker tm) v\<rparr>"
  by (simp add: abort_victim_def tm_cleanup_defs)

lemma wound_victim_eq:
  "wound_victim r v tm =
     tm\<lparr>tm_abort_registry := insert v (tm_abort_registry tm),
        tm_lock_table := fst (release (tm_lock_table tm) r v),
        tm_global_state := abort_tx (tm_global_state tm) v,
        tm_wound_wait := bump_wound v (wound_cleanup (tm_wound_wait tm) v),
        tm_ssi_tracker := ssi_cleanup (tm_ssi_tracker tm) v\<rparr>"
  by (simp add: wound_victim_def record_wound_def abort_victim_eq)

text \<open>The three outcomes of a commit of an active transaction.\<close>

lemma commit_cases:
  assumes "commit H now tm tx ws = (res, tm', tx', ws')" "is_active tx"
  obtains
    (doomed) "t_isolation_level tx = Serializable" "ssi_is_doomed (tm_ssi_tracker tm) (t_txid tx) (t_ssi tx)"
      "res = Inl (PhantomConflict (t_txid tx))" "rollback H now tm tx ws = (Inr (), tm', tx', ws')"
  | (wal) e where "res = Inl (WalFlush e)" "tm' = tm" "tx' = tx"
  | (ok) lsn ws1 where "res = Inr ()"
      "wal_append H (wal_record_new H now Commit (t_txid tx) 0 0 []) ws = (Inr lsn, ws1)"
      "wal_flush ws1 = (Inr (), ws')"
      "tm' = tm\<lparr>tm_lock_table := fst (release_all (tm_lock_table tm) (t_txid tx) (t_held_locks tx @ t_read_ranges tx)),
        tm_global_state := commit_tx (tm_global_state tm) (t_txid tx),
        tm_wound_wait := wound_cleanup (tm_wound_wait tm) (t_txid tx),
        tm_ssi_tracker := ssi_cleanup (tm_ssi_tracker tm) (t_txid tx)\<rparr>"
      "tx' = tx\<lparr>t_held_locks := [], t_read_ranges := [], t_status := Committed\<rparr>"
proof (cases "t_isolation_level tx = Serializable \<and> ssi_is_doomed (tm_ssi_tracker tm) (t_txid tx) (t_ssi tx)")
  case True
  then show thesis
    using assms doomed by (simp add: commit_def rollback_active)
next
  case False
  then show thesis
    using assms wal ok
    by (auto simp: commit_def tm_cleanup_defs Let_def split: prod.splits sum.splits)
qed

section \<open>Commit\<close>

text \<open>What a successful commit leaves in the log: the commit record, durably behind all others.\<close>

lemma commit_log:
  assumes "commit H now tm tx (w, fs) = (Inr (), tm', tx', (w', fs'))" "is_active tx"
  shows "segment_handle w' = segment_handle w"
    and "durable fs' (segment_handle w) =
    Some (wal_log (w, fs) @ wal_encode (set_lsn H (wal_record_new H now Commit (t_txid tx) 0 0 []) (current_lsn w)))"
proof -
  obtain lsn w1 fs1 where ok: "wal_append H (wal_record_new H now Commit (t_txid tx) 0 0 []) (w, fs) = (Inr lsn, (w1, fs1))"
    "wal_flush (w1, fs1) = (Inr (), (w', fs'))"
    using assms by (cases rule: commit_cases) auto
  note a = wal_append_Inr [OF ok(1)] and f = wal_flush_Inr [OF ok(2)]
  have "segment_handle w' = segment_handle w1"
    using f(1) by (simp split: if_splits)
  moreover have "contents fs' (segment_handle w1) = wal_log (w1, fs1)"
    using f(2) by (simp add: wal_log_def)
  ultimately show "segment_handle w' = segment_handle w"
    and "durable fs' (segment_handle w) =
    Some (wal_log (w, fs) @ wal_encode (set_lsn H (wal_record_new H now Commit (t_txid tx) 0 0 []) (current_lsn w)))"
    using f(3) a by simp_all
qed

text \<open>C8. A commit is acknowledged only when it is durable: if committing returns success, the
  transaction was active and is now committed, it holds no lock list any more and is no
  longer in the active set, and the durable image of the log segment decodes to the former
  records followed by this transaction's commit record. If the log fails, the error is
  returned and neither the manager nor the transaction has changed.\<close>

theorem commit_is_durable_before_acknowledged:
  assumes "commit H now tm tx ws = (res, tm', tx', ws')" and "is_active tx"
    and "wal_log ws = log_bytes rs" and "\<forall>r \<in> set rs. record_ok H r"
    and "distinct (gs_active (tm_global_state tm))"
  shows "(res = Inr () \<longrightarrow> t_status tx' = Committed \<and> t_held_locks tx' = [] \<and> t_read_ranges tx' = []
      \<and> t_txid tx \<notin> set (gs_active (tm_global_state tm'))
      \<and> (\<exists>d c. durable (snd ws') (segment_handle (fst ws')) = Some d \<and> scan_log H d 0 = rs @ [c]
            \<and> record_type c = Commit \<and> r_txid c = t_txid tx))
    \<and> (\<forall>e. res = Inl (WalFlush e) \<longrightarrow> tm' = tm \<and> tx' = tx)"
  using assms(1,2)
proof (cases rule: commit_cases)
  case (ok lsn ws1)
  obtain w fs w2 fs2 where ws: "ws = (w, fs)" "ws' = (w2, fs2)"
    by (metis prod.collapse)
  let ?c = "set_lsn H (wal_record_new H now Commit (t_txid tx) 0 0 []) (current_lsn w)"
  have "durable fs2 (segment_handle w2) = Some (log_bytes (rs @ [?c]))"
    using commit_log [OF assms(1) [unfolded ws ok(1)] assms(2)] assms(3) by (simp only: ws log_bytes_simps append_Nil2)
  moreover have "scan_log H (log_bytes (rs @ [?c])) 0 = rs @ [?c]"
    using scan_log_bytes [of "rs @ [?c]" H "[]" "[]"] assms(4) by (auto simp: set_lsn_def wal_record_new_def)
  moreover have "record_type ?c = Commit" "r_txid ?c = t_txid tx"
    by (simp_all add: set_lsn_def wal_record_new_def)
  moreover have "t_txid tx \<notin> set (gs_active (commit_tx (tm_global_state tm) (t_txid tx)))"
    using assms(5) by (simp add: commit_tx_def remove_active_def remove_active_locked_def Let_def
        advance_xmin_def)
  ultimately show ?thesis
    using ok(1,4,5) by (simp add: ws(2))
qed simp_all

text \<open>A transaction for the witnesses: number 7, alone in the system.\<close>

definition demo_tx :: "unit transaction" where
  "demo_tx = \<lparr>t_txid = 7, t_snapshot = snapshot_new 7 8 [] 7, t_status = Active,
     t_isolation_level = RepeatableRead, t_held_locks = [], t_wound_count = 0, t_index_mutations = [],
     t_ssi = ssi_flags_new, t_read_ranges = [], t_write_set = []\<rparr>"

lemma demo_commit_ok: "\<exists>ws'. commit demo_digests 5 tm demo_tx (demo_writer, demo_fs) =
    (Inr (), tm\<lparr>tm_lock_table := tm_lock_table tm, tm_global_state := commit_tx (tm_global_state tm) 7,
        tm_wound_wait := wound_cleanup (tm_wound_wait tm) 7, tm_ssi_tracker := ssi_cleanup (tm_ssi_tracker tm) 7\<rparr>,
     demo_tx\<lparr>t_status := Committed\<rparr>, ws')"
proof -
  let ?w = "demo_writer\<lparr>buffer := wal_encode (set_lsn demo_digests demo_commit 1), unsynced := 58,
        current_lsn := advance_lsn 1 58, segment_record_count := 1, bytes_since_checkpoint := 58\<rparr>"
  have "segment_handle ?w = Live 0"
    by (simp add: demo_writer_def)
  from demo_flush [OF _ this] demo_append [of demo_fs]
  show ?thesis
    by (simp add: commit_def is_active_def demo_tx_def demo_commit_def [symmetric] release_locks_eq
        Let_def on_state_def tm_wound_cleanup_def tm_ssi_cleanup_def)
qed

theorem commit_is_durable_before_acknowledged_witness:
  "\<exists>ws' tm' d c. commit demo_digests 5 tx_manager_new demo_tx (demo_writer, demo_fs) =
      (Inr (), tm', demo_tx\<lparr>t_status := Committed\<rparr>, ws')
     \<and> durable (snd ws') (segment_handle (fst ws')) = Some d \<and> scan_log demo_digests d 0 = [c]
     \<and> record_type c = Commit \<and> r_txid c = 7"
proof -
  obtain tm' ws' where c: "commit demo_digests 5 tx_manager_new demo_tx (demo_writer, demo_fs) =
      (Inr (), tm', demo_tx\<lparr>t_status := Committed\<rparr>, ws')"
    using demo_commit_ok [of tx_manager_new] by blast
  have "wal_log (demo_writer, demo_fs) = log_bytes []"
    by (simp add: wal_log_def demo_writer_def demo_fs_def contents_def)
  moreover have "is_active demo_tx" "t_txid demo_tx = 7"
    by (simp_all add: is_active_def demo_tx_def)
  moreover have "distinct (gs_active (tm_global_state tx_manager_new))"
    by (simp add: tx_manager_new_def with_components_def tx_state_new_def tx_state_with_def Let_def)
  ultimately show ?thesis
    using commit_is_durable_before_acknowledged [OF c, of "[]"] c by auto
qed

text \<open>C33. Write skew is refused at commit: a serializable transaction that is the pivot of two
  antidependencies is never committed: the commit fails with the phantom error, the
  transaction is rolled back, and its bookkeeping is gone from the tracker, the registry
  and the wound counters, while no commit record of it is appended.\<close>

theorem doomed_serializable_commit_aborts:
  assumes "is_active tx" and "t_isolation_level tx = Serializable"
    and "ssi_is_doomed (tm_ssi_tracker tm) (t_txid tx) (t_ssi tx)"
    and "commit H now tm tx ws = (res, tm', tx', ws')"
  shows "res = Inl (PhantomConflict (t_txid tx)) \<and> t_status tx' = Aborted
    \<and> t_txid tx \<in> gs_aborted (tm_global_state tm') \<and> t_held_locks tx' = [] \<and> t_read_ranges tx' = []
    \<and> t_txid tx \<notin> out_set (tm_ssi_tracker tm') \<union> in_set (tm_ssi_tracker tm')
    \<and> t_txid tx \<notin> tm_abort_registry tm' \<and> wound_count (tm_wound_wait tm') (t_txid tx) = 0
    \<and> (\<forall>lsn ws1. wal_append H (wal_record_new H now Abort (t_txid tx) 0 0 []) ws = (Inr lsn, ws1) \<longrightarrow>
         wal_log ws' = wal_log ws @ wal_encode (set_lsn H (wal_record_new H now Abort (t_txid tx) 0 0 []) lsn))"
proof -
  have r: "rollback H now tm tx ws = (Inr (), tm', tx', ws')" "res = Inl (PhantomConflict (t_txid tx))"
    using assms by (auto simp: commit_def rollback_active)
  note e = r(1) [unfolded rollback_active [OF assms(1)]]
  have "wal_log ws' = wal_log ws @ wal_encode (set_lsn H (wal_record_new H now Abort (t_txid tx) 0 0 []) lsn)"
    if "wal_append H (wal_record_new H now Abort (t_txid tx) 0 0 []) ws = (Inr lsn, ws1)" for lsn ws1
    using e that by (cases ws; cases ws1) (auto dest: wal_append_Inr)
  then show ?thesis
    using r(2) e by (auto simp: ssi_cleanup_def abort_tx_def log_abort_def remove_active_def
        remove_active_locked_def advance_xmin_def Let_def)
qed

theorem doomed_serializable_commit_aborts_witness:
  "fst (commit demo_digests 5 (tx_manager_new\<lparr>tm_ssi_tracker := \<lparr>out_set = {7}, in_set = {7}\<rparr>\<rparr>)
     (demo_tx\<lparr>t_isolation_level := Serializable\<rparr>) (demo_writer, demo_fs)) = Inl (PhantomConflict 7)"
proof -
  let ?tm = "tx_manager_new\<lparr>tm_ssi_tracker := \<lparr>out_set = {7}, in_set = {7}\<rparr>\<rparr>"
    and ?tx = "demo_tx\<lparr>t_isolation_level := Serializable\<rparr>"
  have "is_active ?tx" "t_isolation_level ?tx = Serializable" "t_txid ?tx = 7"
    "ssi_is_doomed (tm_ssi_tracker ?tm) (t_txid ?tx) (t_ssi ?tx)"
    by (simp_all add: is_active_def demo_tx_def ssi_is_doomed_def)
  moreover obtain res tm' tx' ws' where c: "commit demo_digests 5 ?tm ?tx (demo_writer, demo_fs) = (res, tm', tx', ws')"
    by (metis prod_cases4)
  ultimately have "res = Inl (PhantomConflict 7)"
    using doomed_serializable_commit_aborts [OF _ _ _ c] by simp
  then show ?thesis
    by (simp only: c fst_conv)
qed

text \<open>Finalised transactions are inert: every operation on a transaction that is not active
  returns the not-active error with its id and status and changes neither the manager, nor
  the transaction, nor the log.\<close>

theorem not_active_is_refused:
  assumes "\<not> is_active tx"
  shows "commit H now tm tx ws = (Inl (NotActive (t_txid tx) (t_status tx)), tm, tx, ws)
    \<and> rollback H now tm tx ws = (Inl (NotActive (t_txid tx) (t_status tx)), tm, tx, ws)
    \<and> commit_with_indexes apply_batch H now tm tx ix ws
        = ((Inl (NotActive (t_txid tx) (t_status tx)), tm, tx, ws), ix)
    \<and> acquire_lock env tm tx r mode = Some (Inl (NotActive (t_txid tx) (t_status tx)), tm, tx)
    \<and> acquire_range_lock env tm tx r = Some (Inl (NotActive (t_txid tx) (t_status tx)), tm, tx)
    \<and> record_phantom_write env tm tx r = Some (Inl (NotActive (t_txid tx) (t_status tx)), tm, tx)
    \<and> stage_index_mutation tx mu = (Inl (NotActive (t_txid tx) (t_status tx)), tx)
    \<and> record_write tx r x = (Inl (NotActive (t_txid tx) (t_status tx)), tx)"
  using assms by (simp add: commit_def rollback_def commit_with_indexes_def acquire_lock_def
      acquire_range_lock_def record_phantom_write_def stage_index_mutation_def record_write_def)

theorem not_active_is_refused_witness:
  "commit demo_digests 5 tx_manager_new (demo_tx\<lparr>t_status := Committed\<rparr>) (demo_writer, demo_fs)
     = (Inl (NotActive 7 Committed), tx_manager_new, demo_tx\<lparr>t_status := Committed\<rparr>, (demo_writer, demo_fs))"
  using not_active_is_refused [of "demo_tx\<lparr>t_status := Committed\<rparr>" demo_digests 5 tx_manager_new "(demo_writer, demo_fs)"
      "\<lambda>_ ix. (Inr (), ix)" "()" "[]" 0 Shared "()" 0]
  by (simp add: is_active_def demo_tx_def)

section \<open>Lock acquisition\<close>

lemma wound_holders_None:
  assumes "wound_holders tm tx r hs found = (None, found', tm', tx')"
  shows "tm' = tm \<and> t_txid tx' = t_txid tx \<and> t_held_locks tx' = t_held_locks tx \<and> t_status tx' = t_status tx
    \<and> (\<forall>(h, m) \<in> set hs. h \<le> t_txid tx)"
  using assms
  by (induction tm tx r hs found rule: wound_holders.induct)
    (auto simp: check_def split: if_splits)

lemma wound_holders_Some:
  assumes "wound_holders tm tx r hs found = (Some v, found', tm', tx')"
  shows "tm' = wound_victim r v tm \<and> t_txid tx < v \<and> v \<in> fst ` set hs \<and> t_txid tx' = t_txid tx
    \<and> t_held_locks tx' = t_held_locks tx \<and> t_read_ranges tx' = t_read_ranges tx \<and> t_status tx' = t_status tx"
  using assms
  by (induction tm tx r hs found rule: wound_holders.induct)
    (auto simp: check_def split: if_splits)

lemma try_acquire_Denied:
  assumes "try_acquire lt r t mode = (Denied, ch, lt')" "lt_wf lt"
  shows "lt_holders lt' r = lt_holders lt r \<and> lt_wf lt'
    \<and> (\<exists>h m. (h, m) \<in> set (lt_holders lt r) \<and> h \<noteq> t \<and> \<not> compatible_with mode m)
    \<and> (\<exists>e. lt_entry lt' r = Some e \<and> t \<in> fst ` set (waiters e))"
proof -
  have e: "holders (entry_or_new lt r) = (case lt_entry lt r of None \<Rightarrow> [] | Some e \<Rightarrow> holders e)"
    by (simp add: entry_or_new_def entry_new_def split: option.split)
  have c: "\<exists>h m. (h, m) \<in> set (lt_holders lt r) \<and> h \<noteq> t \<and> \<not> compatible_with mode m"
    if "\<not> compatible_with_holders (entry_or_new lt r) t mode"
    using that by (force simp: compatible_with_holders_def list_all_iff e lt_holders_map)
  from assms(1) show ?thesis
    by (cases rule: try_acquire_cases) (use assms(2) c in \<open>auto simp: lt_holders_map e\<close>)
qed

text \<open>C30. Waits go to older transactions only: when an attempt to acquire a lock ends by
  blocking, the request conflicts with some holder, every other holder of the resource is
  older than the requester, and the requester is queued; so the waits-for relation follows
  the order of ids and has no cycle.\<close>

theorem blocked_only_behind_older:
  assumes "lock_attempt recheck push r mode tm tx = (Block ch, tm', tx')" and "lt_wf (tm_lock_table tm)"
  shows "(\<exists>h m. (h, m) \<in> set (lt_holders (tm_lock_table tm') r) \<and> h \<noteq> t_txid tx \<and> \<not> compatible_with mode m)
    \<and> (\<forall>h m. (h, m) \<in> set (lt_holders (tm_lock_table tm') r) \<longrightarrow> h \<noteq> t_txid tx \<longrightarrow> h < t_txid tx)
    \<and> (\<exists>e. lt_entry (tm_lock_table tm') r = Some e \<and> t_txid tx \<in> fst ` set (waiters e))"
proof -
  from assms(1) obtain lt where d: "try_acquire (tm_lock_table tm) r (t_txid tx) mode = (Denied, Some ch, lt)"
    and w: "wound_holders (tm\<lparr>tm_lock_table := lt\<rparr>) tx r (lt_holders lt r) False = (None, True, tm', tx')"
    by (auto simp: lock_attempt_def fail_aborted_def Let_def
        split: prod.splits lock_result.splits if_splits option.splits)
  have tm': "tm' = tm\<lparr>tm_lock_table := lt\<rparr>" and le: "\<And>h m. (h, m) \<in> set (lt_holders lt r) \<Longrightarrow> h \<le> t_txid tx"
    using wound_holders_None [OF w] by auto
  with try_acquire_Denied [OF d assms(2)] show ?thesis
    by (auto simp: order.strict_iff_order)
qed

text \<open>A lock table in which one transaction holds one resource exclusively.\<close>

definition held_by :: "u64 \<Rightarrow> txid \<Rightarrow> tx_manager" where
  "held_by r t = tx_manager_new\<lparr>tm_lock_table := put_entry lock_table_new r
     (Some \<lparr>holders = [\<lparr>h_txid = t, h_mode = Exclusive\<rparr>], waiters = []\<rparr>)\<rparr>"

lemma lt_held_by [simp]:
  "lt_wf (tm_lock_table (held_by r t))"
  "lt_entry (tm_lock_table (held_by r t)) r = Some \<lparr>holders = [\<lparr>h_txid = t, h_mode = Exclusive\<rparr>], waiters = []\<rparr>"
  "tm_abort_registry (held_by r t) = {}" "next_channel (tm_lock_table (held_by r t)) = 0"
  by (simp_all add: held_by_def lt_wf_new tx_manager_new_def with_components_def next_channel_new)

theorem blocked_only_behind_older_witness:
  "\<exists>tm' tx'. lock_attempt True (push_held 9) 9 Exclusive (held_by 9 3) demo_tx = (Block 0, tm', tx')
     \<and> (\<forall>h m. (h, m) \<in> set (lt_holders (tm_lock_table tm') 9) \<longrightarrow> h \<noteq> 7 \<longrightarrow> h < 7)"
proof -
  have t: "t_txid demo_tx = 7"
    by (simp add: demo_tx_def)
  have "\<exists>tm' tx'. lock_attempt True (push_held 9) 9 Exclusive (held_by 9 3) demo_tx = (Block 0, tm', tx')"
    by (simp add: lock_attempt_def t lock_eval registry_is_aborted_def check_def)
  then obtain tm' tx' where a: "lock_attempt True (push_held 9) 9 Exclusive (held_by 9 3) demo_tx = (Block 0, tm', tx')"
    by blast
  from blocked_only_behind_older [OF a] a t show ?thesis
    by auto
qed

section \<open>Wounding\<close>

lemma release_sole_holder:
  assumes "lt_wf lt" "lt_entry lt r = Some \<lparr>holders = [\<lparr>h_txid = v, h_mode = m\<rparr>], waiters = [(t, mode, ch)]\<rparr>"
  shows "lt_entry (fst (release lt r v)) r = Some \<lparr>holders = [\<lparr>h_txid = t, h_mode = mode\<rparr>], waiters = []\<rparr>"
    and "lt_wf (fst (release lt r v))"
  using assms by (simp_all add: lock_eval)

lemma wound_sole_holder:
  assumes wf: "lt_wf (tm_lock_table tm)"
    and e: "lt_entry (tm_lock_table tm) r = Some \<lparr>holders = [\<lparr>h_txid = v, h_mode = m\<rparr>], waiters = []\<rparr>"
    and inc: "\<not> compatible_with mode m" and lt: "t_txid tx < v"
    and ok: "\<not> registry_is_aborted tm (t_txid tx)"
  shows "\<exists>tm' tx'. lock_attempt recheck push r mode tm tx = (Return (Inl (WoundWait v)), tm', tx')
    \<and> tm_lock_table tm' = fst (release (put_entry (put_entry (tm_lock_table tm) r (lt_entry (tm_lock_table tm) r)) r
          (Some \<lparr>holders = [\<lparr>h_txid = v, h_mode = m\<rparr>], waiters = [(t_txid tx, mode, next_channel (tm_lock_table tm))]\<rparr>)
        \<lparr>next_channel := Suc (next_channel (tm_lock_table tm))\<rparr>) r v)
    \<and> tm_abort_registry tm' = insert v (tm_abort_registry tm)
    \<and> v \<in> gs_aborted (tm_global_state tm') \<and> t_held_locks tx' = t_held_locks tx \<and> t_read_ranges tx' = t_read_ranges tx
    \<and> t_txid tx' = t_txid tx \<and> t_status tx' = t_status tx"
proof -
  let ?lt = "tm_lock_table tm" and ?t = "t_txid tx"
  have ne: "v \<noteq> ?t"
    using lt by auto
  have "try_acquire ?lt r ?t mode = (Denied, Some (next_channel ?lt),
      put_entry (put_entry ?lt r (lt_entry ?lt r)) r
        (Some \<lparr>holders = [\<lparr>h_txid = v, h_mode = m\<rparr>], waiters = [(?t, mode, next_channel ?lt)]\<rparr>)
        \<lparr>next_channel := Suc (next_channel ?lt)\<rparr>)"
    using ne inc by (simp add: try_acquire_def e already_holds_def compatible_with_holders_def Let_def)
  then show ?thesis
    using ne lt ok wf
    by (simp add: lock_attempt_def Let_def registry_is_aborted_def lt_holders_def check_def wound_victim_eq
        abort_tx_def log_abort_def remove_active_def remove_active_locked_def advance_xmin_def)
qed

lemma release_frame:
  assumes "lt_wf lt"
  shows "lt_wf (fst (release lt r t))" "r' \<noteq> r \<Longrightarrow> lt_entry (fst (release lt r t)) r' = lt_entry lt r'"
  using assms by (auto simp: release_def Let_def case_prod_unfold split: option.split)

lemma release_all_frame:
  assumes "lt_wf lt"
  shows "lt_wf (fst (release_all lt t rs)) \<and> (r \<notin> set rs \<longrightarrow> lt_entry (fst (release_all lt t rs)) r = lt_entry lt r)"
  using assms by (induction rs arbitrary: lt) (simp_all add: case_prod_unfold Let_def release_frame)

lemma younger_blocks:
  assumes "lt_wf (tm_lock_table tm)"
    and "lt_entry (tm_lock_table tm) r = Some \<lparr>holders = [\<lparr>h_txid = t, h_mode = m\<rparr>], waiters = []\<rparr>"
    and "t < t_txid tx" "\<not> compatible_with mode m" "\<not> registry_is_aborted tm (t_txid tx)"
  shows "\<exists>ch tm' tx'. lock_attempt recheck push r mode tm tx = (Block ch, tm', tx')"
  using assms by (auto simp: lock_attempt_def try_acquire_def already_holds_def compatible_with_holders_def
      Let_def registry_is_aborted_def lt_holders_def check_def)

text \<open>C27. Wounding followed by a rollback leaks the lock: an older transaction that asks for a
  resource held by a younger one wounds it and is told so by an error, while the release
  of the victim's lock hands the resource to the requester's queued request. The caller
  that reacts to the error by rolling back, as the storage engine does, leaves the table
  recording the finished transaction as the holder, because its lock list never had the
  resource; every younger transaction then blocks on it.\<close>

theorem wound_then_rollback_leaks_lock:
  assumes "lt_wf (tm_lock_table tm)"
    and "lt_entry (tm_lock_table tm) r = Some \<lparr>holders = [\<lparr>h_txid = v, h_mode = Exclusive\<rparr>], waiters = []\<rparr>"
    and "is_active tx" and "\<not> registry_is_aborted tm (t_txid tx)" and "t_txid tx < v"
    and "r \<notin> set (t_held_locks tx @ t_read_ranges tx)"
  shows "\<exists>tm1 tx1 tm2 tx2 ws2. acquire_lock env tm tx r Exclusive = Some (Inl (WoundWait v), tm1, tx1)
    \<and> rollback H now tm1 tx1 ws = (Inr (), tm2, tx2, ws2) \<and> t_status tx2 = Aborted
    \<and> t_txid tx \<in> gs_aborted (tm_global_state tm2)
    \<and> lt_holders (tm_lock_table tm2) r = [(t_txid tx, Exclusive)]
    \<and> (\<forall>later mode. t_txid tx < t_txid later \<longrightarrow> \<not> registry_is_aborted tm2 (t_txid later) \<longrightarrow>
         (\<exists>ch tm3 later'. lock_attempt True (push_held r) r mode tm2 later = (Block ch, tm3, later')))"
proof -
  let ?t = "t_txid tx" and ?lt = "tm_lock_table tm"
  obtain tm1 tx1 where a: "lock_attempt True (push_held r) r Exclusive tm tx = (Return (Inl (WoundWait v)), tm1, tx1)"
    and l1: "tm_lock_table tm1 = fst (release (put_entry (put_entry ?lt r (lt_entry ?lt r)) r
          (Some \<lparr>holders = [\<lparr>h_txid = v, h_mode = Exclusive\<rparr>], waiters = [(?t, Exclusive, next_channel ?lt)]\<rparr>)
        \<lparr>next_channel := Suc (next_channel ?lt)\<rparr>) r v)"
    and tx1: "t_held_locks tx1 = t_held_locks tx" "t_read_ranges tx1 = t_read_ranges tx" "t_txid tx1 = ?t"
      "t_status tx1 = t_status tx"
    using wound_sole_holder [OF assms(1,2) _ assms(5,4), of Exclusive True "push_held r"] by auto
  have e1: "lt_entry (tm_lock_table tm1) r = Some \<lparr>holders = [\<lparr>h_txid = ?t, h_mode = Exclusive\<rparr>], waiters = []\<rparr>"
    "lt_wf (tm_lock_table tm1)"
    unfolding l1 by (rule release_sole_holder, use assms(1) in simp, use assms(1) in simp)+
  have acq: "acquire_lock env tm tx r Exclusive = Some (Inl (WoundWait v), tm1, tx1)"
    using assms(3,4) a by (cases env) (auto simp: acquire_lock_def)
  obtain tm2 tx2 ws2 where rb: "rollback H now tm1 tx1 ws = (Inr (), tm2, tx2, ws2)" "t_status tx2 = Aborted"
    and l2: "tm_lock_table tm2 = fst (release_all (tm_lock_table tm1) ?t (t_held_locks tx @ t_read_ranges tx))"
    and g2: "?t \<in> gs_aborted (tm_global_state tm2)"
    using rollback_active [of tx1 H now tm1 ws] assms(3) tx1
    by (auto simp: is_active_def abort_tx_def log_abort_def remove_active_def remove_active_locked_def
        advance_xmin_def Let_def)
  have e2: "lt_wf (tm_lock_table tm2)"
    "lt_entry (tm_lock_table tm2) r = Some \<lparr>holders = [\<lparr>h_txid = ?t, h_mode = Exclusive\<rparr>], waiters = []\<rparr>"
    using release_all_frame [OF e1(2), of ?t "t_held_locks tx @ t_read_ranges tx" r] assms(6) e1(1) by (simp_all add: l2)
  have "\<exists>ch tm3 later'. lock_attempt True (push_held r) r mode tm2 later = (Block ch, tm3, later')"
    if "?t < t_txid later" "\<not> registry_is_aborted tm2 (t_txid later)" for later mode
    by (rule younger_blocks [OF e2 that(1) _ that(2)]) (cases mode; simp)
  then show ?thesis
    using acq rb g2 e2(2) by (simp add: lt_holders_def) blast
qed

theorem wound_then_rollback_leaks_lock_witness:
  "\<exists>tm1 tx1 tm2 tx2 ws2. acquire_lock [] (held_by 9 8) demo_tx 9 Exclusive = Some (Inl (WoundWait 8), tm1, tx1)
     \<and> rollback demo_digests 5 tm1 tx1 (demo_writer, demo_fs) = (Inr (), tm2, tx2, ws2)
     \<and> lt_holders (tm_lock_table tm2) 9 = [(7, Exclusive)]"
proof -
  have "is_active demo_tx" "t_txid demo_tx = 7" "\<not> registry_is_aborted (held_by 9 8) (t_txid demo_tx)"
    "t_txid demo_tx < 8" "9 \<notin> set (t_held_locks demo_tx @ t_read_ranges demo_tx)"
    by (simp_all add: is_active_def demo_tx_def registry_is_aborted_def)
  then show ?thesis
    using wound_then_rollback_leaks_lock [OF lt_held_by(1,2), of demo_tx 9 8 "[]" demo_digests 5 "(demo_writer, demo_fs)"]
    by auto
qed

text \<open>C28. A wounded transaction can still commit: after an older transaction wounded it, the
  victim, if it asks for no further lock, commits successfully and durably, because commit
  does not consult the registry of wounded transactions; the global state has it in the
  abort log all the same, so no snapshot taken afterwards sees any version it created.\<close>

theorem wounded_victim_commits_invisibly:
  assumes "t_txid tx = v" and "is_active tx" and "t_isolation_level tx \<noteq> Serializable" and "v \<noteq> TX_ID_INVALID"
    and "wal_append H (wal_record_new H now Commit v 0 0 []) ws = (Inr lsn, ws1)" and "wal_flush ws1 = (Inr (), ws2)"
  shows "\<exists>tm2 tx2. commit H now (wound_victim r v tm) tx ws = (Inr (), tm2, tx2, ws2) \<and> t_status tx2 = Committed
    \<and> v \<in> gs_aborted (tm_global_state tm2) \<and> v \<in> tm_abort_registry tm2
    \<and> (\<forall>xmax hint hint'. \<not> is_visible (gs_aborted (tm_global_state tm2))
          (active_snapshot (tm_global_state tm2)) v xmax hint hint')"
proof -
  obtain tm2 where c: "commit H now (wound_victim r v tm) tx ws =
      (Inr (), tm2, tx\<lparr>t_held_locks := [], t_read_ranges := [], t_status := Committed\<rparr>, ws2)"
    and a: "v \<in> gs_aborted (tm_global_state tm2)" "v \<in> tm_abort_registry tm2"
    using assms(1-3,5,6)
    by (simp add: commit_def wound_victim_eq tm_cleanup_defs Let_def abort_tx_def commit_tx_def log_abort_def
        remove_active_def remove_active_locked_def advance_xmin_def)
  have "\<not> is_visible (gs_aborted (tm_global_state tm2)) (active_snapshot (tm_global_state tm2)) v xmax hint hint'"
    for xmax hint hint'
    using a(1) assms(4) by (simp add: is_visible_def txid_committed_before_snapshot_def sn_is_aborted_def
        active_snapshot_def with_aborted_def snapshot_new_def Let_def)
  with c a show ?thesis
    by auto
qed

theorem wounded_victim_commits_invisibly_witness:
  "\<exists>tm2 tx2 ws2. commit demo_digests 5 (wound_victim 9 7 (held_by 9 7)) demo_tx (demo_writer, demo_fs)
       = (Inr (), tm2, tx2, ws2) \<and> 7 \<in> gs_aborted (tm_global_state tm2)"
proof -
  let ?w = "demo_writer\<lparr>buffer := wal_encode (set_lsn demo_digests demo_commit 1), unsynced := 58,
        current_lsn := advance_lsn 1 58, segment_record_count := 1, bytes_since_checkpoint := 58\<rparr>"
  have h: "segment_handle ?w = Live 0" "buffer ?w \<noteq> []"
    by (simp_all add: demo_writer_def)
  have t: "t_txid demo_tx = 7" "is_active demo_tx" "t_isolation_level demo_tx \<noteq> Serializable" "7 \<noteq> TX_ID_INVALID"
    by (simp_all add: demo_tx_def is_active_def TX_ID_INVALID_def)
  from wounded_victim_commits_invisibly [OF t demo_append [unfolded demo_commit_def] demo_flush [OF h(2,1), unfolded demo_commit_def],
      of 9 "held_by 9 7"]
  show ?thesis
    by blast
qed

section \<open>The manager's invariant\<close>

text \<open>One atomic action of some thread on the shared state, by any transaction whatever.\<close>

inductive tm_step :: "tx_manager \<Rightarrow> tx_manager \<Rightarrow> bool" where
  step_begin: "begin_with_isolation tm level = (tx :: unit transaction, tm') \<Longrightarrow> tm_step tm tm'"
| step_commit: "commit H now tm (tx :: unit transaction) ws = (res, tm', tx', ws') \<Longrightarrow> tm_step tm tm'"
| step_rollback: "rollback H now tm (tx :: unit transaction) ws = (res, tm', tx', ws') \<Longrightarrow> tm_step tm tm'"
| step_abort_waiter: "abort_waiter tm (tx :: unit transaction) = (err, tm', tx') \<Longrightarrow> tm_step tm tm'"
| step_mark_readers: "mark_readers snap hs tm (tx :: unit transaction) = (tm', tx') \<Longrightarrow> tm_step tm tm'"
| step_attempt: "lock_attempt recheck push r mode tm (tx :: unit transaction) = (a, tm', tx') \<Longrightarrow> tm_step tm tm'"
| step_wake: "lock_wake recheck push wk tm (tx :: unit transaction) = (a, tm', tx') \<Longrightarrow> tm_step tm tm'"

inductive tm_reachable :: "tx_manager \<Rightarrow> bool" where
  tm_reach_init: "tm_reachable tx_manager_new"
| tm_reach_step: "tm_reachable tm \<Longrightarrow> tm_step tm tm' \<Longrightarrow> tm_reachable tm'"

definition tm_ok :: "tx_manager \<Rightarrow> bool" where
  "tm_ok tm \<longleftrightarrow> lt_ok (tm_lock_table tm) \<and> (\<forall>t. unat (wound_count (tm_wound_wait tm) t) \<le> 1)"

lemma tm_ok_new: "tm_ok tx_manager_new"
  by (simp add: tm_ok_def tx_manager_new_def with_components_def lt_ok_new wound_wait_new_def wound_count_def)

lemma rollback_ok: "rollback H now tm tx ws = (res, tm', tx', ws') \<Longrightarrow> tm_ok tm \<Longrightarrow> tm_ok tm'"
proof (cases "is_active tx")
  case True
  assume "rollback H now tm tx ws = (res, tm', tx', ws')" "tm_ok tm"
  then show ?thesis
    unfolding rollback_active [OF True] by (auto simp: tm_ok_def release_all_ok)
qed (simp add: rollback_def)

lemma commit_ok: "commit H now tm tx ws = (res, tm', tx', ws') \<Longrightarrow> tm_ok tm \<Longrightarrow> tm_ok tm'"
proof (cases "is_active tx")
  case True
  assume c: "commit H now tm tx ws = (res, tm', tx', ws')" and ok: "tm_ok tm"
  from c True show ?thesis
  proof (cases rule: commit_cases)
    case doomed
    then show ?thesis using rollback_ok ok by blast
  next
    case (wal e)
    then show ?thesis using ok by simp
  next
    case (ok lsn ws1)
    then show ?thesis using \<open>tm_ok tm\<close> by (auto simp: tm_ok_def release_all_ok)
  qed
qed (simp add: commit_def)

lemma abort_waiter_ok: "abort_waiter tm tx = (e, tm', tx') \<Longrightarrow> tm_ok tm \<Longrightarrow> tm_ok tm'"
  by (auto simp: abort_waiter_eq tm_ok_def release_all_ok)

lemma fail_aborted_ok: "fail_aborted tm tx = (a, tm', tx') \<Longrightarrow> tm_ok tm \<Longrightarrow> tm_ok tm'"
  by (auto simp: fail_aborted_def abort_waiter_ok split: prod.splits)

lemma wound_victim_ok: "tm_ok tm \<Longrightarrow> tm_ok (wound_victim r v tm)"
  by (auto simp: tm_ok_def wound_victim_eq release_ok wound_count_bump)

lemma mark_readers_ok: "mark_readers snap hs tm tx = (tm', tx') \<Longrightarrow> tm_ok tm \<Longrightarrow> tm_ok tm'"
  by (induction snap hs tm tx rule: mark_readers.induct) (auto simp: tm_ok_def split: if_splits)

lemma lock_wake_ok: "lock_wake recheck push wk tm tx = (a, tm', tx') \<Longrightarrow> tm_ok tm \<Longrightarrow> tm_ok tm'"
  by (auto simp: lock_wake_def fail_aborted_ok split: wake.splits lock_result.splits if_splits)

lemma lock_attempt_ok:
  assumes "lock_attempt recheck push r mode tm tx = (a, tm', tx')" "tm_ok tm"
  shows "tm_ok tm'"
proof -
  obtain res ch lt where t: "try_acquire (tm_lock_table tm) r (t_txid tx) mode = (res, ch, lt)"
    by (metis prod_cases3)
  have ok: "tm_ok (tm\<lparr>tm_lock_table := lt\<rparr>)"
    using try_acquire_ok [OF _ t] assms(2) by (simp add: tm_ok_def)
  show ?thesis
  proof (cases res)
    case Granted
    then show ?thesis
      using assms(1) t ok by (auto simp: lock_attempt_def)
  next
    case Denied
    obtain vo found tm2 tx2 where w:
      "wound_holders (tm\<lparr>tm_lock_table := lt\<rparr>) tx r (lt_holders lt r) False = (vo, found, tm2, tx2)"
      by (metis prod_cases4)
    have "tm_ok tm2"
    proof (cases vo)
      case None
      with wound_holders_None w ok show ?thesis by blast
    next
      case (Some v)
      have "tm2 = wound_victim r v (tm\<lparr>tm_lock_table := lt\<rparr>)"
        using wound_holders_Some [OF w [unfolded Some]] by simp
      with wound_victim_ok [OF ok] show ?thesis by simp
    qed
    then show ?thesis
      using assms(1) t ok w Denied
      by (auto simp: lock_attempt_def Let_def fail_aborted_ok split: if_splits option.splits)
  qed
qed

lemma begin_ok: "begin_with_isolation tm level = (tx, tm') \<Longrightarrow> tm_ok tm \<Longrightarrow> tm_ok tm'"
  by (auto simp: begin_with_isolation_def case_prod_unfold Let_def tm_ok_def)

lemma tm_step_ok: "tm_step tm tm' \<Longrightarrow> tm_ok tm \<Longrightarrow> tm_ok tm'"
  by (induction rule: tm_step.induct)
    (blast intro: begin_ok commit_ok rollback_ok abort_waiter_ok mark_readers_ok lock_attempt_ok lock_wake_ok)+

lemma tm_reachable_ok: "tm_reachable tm \<Longrightarrow> tm_ok tm"
  by (induction rule: tm_reachable.induct) (auto intro: tm_ok_new tm_step_ok)



section \<open>The end of a transaction\<close>

text \<open>A transaction that is neither holder nor waiter of a resource stays out of it.\<close>

definition absent :: "lock_table \<Rightarrow> u64 \<Rightarrow> txid \<Rightarrow> bool" where
  "absent lt r t \<longleftrightarrow> (case lt_entry lt r of None \<Rightarrow> True
     | Some e \<Rightarrow> t \<notin> h_txid ` set (holders e) \<and> t \<notin> fst ` set (waiters e))"

lemma release_absent:
  assumes "lt_ok lt" "\<And>e. lt_entry lt r = Some e \<Longrightarrow> t \<notin> fst ` set (waiters e)"
  shows "absent (fst (release lt r t)) r t"
proof (cases "lt_entry lt r")
  case (Some e)
  have wf: "lt_wf lt" and hok: "holders_ok (holders e)"
    using assms(1) Some by (auto simp: lt_ok_def entry_ok_def)
  obtain e' sent where g: "grant_loop (holders (remove_holder e t)) (waiters e) = (e', sent)"
    by fastforce
  from grant_loop_spec [OF remove_holder_ok(1) [OF hok] g] obtain granted
    where gr: "waiters e = granted @ waiters e'"
      "h_txid ` set (holders e') = h_txid ` set (holders (remove_holder e t)) \<union> fst ` set granted"
    by blast
  have t: "t \<notin> fst ` set (waiters e)"
    by (rule assms(2) [OF Some])
  have "t \<notin> h_txid ` set (holders e')" "t \<notin> fst ` set (waiters e')"
    using gr t remove_holder_ok(2) [OF hok, of t] by auto
  then show ?thesis
    using wf Some by (simp add: absent_def release_def grant_compatible_waiters_def
        remove_holder_ok(3) [OF hok] g)
qed (simp add: release_def absent_def)

lemma release_keeps_absent:
  assumes "lt_ok lt" "absent lt r t"
  shows "absent (fst (release lt r' t)) r t"
proof (cases "r' = r")
  case True
  then show ?thesis
    using release_absent [OF assms(1), of r t] assms(2) by (auto simp: absent_def split: option.splits)
next
  case False
  then show ?thesis
    using assms release_frame(2) [of lt r r' t] by (auto simp: absent_def lt_ok_def)
qed

lemma release_all_keeps_absent: "lt_ok lt \<Longrightarrow> absent lt r t \<Longrightarrow> absent (fst (release_all lt t rs)) r t"
  by (induction rs arbitrary: lt) (simp_all add: case_prod_unfold Let_def release_ok release_keeps_absent)

lemma release_all_absent:
  assumes "lt_ok lt" "\<And>r e. r \<in> set rs \<Longrightarrow> lt_entry lt r = Some e \<Longrightarrow> t \<notin> fst ` set (waiters e)" "r \<in> set rs"
  shows "absent (fst (release_all lt t rs)) r t"
  using assms
proof (induction rs arbitrary: lt)
  case (Cons r' rs)
  let ?lt1 = "fst (release lt r' t)"
  have ok1: "lt_ok ?lt1" and wf: "lt_wf lt"
    using Cons.prems(1) release_ok by (auto simp: lt_ok_def)
  have eq: "fst (release_all lt t (r' # rs)) = fst (release_all ?lt1 t rs)"
    by (simp add: case_prod_unfold Let_def)
  have ab: "absent ?lt1 r' t"
    using release_absent [OF Cons.prems(1), of r' t] Cons.prems(2) by auto
  show ?case
  proof (cases "r = r'")
    case True
    then show ?thesis
      using release_all_keeps_absent [OF ok1 ab, of rs] by (simp only: eq)
  next
    case False
    have "t \<notin> fst ` set (waiters e)" if "s \<in> set rs" "lt_entry ?lt1 s = Some e" for s e
      using that ab Cons.prems(2) [of s] release_frame(2) [OF wf, of s r' t]
      by (cases "s = r'") (auto simp: absent_def)
    then show ?thesis
      unfolding eq using Cons.IH [OF ok1] False Cons.prems(3) by simp
  qed
qed simp



end
