(* ===== verification/Page.thy ===== *)
theory Page
  imports WalRecord
begin

text \<open>
  The slotted page of \<open>src/src/storage/page.rs\<close>, at the level of its 8192 bytes: the
  \<open>repr(C)\<close> header fields at their offsets, little-endian as on the supported targets, the
  record area growing up from byte 64 and the slot directory growing down from the end,
  slot 0 last. A bounds failure of the source, which panics, is \<open>None\<close>. Continuing a
  CRC-32C over three pieces is the digest of their concatenation.
\<close>

section \<open>Definitions\<close>

definition PAGE_SIZE :: nat where
  "PAGE_SIZE = 8192"

definition MAX_INLINE_RECORD_LEN :: nat where
  "MAX_INLINE_RECORD_LEN = 2048"

definition PAGE_MAGIC :: u32 where
  "PAGE_MAGIC = 0x52475047"

datatype page_type = Meta | Bitmap | BTreeInterior | BTreeLeaf | SlottedData | Overflow

fun page_type_code :: "page_type \<Rightarrow> u8" where
  "page_type_code Meta = 0x01"
| "page_type_code Bitmap = 0x02"
| "page_type_code BTreeInterior = 0x10"
| "page_type_code BTreeLeaf = 0x11"
| "page_type_code SlottedData = 0x20"
| "page_type_code Overflow = 0x30"

record page_header =
  page_lsn :: u64
  page_id :: u64
  overflow_page_id :: u64
  ph_magic :: u32
  checksum :: u32
  free_space_offset :: u16
  slot_count :: u16
  ph_flags :: u16
  ph_version :: u8
  ph_page_type :: u8

definition PAGE_FLAG_FULL :: u16 where
  "PAGE_FLAG_FULL = 1"

definition page_header_new :: "u64 \<Rightarrow> page_type \<Rightarrow> page_header" where
  "page_header_new pid pt =
     \<lparr>page_lsn = 0, page_id = pid, overflow_page_id = 0, ph_magic = PAGE_MAGIC, checksum = 0,
      free_space_offset = 0, slot_count = 0, ph_flags = 0, ph_version = 1, ph_page_type = page_type_code pt\<rparr>"

definition HEADER_SIZE :: nat where
  "HEADER_SIZE = 64"

text \<open>The bytes of the header, paddings and reserved tail zero.\<close>

definition header_image :: "page_header \<Rightarrow> bytes" where
  "header_image h =
     to_le_bytes (page_lsn h) @ to_le_bytes (page_id h) @ to_le_bytes (overflow_page_id h) @
     to_le_bytes (ph_magic h) @ to_le_bytes (checksum h) @ to_le_bytes (free_space_offset h) @
     to_le_bytes (slot_count h) @ to_le_bytes (ph_flags h) @ [0, 0] @ [ph_version h] @ [ph_page_type h] @
     [0, 0] @ replicate 20 0"

definition page_header_of :: "bytes \<Rightarrow> page_header" where
  "page_header_of buf =
     \<lparr>page_lsn = from_le_bytes (slice buf 0 8), page_id = from_le_bytes (slice buf 8 8),
      overflow_page_id = from_le_bytes (slice buf 16 8), ph_magic = from_le_bytes (slice buf 24 4),
      checksum = from_le_bytes (slice buf 28 4), free_space_offset = from_le_bytes (slice buf 32 2),
      slot_count = from_le_bytes (slice buf 34 2), ph_flags = from_le_bytes (slice buf 36 2),
      ph_version = buf ! 40, ph_page_type = buf ! 41\<rparr>"

text \<open>Mutable access to the three header fields the page operations change.\<close>

definition set_free_space_offset :: "bytes \<Rightarrow> u16 \<Rightarrow> bytes" where
  "set_free_space_offset buf v = splice buf 32 (to_le_bytes v)"

definition set_slot_count :: "bytes \<Rightarrow> u16 \<Rightarrow> bytes" where
  "set_slot_count buf v = splice buf 34 (to_le_bytes v)"

definition set_flags :: "bytes \<Rightarrow> u16 \<Rightarrow> bytes" where
  "set_flags buf v = splice buf 36 (to_le_bytes v)"

definition page_init :: "u64 \<Rightarrow> page_type \<Rightarrow> bytes" where
  "page_init pid pt = splice (replicate PAGE_SIZE 0) 0 (header_image (page_header_new pid pt))"

record slot =
  s_offset :: u16
  s_length :: u16

definition SLOT_SIZE :: nat where
  "SLOT_SIZE = 4"

definition slot_is_deleted :: "slot \<Rightarrow> bool" where
  "slot_is_deleted s \<longleftrightarrow> s_offset s = 0xFFFF"

definition slot_image :: "slot \<Rightarrow> bytes" where
  "slot_image s = to_le_bytes (s_offset s) @ to_le_bytes (s_length s)"

definition slot_of :: "bytes \<Rightarrow> slot" where
  "slot_of b = \<lparr>s_offset = from_le_bytes (slice b 0 2), s_length = from_le_bytes (slice b 2 2)\<rparr>"

abbreviation nslots :: "bytes \<Rightarrow> nat" where
  "nslots buf \<equiv> unat (slot_count (page_header_of buf))"

abbreviation free_off :: "bytes \<Rightarrow> nat" where
  "free_off buf \<equiv> unat (free_space_offset (page_header_of buf))"

definition free_space :: "page_header \<Rightarrow> nat" where
  "free_space h =
     PAGE_SIZE - (HEADER_SIZE + unat (free_space_offset h) + unat (slot_count h) * SLOT_SIZE)"

definition compute_checksum_bytes :: "digests \<Rightarrow> bytes \<Rightarrow> u32" where
  "compute_checksum_bytes H buf = crc32c H (take 28 buf @ [0, 0, 0, 0] @ drop 32 buf)"

definition verify_checksum_bytes :: "digests \<Rightarrow> bytes \<Rightarrow> bool" where
  "verify_checksum_bytes H buf =
     (if length buf \<noteq> PAGE_SIZE then False
      else (from_le_bytes (slice buf 28 4) :: u32) = compute_checksum_bytes H buf)"

definition update_checksum_bytes :: "digests \<Rightarrow> bytes \<Rightarrow> bytes" where
  "update_checksum_bytes H buf = splice buf 28 (to_le_bytes (compute_checksum_bytes H buf))"

definition has_valid_magic_bytes :: "bytes \<Rightarrow> bool" where
  "has_valid_magic_bytes buf =
     (if length buf < 28 then False else (from_le_bytes (slice buf 24 4) :: u32) = PAGE_MAGIC)"

text \<open>The slot directory as a vector, lowest address first, and access by logical index.\<close>

definition slot_dir :: "bytes \<Rightarrow> slot list" where
  "slot_dir buf =
     (let count = nslots buf; start = PAGE_SIZE - count * SLOT_SIZE
      in map (\<lambda>j. slot_of (slice buf (start + j * SLOT_SIZE) SLOT_SIZE)) [0..<count])"

definition page_slot :: "bytes \<Rightarrow> nat \<Rightarrow> slot option" where
  "page_slot buf idx =
     (let count = nslots buf in
      if count < idx + 1 then None else Some (slot_dir buf ! (count - (idx + 1))))"

definition set_slot :: "bytes \<Rightarrow> nat \<Rightarrow> slot \<Rightarrow> bytes" where
  "set_slot buf idx s =
     (let count = nslots buf; start = PAGE_SIZE - count * SLOT_SIZE; rev_idx = count - idx - 1
      in splice buf (start + rev_idx * SLOT_SIZE) (slot_image s))"

definition page_delete :: "bytes \<Rightarrow> nat \<Rightarrow> bool \<times> bytes" where
  "page_delete buf idx =
     (case page_slot buf idx of
        Some s \<Rightarrow> (if \<not> slot_is_deleted s then (True, set_slot buf idx (s\<lparr>s_offset := 0xFFFF\<rparr>)) else (False, buf))
      | None \<Rightarrow> (False, buf))"

definition page_read :: "bytes \<Rightarrow> nat \<Rightarrow> bytes option" where
  "page_read buf idx =
     (case page_slot buf idx of
        None \<Rightarrow> None
      | Some s \<Rightarrow> (if slot_is_deleted s then None
                   else Some (slice buf (HEADER_SIZE + unat (s_offset s)) (unat (s_length s)))))"

text \<open>Compaction: the first pass over the slots gathers the moves and the new slots.\<close>

fun compact_collect :: "bytes \<Rightarrow> nat list \<Rightarrow> u16 \<Rightarrow> (nat \<times> nat \<times> nat) list \<times> slot list \<times> u16" where
  "compact_collect buf [] new_offset = ([], [], new_offset)"
| "compact_collect buf (i # is) new_offset =
     (case page_slot buf i of
        Some s \<Rightarrow>
          (if \<not> slot_is_deleted s then
             let old_start = HEADER_SIZE + unat (s_offset s);
                 new_start = HEADER_SIZE + unat new_offset;
                 (moves, slots, off) = compact_collect buf is (new_offset + s_length s)
             in ((if old_start \<noteq> new_start then [(old_start, new_start, unat (s_length s))] else []) @ moves,
                 \<lparr>s_offset = new_offset, s_length = s_length s\<rparr> # slots, off)
           else compact_collect buf is new_offset)
      | None \<Rightarrow> compact_collect buf is new_offset)"

definition copy_within :: "bytes \<Rightarrow> nat \<times> nat \<times> nat \<Rightarrow> bytes" where
  "copy_within buf = (\<lambda>(old_start, new_start, len). splice buf new_start (slice buf old_start len))"

definition page_compact :: "bytes \<Rightarrow> bytes" where
  "page_compact buf =
     (let (moves, new_slots, new_offset) = compact_collect buf [0..<nslots buf] 0;
          buf1 = foldl copy_within buf moves;
          buf2 = set_free_space_offset buf1 new_offset;
          buf3 = set_slot_count buf2 (of_nat (length new_slots));
          buf4 = set_flags buf3 (ph_flags (page_header_of buf3) AND NOT PAGE_FLAG_FULL)
      in splice buf4 (PAGE_SIZE - length new_slots * SLOT_SIZE) (concat (map slot_image new_slots)))"

fun best_fit :: "bytes \<Rightarrow> nat \<Rightarrow> nat list \<Rightarrow> nat option \<Rightarrow> nat \<Rightarrow> nat option" where
  "best_fit buf n [] best best_len = best"
| "best_fit buf n (i # is) best best_len =
     (case page_slot buf i of
        Some s \<Rightarrow>
          (if slot_is_deleted s \<and> unat (s_length s) \<ge> n \<and> unat (s_length s) < best_len
           then best_fit buf n is (Some i) (unat (s_length s))
           else best_fit buf n is best best_len)
      | None \<Rightarrow> best_fit buf n is best best_len)"

text \<open>The space test of the two insertions: the page, compacted if need be, on which the
  record fits, or \<open>Inl\<close> the page on which it does not.\<close>

definition make_room :: "bytes \<Rightarrow> nat \<Rightarrow> bytes + bytes" where
  "make_room buf needed =
     (if needed > free_space (page_header_of buf) then
        let buf1 = page_compact buf in
        if needed > free_space (page_header_of buf1) then Inl buf1 else Inr buf1
      else Inr buf)"

text \<open>\<open>buf[a..a + len].copy_from_slice(record)\<close>, which panics out of bounds.\<close>

definition write_slice :: "bytes \<Rightarrow> nat \<Rightarrow> bytes \<Rightarrow> bytes option" where
  "write_slice buf a xs = (if a + length xs \<le> length buf then Some (splice buf a xs) else None)"

definition page_insert :: "bytes \<Rightarrow> bytes \<Rightarrow> (nat option \<times> bytes) option" where
  "page_insert buf record =
     (if length record > MAX_INLINE_RECORD_LEN then Some (None, buf)
      else let slot_count0 = nslots buf; free_offset = free_off buf in
        case make_room buf (length record + SLOT_SIZE) of
          Inl buf1 \<Rightarrow> Some (None, buf1)
        | Inr buf1 \<Rightarrow>
            (case best_fit buf1 (length record) [0..<slot_count0] None (2 ^ 64 - 1) of
               Some idx \<Rightarrow> do {
                 buf2 \<leftarrow> write_slice buf1 (HEADER_SIZE + free_offset) record;
                 Some (Some idx, set_free_space_offset
                   (set_slot buf2 idx \<lparr>s_offset = of_nat free_offset, s_length = of_nat (length record)\<rparr>)
                   (of_nat (free_offset + length record)))
               }
             | None \<Rightarrow> do {
                 buf2 \<leftarrow> write_slice buf1 (HEADER_SIZE + free_offset) record;
                 let buf3 = set_slot_count buf2 (slot_count (page_header_of buf2) + 1);
                     buf4 = set_free_space_offset buf3 (of_nat (free_offset + length record));
                     start = PAGE_SIZE - nslots buf4 * SLOT_SIZE
                 in Some (Some (nslots buf4 - 1),
                      splice buf4 start (slot_image \<lparr>s_offset = of_nat free_offset, s_length = of_nat (length record)\<rparr>))
               }))"

definition list_insert :: "'a list \<Rightarrow> nat \<Rightarrow> 'a \<Rightarrow> 'a list" where
  "list_insert xs i x = take i xs @ x # drop i xs"

definition page_insert_at :: "bytes \<Rightarrow> nat \<Rightarrow> bytes \<Rightarrow> (nat option \<times> bytes) option" where
  "page_insert_at buf idx record =
     (if length record > MAX_INLINE_RECORD_LEN then Some (None, buf)
      else case make_room buf (length record + SLOT_SIZE) of
          Inl buf1 \<Rightarrow> Some (None, buf1)
        | Inr buf1 \<Rightarrow> do {
            let free_offset = free_off buf1;
            buf2 \<leftarrow> write_slice buf1 (HEADER_SIZE + free_offset) record;
            let buf3 = set_slot_count buf2 (slot_count (page_header_of buf2) + 1);
                buf4 = set_free_space_offset buf3 (of_nat (free_offset + length record));
                count = nslots buf4;
                slots = List.map_filter (page_slot buf4) [0..<count - 1];
                pos = min idx (length slots);
                slots' = list_insert slots pos \<lparr>s_offset = of_nat free_offset, s_length = of_nat (length record)\<rparr>;
                start = PAGE_SIZE - count * SLOT_SIZE
            in Some (Some pos,
                 foldl (\<lambda>b (i, s). splice b (start + (count - 1 - i) * SLOT_SIZE) (slot_image s)) buf4
                   (zip [0..<length slots'] slots'))
          })"

section \<open>Header fields and slots as a view of the bytes\<close>

named_theorems page_simps \<open>header fields, slots and records of an updated page\<close>

lemma size_consts [simp]: "PAGE_SIZE = 8192" "HEADER_SIZE = 64" "SLOT_SIZE = 4" "MAX_INLINE_RECORD_LEN = 2048"
  by (simp_all add: PAGE_SIZE_def HEADER_SIZE_def SLOT_SIZE_def MAX_INLINE_RECORD_LEN_def)

lemma unat_u16_less: "unat (w :: u16) < 65536"
  using unsigned_less [of w, where ?'a = nat] by simp

lemma unat_of_nat_u16: "n < 65536 \<Longrightarrow> unat (of_nat n :: u16) = n"
  by (simp add: unat_of_nat)

definition slot_at :: "bytes \<Rightarrow> nat \<Rightarrow> slot" where
  "slot_at buf i = slot_of (slice buf (8192 - 4 * (i + 1)) 4)"

lemma page_slot_eq:
  assumes "4 * nslots buf \<le> 8192"
  shows "page_slot buf i = (if i < nslots buf then Some (slot_at buf i) else None)"
proof (cases "i < nslots buf")
  case True
  have "8192 - nslots buf * 4 + (nslots buf - (i + 1)) * 4 = 8192 - 4 * (i + 1)"
    using True assms by (simp add: diff_mult_distrib)
  then show ?thesis
    using True by (simp add: page_slot_def slot_dir_def Let_def slot_at_def)
qed (simp add: page_slot_def Let_def)

lemma set_slot_eq:
  assumes "4 * nslots buf \<le> 8192" "i < nslots buf"
  shows "set_slot buf i s = splice buf (8192 - 4 * (i + 1)) (slot_image s)"
proof -
  have "8192 - nslots buf * 4 + (nslots buf - i - 1) * 4 = 8192 - 4 * (i + 1)"
    using assms by (simp add: diff_mult_distrib)
  then show ?thesis
    by (simp only: set_slot_def Let_def size_consts)
qed

lemma length_slot_image [simp]: "length (slot_image s) = 4"
  by (simp add: slot_image_def)

lemma slot_of_image [simp]: "slot_of (slot_image s) = s"
  by (simp add: slot_of_def slot_image_def slice_def)

text \<open>A write behind the header leaves the header alone; a write outside a slot leaves the
  slot alone.\<close>

lemma header_splice [page_simps]:
  assumes "length buf = 8192" "64 \<le> a" "a + length xs \<le> 8192"
  shows "page_header_of (splice buf a xs) = page_header_of buf"
  using assms by (simp add: page_header_of_def slice_splice_disjoint nth_splice)

lemma slot_at_splice [page_simps]:
  assumes "length buf = 8192" "a + length xs \<le> 8192" "4 * (i + 1) \<le> 8192"
    "a + length xs \<le> 8192 - 4 * (i + 1) \<or> 8192 - 4 * i \<le> a"
  shows "slot_at (splice buf a xs) i = slot_at buf i"
proof -
  have "slice (splice buf a xs) (8192 - 4 * (i + 1)) 4 = slice buf (8192 - 4 * (i + 1)) 4"
    by (rule slice_splice_disjoint) (use assms in auto)
  then show ?thesis
    by (simp only: slot_at_def)
qed

lemma slot_at_splice_same [page_simps]:
  assumes "length buf = 8192" "4 * (i + 1) \<le> 8192"
  shows "slot_at (splice buf (8192 - 4 * (i + 1)) (slot_image s)) i = s"
  using assms by (simp add: slot_at_def)

lemma set_fields_eqs [page_simps]:
  assumes "length buf = 8192"
  shows "page_header_of (set_free_space_offset buf v) = (page_header_of buf)\<lparr>free_space_offset := v\<rparr>"
    "page_header_of (set_slot_count buf v) = (page_header_of buf)\<lparr>slot_count := v\<rparr>"
    "page_header_of (set_flags buf v) = (page_header_of buf)\<lparr>ph_flags := v\<rparr>"
  using assms by (simp_all add: page_header_of_def set_free_space_offset_def set_slot_count_def set_flags_def
      slice_splice_disjoint nth_splice)

lemma set_fields_length [page_simps, simp]:
  assumes "length buf = 8192"
  shows "length (set_free_space_offset buf v) = 8192" "length (set_slot_count buf v) = 8192"
    "length (set_flags buf v) = 8192"
  using assms by (simp_all add: set_free_space_offset_def set_slot_count_def set_flags_def)

lemma set_fields_slice [page_simps]:
  assumes "length buf = 8192" "64 \<le> a" "a + n \<le> 8192"
  shows "slice (set_free_space_offset buf v) a n = slice buf a n" "slice (set_slot_count buf v) a n = slice buf a n"
    "slice (set_flags buf v) a n = slice buf a n"
  using assms by (simp_all add: set_free_space_offset_def set_slot_count_def set_flags_def slice_splice_disjoint)

lemma set_fields_slot [page_simps]:
  assumes "length buf = 8192" "64 + 4 * (i + 1) \<le> 8192"
  shows "slot_at (set_free_space_offset buf v) i = slot_at buf i" "slot_at (set_slot_count buf v) i = slot_at buf i"
    "slot_at (set_flags buf v) i = slot_at buf i"
  using assms by (simp_all add: slot_at_def set_fields_slice)

text \<open>A well-formed page: the record area and the slot directory do not meet, and every live
  slot points into the record area.\<close>

definition page_ok :: "bytes \<Rightarrow> bool" where
  "page_ok buf \<longleftrightarrow> length buf = 8192 \<and> 64 + free_off buf + 4 * nslots buf \<le> 8192 \<and>
     (\<forall>i < nslots buf. \<not> slot_is_deleted (slot_at buf i) \<longrightarrow>
        unat (s_offset (slot_at buf i)) + unat (s_length (slot_at buf i)) \<le> free_off buf)"

lemma page_okD:
  assumes "page_ok buf"
  shows "length buf = 8192" "64 + free_off buf + 4 * nslots buf \<le> 8192" "4 * nslots buf \<le> 8192"
  using assms by (simp_all add: page_ok_def)

lemma page_read_eq:
  assumes "page_ok buf"
  shows "page_read buf i = (if i < nslots buf \<and> \<not> slot_is_deleted (slot_at buf i) then
    Some (slice buf (64 + unat (s_offset (slot_at buf i))) (unat (s_length (slot_at buf i)))) else None)"
  using page_okD(3) [OF assms] by (simp add: page_read_def page_slot_eq)

lemma page_init_header: "page_header_of (page_init pid pt) = page_header_new pid pt"
  by (simp add: page_init_def page_header_of_def header_image_def splice_def slice_def nth_append page_header_new_def)

lemma page_ok_init [simp]: "page_ok (page_init pid pt)"
proof -
  have "length (header_image (page_header_new pid pt)) = 64"
    by (simp add: header_image_def)
  then show ?thesis
    unfolding page_ok_def page_init_header by (simp add: page_header_new_def page_init_def)
qed

section \<open>Insert, read, delete\<close>

text \<open>The result of an insertion that fits without compaction: the record is written at the
  free offset and one slot, \<open>idx\<close>, is set; the slot count is \<open>count\<close>.\<close>

lemma insert_view:
  assumes ok: "page_ok buf" and fit: "length record + 4 \<le> free_space (page_header_of buf)"
    and idx: "idx < count" "count \<le> nslots buf + 1" "nslots buf \<le> count"
    and f: "f = free_off buf"
    and buf': "length buf' = 8192" "free_off buf' = f + length record" "nslots buf' = count"
    and sl: "slot_at buf' idx = \<lparr>s_offset = of_nat f, s_length = of_nat (length record)\<rparr>"
      "\<And>j. j < count \<Longrightarrow> j \<noteq> idx \<Longrightarrow> j < nslots buf \<and> slot_at buf' j = slot_at buf j"
    and data: "slice buf' (64 + f) (length record) = record"
      "\<And>a n. 64 \<le> a \<Longrightarrow> a + n \<le> 64 + f \<Longrightarrow> slice buf' a n = slice buf a n"
    and len: "length record \<le> 2048"
  shows "page_ok buf' \<and> page_read buf' idx = Some record
    \<and> (\<forall>j. j \<noteq> idx \<longrightarrow> page_read buf' j = page_read buf j)"
proof -
  note o = page_okD [OF ok]
  have room: "64 + f + length record + 4 * count \<le> 8192"
    using fit idx(2) f by (simp add: free_space_def)
  have u: "unat (of_nat f :: u16) = f" "unat (of_nat (length record) :: u16) = length record"
    using room len by (simp_all add: unat_of_nat_u16)
  have nd: "of_nat f \<noteq> (0xFFFF :: u16)"
  proof
    assume "of_nat f = (0xFFFF :: u16)"
    then have "unat (of_nat f :: u16) = 0xFFFF" by simp
    with u(1) room show False by simp
  qed
  have ok': "page_ok buf'"
    unfolding page_ok_def
  proof (intro conjI allI impI)
    fix j assume j: "j < nslots buf'" "\<not> slot_is_deleted (slot_at buf' j)"
    show "unat (s_offset (slot_at buf' j)) + unat (s_length (slot_at buf' j)) \<le> free_off buf'"
    proof (cases "j = idx")
      case True
      then show ?thesis using sl(1) u buf'(2) by simp
    next
      case False
      then show ?thesis
        using sl(2) [of j] j buf' ok f by (auto simp: page_ok_def)
    qed
  qed (use buf' room in auto)
  note o' = page_okD [OF ok']
  have "page_read buf' idx = Some record"
    using o' idx buf'(3) sl(1) u nd data(1) by (simp add: page_read_def page_slot_eq slot_is_deleted_def)
  moreover have "page_read buf' j = page_read buf j" if "j \<noteq> idx" for j
  proof (cases "j < count")
    case True
    from sl(2) [OF True that] have s: "j < nslots buf" "slot_at buf' j = slot_at buf j" by auto
    show ?thesis
    proof (cases "slot_is_deleted (slot_at buf j)")
      case False
      then have "unat (s_offset (slot_at buf j)) + unat (s_length (slot_at buf j)) \<le> f"
        using ok s(1) f by (simp add: page_ok_def)
      then show ?thesis
        using o o' True s buf'(3) data(2) False by (simp add: page_read_def page_slot_eq)
    qed (use o o' True s buf'(3) in \<open>simp add: page_read_def page_slot_eq\<close>)
  next
    case False
    then show ?thesis
      using o o' idx buf'(3) by (simp add: page_read_def page_slot_eq)
  qed
  ultimately show ?thesis
    using ok' by blast
qed

lemma best_fit_SomeD:
  "best_fit buf n is best bl = Some i \<Longrightarrow> best = Some i \<or> i \<in> set is"
  by (induction buf n "is" best bl rule: best_fit.induct) (auto split: option.splits if_splits)

lemma record_written:
  assumes "page_ok buf" "length record + 4 \<le> free_space (page_header_of buf)"
  defines "b2 \<equiv> splice buf (64 + free_off buf) record"
  shows "64 + free_off buf + length record + 4 * (nslots buf + 1) \<le> 8192"
    "write_slice buf (64 + free_off buf) record = Some b2" "length b2 = 8192"
    "page_header_of b2 = page_header_of buf" "\<And>j. j \<le> nslots buf \<Longrightarrow> slot_at b2 j = slot_at buf j"
    "slice b2 (64 + free_off buf) (length record) = record"
    "\<And>a k. 64 \<le> a \<Longrightarrow> a + k \<le> 64 + free_off buf \<Longrightarrow> slice b2 a k = slice buf a k"
    "unat (of_nat (free_off buf + length record) :: u16) = free_off buf + length record"
proof -
  note o = page_okD [OF assms(1)]
  show room: "64 + free_off buf + length record + 4 * (nslots buf + 1) \<le> 8192"
    using assms(2) by (simp add: free_space_def)
  then show "write_slice buf (64 + free_off buf) record = Some b2" "length b2 = 8192"
    using o(1) by (simp_all add: write_slice_def b2_def)
  show "page_header_of b2 = page_header_of buf"
    unfolding b2_def by (rule header_splice) (use o(1) room in auto)
  show "slot_at b2 j = slot_at buf j" if "j \<le> nslots buf" for j
    unfolding b2_def by (rule slot_at_splice) (use o(1) room that in auto)
  show "slice b2 (64 + free_off buf) (length record) = record"
    using o(1) room by (simp add: b2_def)
  show "slice b2 a k = slice buf a k" if "64 \<le> a" "a + k \<le> 64 + free_off buf" for a k
    unfolding b2_def by (rule slice_splice_disjoint) (use o(1) room that in auto)
  show "unat (of_nat (free_off buf + length record) :: u16) = free_off buf + length record"
    using room by (intro unat_of_nat_u16) simp
qed

lemma make_room_fits: "n \<le> free_space (page_header_of buf) \<Longrightarrow> make_room buf n = Inr buf"
  by (simp add: make_room_def)

lemma page_insert_reuse:
  assumes "page_ok buf" "length record \<le> 2048" "length record + 4 \<le> free_space (page_header_of buf)"
    and best: "best_fit buf (length record) [0..<nslots buf] None (2 ^ 64 - 1) = Some idx"
  shows "\<exists>buf'. page_insert buf record = Some (Some idx, buf') \<and> page_ok buf'
    \<and> page_read buf' idx = Some record \<and> (\<forall>j. j \<noteq> idx \<longrightarrow> page_read buf' j = page_read buf j)"
proof -
  note b2 = record_written [OF assms(1,3)]
  let ?f = "free_off buf" and ?len = "length record" and ?b2 = "splice buf (64 + free_off buf) record"
  let ?s = "\<lparr>s_offset = of_nat ?f, s_length = of_nat ?len\<rparr>"
  let ?b3 = "splice ?b2 (8192 - 4 * (idx + 1)) (slot_image ?s)"
  let ?b4 = "set_free_space_offset ?b3 (of_nat (?f + ?len))"
  have idx: "idx < nslots buf"
    using best_fit_SomeD [OF best] by simp
  have l3: "length ?b3 = 8192" and h3: "page_header_of ?b3 = page_header_of buf"
    using b2 idx by (simp_all add: header_splice)
  have d4: "slice ?b4 a k = slice ?b2 a k" if "64 \<le> a" "a + k \<le> 64 + ?f + ?len" for a k
  proof -
    have "slice ?b3 a k = slice ?b2 a k"
      by (rule slice_splice_disjoint) (use b2(1,3) idx that in auto)
    then show ?thesis
      using l3 that b2(1) by (subst set_fields_slice) auto
  qed
  have s3: "slot_at ?b3 idx = ?s"
    by (rule slot_at_splice_same) (use b2 idx in auto)
  have "page_insert buf record = Some (Some idx, ?b4)"
    using assms(2,3) best b2 idx page_okD [OF assms(1)]
    by (simp add: page_insert_def Let_def make_room_fits set_slot_eq)
  moreover have "page_ok ?b4 \<and> page_read ?b4 idx = Some record \<and> (\<forall>j. j \<noteq> idx \<longrightarrow> page_read ?b4 j = page_read buf j)"
  proof (rule insert_view [OF assms(1,3), of idx "nslots buf" ?f])
    show "slot_at ?b4 idx = ?s"
      using l3 idx b2(1) s3 by (subst set_fields_slot) auto
    show "j < nslots buf \<and> slot_at ?b4 j = slot_at buf j" if "j < nslots buf" "j \<noteq> idx" for j
    proof -
      have "slot_at ?b3 j = slot_at ?b2 j"
        by (rule slot_at_splice) (use b2 idx that in auto)
      then show ?thesis
        using l3 that b2(1,5) by (simp add: set_fields_slot)
    qed
    show "slice ?b4 (64 + ?f) ?len = record"
      using d4 [of "64 + ?f" ?len] b2(6) by simp
    show "slice ?b4 a k = slice buf a k" if "64 \<le> a" "a + k \<le> 64 + ?f" for a k
      using d4 [of a k] b2(7) that by simp
  qed (use idx l3 h3 b2 assms(2) in \<open>simp_all add: set_fields_eqs\<close>)
  ultimately show ?thesis
    by blast
qed

lemma page_insert_append:
  assumes "page_ok buf" "length record \<le> 2048" "length record + 4 \<le> free_space (page_header_of buf)"
    and best: "best_fit buf (length record) [0..<nslots buf] None (2 ^ 64 - 1) = None"
  shows "\<exists>buf'. page_insert buf record = Some (Some (nslots buf), buf') \<and> page_ok buf'
    \<and> page_read buf' (nslots buf) = Some record \<and> (\<forall>j. j \<noteq> nslots buf \<longrightarrow> page_read buf' j = page_read buf j)"
proof -
  note b2 = record_written [OF assms(1,3)]
  let ?f = "free_off buf" and ?n = "nslots buf" and ?len = "length record" and ?b2 = "splice buf (64 + free_off buf) record"
  let ?s = "\<lparr>s_offset = of_nat ?f, s_length = of_nat ?len\<rparr>"
  let ?b3 = "set_slot_count ?b2 (slot_count (page_header_of ?b2) + 1)"
  let ?b4 = "set_free_space_offset ?b3 (of_nat (?f + ?len))"
  let ?b5 = "splice ?b4 (8192 - 4 * (?n + 1)) (slot_image ?s)"
  have cu: "unat (slot_count (page_header_of buf) + 1) = ?n + 1"
    using b2(1) by (subst unat_add_lem [THEN iffD1]) simp_all
  have l4: "length ?b4 = 8192" and h4: "nslots ?b4 = ?n + 1" "free_off ?b4 = ?f + ?len"
    using b2 cu by (simp_all add: set_fields_eqs)
  have h5: "page_header_of ?b5 = page_header_of ?b4" and l5: "length ?b5 = 8192"
    using l4 b2(1) by (simp_all add: header_splice)
  have d5: "slice ?b5 a k = slice ?b2 a k" if "64 \<le> a" "a + k \<le> 64 + ?f + ?len" for a k
  proof -
    have "slice ?b5 a k = slice ?b4 a k"
      by (rule slice_splice_disjoint) (use l4 b2(1) that in auto)
    then show ?thesis
      using b2(1,3) that by (simp add: set_fields_slice)
  qed
  have "page_insert buf record = Some (Some ?n, ?b5)"
    using assms(2,3) best b2(2) h4(1) by (simp add: page_insert_def Let_def make_room_fits mult.commute)
  moreover have "page_ok ?b5 \<and> page_read ?b5 ?n = Some record \<and> (\<forall>j. j \<noteq> ?n \<longrightarrow> page_read ?b5 j = page_read buf j)"
  proof (rule insert_view [OF assms(1,3), of ?n "?n + 1" ?f])
    show "slot_at ?b5 ?n = ?s"
      by (rule slot_at_splice_same) (use l4 b2(1) in auto)
    show "j < nslots buf \<and> slot_at ?b5 j = slot_at buf j" if "j < ?n + 1" "j \<noteq> ?n" for j
    proof -
      have "slot_at ?b5 j = slot_at ?b4 j"
        by (rule slot_at_splice) (use l4 b2(1) that in auto)
      then show ?thesis
        using b2 that by (simp add: set_fields_slot)
    qed
    show "slice ?b5 (64 + ?f) ?len = record"
      using d5 [of "64 + ?f" ?len] b2(6) by simp
    show "slice ?b5 a k = slice buf a k" if "64 \<le> a" "a + k \<le> 64 + ?f" for a k
      using d5 [of a k] b2(7) that by simp
  qed (use l5 h5 h4 assms(2) in simp_all)
  ultimately show ?thesis
    by blast
qed

text \<open>C39. Insert and read back: on a well-formed page with room for the record and its slot, an
  insertion of a record of inline size succeeds, keeps the page well formed, and reading
  the returned slot gives exactly the record; every other slot reads as before, whether
  the directory grew or a deleted entry was reused.\<close>

theorem page_insert_read:
  assumes "page_ok buf" and "length record \<le> 2048" and "length record + 4 \<le> free_space (page_header_of buf)"
  shows "\<exists>idx buf'. page_insert buf record = Some (Some idx, buf') \<and> page_ok buf'
    \<and> page_read buf' idx = Some record \<and> (\<forall>j. j \<noteq> idx \<longrightarrow> page_read buf' j = page_read buf j)"
  using page_insert_reuse [OF assms] page_insert_append [OF assms]
  by (cases "best_fit buf (length record) [0..<nslots buf] None (2 ^ 64 - 1)") blast+

theorem page_insert_read_witness:
  "\<exists>idx buf'. page_insert (page_init 3 SlottedData) [1, 2, 3] = Some (Some idx, buf') \<and> page_read buf' idx = Some [1, 2, 3]"
proof -
  have "length [1, 2, 3 :: u8] + 4 \<le> free_space (page_header_of (page_init 3 SlottedData))"
    by (simp add: page_init_header page_header_new_def free_space_def)
  from page_insert_read [OF page_ok_init _ this] show ?thesis
    by auto
qed

text \<open>Delete: deleting a live slot of a well-formed page succeeds, the slot then reads as
  absent, every other slot reads as before, the page stays well formed, and deleting the
  slot a second time fails and changes nothing; a slot beyond the directory cannot be
  deleted.\<close>

theorem page_delete_read:
  assumes "page_ok buf" and "page_read buf idx = Some record"
  shows "\<exists>buf'. page_delete buf idx = (True, buf') \<and> page_ok buf' \<and> page_read buf' idx = None
    \<and> (\<forall>j. j \<noteq> idx \<longrightarrow> page_read buf' j = page_read buf j) \<and> page_delete buf' idx = (False, buf')
    \<and> (\<forall>j. nslots buf \<le> j \<longrightarrow> page_delete buf j = (False, buf))"
proof -
  note o = page_okD [OF assms(1)]
  have idx: "idx < nslots buf" and live: "\<not> slot_is_deleted (slot_at buf idx)"
    using assms(2) o(3) by (auto simp: page_read_def page_slot_eq split: if_splits)
  let ?s = "(slot_at buf idx)\<lparr>s_offset := 0xFFFF\<rparr>"
  define b where b_def: "b = splice buf (8192 - 4 * (idx + 1)) (slot_image ?s)"
  have l: "length b = 8192" and h: "page_header_of b = page_header_of buf"
    using o idx by (simp_all add: header_splice b_def)
  have s: "slot_at b idx = ?s"
    unfolding b_def by (rule slot_at_splice_same) (use o idx in auto)
  have d: "slot_is_deleted ?s"
    by (simp add: slot_is_deleted_def)
  have sj: "slot_at b j = slot_at buf j" if "j < nslots buf" "j \<noteq> idx" for j
    unfolding b_def by (rule slot_at_splice) (use o idx that in auto)
  have data: "slice b (64 + a) n = slice buf (64 + a) n" if "a + n \<le> free_off buf" for a n
    unfolding b_def by (rule slice_splice_disjoint) (use o idx that in auto)
  have del: "page_delete buf idx = (True, b)"
    using o(3) idx live by (simp add: page_delete_def page_slot_eq set_slot_eq b_def)
  have ok: "page_ok b"
    unfolding page_ok_def h
  proof (intro conjI allI impI)
    fix j assume "j < nslots buf" "\<not> slot_is_deleted (slot_at b j)"
    then show "unat (s_offset (slot_at b j)) + unat (s_length (slot_at b j)) \<le> free_off buf"
      using assms(1) s d sj [of j] by (cases "j = idx") (auto simp: page_ok_def)
  qed (use o l in auto)
  have "page_read b j = page_read buf j" if "j \<noteq> idx" for j
    using sj [OF _ that] data assms(1) by (auto simp: page_read_eq [OF ok] page_read_eq [OF assms(1)] h page_ok_def)
  moreover have "page_read b idx = None" "page_delete b idx = (False, b)"
    using o(3) idx s d h by (simp_all add: page_read_eq [OF ok] page_delete_def page_slot_eq)
  moreover have "\<forall>j. nslots buf \<le> j \<longrightarrow> page_delete buf j = (False, buf)"
    using o(3) by (simp add: page_delete_def page_slot_eq)
  ultimately show ?thesis
    using del ok by blast
qed

theorem page_delete_read_witness:
  "\<exists>buf buf'. page_read buf 0 = Some [1, 2] \<and> page_delete buf 0 = (True, buf') \<and> page_read buf' 0 = None"
proof -
  have f: "length [1, 2 :: u8] + 4 \<le> free_space (page_header_of (page_init 3 SlottedData))"
    and n: "nslots (page_init 3 SlottedData) = 0"
    by (simp_all add: page_init_header page_header_new_def free_space_def)
  have b: "best_fit (page_init 3 SlottedData) (length [1, 2 :: u8]) [0..<nslots (page_init 3 SlottedData)] None (2 ^ 64 - 1) = None"
    unfolding n by simp
  from page_insert_append [OF page_ok_init _ f b] obtain buf where "page_ok buf" "page_read buf 0 = Some [1, 2]"
    unfolding n by auto
  with page_delete_read [OF this] show ?thesis
    by blast
qed

section \<open>Compaction\<close>

definition live_len :: "bytes \<Rightarrow> nat \<Rightarrow> nat" where
  "live_len buf i = (if slot_is_deleted (slot_at buf i) then 0 else unat (s_length (slot_at buf i)))"

text \<open>The live records of the page fit, taken together, below the free offset.\<close>

definition live_fits :: "bytes \<Rightarrow> bool" where
  "live_fits buf \<longleftrightarrow> (\<Sum>i\<leftarrow>[0..<nslots buf]. live_len buf i) \<le> free_off buf"

lemma compact_collect_spec:
  assumes "page_ok buf" "set is \<subseteq> {..<nslots buf}" "unat off + (\<Sum>i\<leftarrow>is. live_len buf i) \<le> free_off buf"
    "compact_collect buf is off = (moves, slots, off')"
  shows "length slots \<le> length is \<and> unat off' = unat off + (\<Sum>i\<leftarrow>is. live_len buf i)
    \<and> (\<forall>(a, b, l) \<in> set moves. 64 \<le> b \<and> b + l \<le> 64 + free_off buf \<and> a + l \<le> 64 + free_off buf)"
  using assms(2-)
proof (induction "is" arbitrary: off moves slots off')
  case (Cons i "is")
  note o = page_okD [OF assms(1)]
  let ?s = "slot_at buf i"
  have i: "i < nslots buf"
    using Cons.prems(1) by simp
  have ps: "page_slot buf i = Some ?s"
    using i o by (simp add: page_slot_eq)
  show ?case
  proof (cases "slot_is_deleted ?s")
    case True
    then have "live_len buf i = 0" "compact_collect buf is off = (moves, slots, off')"
      using Cons.prems(3) ps by (simp_all add: live_len_def)
    then show ?thesis
      using Cons.IH [of off moves slots off'] Cons.prems(1,2) by simp
  next
    case False
    obtain m2 s2 where rec: "compact_collect buf is (off + s_length ?s) = (m2, s2, off')"
      and eqs: "moves = (if 64 + unat (s_offset ?s) \<noteq> 64 + unat off
          then [(64 + unat (s_offset ?s), 64 + unat off, unat (s_length ?s))] else []) @ m2"
        "slots = \<lparr>s_offset = off, s_length = s_length ?s\<rparr> # s2"
      using Cons.prems(3) ps False by (auto simp: Let_def split: prod.splits)
    have b: "unat off + unat (s_length ?s) + (\<Sum>i\<leftarrow>is. live_len buf i) \<le> free_off buf"
      using Cons.prems(2) False by (simp add: live_len_def)
    have u: "unat (off + s_length ?s) = unat off + unat (s_length ?s)"
      using b o(2) by (subst unat_add_lem [THEN iffD1]) simp_all
    have live: "unat (s_offset ?s) + unat (s_length ?s) \<le> free_off buf"
      using assms(1) i False by (simp add: page_ok_def)
    from Cons.IH [OF _ _ rec] Cons.prems(1) b
    have "length s2 \<le> length is \<and> unat off' = unat off + unat (s_length ?s) + (\<Sum>i\<leftarrow>is. live_len buf i)
      \<and> (\<forall>(a, b, l) \<in> set m2. 64 \<le> b \<and> b + l \<le> 64 + free_off buf \<and> a + l \<le> 64 + free_off buf)"
      by (simp add: u)
    then show ?thesis
      using eqs b live False by (auto simp: live_len_def)
  qed
qed simp

lemma copies_frame:
  assumes "length buf = 8192" "f \<le> 8128"
    "\<forall>(a, b, l) \<in> set moves. 64 \<le> b \<and> b + l \<le> 64 + f \<and> a + l \<le> 64 + f"
  shows "length (foldl copy_within buf moves) = 8192
    \<and> page_header_of (foldl copy_within buf moves) = page_header_of buf"
  using assms
proof (induction moves arbitrary: buf)
  case (Cons m moves)
  obtain a b l where m: "m = (a, b, l)"
    by (cases m)
  have r: "64 \<le> b" "b + l \<le> 8192" "a + l \<le> 8192"
    using Cons.prems by (auto simp: m)
  have len: "length (copy_within buf m) = 8192"
    using Cons.prems(1) r by (simp add: copy_within_def m)
  have "page_header_of (copy_within buf m) = page_header_of buf"
    unfolding copy_within_def m prod.case by (rule header_splice) (use Cons.prems(1) r in auto)
  with Cons.IH [OF len Cons.prems(2)] Cons.prems(3) show ?case
    by simp
qed simp

lemma length_concat_slot_images [simp]: "length (concat (map slot_image ss)) = 4 * length ss"
  by (induction ss) auto

lemma slice_concat_slot_images:
  "j < length ss \<Longrightarrow> slice (concat (map slot_image ss)) (4 * j) 4 = slot_image (ss ! j)"
proof (induction ss arbitrary: j)
  case (Cons s ss)
  then show ?case
    by (cases j) (simp_all add: slice_def)
qed simp

lemma slice_of_splice:
  "a + length xs \<le> length buf \<Longrightarrow> k + n \<le> length xs \<Longrightarrow> slice (splice buf a xs) (a + k) n = slice xs k n"
  by (simp add: slice_def splice_def)

lemma page_compact_view:
  assumes ok: "page_ok buf" and fits: "live_fits buf"
    and c: "compact_collect buf [0..<nslots buf] 0 = (moves, ns, off)"
  shows "length (page_compact buf) = 8192" "nslots (page_compact buf) = length ns"
    "free_off (page_compact buf) = (\<Sum>i\<leftarrow>[0..<nslots buf]. live_len buf i)"
    "\<And>i. i < length ns \<Longrightarrow> page_slot (page_compact buf) i = Some (ns ! (length ns - 1 - i))"
    "\<And>a n. moves = [] \<Longrightarrow> 64 \<le> a \<Longrightarrow> a + n \<le> 64 + free_off buf \<Longrightarrow> slice (page_compact buf) a n = slice buf a n"
proof -
  note o = page_okD [OF ok]
  have sub: "set [0..<nslots buf] \<subseteq> {..<nslots buf}"
    by auto
  have sp: "length ns \<le> nslots buf" "unat off = (\<Sum>i\<leftarrow>[0..<nslots buf]. live_len buf i)"
    "\<forall>(a, b, l) \<in> set moves. 64 \<le> b \<and> b + l \<le> 64 + free_off buf \<and> a + l \<le> 64 + free_off buf"
    using compact_collect_spec [OF ok sub _ c] fits by (simp_all add: live_fits_def)
  let ?b1 = "foldl copy_within buf moves"
  have b1: "length ?b1 = 8192" "page_header_of ?b1 = page_header_of buf"
    using copies_frame [OF o(1) _ sp(3)] o(2) by simp_all
  define b4 where "b4 = set_flags (set_slot_count (set_free_space_offset ?b1 off) (of_nat (length ns)))
    (ph_flags (page_header_of (set_slot_count (set_free_space_offset ?b1 off) (of_nat (length ns)))) AND NOT PAGE_FLAG_FULL)"
  have n: "unat (of_nat (length ns) :: u16) = length ns"
    using sp(1) o(2) by (intro unat_of_nat_u16) simp
  have b4: "length b4 = 8192" "nslots b4 = length ns" "free_off b4 = unat off"
    using b1 n by (simp_all add: b4_def set_fields_eqs)
  define st where "st = 8192 - length ns * 4"
  have st: "64 \<le> st" "st + 4 * length ns = 8192" "64 + free_off buf \<le> st"
    using sp(1) o(2) by (auto simp: st_def)
  have cmp: "page_compact buf = splice b4 st (concat (map slot_image ns))"
    by (simp add: page_compact_def c Let_def b4_def st_def)
  have h: "page_header_of (page_compact buf) = page_header_of b4"
    unfolding cmp by (rule header_splice) (use b4(1) st in auto)
  show l: "length (page_compact buf) = 8192" "nslots (page_compact buf) = length ns"
    "free_off (page_compact buf) = (\<Sum>i\<leftarrow>[0..<nslots buf]. live_len buf i)"
    using b4 h st sp(2) by (simp_all add: cmp)
  show "page_slot (page_compact buf) i = Some (ns ! (length ns - 1 - i))" if i: "i < length ns" for i
  proof -
    have pos: "8192 - 4 * (i + 1) = st + 4 * (length ns - 1 - i)"
      using i st(2) by simp
    have "slice (page_compact buf) (8192 - 4 * (i + 1)) 4 = slot_image (ns ! (length ns - 1 - i))"
      unfolding pos cmp using b4(1) st(2) i by (subst slice_of_splice) (auto simp: slice_concat_slot_images)
    then show ?thesis
      using l(2) i sp(1) o(3) by (simp add: page_slot_eq slot_at_def)
  qed
  show "slice (page_compact buf) a n = slice buf a n" if "moves = []" "64 \<le> a" "a + n \<le> 64 + free_off buf" for a n
  proof -
    have "slice (page_compact buf) a n = slice b4 a n"
      unfolding cmp by (rule slice_splice_disjoint) (use b4(1) st that in auto)
    then show ?thesis
      using that o b1 by (simp add: b4_def set_fields_slice)
  qed
qed

lemma compact_collect_compacted:
  assumes "\<And>i. i < n \<Longrightarrow> page_slot buf i = Some (slot_at buf i) \<and> \<not> slot_is_deleted (slot_at buf i)"
    "\<And>i. i < n \<Longrightarrow> s_offset (slot_at buf i) = (\<Sum>j\<leftarrow>[0..<i]. s_length (slot_at buf j))" "m \<le> n"
  shows "\<exists>off. compact_collect buf [m..<n] (\<Sum>j\<leftarrow>[0..<m]. s_length (slot_at buf j)) = ([], map (slot_at buf) [m..<n], off)"
  using assms(3)
proof (induction rule: inc_induct)
  case (step m)
  let ?o = "\<Sum>j\<leftarrow>[0..<m]. s_length (slot_at buf j)"
  obtain off where "compact_collect buf [Suc m..<n] (?o + s_length (slot_at buf m)) = ([], map (slot_at buf) [Suc m..<n], off)"
    using step.IH by auto
  moreover have "\<lparr>s_offset = ?o, s_length = s_length (slot_at buf m)\<rparr> = slot_at buf m"
    by (rule slot.equality) (use assms(2) [of m] step.hyps in simp_all)
  ultimately show ?case
    using assms(1,2) [of m] step.hyps by (auto simp: upt_conv_Cons)
qed simp

text \<open>Compaction reverses the directory: on a well-formed page with no deleted slot whose
  records already lie back to back in slot order, where compaction has nothing to do, the
  record that was read at slot i is afterwards at slot n - 1 - i. Slot numbers are stored
  as record addresses, so the page's records are served under each other's addresses.\<close>

theorem compact_reverses_slots:
  assumes "page_ok buf" and "\<And>i. i < nslots buf \<Longrightarrow> \<not> slot_is_deleted (slot_at buf i)"
    and "\<And>i. i < nslots buf \<Longrightarrow> s_offset (slot_at buf i) = (\<Sum>j\<leftarrow>[0..<i]. s_length (slot_at buf j))"
    and "live_fits buf" and "i < nslots buf"
  shows "nslots (page_compact buf) = nslots buf
    \<and> page_read (page_compact buf) i = page_read buf (nslots buf - 1 - i)"
proof -
  note o = page_okD [OF assms(1)]
  let ?n = "nslots buf"
  obtain off where c: "compact_collect buf [0..<?n] 0 = ([], map (slot_at buf) [0..<?n], off)"
    using compact_collect_compacted [of ?n buf 0] assms(2,3) o(3) by (auto simp: page_slot_eq)
  note v = page_compact_view [OF assms(1,4) c]
  have j: "?n - 1 - i < ?n"
    using assms(5) by simp
  let ?s = "slot_at buf (?n - 1 - i)"
  have s: "page_slot (page_compact buf) i = Some ?s"
    using v(4) [of i] assms(5) j by simp
  have "unat (s_offset ?s) + unat (s_length ?s) \<le> free_off buf"
    using assms(1) assms(2) [OF j] j by (simp add: page_ok_def)
  then have "page_read (page_compact buf) i = Some (slice buf (64 + unat (s_offset ?s)) (unat (s_length ?s)))"
    using s assms(2) [OF j] v(5) by (simp add: page_read_def)
  then show ?thesis
    using v(2) assms(2) [OF j] j by (simp add: page_read_eq [OF assms(1)])
qed

text \<open>Insertion with compaction panics: insertion remembers the free offset from before the
  compaction it performs. When a record does not fit, fits after compaction, and the old
  free offset leaves fewer bytes than the record to the end of the page, insertion writes
  out of the page's bounds, which is a panic, instead of storing the record.\<close>

theorem insert_after_compaction_panics:
  assumes "page_ok buf" and "live_fits buf" and "length record \<le> 2048"
    and "length record + 4 > free_space (page_header_of buf)"
    and "length record + 4 \<le> free_space (page_header_of (page_compact buf))"
    and "64 + free_off buf + length record > 8192"
  shows "page_insert buf record = None"
proof -
  obtain moves ns off where c: "compact_collect buf [0..<nslots buf] 0 = (moves, ns, off)"
    by (metis prod_cases3)
  have "length (page_compact buf) = 8192"
    by (rule page_compact_view(1) [OF assms(1,2) c])
  then have "write_slice (page_compact buf) (64 + free_off buf) record = None"
    using assms(6) by (simp add: write_slice_def)
  then show ?thesis
    using assms(3-5) by (simp add: page_insert_def make_room_def Let_def split: option.split)
qed

text \<open>A page given by its free offset and its slots, for the witnesses.\<close>

definition demo_page :: "nat \<Rightarrow> slot list \<Rightarrow> bytes" where
  "demo_page f ss = splice (set_slot_count (set_free_space_offset (page_init 3 SlottedData) (of_nat f)) (of_nat (length ss)))
     (8192 - 4 * length ss) (concat (map slot_image (rev ss)))"

lemma demo_page_view:
  assumes "64 + f + 4 * length ss \<le> 8192"
  shows "length (demo_page f ss) = 8192" "nslots (demo_page f ss) = length ss" "free_off (demo_page f ss) = f"
    "\<And>i. i < length ss \<Longrightarrow> slot_at (demo_page f ss) i = ss ! i"
proof -
  let ?b = "set_slot_count (set_free_space_offset (page_init 3 SlottedData) (of_nat f)) (of_nat (length ss))"
  have l: "length (page_init 3 SlottedData) = 8192"
    using page_okD(1) [OF page_ok_init] .
  have u: "unat (of_nat f :: u16) = f" "unat (of_nat (length ss) :: u16) = length ss"
    using assms by (simp_all add: unat_of_nat_u16)
  have h: "page_header_of (demo_page f ss) = page_header_of ?b"
    unfolding demo_page_def by (rule header_splice) (use l assms in auto)
  show "length (demo_page f ss) = 8192" "nslots (demo_page f ss) = length ss" "free_off (demo_page f ss) = f"
    using l u assms unfolding h by (simp_all add: set_fields_eqs) (simp add: demo_page_def)
  show "slot_at (demo_page f ss) i = ss ! i" if i: "i < length ss" for i
  proof -
    have pos: "8192 - 4 * (i + 1) = (8192 - 4 * length ss) + 4 * (length ss - 1 - i)"
      using i assms by simp
    have "slice (demo_page f ss) (8192 - 4 * (i + 1)) 4 = slot_image (rev ss ! (length ss - 1 - i))"
      unfolding pos demo_page_def using l assms i slice_concat_slot_images [of "length ss - 1 - i" "rev ss"]
      by (subst slice_of_splice) auto
    then show ?thesis
      using i by (simp add: slot_at_def rev_nth)
  qed
qed

theorem compact_reverses_slots_witness:
  "page_read (page_compact (demo_page 3 [\<lparr>s_offset = 0, s_length = 1\<rparr>, \<lparr>s_offset = 1, s_length = 2\<rparr>])) 0
   = page_read (demo_page 3 [\<lparr>s_offset = 0, s_length = 1\<rparr>, \<lparr>s_offset = 1, s_length = 2\<rparr>]) 1"
proof -
  define b where "b = demo_page 3 [\<lparr>s_offset = 0, s_length = 1\<rparr>, \<lparr>s_offset = 1, s_length = 2\<rparr>]"
  have v: "length b = 8192" "nslots b = 2" "free_off b = 3"
    "\<And>i. i < 2 \<Longrightarrow> slot_at b i = [\<lparr>s_offset = 0, s_length = 1\<rparr>, \<lparr>s_offset = 1, s_length = 2\<rparr>] ! i"
    unfolding b_def using demo_page_view [of 3 "[\<lparr>s_offset = 0, s_length = 1\<rparr>, \<lparr>s_offset = 1, s_length = 2\<rparr>]"]
    by simp_all
  have s: "slot_at b 0 = \<lparr>s_offset = 0, s_length = 1\<rparr>" "slot_at b 1 = \<lparr>s_offset = 1, s_length = 2\<rparr>"
    using v(4) [of 0] v(4) [of 1] by simp_all
  have i: "i = 0 \<or> i = 1" if "i < nslots b" for i
    using that v(2) by auto
  have up: "[0..<2] = [0, 1 :: nat]"
    by (simp add: upt_rec)
  have "page_ok b"
    unfolding page_ok_def
  proof (intro conjI allI impI)
    fix i assume "i < nslots b"
    from i [OF this] show "unat (s_offset (slot_at b i)) + unat (s_length (slot_at b i)) \<le> free_off b"
      using s v(3) by auto
  qed (use v(1-3) in simp_all)
  moreover have "\<not> slot_is_deleted (slot_at b i)" if "i < nslots b" for i
    using i [OF that] s by (auto simp: slot_is_deleted_def)
  moreover have "s_offset (slot_at b i) = (\<Sum>j\<leftarrow>[0..<i]. s_length (slot_at b j))" if "i < nslots b" for i
    using i [OF that] s by auto
  moreover have "live_fits b"
    using v(2,3) s by (simp add: live_fits_def live_len_def up slot_is_deleted_def)
  ultimately have "page_read (page_compact b) 0 = page_read b (nslots b - 1 - 0)"
    using compact_reverses_slots [of b 0] v(2) by simp
  then show ?thesis
    unfolding b_def [symmetric] using v(2) by simp
qed

theorem insert_after_compaction_panics_witness:
  "page_insert (demo_page 8000 [\<lparr>s_offset = 0xFFFF, s_length = 2000\<rparr>]) (replicate 2000 7) = None"
proof -
  define b where "b = demo_page 8000 [\<lparr>s_offset = 0xFFFF, s_length = 2000\<rparr>]"
  have v: "length b = 8192" "nslots b = 1" "free_off b = 8000" "slot_at b 0 = \<lparr>s_offset = 0xFFFF, s_length = 2000\<rparr>"
    unfolding b_def using demo_page_view [of 8000 "[\<lparr>s_offset = 0xFFFF, s_length = 2000\<rparr>]"] by simp_all
  have d: "slot_is_deleted (slot_at b 0)"
    by (simp add: v(4) slot_is_deleted_def)
  have ok: "page_ok b"
    unfolding page_ok_def using v d by auto
  have fits: "live_fits b"
    using v d by (simp add: live_fits_def live_len_def)
  have c: "compact_collect b [0..<nslots b] 0 = ([], [], 0)"
    using v d page_slot_eq [of b 0] by simp
  note w = page_compact_view [OF ok fits c]
  have "free_space (page_header_of (page_compact b)) = 8128"
    using w(2,3) v(2) d by (simp add: free_space_def live_len_def)
  then show ?thesis
    unfolding b_def [symmetric]
    using insert_after_compaction_panics [OF ok fits, of "replicate 2000 7"] v(2,3) by (simp add: free_space_def)
qed

text \<open>Page checksums: updating the checksum of a page-sized buffer makes it verify and
  changes nothing outside the checksum field; a buffer of another size never verifies.\<close>

theorem checksum_update_verifies:
  assumes "length buf = 8192"
  shows "verify_checksum_bytes H (update_checksum_bytes H buf)
    \<and> take 28 (update_checksum_bytes H buf) = take 28 buf \<and> drop 32 (update_checksum_bytes H buf) = drop 32 buf
    \<and> (\<forall>b. length b \<noteq> 8192 \<longrightarrow> \<not> verify_checksum_bytes H b)"
proof -
  let ?b = "update_checksum_bytes H buf"
  have eqs: "take 28 ?b = take 28 buf" "drop 32 ?b = drop 32 buf" "length ?b = 8192"
    using assms by (simp_all add: update_checksum_bytes_def splice_def)
  then have "compute_checksum_bytes H ?b = compute_checksum_bytes H buf"
    by (simp add: compute_checksum_bytes_def)
  moreover have "slice ?b 28 4 = to_le_bytes (compute_checksum_bytes H buf)"
    using assms by (simp add: update_checksum_bytes_def)
  ultimately show ?thesis
    using eqs by (simp add: verify_checksum_bytes_def)
qed

theorem checksum_update_verifies_witness:
  "verify_checksum_bytes demo_digests (update_checksum_bytes demo_digests (page_init 3 SlottedData))"
  using checksum_update_verifies [OF page_okD(1) [OF page_ok_init]] by blast

end
