(* ===== verification/DiskPages.thy ===== *)
theory DiskPages
  imports WalWriter Page
begin

text \<open>
  The data file seen as a sequence of pages: page \<open>n\<close> is the slice at \<open>n * PAGE_SIZE\<close>. What
  a write of a whole page does to the pages, torn or not. Shared by the components that
  read and write the data file.
\<close>

text \<open>Page \<open>n\<close> of a data file; pages behind the end of the file read as zero.\<close>

definition disk_page :: "bytes \<Rightarrow> nat \<Rightarrow> bytes" where
  "disk_page d n = (if 8192 * n + 8192 \<le> length d then slice d (8192 * n) 8192 else replicate 8192 0)"

text \<open>The offset of a page, as the code computes it without a check: the product wraps.\<close>

definition page_pos :: "u64 \<Rightarrow> nat" where
  "page_pos pid = unat (pid * 8192)"

definition page_no :: "u64 \<Rightarrow> nat" where
  "page_no pid = page_pos pid div 8192"

definition page_lsn_of :: "bytes \<Rightarrow> u64" where
  "page_lsn_of pg = from_be_bytes (slice pg 0 8)"

lemma page_pos_eq: "page_pos pid = 8192 * page_no pid"
proof -
  have "page_pos pid = unat pid * 8192 mod 2 ^ 64"
    by (simp add: page_pos_def unat_word_ariths)
  moreover have "(8192 :: nat) dvd unat pid * 8192 mod 2 ^ 64"
    by (rule dvd_mod) simp_all
  ultimately show ?thesis
    by (simp add: page_no_def)
qed

lemma page_no_small: "unat pid < 2 ^ 51 \<Longrightarrow> page_no pid = unat pid"
  by (simp add: page_no_def page_pos_def unat_word_ariths)

lemma length_disk_page [simp]: "length (disk_page d n) = 8192"
  by (simp add: disk_page_def)

lemma page_aligned: "(8192 :: nat) dvd k \<Longrightarrow> 8192 * n + 8192 \<le> k \<or> k \<le> 8192 * n"
  by (elim dvdE) auto

lemma disk_page_write:
  assumes "8192 dvd length d" "length buf = 8192"
  shows "disk_page (file_write d (8192 * n) buf) = (disk_page d)(n := buf)"
    and "8192 dvd length (file_write d (8192 * n) buf)"
proof -
  have "disk_page (file_write d (8192 * n) buf) m = ((disk_page d)(n := buf)) m
      \<and> 8192 dvd length (file_write d (8192 * n) buf)" for m
  proof (cases "8192 * n + 8192 \<le> length d")
    case True
    then have w: "file_write d (8192 * n) buf = splice d (8192 * n) buf"
      by (simp add: file_write_def splice_def)
    have "slice (splice d (8192 * n) buf) (8192 * m) 8192 = slice d (8192 * m) 8192"
      if "m \<noteq> n" "8192 * m + 8192 \<le> length d"
      using that True assms(2) by (intro slice_splice_disjoint) auto
    then show ?thesis
      using True assms by (auto simp: w disk_page_def)
  next
    case False
    then have le: "length d \<le> 8192 * n"
      using page_aligned [OF assms(1), of n] by blast
    define z where "z = d @ replicate (8192 * n - length d) 0"
    have z: "length z = 8192 * n" "file_write d (8192 * n) buf = z @ buf"
      using le assms(2) by (simp_all add: z_def file_write_def)
    have "disk_page (z @ buf) m = disk_page d m" if "m \<noteq> n"
    proof (cases "m < n")
      case True
      then have "8192 * m + 8192 \<le> length z"
        by (simp add: z(1))
      then have "disk_page (z @ buf) m = slice z (8192 * m) 8192"
        by (simp add: disk_page_def)
      also have "\<dots> = disk_page d m"
        using page_aligned [OF assms(1), of m] True
        by (auto simp: z_def disk_page_def slice_def)
      finally show ?thesis .
    next
      case False
      with that le show ?thesis
        by (simp add: disk_page_def z(1) assms(2))
    qed
    moreover have "disk_page (z @ buf) n = buf"
      using z(1) assms(2) by (simp add: disk_page_def slice_def)
    ultimately show ?thesis
      by (auto simp: z assms(2))
  qed
  then show "disk_page (file_write d (8192 * n) buf) = (disk_page d)(n := buf)"
    and "8192 dvd length (file_write d (8192 * n) buf)"
    by auto
qed

lemma has_magic_lsn:
  assumes "length pg = 8192"
  shows "page_lsn_of (splice pg 0 (to_be_bytes l)) = l"
  using assms by (simp add: page_lsn_of_def)

end
