(* ===== verification/Aries.thy ===== *)
theory Aries
  imports DiskPages "HOL-Library.AList"
begin

text \<open>
  The three-phase crash recovery of \<open>src/src/wal/aries.rs\<close>. The active transaction table
  and the dirty page table are association lists in the order of insertion; the order of a
  hash map shows only in the order in which losers with equal last sequence numbers are
  undone. The database file is the path \<open>DataFile\<close> of the file system of theory Io. The
  backward walk over a transaction's chain takes fuel: \<open>None\<close> is a walk that has not come
  to its end. The clock is the argument \<open>now\<close>, the reading for the n-th compensation record.
\<close>

section \<open>Definitions\<close>

datatype att_state = TxActive | TxCommitted | TxAborted

record att_entry =
  att_txid :: u64
  att_status :: att_state
  att_last_lsn :: u64

record dpt_entry =
  dpt_page_id :: u64
  dpt_rec_lsn :: u64

type_synonym att = "(u64 \<times> att_entry) list"
type_synonym dpt = "(u64 \<times> dpt_entry) list"

record recovery_result =
  res_att :: att
  res_dpt :: dpt
  res_max_lsn :: u64
  redo_count :: nat
  undo_count :: nat

text \<open>\<open>entry(k).or_insert(v)\<close>\<close>

definition or_insert :: "'k \<Rightarrow> 'v \<Rightarrow> ('k \<times> 'v) list \<Rightarrow> ('k \<times> 'v) list" where
  "or_insert k v m = (if map_of m k = None then m @ [(k, v)] else m)"

subsection \<open>Payload helpers\<close>

definition page_id_from_payload :: "bytes \<Rightarrow> u64" where
  "page_id_from_payload payload = from_be_bytes (slice payload 0 8)"

definition extract_page_and_image :: "wal_record \<Rightarrow> (u64 \<times> bytes) option" where
  "extract_page_and_image rec =
     (let payload = r_payload rec in
      if record_type rec = Clr then
        (if length payload < 16 then None
         else Some (page_id_from_payload (slice payload 8 8), drop 16 payload))
      else
        (if length payload < 8 then None else Some (page_id_from_payload payload, drop 8 payload)))"

definition BEFORE_IMAGE_MAGIC :: u32 where
  "BEFORE_IMAGE_MAGIC = 0x42494D47"

definition embed_before_image :: "digests \<Rightarrow> bytes \<Rightarrow> bytes \<Rightarrow> bytes" where
  "embed_before_image H payload before_image =
     (let image = take (min (length before_image) PAGE_SIZE) before_image
      in payload @ image @ to_be_bytes (crc32c H image) @
         to_be_bytes (of_nat (length image) :: u32) @ to_be_bytes BEFORE_IMAGE_MAGIC)"

definition extract_before_image :: "digests \<Rightarrow> bytes \<Rightarrow> bytes option" where
  "extract_before_image H payload =
     (let n = length payload in
      if n < 12 then None
      else if (from_be_bytes (slice payload (n - 4) 4) :: u32) \<noteq> BEFORE_IMAGE_MAGIC then None
      else let image_len = unat (from_be_bytes (slice payload (n - 8) 4) :: u32) in
        if image_len > PAGE_SIZE \<or> image_len + 12 > n then None
        else let crc_stored = from_be_bytes (slice payload (n - 12) 4);
                 image = slice payload (n - 12 - image_len) image_len
          in if crc32c H image \<noteq> crc_stored then None else Some image)"

definition build_clr_payload :: "u64 \<Rightarrow> u64 \<Rightarrow> bytes \<Rightarrow> bytes" where
  "build_clr_payload undo_next_lsn pid before_image =
     to_be_bytes undo_next_lsn @ to_be_bytes pid @ take (min (length before_image) PAGE_SIZE) before_image"

definition clr_undo_next_lsn :: "bytes \<Rightarrow> u64" where
  "clr_undo_next_lsn payload = (if length payload < 8 then 0 else from_be_bytes (slice payload 0 8))"

definition checkpoint_entry :: "bytes \<Rightarrow> nat \<Rightarrow> u64 \<times> u64" where
  "checkpoint_entry payload i =
     (let base = 4 + i * 16
      in (from_be_bytes (slice payload base 8), from_be_bytes (slice payload (base + 8) 8)))"

definition seed_dpt_from_checkpoint :: "bytes \<Rightarrow> dpt \<Rightarrow> dpt" where
  "seed_dpt_from_checkpoint payload dpt =
     (if length payload < 4 then dpt
      else let count = unat (from_be_bytes (slice payload 0 4) :: u32) in
        if length payload < count * 16 + 4 then dpt
        else fold (\<lambda>i dpt. let (pid, rec_lsn) = checkpoint_entry payload i
               in or_insert pid \<lparr>dpt_page_id = pid, dpt_rec_lsn = rec_lsn\<rparr> dpt) [0..<count] dpt)"

subsection \<open>Analysis\<close>

text \<open>The record types whose payload is a page image.\<close>

definition is_page_record :: "record_type \<Rightarrow> bool" where
  "is_page_record t \<longleftrightarrow>
     t \<in> {PageInsert, PageUpdate, PageFree, BitmapUpdate, IndexPageInsert, IndexPageUpdate, IndexPageFree}"

definition bump_last_lsn :: "wal_record \<Rightarrow> att \<Rightarrow> att" where
  "bump_last_lsn rec = AList.map_entry (r_txid rec)
     (\<lambda>e. if r_lsn rec > att_last_lsn e then e\<lparr>att_last_lsn := r_lsn rec\<rparr> else e)"

definition enter_status :: "wal_record \<Rightarrow> att_state \<Rightarrow> att \<Rightarrow> att" where
  "enter_status rec s att =
     AList.map_entry (r_txid rec) (\<lambda>e. e\<lparr>att_status := s\<rparr>)
       (or_insert (r_txid rec) \<lparr>att_txid = r_txid rec, att_status = s, att_last_lsn = r_lsn rec\<rparr> att)"

definition analysis_att :: "wal_record \<Rightarrow> att \<Rightarrow> att" where
  "analysis_att rec att =
     (case record_type rec of
        Begin \<Rightarrow> bump_last_lsn rec
          (or_insert (r_txid rec) \<lparr>att_txid = r_txid rec, att_status = TxActive, att_last_lsn = r_lsn rec\<rparr> att)
      | Commit \<Rightarrow> bump_last_lsn rec (enter_status rec TxCommitted att)
      | Abort \<Rightarrow> bump_last_lsn rec (enter_status rec TxAborted att)
      | CheckpointBegin \<Rightarrow> att | CheckpointEnd \<Rightarrow> att | SegmentDescriptor \<Rightarrow> att
      | CompactionBegin \<Rightarrow> att | CompactionEnd \<Rightarrow> att
      | _ \<Rightarrow> bump_last_lsn rec att)"

definition analysis_dpt :: "wal_record \<Rightarrow> dpt \<Rightarrow> dpt" where
  "analysis_dpt rec dpt =
     (if is_page_record (record_type rec) then
        (if length (r_payload rec) \<ge> 8 then
           let pid = page_id_from_payload (r_payload rec)
           in or_insert pid \<lparr>dpt_page_id = pid, dpt_rec_lsn = r_lsn rec\<rparr> dpt
         else dpt)
      else if record_type rec = CheckpointEnd then seed_dpt_from_checkpoint (r_payload rec) dpt
      else dpt)"

definition analysis :: "wal_record list \<Rightarrow> att \<times> dpt \<times> u64" where
  "analysis records =
     fold (\<lambda>rec (att, dpt, max_lsn).
             (analysis_att rec att, analysis_dpt rec dpt,
              if r_lsn rec > max_lsn then r_lsn rec else max_lsn))
       records ([], [], 0)"

subsection \<open>Redo\<close>

definition read_page_lsn :: "u64 \<Rightarrow> (u64, wal_fs) io" where
  "read_page_lsn pid = (\<lambda>fs.
     if \<not> fs_exists DataFile fs then (Inr 0, fs)
     else io_bind (fs_open DataFile False) (\<lambda>h.
          io_bind (fh_len h) (\<lambda>file_len.
            if file_len < page_pos pid + 8 then io_return 0
            else io_bind (fh_read_at h (page_pos pid) 8) (\<lambda>hdr. io_return (from_be_bytes hdr)))) fs)"

definition recovered_page :: "digests \<Rightarrow> bytes \<Rightarrow> u64 \<Rightarrow> bytes" where
  "recovered_page H after_image record_lsn =
     (let copy_len = min (length after_image) PAGE_SIZE;
          page_buf = splice (replicate PAGE_SIZE 0) 0 (take copy_len after_image);
          page_buf = splice page_buf 0 (to_be_bytes record_lsn)
      in if copy_len = PAGE_SIZE \<and> has_valid_magic_bytes page_buf then update_checksum_bytes H page_buf
         else page_buf)"

definition apply_after_image :: "digests \<Rightarrow> u64 \<Rightarrow> bytes \<Rightarrow> u64 \<Rightarrow> (unit, wal_fs) io" where
  "apply_after_image H pid after_image record_lsn =
     io_bind (fs_open DataFile True) (\<lambda>h.
       fh_write_at h (recovered_page H after_image record_lsn) (page_pos pid))"

definition min_rec_lsn :: "dpt \<Rightarrow> u64" where
  "min_rec_lsn dpt = (case map (\<lambda>(_, e). dpt_rec_lsn e) dpt of [] \<Rightarrow> 0 | l # ls \<Rightarrow> fold min ls l)"

text \<open>The page and the image a record is replayed with, if it passes the filters of the loop.\<close>

definition redo_target :: "att \<Rightarrow> dpt \<Rightarrow> wal_record \<Rightarrow> (u64 \<times> bytes) option" where
  "redo_target att dpt rec =
     (if r_lsn rec < min_rec_lsn dpt then None
      else if \<not> (is_page_record (record_type rec) \<or> record_type rec = Clr) then None
      else if record_type rec \<noteq> Clr \<and> map_option att_status (map_of att (r_txid rec)) \<noteq> Some TxCommitted
      then None
      else case extract_page_and_image rec of
             None \<Rightarrow> None
           | Some (pid, after_image) \<Rightarrow>
               if map_of dpt pid = None then None else Some (pid, after_image))"

fun redo_loop :: "digests \<Rightarrow> att \<Rightarrow> dpt \<Rightarrow> wal_record list \<Rightarrow> nat \<Rightarrow> (nat, wal_fs) io" where
  "redo_loop H att dpt [] count = io_return count"
| "redo_loop H att dpt (rec # records) count =
     (case redo_target att dpt rec of
        None \<Rightarrow> redo_loop H att dpt records count
      | Some (pid, after_image) \<Rightarrow>
          io_bind (read_page_lsn pid) (\<lambda>on_disk_page_lsn.
            if on_disk_page_lsn \<ge> r_lsn rec then redo_loop H att dpt records count
            else io_bind (apply_after_image H pid after_image (r_lsn rec)) (\<lambda>_.
                   redo_loop H att dpt records (count + 1))))"

definition redo :: "digests \<Rightarrow> wal_record list \<Rightarrow> att \<Rightarrow> dpt \<Rightarrow> (nat, wal_fs) io" where
  "redo H records att dpt = (if dpt = [] then io_return 0 else redo_loop H att dpt records 0)"

subsection \<open>Undo\<close>

definition apply_inverse :: "digests \<Rightarrow> wal_record \<Rightarrow> u64 \<Rightarrow> (unit, wal_fs) io" where
  "apply_inverse H rec pid =
     (case extract_before_image H (r_payload rec) of
        Some before_image \<Rightarrow>
          io_bind (fs_open DataFile True) (\<lambda>h.
            let copy_len = min (length before_image) PAGE_SIZE
            in fh_write_at h (splice (replicate PAGE_SIZE 0) 0 (take copy_len before_image)) (page_pos pid))
      | None \<Rightarrow>
          if record_type rec \<in> {PageInsert, IndexPageInsert} then
            io_bind (fs_open DataFile True) (\<lambda>h. fh_write_at h (replicate PAGE_SIZE 0) (page_pos pid))
          else io_return ())"

definition clr_image :: "digests \<Rightarrow> wal_record \<Rightarrow> bytes" where
  "clr_image H rec =
     (case extract_before_image H (r_payload rec) of Some bi \<Rightarrow> bi | None \<Rightarrow> replicate PAGE_SIZE 0)"

definition compensate :: "digests \<Rightarrow> u64 \<Rightarrow> wal_record \<Rightarrow> u64 \<Rightarrow> (unit, wal_state) io" where
  "compensate H now rec pid =
     io_bind (on_fs (apply_inverse H rec pid)) (\<lambda>_.
     io_bind (wal_append H (wal_record_new H now Clr (r_txid rec) 0 (r_prev_lsn rec)
                (build_clr_payload (r_prev_lsn rec) pid (clr_image H rec)))) (\<lambda>_.
     io_return ()))"

fun undo_chain ::
    "nat \<Rightarrow> digests \<Rightarrow> (nat \<Rightarrow> u64) \<Rightarrow> (u64 \<rightharpoonup> wal_record) \<Rightarrow> u64 \<Rightarrow> nat \<Rightarrow> wal_state
      \<Rightarrow> ((io_error + nat) \<times> wal_state) option" where
  "undo_chain 0 H now index cur_lsn n s = None"
| "undo_chain (Suc fuel) H now index cur_lsn n s =
     (case index cur_lsn of
        None \<Rightarrow> Some (Inr n, s)
      | Some rec \<Rightarrow>
          if record_type rec = Clr then
            let cur_lsn = clr_undo_next_lsn (r_payload rec) in
            if cur_lsn = 0 then Some (Inr n, s)
            else undo_chain fuel H now index cur_lsn n s
          else
            (case (if is_page_record (record_type rec) then extract_page_and_image rec else None) of
              None \<Rightarrow>
                if r_prev_lsn rec = 0 then Some (Inr n, s)
                else undo_chain fuel H now index (r_prev_lsn rec) n s
            | Some (pid, after_image) \<Rightarrow>
                (case compensate H (now n) rec pid s of
                   (Inl e, s') \<Rightarrow> Some (Inl e, s')
                 | (Inr _, s') \<Rightarrow>
                     if r_prev_lsn rec = 0 then Some (Inr (n + 1), s')
                     else undo_chain fuel H now index (r_prev_lsn rec) (n + 1) s')))"

fun undo_all ::
    "nat \<Rightarrow> digests \<Rightarrow> (nat \<Rightarrow> u64) \<Rightarrow> (u64 \<rightharpoonup> wal_record) \<Rightarrow> att_entry list \<Rightarrow> nat \<Rightarrow> wal_state
      \<Rightarrow> ((io_error + nat) \<times> wal_state) option" where
  "undo_all fuel H now index [] n s = Some (Inr n, s)"
| "undo_all fuel H now index (e # es) n s =
     (case undo_chain fuel H now index (att_last_lsn e) n s of
        None \<Rightarrow> None
      | Some (Inl err, s') \<Rightarrow> Some (Inl err, s')
      | Some (Inr n', s') \<Rightarrow>
          (case wal_flush s' of
             (Inl err, s'') \<Rightarrow> Some (Inl err, s'')
           | (Inr _, s'') \<Rightarrow> undo_all fuel H now index es n' s''))"

text \<open>A later record replaces an earlier one with the same sequence number in the index.\<close>

definition lsn_index :: "wal_record list \<Rightarrow> u64 \<rightharpoonup> wal_record" where
  "lsn_index records = map_of (rev (map (\<lambda>r. (r_lsn r, r)) records))"

definition to_undo :: "att \<Rightarrow> att_entry list" where
  "to_undo att = sort_key (\<lambda>e. - int (unat (att_last_lsn e)))
     (filter (\<lambda>e. att_status e = TxActive \<or> att_status e = TxAborted) (map snd att))"

definition undo ::
    "nat \<Rightarrow> digests \<Rightarrow> (nat \<Rightarrow> u64) \<Rightarrow> att \<Rightarrow> wal_record list \<Rightarrow> wal_state
      \<Rightarrow> ((io_error + nat) \<times> wal_state) option" where
  "undo fuel H now att records s = undo_all fuel H now (lsn_index records) (to_undo att) 0 s"

subsection \<open>Loading the log and running the phases\<close>

definition highest_segment_id :: "wal_fs \<Rightarrow> nat" where
  "highest_segment_id fs = find_loop (\<lambda>i. fs_exists (Live i) fs \<or> fs_exists (Archived i) fs) 0 0"

definition load_single_segment :: "digests \<Rightarrow> wal_path \<Rightarrow> (wal_record list, wal_fs) io" where
  "load_single_segment H seg_path =
     io_bind (fs_open seg_path False) (\<lambda>h.
     io_bind (fh_len h) (\<lambda>len.
       if len = 0 then io_return []
       else io_bind (fh_read_at h 0 len) (\<lambda>raw. io_return (scan_log H raw 0))))"

fun load_segments :: "digests \<Rightarrow> nat list \<Rightarrow> wal_record list \<Rightarrow> (wal_record list, wal_fs) io" where
  "load_segments H [] all_records = io_return all_records"
| "load_segments H (seg_id # seg_ids) all_records = (\<lambda>fs.
     if fs_exists (Live seg_id) fs then
       io_bind (load_single_segment H (Live seg_id)) (\<lambda>rs. load_segments H seg_ids (all_records @ rs)) fs
     else if fs_exists (Archived seg_id) fs then
       io_bind (load_single_segment H (Archived seg_id)) (\<lambda>rs. load_segments H seg_ids (all_records @ rs)) fs
     else load_segments H seg_ids all_records fs)"

definition load_all_segments :: "digests \<Rightarrow> u64 \<Rightarrow> (wal_record list, wal_fs) io" where
  "load_all_segments H checkpoint_lsn = (\<lambda>fs.
     load_segments H [unat (drop_bit 32 checkpoint_lsn)..<Suc (highest_segment_id fs)] [] fs)"

definition run_all_phases ::
    "nat \<Rightarrow> digests \<Rightarrow> (nat \<Rightarrow> u64) \<Rightarrow> u64 \<Rightarrow> wal_record list \<Rightarrow> wal_state
      \<Rightarrow> ((io_error + recovery_result) \<times> wal_state) option" where
  "run_all_phases fuel H now checkpoint_lsn records s =
     (let (att, dpt, max_lsn) = analysis (filter (\<lambda>r. r_lsn r \<ge> checkpoint_lsn) records) in
      case on_fs (redo H records att dpt) s of
        (Inl e, s') \<Rightarrow> Some (Inl e, s')
      | (Inr rc, s') \<Rightarrow>
          (case undo fuel H now att records s' of
             None \<Rightarrow> None
           | Some (Inl e, s'') \<Rightarrow> Some (Inl e, s'')
           | Some (Inr uc, s'') \<Rightarrow>
               Some (Inr \<lparr>res_att = att, res_dpt = dpt, res_max_lsn = max_lsn,
                          redo_count = rc, undo_count = uc\<rparr>, s'')))"

definition aries_recover ::
    "nat \<Rightarrow> digests \<Rightarrow> (nat \<Rightarrow> u64) \<Rightarrow> u64 \<Rightarrow> wal_state
      \<Rightarrow> ((io_error + recovery_result) \<times> wal_state) option" where
  "aries_recover fuel H now checkpoint_lsn s =
     (case on_fs (load_all_segments H checkpoint_lsn) s of
        (Inl e, s') \<Rightarrow> Some (Inl e, s')
      | (Inr records, s') \<Rightarrow> run_all_phases fuel H now checkpoint_lsn records s')"

section \<open>Analysis\<close>

text \<open>What the log says of a transaction: its last commit or abort record decides, a begin
  record alone makes it active.\<close>

definition tx_outcome :: "u64 \<Rightarrow> wal_record list \<Rightarrow> att_state option" where
  "tx_outcome t records =
     (let ends = filter (\<lambda>r. r_txid r = t \<and> (record_type r = Commit \<or> record_type r = Abort)) records in
      if ends \<noteq> [] then Some (if record_type (last ends) = Commit then TxCommitted else TxAborted)
      else if \<exists>r \<in> set records. r_txid r = t \<and> record_type r = Begin then Some TxActive else None)"

definition seeds :: "bytes \<Rightarrow> (u64 \<times> u64) list" where
  "seeds payload =
     (let count = unat (from_be_bytes (slice payload 0 4) :: u32) in
      if length payload < 4 \<or> length payload < count * 16 + 4 then []
      else map (checkpoint_entry payload) [0..<count])"

text \<open>The pages a record makes dirty, with the sequence number that did.\<close>

definition dirtied :: "wal_record \<Rightarrow> (u64 \<times> u64) list" where
  "dirtied r =
     (if is_page_record (record_type r) then
        (if length (r_payload r) \<ge> 8 then [(page_id_from_payload (r_payload r), r_lsn r)] else [])
      else if record_type r = CheckpointEnd then seeds (r_payload r) else [])"

definition dirty_lsns :: "dpt \<Rightarrow> (u64 \<times> u64) list" where
  "dirty_lsns dpt = map (\<lambda>(p, e). (p, dpt_rec_lsn e)) dpt"

lemma map_of_or_insert [simp]:
  "map_of (or_insert k v m) k' = (if k' = k \<and> map_of m k = None then Some v else map_of m k')"
  by (auto simp: or_insert_def map_add_def split: option.split)

lemma map_of_dirty_lsns: "map_of (dirty_lsns dpt) p = map_option dpt_rec_lsn (map_of dpt p)"
  by (simp add: dirty_lsns_def map_of_map)

lemma dirty_lsns_fold:
  "map_of (dirty_lsns (fold (\<lambda>(p, l). or_insert p \<lparr>dpt_page_id = p, dpt_rec_lsn = l\<rparr>) xs dpt)) q
     = map_of (dirty_lsns dpt @ xs) q"
  by (induction xs arbitrary: dpt)
    (auto simp: map_of_dirty_lsns map_add_def split: option.splits)

lemma seed_dpt_eq:
  "seed_dpt_from_checkpoint payload dpt
     = fold (\<lambda>(p, l). or_insert p \<lparr>dpt_page_id = p, dpt_rec_lsn = l\<rparr>) (seeds payload) dpt"
  by (simp add: seed_dpt_from_checkpoint_def seeds_def Let_def fold_map comp_def split_beta)

lemma analysis_dpt_dirtied: "map_of (dirty_lsns (analysis_dpt r dpt)) p = map_of (dirty_lsns dpt @ dirtied r) p"
proof -
  have "analysis_dpt r dpt
      = fold (\<lambda>(p, l). or_insert p \<lparr>dpt_page_id = p, dpt_rec_lsn = l\<rparr>) (dirtied r) dpt"
    by (simp add: analysis_dpt_def dirtied_def seed_dpt_eq Let_def)
  then show ?thesis
    by (simp only: dirty_lsns_fold)
qed

lemma map_of_bump [simp]:
  "map_option att_status (map_of (bump_last_lsn r att) t) = map_option att_status (map_of att t)"
  by (auto simp: bump_last_lsn_def AList.map_of_map_entry split: option.splits)

lemma map_of_enter [simp]:
  "map_option att_status (map_of (enter_status r s att) t)
     = (if t = r_txid r then Some s else map_option att_status (map_of att t))"
  by (auto simp: enter_status_def AList.map_of_map_entry split: option.splits)

lemma analysis_att_status:
  "map_option att_status (map_of (analysis_att r att) t) =
     (if r_txid r \<noteq> t then map_option att_status (map_of att t)
      else if record_type r = Commit then Some TxCommitted
      else if record_type r = Abort then Some TxAborted
      else if record_type r = Begin \<and> map_of att t = None then Some TxActive
      else map_option att_status (map_of att t))"
  by (cases "record_type r") (auto simp: analysis_att_def)

lemma analysis_snoc:
  "analysis [] = ([], [], 0)"
  "analysis (rs @ [r]) =
     (case analysis rs of (att, dpt, m) \<Rightarrow> (analysis_att r att, analysis_dpt r dpt, max m (r_lsn r)))"
  by (auto simp: analysis_def max_def not_less split: prod.split)

lemma tx_outcome_snoc:
  "tx_outcome t (rs @ [r]) =
     (if r_txid r \<noteq> t then tx_outcome t rs
      else if record_type r = Commit then Some TxCommitted
      else if record_type r = Abort then Some TxAborted
      else if record_type r = Begin \<and> tx_outcome t rs = None then Some TxActive
      else tx_outcome t rs)"
  by (auto simp: tx_outcome_def Let_def)

lemma analysis_status: "map_option att_status (map_of (fst (analysis rs)) t) = tx_outcome t rs"
proof (induction rs rule: rev_induct)
  case (snoc r rs)
  have "map_of (fst (analysis rs)) t = None \<longleftrightarrow> tx_outcome t rs = None"
    using snoc by (metis map_option_is_None)
  then show ?case
    by (simp only: analysis_snoc split_beta fst_conv analysis_att_status tx_outcome_snoc snoc)
qed (simp add: analysis_snoc tx_outcome_def)

lemma analysis_dirty: "map_of (dirty_lsns (fst (snd (analysis rs)))) p = map_of (concat (map dirtied rs)) p"
proof (induction rs rule: rev_induct)
  case (snoc r rs)
  then show ?case
    by (simp add: analysis_snoc split_beta analysis_dpt_dirtied map_add_def split: option.split)
qed (simp add: analysis_snoc dirty_lsns_def)

lemma analysis_max: "snd (snd (analysis rs)) = fold max (map r_lsn rs) 0"
  by (induction rs rule: rev_induct) (auto simp: analysis_snoc max.commute split: prod.splits)

text \<open>C32. What analysis finds: for every log, the transaction table gives each transaction the
  outcome the log records for it, the dirty page table gives each page the first sequence
  number under which the scanned log mentions it, be it a page record or an entry of a
  checkpoint, and the maximum is the largest sequence number of the scanned log.\<close>

theorem analysis_correct:
  "map_option att_status (map_of (fst (analysis records)) t) = tx_outcome t records
   \<and> map_option dpt_rec_lsn (map_of (fst (snd (analysis records))) p) = map_of (concat (map dirtied records)) p
   \<and> snd (snd (analysis records)) = Max (insert 0 (r_lsn ` set records))"
  using analysis_status [of records t] analysis_dirty [of records p]
  by (simp add: map_of_dirty_lsns analysis_max Max.set_eq_fold [symmetric] image_set del: set_map
      flip: list.set)

section \<open>Recovered pages\<close>

lemma recovered_page [simp]:
  "length (recovered_page H img l) = 8192" "page_lsn_of (recovered_page H img l) = l"
proof -
  define b where "b = splice (splice (replicate PAGE_SIZE 0) 0 (take (min (length img) PAGE_SIZE) img)) 0 (to_be_bytes l)"
  have b: "length b = 8192" "page_lsn_of b = l"
    by (simp_all add: b_def has_magic_lsn)
  have "page_lsn_of (update_checksum_bytes H b) = l"
    using b by (simp add: update_checksum_bytes_def page_lsn_of_def slice_splice_disjoint)
  moreover have "recovered_page H img l =
      (if min (length img) PAGE_SIZE = PAGE_SIZE \<and> has_valid_magic_bytes b then update_checksum_bytes H b else b)"
    unfolding recovered_page_def Let_def b_def by (rule refl)
  moreover have "length (update_checksum_bytes H b) = 8192"
    using b by (simp add: update_checksum_bytes_def)
  ultimately show "length (recovered_page H img l) = 8192" "page_lsn_of (recovered_page H img l) = l"
    using b by simp_all
qed

section \<open>Redo\<close>

lemma from_be_zeros: "(from_be_bytes (replicate 8 0) :: u64) = 0"
  by (simp add: from_be_bytes_def from_le_bytes_def numeral_eq_Suc)

lemma read_page_lsn_ok:
  assumes "plan fs = []" "8192 dvd length (contents fs DataFile)"
  shows "read_page_lsn pid fs = (Inr (page_lsn_of (disk_page (contents fs DataFile) (page_no pid))), fs)"
proof (cases "files fs DataFile")
  case None
  then show ?thesis
    by (simp add: read_page_lsn_def fs_exists_def contents_def disk_page_def from_be_zeros page_lsn_of_def slice_def)
next
  case (Some d)
  then have "contents fs DataFile = d"
    by (simp add: contents_def)
  then show ?thesis
    using Some assms page_aligned [of "length d" "page_no pid"]
    by (auto simp: read_page_lsn_def fs_exists_def fs_open_def fh_len_def fh_read_at_def io_return_def
        disk_page_def page_pos_eq from_be_zeros page_lsn_of_def slice_def)
qed

lemma apply_after_image_ok:
  assumes "plan fs = []"
  shows "apply_after_image H pid img l fs = (Inr (), fs\<lparr>files := (files fs)(DataFile \<mapsto>
    file_write (contents fs DataFile) (page_pos pid) (recovered_page H img l))\<rparr>)"
  using assms by (auto simp: apply_after_image_def fs_open_def fs_exists_def io_bind_def fh_write_at_def contents_def)

text \<open>The abstract redo: on a function from page numbers to pages, a record is replayed when it
  passes the filters and is newer than the page.\<close>

definition replay_record :: "digests \<Rightarrow> att \<Rightarrow> dpt \<Rightarrow> wal_record \<Rightarrow> (nat \<Rightarrow> bytes) \<Rightarrow> (nat \<Rightarrow> bytes)" where
  "replay_record H att dpt r D =
     (case redo_target att dpt r of
        None \<Rightarrow> D
      | Some (pid, img) \<Rightarrow>
          if page_lsn_of (D (page_no pid)) \<ge> r_lsn r then D
          else D(page_no pid := recovered_page H img (r_lsn r)))"

lemma redo_loop_refines:
  assumes "plan fs = []" "8192 dvd length (contents fs DataFile)"
  shows "\<exists>k fs'. redo_loop H att dpt rs c fs = (Inr k, fs') \<and> plan fs' = []
    \<and> 8192 dvd length (contents fs' DataFile) \<and> durable fs' = durable fs
    \<and> (\<forall>p. p \<noteq> DataFile \<longrightarrow> files fs' p = files fs p)
    \<and> disk_page (contents fs' DataFile) = fold (replay_record H att dpt) rs (disk_page (contents fs DataFile))"
  using assms
proof (induction rs arbitrary: c fs)
  case (Cons r rs)
  note rd = read_page_lsn_ok [OF Cons.prems]
  show ?case
  proof (cases "redo_target att dpt r")
    case None
    with Cons.IH [OF Cons.prems] show ?thesis
      by (simp add: replay_record_def)
  next
    case (Some t)
    obtain pid img where t: "t = (pid, img)"
      by (cases t)
    define fs1 where "fs1 = fs\<lparr>files := (files fs)(DataFile \<mapsto>
      file_write (contents fs DataFile) (page_pos pid) (recovered_page H img (r_lsn r)))\<rparr>"
    have ap: "apply_after_image H pid img (r_lsn r) fs = (Inr (), fs1)"
      unfolding fs1_def by (rule apply_after_image_ok [OF Cons.prems(1)])
    have c1: "contents fs1 DataFile = file_write (contents fs DataFile) (8192 * page_no pid) (recovered_page H img (r_lsn r))"
      by (simp add: fs1_def contents_def page_pos_eq)
    note w = disk_page_write [OF Cons.prems(2) recovered_page(1) [of H img "r_lsn r"], of "page_no pid"]
    show ?thesis
    proof (cases "page_lsn_of (disk_page (contents fs DataFile) (page_no pid)) \<ge> r_lsn r")
      case True
      with Cons.IH [OF Cons.prems, of c] Some t rd show ?thesis
        by (simp add: replay_record_def)
    next
      case False
      have "redo_loop H att dpt (r # rs) c fs = redo_loop H att dpt rs (c + 1) fs1"
        using False Some t rd ap by simp
      moreover have "replay_record H att dpt r (disk_page (contents fs DataFile)) = disk_page (contents fs1 DataFile)"
        using False by (simp add: replay_record_def Some t c1 w)
      moreover have "plan fs1 = []" "8192 dvd length (contents fs1 DataFile)" "durable fs1 = durable fs"
        "p \<noteq> DataFile \<Longrightarrow> files fs1 p = files fs p" for p
        using Cons.prems w by (simp_all add: c1) (simp_all add: fs1_def)
      ultimately show ?thesis
        using Cons.IH [of fs1 "c + 1"] by simp
    qed
  qed
qed (simp add: io_return_def)

lemma redo_eq: "redo H rs att dpt = redo_loop H att dpt rs 0"
proof (cases "dpt = []")
  case True
  have "redo_loop H att [] rs c = io_return c" for c
    by (induction rs) (auto simp: redo_target_def split: option.split)
  with True show ?thesis
    by (simp add: redo_def)
qed (simp add: redo_def)

text \<open>The records the abstract redo may use for page \<open>n\<close>.\<close>

definition targets :: "att \<Rightarrow> dpt \<Rightarrow> nat \<Rightarrow> wal_record list \<Rightarrow> wal_record list" where
  "targets att dpt n = filter (\<lambda>r. \<exists>pid img. redo_target att dpt r = Some (pid, img) \<and> page_no pid = n)"

lemma replay_last:
  assumes "sorted_wrt (<) (map r_lsn rs)"
  shows "fold (replay_record H att dpt) rs D n =
    (let ts = targets att dpt n rs in
     if ts = [] \<or> r_lsn (last ts) \<le> page_lsn_of (D n) then D n
     else recovered_page H (snd (the (redo_target att dpt (last ts)))) (r_lsn (last ts)))"
  using assms
proof (induction rs rule: rev_induct)
  case (snoc r rs)
  let ?E = "fold (replay_record H att dpt) rs D" and ?ts = "targets att dpt n rs"
  have IH: "?E n = (if ?ts = [] \<or> r_lsn (last ?ts) \<le> page_lsn_of (D n) then D n
      else recovered_page H (snd (the (redo_target att dpt (last ?ts)))) (r_lsn (last ?ts)))"
    using snoc by (simp add: sorted_wrt_append Let_def)
  have below: "r_lsn x < r_lsn r" if "x \<in> set ?ts" for x
    using snoc.prems that by (auto simp: sorted_wrt_append targets_def)
  show ?case
  proof (cases "\<exists>pid img. redo_target att dpt r = Some (pid, img) \<and> page_no pid = n")
    case False
    then have "targets att dpt n (rs @ [r]) = ?ts" "replay_record H att dpt r ?E n = ?E n"
      by (auto simp: targets_def replay_record_def split: option.split)
    then show ?thesis
      by (simp add: IH Let_def)
  next
    case True
    then obtain pid img where t: "redo_target att dpt r = Some (pid, img)" "page_no pid = n"
      by blast
    then have ts: "targets att dpt n (rs @ [r]) = ?ts @ [r]"
      by (simp add: targets_def)
    have step: "replay_record H att dpt r ?E n
        = (if r_lsn r \<le> page_lsn_of (?E n) then ?E n else recovered_page H img (r_lsn r))"
      using t by (simp add: replay_record_def)
    have "r_lsn r \<le> page_lsn_of (?E n) \<longleftrightarrow> r_lsn r \<le> page_lsn_of (D n)"
      "r_lsn r \<le> page_lsn_of (D n) \<Longrightarrow> ?E n = D n"
      using IH below [of "last ?ts"] by (auto simp: not_le split: if_splits)
    then show ?thesis
      by (simp add: ts step t Let_def)
  qed
qed (simp add: targets_def)

lemma filter_sorted_split:
  assumes "sorted_wrt (<) (map f rs)"
  shows "filter P rs = filter (\<lambda>r. P r \<and> f r < (c :: u64)) rs @ filter (\<lambda>r. P r \<and> c \<le> f r) rs"
  using assms
proof (induction rs)
  case (Cons r rs)
  have "filter (\<lambda>x. P x \<and> f x < c) rs = []" if "c \<le> f r"
    using Cons.prems that by (auto simp: filter_empty_conv)
  with Cons show ?case
    by (auto simp: not_less)
qed simp

lemma min_rec_lsn_le: "(p, e) \<in> set dpt \<Longrightarrow> min_rec_lsn dpt \<le> dpt_rec_lsn e"
proof -
  have "fold min ls (l :: u64) \<le> x" if "x \<in> set (l # ls)" for x l ls
    using that by (simp add: Min.set_eq_fold [symmetric] del: set_simps)
  then have "xs \<noteq> [] \<Longrightarrow> x \<in> set xs \<Longrightarrow> (case xs of [] \<Rightarrow> 0 | l # ls \<Rightarrow> fold min ls l) \<le> x" for x and xs :: "u64 list"
    by (cases xs) auto
  moreover assume "(p, e) \<in> set dpt"
  then have "dpt_rec_lsn e \<in> set (map (\<lambda>(_, e). dpt_rec_lsn e) dpt)"
    by force
  ultimately show ?thesis
    unfolding min_rec_lsn_def by (metis empty_iff empty_set)
qed

text \<open>The dirty page entries of a checkpoint are not newer than the checkpoint record.\<close>

definition well_seeded :: "wal_record list \<Rightarrow> bool" where
  "well_seeded rs \<longleftrightarrow> (\<forall>r \<in> set rs. \<forall>(p, l) \<in> set (dirtied r). l \<le> r_lsn r)"

lemma dirty_before:
  assumes "sorted_wrt (<) (map r_lsn rs)" "well_seeded rs" "r \<in> set rs" "p \<in> fst ` set (dirtied r)"
  shows "\<exists>e. map_of (fst (snd (analysis rs))) p = Some e \<and> min_rec_lsn (fst (snd (analysis rs))) \<le> r_lsn r"
proof -
  obtain us vs where rs: "rs = us @ r # vs"
    using assms(3) by (meson split_list)
  obtain l where l: "map_of (concat (map dirtied (us @ [r]))) p = Some l"
    using assms(4) by (cases "map_of (concat (map dirtied (us @ [r]))) p") (auto simp: map_of_eq_None_iff)
  then have "map_of (concat (map dirtied (us @ [r])) @ concat (map dirtied vs)) p = Some l"
    by (simp only: map_of_append map_add_Some_iff simp_thms)
  then have "map_of (dirty_lsns (fst (snd (analysis rs)))) p = Some l"
    by (simp add: analysis_dirty rs)
  then obtain e where e: "map_of (fst (snd (analysis rs))) p = Some e" "dpt_rec_lsn e = l"
    by (auto simp: map_of_dirty_lsns)
  obtain r0 where r0: "r0 \<in> set (us @ [r])" "(p, l) \<in> set (dirtied r0)"
    using map_of_SomeD [OF l] by auto
  then have "l \<le> r_lsn r0"
    using assms(2) unfolding well_seeded_def rs by auto
  moreover have "r_lsn r0 \<le> r_lsn r"
    using r0(1) assms(1) by (auto simp: rs sorted_wrt_append intro: less_imp_le)
  ultimately show ?thesis
    using e min_rec_lsn_le [OF map_of_SomeD [OF e(1)]] by auto
qed

text \<open>A page image of page \<open>n\<close> logged by a transaction that the log from the checkpoint on
  shows as committed.\<close>

definition committed_image :: "u64 \<Rightarrow> wal_record list \<Rightarrow> nat \<Rightarrow> wal_record \<Rightarrow> bool" where
  "committed_image c rs n r \<longleftrightarrow> is_page_record (record_type r) \<and> 8 \<le> length (r_payload r)
     \<and> page_no (page_id_from_payload (r_payload r)) = n
     \<and> tx_outcome (r_txid r) (filter (\<lambda>r. c \<le> r_lsn r) rs) = Some TxCommitted"

lemma redo_target_image:
  assumes "record_type r \<noteq> Clr"
  shows "redo_target att dpt r = Some (pid, img) \<longleftrightarrow> min_rec_lsn dpt \<le> r_lsn r \<and> is_page_record (record_type r)
    \<and> map_option att_status (map_of att (r_txid r)) = Some TxCommitted \<and> 8 \<le> length (r_payload r)
    \<and> pid = page_id_from_payload (r_payload r) \<and> img = drop 8 (r_payload r) \<and> map_of dpt pid \<noteq> None"
  using assms unfolding not_less [symmetric]
  by (auto simp: redo_target_def extract_page_and_image_def Let_def)

lemma targets_committed:
  assumes "sorted_wrt (<) (map r_lsn rs)" "well_seeded rs" "\<forall>r \<in> set rs. record_type r \<noteq> Clr"
    and "analysis (filter (\<lambda>r. c \<le> r_lsn r) rs) = (att, dpt, m)"
  shows "\<forall>r \<in> set (targets att dpt n rs). committed_image c rs n r"
    and "filter (\<lambda>r. c \<le> r_lsn r) (targets att dpt n rs) = filter (\<lambda>r. c \<le> r_lsn r \<and> committed_image c rs n r) rs"
proof -
  let ?rs = "filter (\<lambda>r. c \<le> r_lsn r) rs"
  have st: "map_option att_status (map_of att t) = tx_outcome t ?rs" for t
    using analysis_status [of ?rs t] assms(4) by simp
  have tgt: "(\<exists>pid img. redo_target att dpt r = Some (pid, img) \<and> page_no pid = n) \<longleftrightarrow> committed_image c rs n r
      \<and> min_rec_lsn dpt \<le> r_lsn r \<and> map_of dpt (page_id_from_payload (r_payload r)) \<noteq> None" if "r \<in> set rs" for r
    using assms(3) that by (auto simp: redo_target_image st committed_image_def)
  then show "\<forall>r \<in> set (targets att dpt n rs). committed_image c rs n r"
    by (auto simp: targets_def)
  have "min_rec_lsn dpt \<le> r_lsn r \<and> map_of dpt (page_id_from_payload (r_payload r)) \<noteq> None"
    if "r \<in> set ?rs" "committed_image c rs n r" for r
  proof -
    have "sorted_wrt (<) (map r_lsn ?rs)"
      using assms(1) by (simp add: sorted_wrt_map sorted_wrt_filter)
    moreover have "well_seeded ?rs"
      using assms(2) by (auto simp: well_seeded_def)
    moreover have "page_id_from_payload (r_payload r) \<in> fst ` set (dirtied r)"
      using that(2) by (simp add: committed_image_def dirtied_def)
    ultimately show ?thesis
      using dirty_before [of ?rs r] that(1) assms(4) by auto
  qed
  then show "filter (\<lambda>r. c \<le> r_lsn r) (targets att dpt n rs) = filter (\<lambda>r. c \<le> r_lsn r \<and> committed_image c rs n r) rs"
    unfolding targets_def filter_filter using tgt by (intro filter_cong) auto
qed

text \<open>C11. Redo restores the committed state: take a log with increasing sequence numbers and no
  compensation records, and a data file of whole pages. After analysis from the checkpoint on
  and redo, every page for which the log holds an image of a committed transaction at or
  behind the checkpoint carries the last such image, stamped with its sequence number, unless
  the page on disk was as new already; a page for which no committed transaction logged an
  image is untouched; so are all other files.\<close>

theorem redo_restores_committed_pages:
  assumes "plan fs = []" and "8192 dvd length (contents fs DataFile)"
    and "sorted_wrt (<) (map r_lsn rs)" and "well_seeded rs" and "\<forall>r \<in> set rs. record_type r \<noteq> Clr"
    and "analysis (filter (\<lambda>r. c \<le> r_lsn r) rs) = (att, dpt, m)"
  shows "\<exists>k fs'. redo H rs att dpt fs = (Inr k, fs')
    \<and> (\<forall>n. let ws = filter (\<lambda>r. c \<le> r_lsn r \<and> committed_image c rs n r) rs;
               old = disk_page (contents fs DataFile) n; new = disk_page (contents fs' DataFile) n
           in (ws \<noteq> [] \<longrightarrow> new = (if r_lsn (last ws) \<le> page_lsn_of old then old
                 else recovered_page H (drop 8 (r_payload (last ws))) (r_lsn (last ws))))
              \<and> ((\<nexists>r. r \<in> set rs \<and> committed_image c rs n r) \<longrightarrow> new = old))
    \<and> (\<forall>p. p \<noteq> DataFile \<longrightarrow> files fs' p = files fs p)"
proof -
  obtain k fs' where r: "redo H rs att dpt fs = (Inr k, fs')" "\<forall>p. p \<noteq> DataFile \<longrightarrow> files fs' p = files fs p"
    and dp: "disk_page (contents fs' DataFile) = fold (replay_record H att dpt) rs (disk_page (contents fs DataFile))"
    using redo_loop_refines [OF assms(1,2), of H att dpt rs 0] by (auto simp: redo_eq)
  note tc = targets_committed [OF assms(3-6)] and rl = replay_last [OF assms(3), of H att dpt "disk_page (contents fs DataFile)"]
  have "new = (if r_lsn (last ws) \<le> page_lsn_of old then old
      else recovered_page H (drop 8 (r_payload (last ws))) (r_lsn (last ws)))"
    if ws: "ws = filter (\<lambda>r. c \<le> r_lsn r \<and> committed_image c rs n r) rs" "ws \<noteq> []"
      and "old = disk_page (contents fs DataFile) n" "new = disk_page (contents fs' DataFile) n" for n ws old new
  proof -
    define ts where "ts = targets att dpt n rs"
    have "sorted_wrt (<) (map r_lsn ts)"
      using assms(3) by (simp add: ts_def targets_def sorted_wrt_map sorted_wrt_filter)
    then have "ts = filter (\<lambda>r. r_lsn r < c) ts @ ws"
      using filter_sorted_split [of r_lsn ts "\<lambda>_. True" c] tc(2) [of n] ws(1) by (simp add: ts_def)
    then have l: "last ts = last ws" "ts \<noteq> []"
      using ws(2) by (metis last_appendR, auto)
    have "last ws \<in> set ts"
      using l by (metis last_in_set)
    then obtain pid img where t: "redo_target att dpt (last ws) = Some (pid, img)" "last ws \<in> set rs"
      by (auto simp: ts_def targets_def)
    then have "img = drop 8 (r_payload (last ws))"
      using assms(5) redo_target_image by blast
    then show ?thesis
      using rl [of n] l t(1) by (simp add: ts_def [symmetric] dp that(3,4) Let_def)
  qed
  moreover have "disk_page (contents fs' DataFile) n = disk_page (contents fs DataFile) n"
    if "\<nexists>r. r \<in> set rs \<and> committed_image c rs n r" for n
  proof -
    have "targets att dpt n rs = []"
      using tc(1) [of n] that by (auto simp: targets_def filter_empty_conv)
    then show ?thesis
      by (simp add: dp rl)
  qed
  ultimately show ?thesis
    using r by (simp add: Let_def)
qed

text \<open>A log for the witnesses: transaction 7 logs an image of page 3 and commits, transaction 9
  logs an image of page 4 and does not.\<close>

definition demo_image :: "u64 \<Rightarrow> u64 \<Rightarrow> bytes \<Rightarrow> wal_record" where
  "demo_image t pid img = wal_record_new demo_digests 5 PageInsert t 0 0 (to_be_bytes pid @ img)"

definition demo_log :: "wal_record list" where
  "demo_log =
     [set_lsn demo_digests (demo_image 7 3 [1, 2]) 1, set_lsn demo_digests (demo_image 9 4 [3]) 69,
      set_lsn demo_digests demo_commit 136]"

lemma record_fields_new [simp]:
  "record_type (wal_record_new H now rt t l p b) = rt" "r_txid (wal_record_new H now rt t l p b) = t"
  "r_lsn (wal_record_new H now rt t l p b) = l" "r_prev_lsn (wal_record_new H now rt t l p b) = p"
  "r_payload (wal_record_new H now rt t l p b) = b" "record_ok H (wal_record_new H now rt t l p b) \<longleftrightarrow> length b < 2 ^ 32"
  by (simp_all add: wal_record_new_def)

lemma record_fields_set_lsn [simp]:
  "record_type (set_lsn H r l) = record_type r" "r_txid (set_lsn H r l) = r_txid r"
  "r_prev_lsn (set_lsn H r l) = r_prev_lsn r" "r_payload (set_lsn H r l) = r_payload r"
  "record_ok H (set_lsn H r l) \<longleftrightarrow> length (r_payload r) < 2 ^ 32"
  by (simp_all add: set_lsn_def)

lemma page_id_from_payload_image [simp]: "page_id_from_payload (to_be_bytes (pid :: u64) @ img) = pid"
  by (simp add: page_id_from_payload_def slice_def)

lemma demo_log_shape:
  "sorted_wrt (<) (map r_lsn demo_log)" "well_seeded demo_log" "\<forall>r \<in> set demo_log. record_type r \<noteq> Clr"
  "\<forall>r \<in> set demo_log. record_ok demo_digests r"
  by (simp_all add: demo_log_def well_seeded_def dirtied_def demo_image_def demo_commit_def is_page_record_def)

lemma page_no_demo [simp]: "page_no 3 = 3" "page_no 4 = 4"
  by (simp_all add: page_no_small)

lemma tx_outcome_demo:
  "tx_outcome 7 (filter (\<lambda>r. 0 \<le> r_lsn r) demo_log) = Some TxCommitted"
  "tx_outcome 9 (filter (\<lambda>r. 0 \<le> r_lsn r) demo_log) = None"
  by (simp_all add: demo_log_def tx_outcome_def demo_image_def demo_commit_def Let_def)

lemma demo_committed:
  "filter (\<lambda>r. 0 \<le> r_lsn r \<and> committed_image 0 demo_log 3 r) demo_log = [set_lsn demo_digests (demo_image 7 3 [1, 2]) 1]"
  "\<nexists>r. r \<in> set demo_log \<and> committed_image 0 demo_log 4 r"
  unfolding committed_image_def using tx_outcome_demo
  by (auto simp: demo_log_def demo_image_def demo_commit_def is_page_record_def)

lemma page_lsn_empty [simp]: "page_lsn_of (disk_page [] n) = 0"
  by (simp add: page_lsn_of_def disk_page_def slice_def from_be_zeros)

theorem redo_restores_committed_pages_witness:
  "\<exists>k fs'. redo demo_digests demo_log (fst (analysis demo_log)) (fst (snd (analysis demo_log))) demo_fs = (Inr k, fs')
     \<and> disk_page (contents fs' DataFile) 3 = recovered_page demo_digests [1, 2] 1
     \<and> disk_page (contents fs' DataFile) 4 = replicate 8192 0"
proof -
  obtain att dpt m where a: "analysis (filter (\<lambda>r. 0 \<le> r_lsn r) demo_log) = (att, dpt, m)" "analysis demo_log = (att, dpt, m)"
    by (metis (no_types, lifting) filter_True prod_cases3 word_zero_le)
  have fs: "plan demo_fs = []" "8192 dvd length (contents demo_fs DataFile)" "contents demo_fs DataFile = []"
    by (simp_all add: demo_fs_def contents_def)
  obtain k fs' where r: "redo demo_digests demo_log att dpt demo_fs = (Inr k, fs')"
    and p: "\<forall>n. let ws = filter (\<lambda>r. 0 \<le> r_lsn r \<and> committed_image 0 demo_log n r) demo_log;
               old = disk_page (contents demo_fs DataFile) n; new = disk_page (contents fs' DataFile) n
           in (ws \<noteq> [] \<longrightarrow> new = (if r_lsn (last ws) \<le> page_lsn_of old then old
                 else recovered_page demo_digests (drop 8 (r_payload (last ws))) (r_lsn (last ws))))
              \<and> ((\<nexists>r. r \<in> set demo_log \<and> committed_image 0 demo_log n r) \<longrightarrow> new = old)"
    using redo_restores_committed_pages [OF fs(1,2) demo_log_shape(1-3) a(1), of demo_digests] by blast
  have "disk_page (contents fs' DataFile) 3 = recovered_page demo_digests [1, 2] 1"
    using p [rule_format, of 3] unfolding Let_def demo_committed fs(3) by (simp add: demo_image_def)
  moreover have "disk_page (contents fs' DataFile) 4 = replicate 8192 0"
    using p [rule_format, of 4] demo_committed(2) unfolding Let_def fs(3) by (simp add: disk_page_def)
  ultimately show ?thesis
    using r by (simp add: a(2))
qed

text \<open>C35. A torn redo write is not repaired by the next redo: when the write of a recovered page
  fails after at least its first eight bytes and recovery is run again, the second redo finds
  the new sequence number in the page, skips the record and succeeds, and the page keeps the
  head of the new image in front of the tail of the old one.\<close>

theorem torn_redo_write_sticks:
  assumes "redo_target att dpt r = Some (pid, img)" and "files fs DataFile = Some d"
    and "8192 dvd length d" and "8192 * page_no pid + 8192 \<le> length d"
    and "page_lsn_of (disk_page d (page_no pid)) < r_lsn r" and "8 \<le> k" and "k < 8192"
    and "plan fs = [Succeed, Succeed, Succeed, Succeed, Fail k]"
  shows "\<exists>fs'. redo H [r] att dpt fs = (Inl OsError, fs') \<and> redo H [r] att dpt fs' = (Inr 0, fs')
    \<and> disk_page (contents fs' DataFile) (page_no pid)
        = take k (recovered_page H img (r_lsn r)) @ drop k (disk_page d (page_no pid))"
proof -
  define n where "n = page_no pid"
  define new where "new = recovered_page H img (r_lsn r)"
  have new: "length new = 8192" "page_lsn_of new = r_lsn r"
    by (simp_all add: new_def)
  define d' where "d' = file_write d (8192 * n) (take k new)"
  define fs' where "fs' = fs\<lparr>plan := [], files := (files fs)(DataFile \<mapsto> d')\<rparr>"
  have in_d: "8192 * n + 8192 \<le> length d"
    using assms(4) by (simp add: n_def)
  have d': "d' = splice d (8192 * n) (take k new)" "length d' = length d"
    using in_d assms(7) new(1) by (simp_all add: d'_def file_write_def splice_def)
  have pg: "disk_page d n = slice d (8192 * n) 8192"
    using in_d by (simp add: disk_page_def)
  have torn: "disk_page d' n = take k new @ drop k (disk_page d n)"
    using in_d assms(7) new(1)
    by (simp add: disk_page_def d' splice_def slice_def drop_take add.commute)
  have lsn: "page_lsn_of (disk_page d' n) = r_lsn r"
    using new assms(6,7) by (simp add: torn page_lsn_of_def slice_def min_def)
  have rd: "read_page_lsn pid fs = (Inr (page_lsn_of (disk_page d n)), fs\<lparr>plan := [Succeed, Fail k]\<rparr>)"
    using assms(2,8) in_d by (simp add: read_page_lsn_def fs_exists_def fs_open_def fh_len_def fh_read_at_def
        io_return_def io_bind_def io_op_def io_step_def contents_def page_pos_eq n_def [symmetric] pg
        page_lsn_of_def slice_def)
  have "take k new \<noteq> []"
    using assms(6) new(1) by auto
  then have wr: "apply_after_image H pid img (r_lsn r) (fs\<lparr>plan := [Succeed, Fail k]\<rparr>) = (Inl OsError, fs')"
    using assms(2) by (simp add: apply_after_image_def fs_open_def fs_exists_def io_bind_def io_op_def
        io_step_def fh_write_at_def contents_def page_pos_eq n_def [symmetric] new_def [symmetric] d'_def fs'_def)
  have "\<not> r_lsn r \<le> page_lsn_of (disk_page d n)"
    using assms(5) by (simp add: n_def not_le)
  then have first: "redo H [r] att dpt fs = (Inl OsError, fs')"
    using assms(1) by (simp add: redo_eq rd wr io_bind_def)
  have c: "contents fs' DataFile = d'" "plan fs' = []"
    by (simp_all add: fs'_def contents_def)
  have "read_page_lsn pid fs' = (Inr (r_lsn r), fs')"
    using read_page_lsn_ok [OF c(2), of pid] assms(3) lsn by (simp add: c d'(2) n_def)
  then have "redo H [r] att dpt fs' = (Inr 0, fs')"
    using assms(1) by (simp add: redo_eq io_return_def)
  with first torn show ?thesis
    by (auto simp: c n_def new_def)
qed

theorem torn_redo_write_sticks_witness:
  "\<exists>fs'. redo demo_digests [demo_image 7 0 [1, 2]\<lparr>r_lsn := 5\<rparr>] [(7, \<lparr>att_txid = 7, att_status = TxCommitted, att_last_lsn = 5\<rparr>)]
      [(0, \<lparr>dpt_page_id = 0, dpt_rec_lsn = 5\<rparr>)]
      (demo_fs\<lparr>files := [DataFile \<mapsto> replicate 8192 0], plan := [Succeed, Succeed, Succeed, Succeed, Fail 4096]\<rparr>)
      = (Inl OsError, fs')
    \<and> disk_page (contents fs' DataFile) 0
        = take 4096 (recovered_page demo_digests [1, 2] 5) @ drop 4096 (replicate 8192 0)"
proof -
  let ?fs = "demo_fs\<lparr>files := [DataFile \<mapsto> replicate 8192 0], plan := [Succeed, Succeed, Succeed, Succeed, Fail 4096]\<rparr>"
    and ?att = "[(7 :: u64, \<lparr>att_txid = 7, att_status = TxCommitted, att_last_lsn = 5\<rparr>)]"
    and ?dpt = "[(0 :: u64, \<lparr>dpt_page_id = 0, dpt_rec_lsn = 5\<rparr>)]"
    and ?r = "demo_image 7 0 [1, 2]\<lparr>r_lsn := 5\<rparr>"
  have p0: "page_no 0 = 0" "disk_page (replicate 8192 0) 0 = replicate 8192 0"
    by (simp_all add: page_no_small disk_page_def slice_def)
  have t: "redo_target ?att ?dpt ?r = Some (0, [1, 2])"
    by (simp add: redo_target_def demo_image_def min_rec_lsn_def is_page_record_def extract_page_and_image_def Let_def)
  have l: "page_lsn_of (replicate 8192 0) = 0"
    by (simp add: page_lsn_of_def slice_def from_be_zeros)
  show ?thesis
    using torn_redo_write_sticks [OF t, of ?fs "replicate 8192 0" 4096 demo_digests]
    by (simp add: p0 l) blast
qed

section \<open>Before-images\<close>

lemma before_image_embedded: "extract_before_image H (embed_before_image H payload before) = Some (take 8192 before)"
proof -
  define image where "image = take 8192 before"
  have im: "take (min (length before) PAGE_SIZE) before = image"
    by (simp add: image_def min_def)
  define p c z m where "p = payload @ image" and "c = to_be_bytes (crc32c H image)"
    and "z = to_be_bytes (of_nat (length image) :: u32)" and "m = to_be_bytes BEFORE_IMAGE_MAGIC"
  have e: "embed_before_image H payload before = p @ c @ z @ m"
    unfolding embed_before_image_def Let_def im p_def c_def z_def m_def by simp
  have len: "length c = 4" "length z = 4" "length m = 4" "length image \<le> 8192"
    by (simp_all add: c_def z_def m_def image_def)
  have sl: "slice (p @ c @ z @ m) (length p + 8) 4 = m" "slice (p @ c @ z @ m) (length p + 4) 4 = z"
    "slice (p @ c @ z @ m) (length p) 4 = c"
    "slice (p @ c @ z @ m) (length p - length image) (length image) = image"
    using len by (simp_all add: slice_def p_def)
  have v: "unat (from_be_bytes z :: u32) = length image" "from_be_bytes c = crc32c H image"
    "from_be_bytes m = BEFORE_IMAGE_MAGIC"
    using len(4) by (simp_all add: z_def c_def m_def unat_of_nat)
  have "extract_before_image H (p @ c @ z @ m) = Some image"
    using len sl v by (simp add: extract_before_image_def Let_def add.commute p_def)
  then show ?thesis
    by (simp add: e image_def)
qed

text \<open>Before-images: what is embedded in a payload is extracted again (cut to one page), and
  embedding it behind a full-page after-image does not change what redo writes.\<close>

theorem before_image_round_trip:
  "extract_before_image H (embed_before_image H payload before) = Some (take 8192 before)
   \<and> (8200 \<le> length payload \<longrightarrow>
        recovered_page H (drop 8 (embed_before_image H payload before)) l = recovered_page H (drop 8 payload) l)"
proof -
  have "recovered_page H (drop 8 (embed_before_image H payload before)) l = recovered_page H (drop 8 payload) l"
    if "8200 \<le> length payload"
  proof -
    have "min (length (drop 8 (embed_before_image H payload before))) PAGE_SIZE = PAGE_SIZE"
      "min (length (drop 8 payload)) PAGE_SIZE = PAGE_SIZE"
      "take PAGE_SIZE (drop 8 (embed_before_image H payload before)) = take PAGE_SIZE (drop 8 payload)"
      using that by (simp_all add: embed_before_image_def Let_def)
    then show ?thesis
      unfolding recovered_page_def Let_def by (simp only:)
  qed
  then show ?thesis
    by (simp add: before_image_embedded)
qed

theorem before_image_round_trip_witness:
  "recovered_page demo_digests (drop 8 (embed_before_image demo_digests (replicate 8200 1) [2, 3])) 4
     = recovered_page demo_digests (drop 8 (replicate 8200 1)) 4"
  using before_image_round_trip [of demo_digests "replicate 8200 1" "[2, 3]" 4] by simp

section \<open>Undo\<close>

text \<open>Where the walk goes after a record; zero ends it.\<close>

definition next_undo :: "wal_record \<Rightarrow> u64" where
  "next_undo r = (if record_type r = Clr then clr_undo_next_lsn (r_payload r) else r_prev_lsn r)"

lemma lsn_index_Some: "lsn_index rs l = Some r \<Longrightarrow> r \<in> set rs \<and> r_lsn r = l"
  by (auto simp: lsn_index_def dest: map_of_SomeD)

lemma undo_chain_ends:
  assumes "\<And>l r. index l = Some r \<Longrightarrow> next_undo r = 0 \<or> next_undo r < l" and "finite (dom index)"
    and "card {l \<in> dom index. l \<le> cur_lsn} < fuel"
  shows "undo_chain fuel H now index cur_lsn n s \<noteq> None"
  using assms(3)
proof (induction fuel arbitrary: cur_lsn n s)
  case (Suc fuel)
  show ?case
  proof (cases "index cur_lsn")
    case (Some r)
    have nx: "undo_chain fuel H now index (next_undo r) n' s' \<noteq> None" if nz: "next_undo r \<noteq> 0" for n' s'
    proof (rule Suc.IH)
      have lt: "next_undo r < cur_lsn"
        using assms(1) [OF Some] nz by simp
      have "cur_lsn \<in> {l \<in> dom index. l \<le> cur_lsn} - {l \<in> dom index. l \<le> next_undo r}"
        using lt Some by (auto simp: not_le)
      moreover have "{l \<in> dom index. l \<le> next_undo r} \<subseteq> {l \<in> dom index. l \<le> cur_lsn}"
        using lt by auto
      ultimately have "{l \<in> dom index. l \<le> next_undo r} \<subset> {l \<in> dom index. l \<le> cur_lsn}"
        by blast
      then have "card {l \<in> dom index. l \<le> next_undo r} < card {l \<in> dom index. l \<le> cur_lsn}"
        using assms(2) by (intro psubset_card_mono) simp_all
      then show "card {l \<in> dom index. l \<le> next_undo r} < fuel"
        using Suc.prems by simp
    qed
    show ?thesis
    proof (cases "record_type r = Clr")
      case True
      with Some nx show ?thesis
        by (simp add: next_undo_def Let_def)
    next
      case False
      with Some nx show ?thesis
        by (auto simp: next_undo_def split: option.splits prod.splits sum.splits)
    qed
  qed simp
qed simp

lemma undo_all_ends:
  assumes "\<And>l n s. undo_chain fuel H now index l n s \<noteq> None"
  shows "undo_all fuel H now index es n s \<noteq> None"
proof (induction es arbitrary: n s)
  case (Cons e es)
  then show ?case
    using assms [of "att_last_lsn e" n s] by (auto split: option.splits prod.splits sum.splits)
qed simp

text \<open>C26. Undo ends: when every record points back to a smaller sequence number or to none, and
  every compensation record does so with the record to undo next, the backward walks of all
  losers come to their end within as many steps as there are records, and one; recovery
  returns whatever the input and output operations do.\<close>

theorem undo_terminates:
  assumes "\<forall>r \<in> set records. next_undo r = 0 \<or> next_undo r < r_lsn r"
  shows "undo (Suc (length records)) H now att records s \<noteq> None
    \<and> run_all_phases (Suc (length records)) H now c records s \<noteq> None"
proof -
  have fin: "finite (dom (lsn_index records))" "card (dom (lsn_index records)) \<le> length records"
  proof -
    have d: "dom (lsn_index records) = r_lsn ` set records"
      by (simp add: lsn_index_def dom_map_of_conv_image_fst image_image)
    show "finite (dom (lsn_index records))"
      by (simp add: d)
    show "card (dom (lsn_index records)) \<le> length records"
      unfolding d by (metis card_image_le card_length finite_set le_trans)
  qed
  have "undo_chain (Suc (length records)) H now (lsn_index records) l n s \<noteq> None" for l n s
  proof (rule undo_chain_ends [OF _ fin(1)])
    show "next_undo r = 0 \<or> next_undo r < l" if "lsn_index records l = Some r" for l r
      using assms lsn_index_Some [OF that] by auto
    have "card {k \<in> dom (lsn_index records). k \<le> l} \<le> card (dom (lsn_index records))"
      using fin(1) by (intro card_mono) auto
    then show "card {k \<in> dom (lsn_index records). k \<le> l} < Suc (length records)"
      using fin(2) by simp
  qed
  then have u: "undo (Suc (length records)) H now att records s \<noteq> None" for att s
    unfolding undo_def by (rule undo_all_ends)
  then show ?thesis
    by (auto simp: run_all_phases_def Let_def split: prod.splits sum.splits option.splits)
      (metis not_None_eq)+
qed

theorem undo_terminates_witness:
  "undo 4 demo_digests (\<lambda>_. 5) [(9, \<lparr>att_txid = 9, att_status = TxActive, att_last_lsn = 69\<rparr>)] demo_log
     (demo_writer, demo_fs) \<noteq> None"
proof -
  have "\<forall>r \<in> set demo_log. next_undo r = 0 \<or> next_undo r < r_lsn r"
    by (simp add: demo_log_def next_undo_def demo_image_def demo_commit_def)
  moreover have "Suc (length demo_log) = 4"
    by (simp add: demo_log_def)
  ultimately show ?thesis
    using undo_terminates [of demo_log demo_digests "\<lambda>_. 5"] by metis
qed

text \<open>The logs the engine writes: no begin records and no compensation records, every abort
  record without a predecessor, and no record of a transaction behind its abort.\<close>

definition engine_log :: "wal_record list \<Rightarrow> bool" where
  "engine_log rs \<longleftrightarrow>
     (\<forall>r \<in> set rs. record_type r \<noteq> Begin \<and> record_type r \<noteq> Clr \<and> (record_type r = Abort \<longrightarrow> r_prev_lsn r = 0))
     \<and> sorted_wrt (\<lambda>a b. record_type a = Abort \<longrightarrow> r_txid b \<noteq> r_txid a) rs"

lemma distinct_or_insert [simp]: "distinct (map fst m) \<Longrightarrow> distinct (map fst (or_insert k v m))"
  by (auto simp: or_insert_def map_of_eq_None_iff)

lemma distinct_analysis_att: "distinct (map fst att) \<Longrightarrow> distinct (map fst (analysis_att r att))"
  by (cases "record_type r")
    (simp_all add: analysis_att_def bump_last_lsn_def enter_status_def AList.distinct_map_entry)

lemma map_of_bump_entry:
  "map_of (bump_last_lsn r att) t = (if t \<noteq> r_txid r then map_of att t
     else map_option (\<lambda>e. if r_lsn r > att_last_lsn e then e\<lparr>att_last_lsn := r_lsn r\<rparr> else e) (map_of att t))"
  by (auto simp: bump_last_lsn_def AList.map_of_map_entry split: option.split)

lemma map_of_enter_entry:
  "map_of (enter_status r s att) t = (if t \<noteq> r_txid r then map_of att t
     else Some (case map_of att t of
       None \<Rightarrow> \<lparr>att_txid = r_txid r, att_status = s, att_last_lsn = r_lsn r\<rparr> | Some e \<Rightarrow> e\<lparr>att_status := s\<rparr>))"
  by (auto simp: enter_status_def AList.map_of_map_entry split: option.split)

lemma analysis_att_entry:
  assumes "\<And>e. map_of att t = Some e \<Longrightarrow> att_last_lsn e < r_lsn r" and "record_type r \<noteq> Begin"
    and "map_of (analysis_att r att) t = Some e"
  shows "map_of att t = Some e
    \<or> t = r_txid r \<and> att_last_lsn e = r_lsn r \<and> (att_status e = TxCommitted \<or> record_type r = Abort
        \<or> (\<exists>e'. map_of att t = Some e' \<and> att_status e' = att_status e))"
proof (cases "t = r_txid r")
  case True
  consider "record_type r = Commit" | "record_type r = Abort"
    | "analysis_att r att = att" | "analysis_att r att = bump_last_lsn r att"
    using assms(2) by (cases "record_type r") (simp_all add: analysis_att_def)
  then show ?thesis
  proof cases
    case 1
    then show ?thesis
      using assms(1,3) True by (auto simp: analysis_att_def map_of_bump_entry map_of_enter_entry split: option.splits)
  next
    case 2
    then show ?thesis
      using assms(1,3) True by (auto simp: analysis_att_def map_of_bump_entry map_of_enter_entry split: option.splits)
  next
    case 3
    then show ?thesis
      using assms(3) by simp
  next
    case 4
    then show ?thesis
      using assms(1,3) True by (auto simp: map_of_bump_entry)
  qed
next
  case False
  then have "map_of (analysis_att r att) t = map_of att t"
    by (cases "record_type r") (simp_all add: analysis_att_def map_of_bump_entry map_of_enter_entry)
  with assms(3) show ?thesis
    by simp
qed

lemma analysis_losers:
  assumes "sorted_wrt (<) (map r_lsn rs)" "engine_log rs" "analysis rs = (att, dpt, m)"
  shows "distinct (map fst att) \<and> (\<forall>t e. map_of att t = Some e \<longrightarrow>
    (\<exists>r \<in> set rs. r_txid r = t \<and> r_lsn r = att_last_lsn e \<and> (att_status e \<noteq> TxCommitted \<longrightarrow> record_type r = Abort)))"
  using assms
proof (induction rs arbitrary: att dpt m rule: rev_induct)
  case (snoc r rs)
  obtain att0 dpt0 m0 where a: "analysis rs = (att0, dpt0, m0)"
    by (metis prod_cases3)
  then have att: "att = analysis_att r att0"
    using snoc.prems(3) by (simp add: analysis_snoc)
  have e: "engine_log rs" "record_type r \<noteq> Begin"
    "\<And>x. x \<in> set rs \<Longrightarrow> record_type x = Abort \<Longrightarrow> r_txid x \<noteq> r_txid r"
    and s: "sorted_wrt (<) (map r_lsn rs)" "\<And>x. x \<in> set rs \<Longrightarrow> r_lsn x < r_lsn r"
    using snoc.prems(1,2) by (auto simp: engine_log_def sorted_wrt_append)
  note IH = snoc.IH [OF s(1) e(1) a]
  have below: "att_last_lsn x < r_lsn r" if "map_of att0 t = Some x" for t x
    using IH that s(2) by metis
  have "\<exists>x \<in> set (rs @ [r]). r_txid x = t \<and> r_lsn x = att_last_lsn y \<and> (att_status y \<noteq> TxCommitted \<longrightarrow> record_type x = Abort)"
    if y: "map_of att t = Some y" for t y
  proof -
    consider "map_of att0 t = Some y"
      | "t = r_txid r" "att_last_lsn y = r_lsn r" "att_status y = TxCommitted \<or> record_type r = Abort
          \<or> (\<exists>e'. map_of att0 t = Some e' \<and> att_status e' = att_status y)"
      using analysis_att_entry [OF _ e(2) y [unfolded att]] below by blast
    then show ?thesis
    proof cases
      case 1
      with IH obtain x where "x \<in> set rs" "r_txid x = t" "r_lsn x = att_last_lsn y"
        "att_status y \<noteq> TxCommitted \<longrightarrow> record_type x = Abort"
        by blast
      then show ?thesis
        by (intro bexI [of _ x]) simp_all
    next
      case 2
      have "record_type r = Abort" if "att_status y \<noteq> TxCommitted"
        using 2 that IH e(3) by metis
      with 2 show ?thesis
        by (intro bexI [of _ r]) simp_all
    qed
  qed
  then show ?case
    using IH by (simp add: att distinct_analysis_att)
qed (simp add: analysis_snoc)

lemma lsn_index_distinct:
  assumes "sorted_wrt (<) (map r_lsn rs)" "r \<in> set rs"
  shows "lsn_index rs (r_lsn r) = Some r"
proof -
  have "distinct (map r_lsn rs)"
    using assms(1) by (simp add: strict_sorted_iff)
  then show ?thesis
    using assms(2) by (auto simp: lsn_index_def rev_map [symmetric] comp_def intro!: map_of_is_SomeI)
qed


lemma undo_all_aborted:
  assumes "\<And>e. e \<in> set es \<Longrightarrow> \<exists>r. index (att_last_lsn e) = Some r \<and> record_type r = Abort \<and> r_prev_lsn r = 0"
    and "buffer w = []"
  shows "undo_all (Suc fuel) H now index es n (w, fs) = Some (Inr n, (w, fs))"
  using assms(1)
proof (induction es)
  case (Cons e es)
  then obtain r where r: "index (att_last_lsn e) = Some r" "record_type r = Abort" "r_prev_lsn r = 0"
    by (metis list.set_intros(1))
  have "undo_chain (Suc fuel) H now index (att_last_lsn e) n (w, fs) = Some (Inr n, (w, fs))"
    by (simp add: r is_page_record_def)
  moreover have "wal_flush (w, fs) = (Inr (), (w, fs))"
    by (simp add: wal_flush_def assms(2))
  ultimately show ?case
    using Cons by simp
qed simp

lemma undo_engine_log:
  assumes "sorted_wrt (<) (map r_lsn rs)" "engine_log rs" "buffer w = []"
    and "analysis (filter (\<lambda>r. c \<le> r_lsn r) rs) = (att, dpt, m)"
  shows "undo (Suc fuel) H now att rs (w, fs) = Some (Inr 0, (w, fs))"
  unfolding undo_def
proof (rule undo_all_aborted [OF _ assms(3)])
  fix e
  assume "e \<in> set (to_undo att)"
  then obtain t where e: "(t, e) \<in> set att" "att_status e \<noteq> TxCommitted"
    by (auto simp: to_undo_def)
  let ?rs = "filter (\<lambda>r. c \<le> r_lsn r) rs"
  have "sorted_wrt (<) (map r_lsn ?rs)" "engine_log ?rs"
    using assms(1,2) by (auto simp: sorted_wrt_map sorted_wrt_filter engine_log_def)
  from analysis_losers [OF this assms(4)] e obtain r where "r \<in> set rs" "r_lsn r = att_last_lsn e" "record_type r = Abort"
    by (metis filter_is_subset map_of_is_SomeI subsetD)
  then show "\<exists>r. lsn_index rs (att_last_lsn e) = Some r \<and> record_type r = Abort \<and> r_prev_lsn r = 0"
    using lsn_index_distinct [OF assms(1), of r] assms(2) by (auto simp: engine_log_def)
qed

section \<open>Recovery of a crashed log\<close>

lemma load_live_segment:
  assumes "plan fs = []" "\<forall>i. \<not> fs_exists (Archived i) fs" "\<forall>i. fs_exists (Live i) fs \<longleftrightarrow> i = 0"
    and "files fs (Live 0) = Some (log_bytes rs @ tail)" "\<forall>r \<in> set rs. record_ok H r" "wal_decode H tail 0 = None"
  shows "load_all_segments H 0 fs = (Inr rs, fs)"
proof -
  have "highest_segment_id fs = 0"
    unfolding highest_segment_id_def
    by (rule find_loop_up) (use assms(2,3) in auto)
  moreover have "scan_log H (log_bytes rs @ tail) 0 = rs"
    using scan_log_bytes [OF assms(5,6), of "[]"] by simp
  moreover have "log_bytes rs @ tail = [] \<Longrightarrow> rs = []"
    by (cases rs) auto
  ultimately show ?thesis
    using assms(1,3,4)
    by (auto simp: load_all_segments_def load_single_segment_def fs_open_def fh_len_def fh_read_at_def
        io_return_def contents_def slice_def io_bind_def)
qed

lemma recover_log:
  assumes "plan fs = []" and "8192 dvd length (contents fs DataFile)"
    and "\<forall>i. \<not> fs_exists (Archived i) fs" and "\<forall>i. fs_exists (Live i) fs \<longleftrightarrow> i = 0"
    and "files fs (Live 0) = Some (log_bytes rs @ tail)" and "wal_decode H tail 0 = None"
    and "\<forall>r \<in> set rs. record_ok H r" and "sorted_wrt (<) (map r_lsn rs)" and "well_seeded rs"
    and "engine_log rs" and "buffer w = []"
  shows "\<exists>res fs'. aries_recover (Suc fuel) H now 0 (w, fs) = Some (Inr res, (w, fs')) \<and> undo_count res = 0
    \<and> (\<forall>n. let ws = filter (committed_image 0 rs n) rs; old = disk_page (contents fs DataFile) n in
         disk_page (contents fs' DataFile) n =
           (if ws = [] \<or> r_lsn (last ws) \<le> page_lsn_of old then old
            else recovered_page H (drop 8 (r_payload (last ws))) (r_lsn (last ws))))"
proof -
  obtain att dpt m where a: "analysis (filter (\<lambda>r. 0 \<le> r_lsn r) rs) = (att, dpt, m)"
    by (metis prod_cases3)
  have clr: "\<forall>r \<in> set rs. record_type r \<noteq> Clr"
    using assms(10) by (auto simp: engine_log_def)
  obtain k fs' where r: "redo H rs att dpt fs = (Inr k, fs')"
    and dp: "disk_page (contents fs' DataFile) = fold (replay_record H att dpt) rs (disk_page (contents fs DataFile))"
    using redo_loop_refines [OF assms(1,2), of H att dpt rs 0] by (auto simp: redo_eq)
  note tc = targets_committed [OF assms(8,9) clr a] and rl = replay_last [OF assms(8), of H att dpt "disk_page (contents fs DataFile)"]
  have ts: "targets att dpt n rs = filter (committed_image 0 rs n) rs" for n
    using tc(2) [of n] by simp
  have img: "snd (the (redo_target att dpt (last ws))) = drop 8 (r_payload (last ws))"
    if "ws = filter (committed_image 0 rs n) rs" "ws \<noteq> []" for ws n
  proof -
    have "last ws \<in> set (targets att dpt n rs)"
      unfolding ts using that by (metis last_in_set)
    then obtain pid img where t: "redo_target att dpt (last ws) = Some (pid, img)" "last ws \<in> set rs"
      by (auto simp: targets_def)
    then have "img = drop 8 (r_payload (last ws))"
      using clr redo_target_image by blast
    with t(1) show ?thesis
      by simp
  qed
  have ld: "load_all_segments H 0 fs = (Inr rs, fs)"
    by (rule load_live_segment [OF assms(1,3,4,5,7,6)])
  have "aries_recover (Suc fuel) H now 0 (w, fs) =
      Some (Inr \<lparr>res_att = att, res_dpt = dpt, res_max_lsn = m, redo_count = k, undo_count = 0\<rparr>, (w, fs'))"
    unfolding aries_recover_def run_all_phases_def
    by (simp only: on_fs_def prod.case ld sum.case a Let_def r undo_engine_log [OF assms(8,10,11) a] option.case)
  moreover have "disk_page (contents fs' DataFile) n =
      (if filter (committed_image 0 rs n) rs = []
          \<or> r_lsn (last (filter (committed_image 0 rs n) rs)) \<le> page_lsn_of (disk_page (contents fs DataFile) n)
       then disk_page (contents fs DataFile) n
       else recovered_page H (drop 8 (r_payload (last (filter (committed_image 0 rs n) rs))))
              (r_lsn (last (filter (committed_image 0 rs n) rs))))" for n
    unfolding dp rl ts Let_def using img [OF refl, of n] by simp
  moreover have "undo_count \<lparr>res_att = att, res_dpt = dpt, res_max_lsn = m, redo_count = k, undo_count = 0\<rparr> = 0"
    by simp
  ultimately show ?thesis
    unfolding Let_def by blast
qed





section \<open>Undoing a transaction with before-images\<close>

definition before_page :: "digests \<Rightarrow> wal_record \<Rightarrow> bytes" where
  "before_page H r =
     (case extract_before_image H (r_payload r) of
        Some bi \<Rightarrow> splice (replicate 8192 0) 0 (take (min (length bi) 8192) bi)
      | None \<Rightarrow> replicate 8192 0)"

text \<open>The chain of a transaction, latest record first: records without a page image, or page
  records with a before-image, linked by their predecessors down to zero.\<close>

fun undo_list :: "digests \<Rightarrow> (u64 \<rightharpoonup> wal_record) \<Rightarrow> u64 \<Rightarrow> wal_record list \<Rightarrow> bool" where
  "undo_list H index l [] \<longleftrightarrow> False"
| "undo_list H index l (r # rs) \<longleftrightarrow> index l = Some r \<and> record_type r \<noteq> Clr
     \<and> (is_page_record (record_type r) \<longrightarrow> 8 \<le> length (r_payload r) \<and> extract_before_image H (r_payload r) \<noteq> None)
     \<and> (if r_prev_lsn r = 0 then rs = [] else undo_list H index (r_prev_lsn r) rs)"

lemma extract_before_image_len: "extract_before_image H p = Some bi \<Longrightarrow> length bi \<le> 8192"
  by (auto simp: extract_before_image_def Let_def slice_def split: if_splits)

lemma wal_flush_ok:
  assumes "plan fs = []"
  shows "\<exists>w' fs'. wal_flush (w, fs) = (Inr (), (w', fs')) \<and> plan fs' = []"
proof (cases "buffer w = []")
  case False
  with assms show ?thesis
    by (simp add: wal_flush_def on_fs_def fh_len_def fh_write_at_def fh_sync_def on_writer_def io_bind_def)
qed (simp add: wal_flush_def assms)

lemma wal_append_frame:
  assumes "wal_append H r (w, fs) = (Inr lsn, (w', fs'))" "p \<noteq> segment_handle w"
  shows "files fs' p = files fs p"
  using assms wal_flush_Inr(5) [of w fs]
  by (auto simp: wal_append_def Let_def io_return_def io_throw_def on_writer_def elim!: io_bind_InrE split: if_splits)

lemma wal_append_ok:
  assumes "plan fs = []" "on_disk_size r \<le> BUFFER_SIZE" "p \<noteq> segment_handle w"
  shows "\<exists>w' fs'. wal_append H r (w, fs) = (Inr (current_lsn w), (w', fs')) \<and> plan fs' = []
    \<and> files fs' p = files fs p \<and> segment_handle w' = segment_handle w"
proof -
  have len: "length (wal_encode (set_lsn H r (current_lsn w))) = on_disk_size r"
    by simp
  obtain w1 fs1 where f: "wal_flush (w, fs) = (Inr (), (w1, fs1))" "plan fs1 = []"
    using wal_flush_ok [OF assms(1)] by blast
  have "files fs1 p = files fs p" "segment_handle w1 = segment_handle w"
    using wal_flush_Inr(5) [OF f(1) assms(3)] wal_flush_Inr(1) [OF f(1)] by simp_all
  then show ?thesis
    using assms f len
    by (auto simp: wal_append_def Let_def io_return_def on_writer_def io_bind_def simp del: length_wal_encode)
qed


lemma compensate_ok:
  assumes "plan fs = []" "8192 dvd length (contents fs DataFile)" "segment_handle w \<noteq> DataFile"
    and "extract_before_image H (r_payload r) \<noteq> None"
  shows "\<exists>w' fs'. compensate H now r pid (w, fs) = (Inr (), (w', fs')) \<and> plan fs' = []
    \<and> segment_handle w' \<noteq> DataFile \<and> 8192 dvd length (contents fs' DataFile)
    \<and> disk_page (contents fs' DataFile) = (disk_page (contents fs DataFile))(page_no pid := before_page H r)"
proof -
  obtain bi where bi: "extract_before_image H (r_payload r) = Some bi"
    using assms(4) by blast
  define d where "d = file_write (contents fs DataFile) (8192 * page_no pid) (before_page H r)"
  define fs1 where "fs1 = fs\<lparr>files := (files fs)(DataFile \<mapsto> d)\<rparr>"
  have inv: "apply_inverse H r pid fs = (Inr (), fs1)"
    using assms(1) bi by (auto simp: apply_inverse_def fs_open_def fs_exists_def io_bind_def fh_write_at_def
        contents_def page_pos_eq before_page_def fs1_def d_def Let_def)
  have bp: "length (before_page H r) = 8192"
    by (simp add: before_page_def bi)
  note w = disk_page_write [OF assms(2) bp, of "page_no pid", folded d_def]
  let ?clr = "wal_record_new H now Clr (r_txid r) 0 (r_prev_lsn r) (build_clr_payload (r_prev_lsn r) pid (clr_image H r))"
  have "on_disk_size ?clr \<le> BUFFER_SIZE"
    by (simp add: on_disk_size_def WAL_RECORD_MIN_SIZE_def BUFFER_SIZE_def build_clr_payload_def min_def)
  from wal_append_ok [OF _ this, of fs1 DataFile w H] obtain w' fs' where
    a: "wal_append H ?clr (w, fs1) = (Inr (current_lsn w), (w', fs'))" "plan fs' = []"
    "files fs' DataFile = files fs1 DataFile" "segment_handle w' = segment_handle w"
    using assms(1,3) unfolding fs1_def by fastforce
  have "contents fs' DataFile = d"
    by (simp add: contents_def a(3) fs1_def)
  moreover have "compensate H now r pid (w, fs) = (Inr (), (w', fs'))"
    unfolding compensate_def by (simp add: io_bind_def on_fs_def inv a(1) io_return_def)
  ultimately show ?thesis
    using w a(2,4) assms(3) by simp
qed

lemma undo_chain_restores:
  assumes "undo_list H index l rs" "length rs \<le> fuel" "plan fs = []" "8192 dvd length (contents fs DataFile)"
    and "segment_handle w \<noteq> DataFile"
  shows "\<exists>w' fs'. undo_chain fuel H now index l k (w, fs) =
      Some (Inr (k + length (filter (\<lambda>r. is_page_record (record_type r)) rs)), (w', fs'))
    \<and> disk_page (contents fs' DataFile) =
        fold (\<lambda>r D. D(page_no (page_id_from_payload (r_payload r)) := before_page H r))
          (filter (\<lambda>r. is_page_record (record_type r)) rs) (disk_page (contents fs DataFile))"
  using assms
proof (induction rs arbitrary: l fuel k w fs)
  case (Cons r rs)
  from Cons.prems(2) obtain fuel' where fuel: "fuel = Suc fuel'" "length rs \<le> fuel'"
    by (cases fuel) auto
  have r: "index l = Some r" "record_type r \<noteq> Clr" "if r_prev_lsn r = 0 then rs = [] else undo_list H index (r_prev_lsn r) rs"
    using Cons.prems(1) by auto
  show ?case
  proof (cases "is_page_record (record_type r)")
    case False
    then show ?thesis
    proof (cases "r_prev_lsn r = 0")
      case True
      with False r show ?thesis
        by (simp add: fuel)
    next
      case nz: False
      with Cons.IH [OF _ fuel(2) Cons.prems(3-5), of "r_prev_lsn r" k] r False show ?thesis
        by (simp add: fuel)
    qed
  next
    case True
    then have len: "8 \<le> length (r_payload r)" and bi: "extract_before_image H (r_payload r) \<noteq> None"
      using Cons.prems(1) by auto
    define pid where "pid = page_id_from_payload (r_payload r)"
    have ex: "extract_page_and_image r = Some (pid, drop 8 (r_payload r))"
      using r(2) len by (simp add: extract_page_and_image_def Let_def pid_def)
    obtain w1 fs1 where c: "compensate H (now k) r pid (w, fs) = (Inr (), (w1, fs1))" "plan fs1 = []"
      "segment_handle w1 \<noteq> DataFile" "8192 dvd length (contents fs1 DataFile)"
      and d: "disk_page (contents fs1 DataFile) = (disk_page (contents fs DataFile))(page_no pid := before_page H r)"
      using compensate_ok [OF Cons.prems(3-5) bi, of "now k" pid] by blast
    show ?thesis
    proof (cases "r_prev_lsn r = 0")
      case 0: True
      with r True ex c d show ?thesis
        by (simp add: fuel pid_def fun_upd_def)
    next
      case nz: False
      with Cons.IH [OF _ fuel(2) c(2,4,3), of "r_prev_lsn r" "k + 1"] r True ex c d show ?thesis
        by (simp add: fuel pid_def fun_upd_def)
    qed
  qed
qed simp

lemma fold_upd_last:
  "fold (\<lambda>r D. D(f r := g r)) rs D n = (if filter (\<lambda>r. f r = n) rs = [] then D n else g (last (filter (\<lambda>r. f r = n) rs)))"
  by (induction rs rule: rev_induct) auto

text \<open>C25. Undo restores the state before the transaction: walking back a chain of page records
  that carry before-images, with records of other kinds between them, compensates each of
  them once, and every page the transaction logged is left with the before-image of its
  earliest record; all other pages are as they were.\<close>

theorem undo_restores_before_images:
  assumes "undo_list H index l rs" and "length rs \<le> fuel" and "plan fs = []"
    and "8192 dvd length (contents fs DataFile)" and "segment_handle w \<noteq> DataFile"
  shows "\<exists>w' fs'. undo_chain fuel H now index l k (w, fs) =
      Some (Inr (k + length (filter (\<lambda>r. is_page_record (record_type r)) rs)), (w', fs'))
    \<and> (\<forall>n. disk_page (contents fs' DataFile) n =
        (let us = filter (\<lambda>r. is_page_record (record_type r) \<and> page_no (page_id_from_payload (r_payload r)) = n) rs
         in if us = [] then disk_page (contents fs DataFile) n else before_page H (last us)))"
proof -
  have ff: "filter (\<lambda>r. page_no (page_id_from_payload (r_payload r)) = n) (filter (\<lambda>r. is_page_record (record_type r)) rs)
      = filter (\<lambda>r. is_page_record (record_type r) \<and> page_no (page_id_from_payload (r_payload r)) = n) rs" for n
    by (simp only: filter_filter)
  show ?thesis
    using undo_chain_restores [OF assms, of now k] unfolding Let_def ff [symmetric]
    by (elim exE conjE) (intro exI conjI, assumption, simp only: fold_upd_last, simp)
qed


text \<open>A chain for the witness: transaction 9 began, then updated page 3.\<close>

definition demo_chain :: "wal_record list" where
  "demo_chain =
     [wal_record_new demo_digests 5 PageUpdate 9 60 1 (embed_before_image demo_digests (to_be_bytes (3 :: u64) @ [1]) [7]),
      wal_record_new demo_digests 5 Begin 9 1 0 []]"

theorem undo_restores_before_images_witness:
  "\<exists>w' fs'. undo_chain 2 demo_digests (\<lambda>_. 5) (lsn_index demo_chain) 60 0 (demo_writer, demo_fs) = Some (Inr 1, (w', fs'))
     \<and> disk_page (contents fs' DataFile) 3 = splice (replicate 8192 0) 0 [7]"
proof -
  let ?p = "embed_before_image demo_digests (to_be_bytes (3 :: u64) @ [1]) [7]"
  have bi: "extract_before_image demo_digests ?p = Some [7]"
    using before_image_embedded [of demo_digests _ "[7]"] by simp
  have p: "8 \<le> length ?p" "page_id_from_payload ?p = 3"
    by (simp_all add: embed_before_image_def page_id_from_payload_def slice_def Let_def)
  have u: "undo_list demo_digests (lsn_index demo_chain) 60 demo_chain" "length demo_chain \<le> 2"
    using bi p by (simp_all add: demo_chain_def lsn_index_def is_page_record_def)
  have pages: "filter (\<lambda>r. is_page_record (record_type r)) demo_chain = [hd demo_chain]"
    "filter (\<lambda>r. is_page_record (record_type r) \<and> page_no (page_id_from_payload (r_payload r)) = 3) demo_chain = [hd demo_chain]"
    using p by (simp_all add: demo_chain_def is_page_record_def)
  have b: "before_page demo_digests (hd demo_chain) = splice (replicate 8192 0) 0 [7]"
    using bi by (simp add: before_page_def demo_chain_def)
  have fs: "plan demo_fs = []" "8192 dvd length (contents demo_fs DataFile)" "segment_handle demo_writer \<noteq> DataFile"
    by (simp_all add: demo_fs_def contents_def demo_writer_def)
  obtain w' fs' where "undo_chain 2 demo_digests (\<lambda>_. 5) (lsn_index demo_chain) 60 0 (demo_writer, demo_fs) = Some (Inr (0 + length [hd demo_chain]), (w', fs'))"
    and "\<forall>n. disk_page (contents fs' DataFile) n =
        (let us = filter (\<lambda>r. is_page_record (record_type r) \<and> page_no (page_id_from_payload (r_payload r)) = n) demo_chain
         in if us = [] then disk_page (contents demo_fs DataFile) n else before_page demo_digests (last us))"
    using undo_restores_before_images [OF u fs, of "\<lambda>_. 5" 0] unfolding pages(1) by blast
  moreover from this(2) [rule_format, of 3] have "disk_page (contents fs' DataFile) 3 = splice (replicate 8192 0) 0 [7]"
    unfolding Let_def pages(2) b [symmetric] by simp
  ultimately show ?thesis
    by auto
qed

section \<open>Where recovery goes wrong\<close>

text \<open>The compensation record of an update without a before-image: undo leaves the page as it
  is, but the record it logs makes the next redo write a page of zeros.\<close>

lemma clr_without_before_image_zeroes:
  assumes "is_page_record (record_type r)" "record_type r \<notin> {PageInsert, IndexPageInsert}"
    and "extract_before_image H (r_payload r) = None"
    and "compensate H now r pid (w, fs) = (Inr (), (w', fs'))" "segment_handle w \<noteq> DataFile"
  shows "\<exists>clr. wal_log (w', fs') = wal_log (w, fs) @ wal_encode clr \<and> files fs' DataFile = files fs DataFile
    \<and> record_type clr = Clr
    \<and> (min_rec_lsn dpt \<le> r_lsn clr \<and> map_of dpt pid \<noteq> None \<longrightarrow> redo_target att dpt clr = Some (pid, replicate 8192 0))"
proof -
  let ?clr = "wal_record_new H now Clr (r_txid r) 0 (r_prev_lsn r) (build_clr_payload (r_prev_lsn r) pid (replicate 8192 0))"
  have inv: "apply_inverse H r pid fs = (Inr (), fs)"
    using assms(2,3) by (simp add: apply_inverse_def io_return_def)
  have img: "clr_image H r = replicate 8192 0"
    by (simp add: clr_image_def assms(3))
  obtain lsn where a: "wal_append H ?clr (w, fs) = (Inr lsn, (w', fs'))"
    using assms(4) unfolding compensate_def img
    by (elim io_bind_InrE) (simp add: on_fs_def inv io_return_def)
  have pl: "r_payload ?clr = to_be_bytes (r_prev_lsn r) @ to_be_bytes pid @ replicate 8192 0"
    by (simp add: build_clr_payload_def)
  have "extract_page_and_image (set_lsn H ?clr lsn) = Some (pid, replicate 8192 0)"
    by (simp add: extract_page_and_image_def Let_def pl del: record_fields_new(5))
      (simp add: page_id_from_payload_def slice_def)
  then have "min_rec_lsn dpt \<le> lsn \<and> map_of dpt pid \<noteq> None \<longrightarrow>
      redo_target att dpt (set_lsn H ?clr lsn) = Some (pid, replicate 8192 0)"
    by (auto simp: redo_target_def not_less [symmetric])
  moreover have "files fs' DataFile = files fs DataFile"
    using wal_append_frame [OF a assms(5) [symmetric]] .
  ultimately show ?thesis
    using wal_append_Inr [OF a] by (intro exI [of _ "set_lsn H ?clr lsn"]) simp
qed


text \<open>Once the archived segments 0 and 1 have been reclaimed, the probe for the highest segment
  stops at the gap, and a recovery that starts behind segment 0 reads no record at all.\<close>

lemma reclaimed_log_not_loaded:
  assumes "\<forall>i \<in> {0, 1}. \<not> fs_exists (Live i) fs \<and> \<not> fs_exists (Archived i) fs" "0 < unat (drop_bit 32 c)"
  shows "load_all_segments H c fs = (Inr [], fs)"
proof -
  have "highest_segment_id fs = 0"
    unfolding highest_segment_id_def using assms(1)
    by (subst find_loop.simps, subst find_loop.simps) simp
  with assms(2) show ?thesis
    by (simp add: load_all_segments_def io_return_def)
qed

end
