(* ===== verification/Meta.thy ===== *)
theory Meta
  imports DiskPages
begin

text \<open>
  The superblock of \<open>src/src/storage/meta.rs\<close>: its 128-byte image in native (little-endian)
  order, the checksum over the image with the checksum field zero, validation with the
  reason of each rejection, and the choice between the primary copy in page 0 and the mirror
  in page 1.
\<close>

section \<open>Definitions\<close>

definition FORMAT_VERSION :: u32 where
  "FORMAT_VERSION = 1"

definition META_MAGIC :: u64 where
  "META_MAGIC = 0x5247524150480001"

record superblock =
  sb_magic :: u64
  sb_version :: u32
  sb_page_size :: u32
  total_page_count :: u64
  free_page_count :: u64
  next_free_page_id :: u64
  current_wal_lsn :: u64
  last_checkpoint_lsn :: u64
  checkpoint_dirty_page_table_offset :: u64
  generation :: u64
  sb_checksum :: u32
  graph_mode :: u8
  sb_reserved :: bytes

definition SUPERBLOCK_SIZE :: nat where
  "SUPERBLOCK_SIZE = 128"

definition superblock_new :: "u32 \<Rightarrow> superblock" where
  "superblock_new ps =
     \<lparr>sb_magic = META_MAGIC, sb_version = FORMAT_VERSION, sb_page_size = ps, total_page_count = 0,
      free_page_count = 0, next_free_page_id = 1, current_wal_lsn = 0, last_checkpoint_lsn = 0,
      checkpoint_dirty_page_table_offset = 0, generation = 1, sb_checksum = 0, graph_mode = 0,
      sb_reserved = replicate 51 0\<rparr>"

text \<open>The struct in memory and the struct read from memory.\<close>

definition sb_bytes :: "superblock \<Rightarrow> bytes" where
  "sb_bytes sb =
     to_le_bytes (sb_magic sb) @ to_le_bytes (sb_version sb) @ to_le_bytes (sb_page_size sb) @
     to_le_bytes (total_page_count sb) @ to_le_bytes (free_page_count sb) @
     to_le_bytes (next_free_page_id sb) @ to_le_bytes (current_wal_lsn sb) @
     to_le_bytes (last_checkpoint_lsn sb) @ to_le_bytes (checkpoint_dirty_page_table_offset sb) @
     to_le_bytes (generation sb) @ to_le_bytes (sb_checksum sb) @ [graph_mode sb] @ sb_reserved sb"

definition sb_read :: "bytes \<Rightarrow> superblock" where
  "sb_read buf =
     \<lparr>sb_magic = from_le_bytes (slice buf 0 8), sb_version = from_le_bytes (slice buf 8 4),
      sb_page_size = from_le_bytes (slice buf 12 4), total_page_count = from_le_bytes (slice buf 16 8),
      free_page_count = from_le_bytes (slice buf 24 8), next_free_page_id = from_le_bytes (slice buf 32 8),
      current_wal_lsn = from_le_bytes (slice buf 40 8), last_checkpoint_lsn = from_le_bytes (slice buf 48 8),
      checkpoint_dirty_page_table_offset = from_le_bytes (slice buf 56 8),
      generation = from_le_bytes (slice buf 64 8), sb_checksum = from_le_bytes (slice buf 72 4),
      graph_mode = buf ! 76, sb_reserved = slice buf 77 51\<rparr>"

definition sb_compute_checksum :: "digests \<Rightarrow> superblock \<Rightarrow> u32" where
  "sb_compute_checksum H sb = crc32c H (sb_bytes (sb\<lparr>sb_checksum := 0\<rparr>))"

definition sb_update_checksum :: "digests \<Rightarrow> superblock \<Rightarrow> superblock" where
  "sb_update_checksum H sb = sb\<lparr>sb_checksum := sb_compute_checksum H sb\<rparr>"

definition sb_verify_checksum :: "digests \<Rightarrow> superblock \<Rightarrow> bool" where
  "sb_verify_checksum H sb \<longleftrightarrow> sb_checksum sb = sb_compute_checksum H sb"

definition sb_is_valid :: "digests \<Rightarrow> superblock \<Rightarrow> bool" where
  "sb_is_valid H sb \<longleftrightarrow> sb_magic sb = META_MAGIC \<and> sb_version sb = FORMAT_VERSION
     \<and> sb_page_size sb = of_nat PAGE_SIZE \<and> sb_verify_checksum H sb"

definition encode_superblock :: "superblock \<Rightarrow> bytes" where
  "encode_superblock sb = splice (replicate PAGE_SIZE 0) 0 (sb_bytes sb)"

datatype superblock_error =
    TooShort | BadMagic | EndiannessMismatch | ChecksumMismatch
  | UnsupportedVersion u32 u32 | WrongPageSize u32 u32

fun error_kind :: "superblock_error \<Rightarrow> io_error" where
  "error_kind (UnsupportedVersion _ _) = Unsupported"
| "error_kind (WrongPageSize _ _) = Unsupported"
| "error_kind EndiannessMismatch = Unsupported"
| "error_kind TooShort = InvalidData"
| "error_kind BadMagic = InvalidData"
| "error_kind ChecksumMismatch = InvalidData"

fun specificity :: "superblock_error \<Rightarrow> u8" where
  "specificity EndiannessMismatch = 5"
| "specificity (UnsupportedVersion _ _) = 4"
| "specificity (WrongPageSize _ _) = 3"
| "specificity ChecksumMismatch = 2"
| "specificity BadMagic = 1"
| "specificity TooShort = 0"

definition swap_bytes :: "u64 \<Rightarrow> u64" where
  "swap_bytes w = from_be_bytes (to_le_bytes w)"

definition validate_superblock :: "digests \<Rightarrow> bytes \<Rightarrow> superblock_error + superblock" where
  "validate_superblock H buf =
     (if length buf < SUPERBLOCK_SIZE then Inl TooShort
      else let sb = sb_read buf in
        if sb_magic sb \<noteq> META_MAGIC then
          (if sb_magic sb = swap_bytes META_MAGIC then Inl EndiannessMismatch else Inl BadMagic)
        else if \<not> sb_verify_checksum H sb then Inl ChecksumMismatch
        else if sb_version sb \<noteq> FORMAT_VERSION then Inl (UnsupportedVersion (sb_version sb) FORMAT_VERSION)
        else if sb_page_size sb \<noteq> of_nat PAGE_SIZE then Inl (WrongPageSize (sb_page_size sb) (of_nat PAGE_SIZE))
        else Inr sb)"

definition decode_superblock :: "digests \<Rightarrow> bytes \<Rightarrow> superblock option" where
  "decode_superblock H buf = (case validate_superblock H buf of Inr sb \<Rightarrow> Some sb | Inl _ \<Rightarrow> None)"

text \<open>The choice between the two copies.\<close>

fun choose_copy ::
    "superblock_error + superblock \<Rightarrow> superblock_error + superblock \<Rightarrow> io_error + superblock" where
  "choose_copy (Inr p) (Inr m) = Inr (if generation m > generation p then m else p)"
| "choose_copy (Inr p) (Inl _) = Inr p"
| "choose_copy (Inl _) (Inr m) = Inr m"
| "choose_copy (Inl ep) (Inl em) = Inl (error_kind (if specificity em > specificity ep then em else ep))"

definition load_superblock :: "digests \<Rightarrow> (superblock, wal_fs) io" where
  "load_superblock H =
     io_bind (fs_open DataFile False) (\<lambda>h.
     io_bind (fh_len h) (\<lambda>file_len.
       if file_len < 2 * PAGE_SIZE then io_throw InvalidData
       else io_bind (fh_read_at h 0 PAGE_SIZE) (\<lambda>primary_buf.
            io_bind (fh_read_at h PAGE_SIZE PAGE_SIZE) (\<lambda>mirror_buf.
              (\<lambda>fs. (choose_copy (validate_superblock H primary_buf) (validate_superblock H mirror_buf), fs))))))"

section \<open>The image\<close>

lemma length_sb_bytes [simp]: "length (sb_bytes sb) = 77 + length (sb_reserved sb)"
  by (simp add: sb_bytes_def)

lemma sb_read_bytes:
  assumes "length (sb_reserved sb) = 51"
  shows "sb_read (sb_bytes sb @ rest) = sb"
  using assms by (simp add: sb_read_def sb_bytes_def slice_def nth_append)

lemma sb_read_encode:
  assumes "length (sb_reserved sb) = 51"
  shows "length (encode_superblock sb) = 8192" "sb_read (encode_superblock sb @ rest) = sb"
proof -
  have "encode_superblock sb = sb_bytes sb @ drop 128 (replicate 8192 0)"
    using assms by (simp add: encode_superblock_def splice_def)
  then show "sb_read (encode_superblock sb @ rest) = sb"
    using sb_read_bytes [OF assms] by simp
  show "length (encode_superblock sb) = 8192"
    using assms by (simp add: encode_superblock_def)
qed

definition sb_ok :: "digests \<Rightarrow> superblock \<Rightarrow> bool" where
  "sb_ok H sb \<longleftrightarrow> sb_is_valid H sb \<and> length (sb_reserved sb) = 51"

lemma validate_encode: "sb_ok H sb \<Longrightarrow> validate_superblock H (encode_superblock sb @ rest) = Inr sb"
  by (simp add: validate_superblock_def sb_ok_def sb_is_valid_def sb_read_encode SUPERBLOCK_SIZE_def Let_def)

interpretation superblock_format: codec encode_superblock "decode_superblock H" "sb_ok H"
  by unfold_locales (simp add: decode_superblock_def validate_encode)

lemma sb_update_ok:
  assumes "sb_magic sb = META_MAGIC" "sb_version sb = FORMAT_VERSION" "sb_page_size sb = 8192"
    and "length (sb_reserved sb) = 51"
  shows "sb_ok H (sb_update_checksum H sb)"
  using assms by (simp add: sb_ok_def sb_is_valid_def sb_update_checksum_def sb_verify_checksum_def sb_compute_checksum_def)

lemma load_superblock_pages:
  assumes "plan fs = []" "files fs DataFile = Some d" "16384 \<le> length d"
  shows "load_superblock H fs = (choose_copy (validate_superblock H (disk_page d 0)) (validate_superblock H (disk_page d 1)), fs)"
  using assms by (simp add: load_superblock_def fs_open_def fs_exists_def fh_len_def fh_read_at_def contents_def disk_page_def)

end
