(* ===== verification/Bitmap.thy ===== *)
theory Bitmap
  imports Page
begin

text \<open>
  The allocation bitmaps of \<open>src/src/storage/bitmap.rs\<close>: one bit per page behind the header of
  a bitmap page, and the cache of free page ids. Indexing past the page panics in the source;
  that outcome is \<open>None\<close>. The locale \<open>page_set\<close> is the contract the page manager relies on:
  a bitmap is a set of page ids of its range.
\<close>

section \<open>Definitions\<close>

definition PAGES_PER_BITMAP :: nat where
  "PAGES_PER_BITMAP = (PAGE_SIZE - HEADER_SIZE) * 8"

record bitmap_page =
  bm_buf :: bytes
  bitmap_slot :: u64

definition bitmap_new :: "u64 \<Rightarrow> u64 \<Rightarrow> bitmap_page" where
  "bitmap_new file_page_id slot = \<lparr>bm_buf = page_init file_page_id Page.Bitmap, bitmap_slot = slot\<rparr>"

definition bitmap_from_buf :: "bytes \<Rightarrow> u64 \<Rightarrow> bitmap_page" where
  "bitmap_from_buf buf slot = \<lparr>bm_buf = buf, bitmap_slot = slot\<rparr>"

definition base_page_id :: "bitmap_page \<Rightarrow> u64" where
  "base_page_id b = bitmap_slot b * of_nat PAGES_PER_BITMAP"

definition local_index :: "bitmap_page \<Rightarrow> u64 \<Rightarrow> nat" where
  "local_index b global_id = unat (global_id - base_page_id b)"

definition bit_at :: "bytes \<Rightarrow> nat \<Rightarrow> bool" where
  "bit_at buf i \<longleftrightarrow> (buf ! (HEADER_SIZE + i div 8) AND push_bit (i mod 8) 1) \<noteq> 0"

definition is_set :: "bitmap_page \<Rightarrow> u64 \<Rightarrow> bool option" where
  "is_set b global_id =
     (let i = local_index b global_id in
      if HEADER_SIZE + i div 8 < length (bm_buf b) then Some (bit_at (bm_buf b) i) else None)"

definition bitmap_allocate :: "bitmap_page \<Rightarrow> u64 \<Rightarrow> bitmap_page option" where
  "bitmap_allocate b global_id =
     (let i = local_index b global_id; k = HEADER_SIZE + i div 8; buf = bm_buf b in
      if k < length buf then Some (b\<lparr>bm_buf := buf[k := buf ! k OR push_bit (i mod 8) 1]\<rparr>) else None)"

definition bitmap_free :: "bitmap_page \<Rightarrow> u64 \<Rightarrow> bitmap_page option" where
  "bitmap_free b global_id =
     (let i = local_index b global_id; k = HEADER_SIZE + i div 8; buf = bm_buf b in
      if k < length buf then Some (b\<lparr>bm_buf := buf[k := buf ! k AND NOT (push_bit (i mod 8) 1)]\<rparr>) else None)"

definition find_first_free :: "bitmap_page \<Rightarrow> nat \<Rightarrow> u64 option" where
  "find_first_free b start_local =
     map_option (\<lambda>i. base_page_id b + of_nat i)
       (find (\<lambda>i. \<not> bit_at (bm_buf b) i) [start_local..<PAGES_PER_BITMAP])"

definition bitmap_allocated_pages :: "bitmap_page \<Rightarrow> u64 list" where
  "bitmap_allocated_pages b =
     map (\<lambda>i. base_page_id b + of_nat i) (filter (bit_at (bm_buf b)) [0..<PAGES_PER_BITMAP])"

record free_list_cache =
  cache_pages :: "u64 list"
  batch_size :: nat

definition cache_new :: "nat \<Rightarrow> free_list_cache" where
  "cache_new n = \<lparr>cache_pages = [], batch_size = n\<rparr>"

definition cache_pop :: "free_list_cache \<Rightarrow> (u64 \<times> free_list_cache) option" where
  "cache_pop c =
     (if cache_pages c = [] then None
      else Some (last (cache_pages c), c\<lparr>cache_pages := butlast (cache_pages c)\<rparr>))"

definition cache_push :: "free_list_cache \<Rightarrow> u64 \<Rightarrow> free_list_cache" where
  "cache_push c pid = c\<lparr>cache_pages := cache_pages c @ [pid]\<rparr>"

section \<open>Bits\<close>

lemma pages_per_bitmap [simp]: "PAGES_PER_BITMAP = 65024"
  by (simp add: PAGES_PER_BITMAP_def)

lemma bit_at_iff: "bit_at buf i \<longleftrightarrow> bit (buf ! (64 + i div 8)) (i mod 8)"
  by (simp add: bit_at_def bit_iff_and_push_bit_not_eq_0)

lemma same_bit: "(i :: nat) div 8 = j div 8 \<Longrightarrow> i mod 8 = j mod 8 \<longleftrightarrow> i = j"
  by (metis div_mult_mod_eq)

lemma bit_at_set:
  assumes "64 + i div 8 < length buf"
  shows "bit_at (buf[64 + i div 8 := buf ! (64 + i div 8) OR push_bit (i mod 8) 1]) j \<longleftrightarrow> j = i \<or> bit_at buf j"
proof (cases "i div 8 = j div 8")
  case True
  have "i mod 8 < 8"
    by simp
  then show ?thesis
    using assms True same_bit [OF True] by (auto simp: bit_at_iff bit_simps)
qed (auto simp: bit_at_iff)

lemma bit_at_clear:
  assumes "64 + i div 8 < length buf"
  shows "bit_at (buf[64 + i div 8 := buf ! (64 + i div 8) AND NOT (push_bit (i mod 8) 1)]) j \<longleftrightarrow> j \<noteq> i \<and> bit_at buf j"
proof (cases "i div 8 = j div 8")
  case True
  have "i mod 8 < 8" "j mod 8 < 8"
    by simp_all
  then show ?thesis
    using assms True same_bit [OF True] by (auto simp: bit_at_iff bit_simps)
qed (auto simp: bit_at_iff)

section \<open>A bitmap is a set of page ids\<close>

text \<open>The contract of the bitmaps: on a well-formed state and ids of its range, the operations
  never panic, keep the range and the form, and behave as those of a set.\<close>

locale page_set =
  fixes mem :: "'s \<Rightarrow> u64 \<Rightarrow> bool option"
    and add :: "'s \<Rightarrow> u64 \<Rightarrow> 's option"
    and del :: "'s \<Rightarrow> u64 \<Rightarrow> 's option"
    and wf :: "'s \<Rightarrow> bool"
    and rng :: "'s \<Rightarrow> u64 set"
  assumes mem_total: "wf s \<Longrightarrow> p \<in> rng s \<Longrightarrow> mem s p \<noteq> None"
    and add_law: "wf s \<Longrightarrow> p \<in> rng s \<Longrightarrow>
      \<exists>s'. add s p = Some s' \<and> wf s' \<and> rng s' = rng s \<and> (\<forall>q \<in> rng s. mem s' q = Some True \<longleftrightarrow> q = p \<or> mem s q = Some True)"
    and del_law: "wf s \<Longrightarrow> p \<in> rng s \<Longrightarrow>
      \<exists>s'. del s p = Some s' \<and> wf s' \<and> rng s' = rng s \<and> (\<forall>q \<in> rng s. mem s' q = Some True \<longleftrightarrow> q \<noteq> p \<and> mem s q = Some True)"
begin

definition elems :: "'s \<Rightarrow> u64 set" where
  "elems s = {p \<in> rng s. mem s p = Some True}"

lemma mem_elems: "wf s \<Longrightarrow> p \<in> rng s \<Longrightarrow> mem s p = Some (p \<in> elems s)"
  using mem_total by (fastforce simp: elems_def)

lemma elems_add: "wf s \<Longrightarrow> p \<in> rng s \<Longrightarrow> \<exists>s'. add s p = Some s' \<and> wf s' \<and> rng s' = rng s \<and> elems s' = insert p (elems s)"
  using add_law [of s p] by (auto simp: elems_def)

lemma elems_del: "wf s \<Longrightarrow> p \<in> rng s \<Longrightarrow> \<exists>s'. del s p = Some s' \<and> wf s' \<and> rng s' = rng s \<and> elems s' = elems s - {p}"
  using del_law [of s p] by (auto simp: elems_def)

end

definition bitmap_wf :: "bitmap_page \<Rightarrow> bool" where
  "bitmap_wf b \<longleftrightarrow> length (bm_buf b) = 8192"

definition bitmap_range :: "bitmap_page \<Rightarrow> u64 set" where
  "bitmap_range b = {p. local_index b p < 65024}"

lemma local_index_inj: "local_index b p = local_index b q \<longleftrightarrow> p = q"
  by (simp add: local_index_def flip: word_unat_eq_iff)

interpretation bitmap: page_set is_set bitmap_allocate bitmap_free bitmap_wf bitmap_range
proof unfold_locales
  fix b p
  assume wf: "bitmap_wf b" and p: "p \<in> bitmap_range b"
  then have k: "64 + local_index b p div 8 < length (bm_buf b)"
    by (simp add: bitmap_wf_def bitmap_range_def)
  show "is_set b p \<noteq> None"
    using k by (simp add: is_set_def Let_def)
  have li: "local_index (b\<lparr>bm_buf := x\<rparr>) q = local_index b q" for x q
    by (simp add: local_index_def base_page_id_def)
  have q: "is_set b' q = Some True \<longleftrightarrow> bit_at (bm_buf b') (local_index b' q)"
    if "length (bm_buf b') = 8192" "local_index b' q < 65024" for b' q
    using that by (auto simp: is_set_def Let_def)
  show "\<exists>s'. bitmap_allocate b p = Some s' \<and> bitmap_wf s' \<and> bitmap_range s' = bitmap_range b
      \<and> (\<forall>q \<in> bitmap_range b. is_set s' q = Some True \<longleftrightarrow> q = p \<or> is_set b q = Some True)"
    using wf k by (auto simp: bitmap_allocate_def Let_def bitmap_wf_def bitmap_range_def li q bit_at_set [simplified] local_index_inj)
  show "\<exists>s'. bitmap_free b p = Some s' \<and> bitmap_wf s' \<and> bitmap_range s' = bitmap_range b
      \<and> (\<forall>q \<in> bitmap_range b. is_set s' q = Some True \<longleftrightarrow> q \<noteq> p \<and> is_set b q = Some True)"
    using wf k by (auto simp: bitmap_free_def Let_def bitmap_wf_def bitmap_range_def li q bit_at_clear [simplified] local_index_inj)
qed

end
