(* ===== verification/DoubleWrite.thy ===== *)
theory DoubleWrite
  imports DiskPages
begin

text \<open>
  The double-write buffer of \<open>src/src/wal/doublewrite.rs\<close>, kept in the file \<open>DwFile\<close>: a batch
  of page images is made durable there before the pages are written in place, and on start
  the images replace those pages that fail their checksum.
\<close>

section \<open>Definitions\<close>

definition DOUBLEWRITE_CAPACITY :: nat where
  "DOUBLEWRITE_CAPACITY = 128"

definition ENTRY_SIZE :: nat where
  "ENTRY_SIZE = 8 + PAGE_SIZE"

definition dw_open :: "(unit, wal_fs) io" where
  "dw_open =
     io_bind (fs_create_dir_all DataDir) (\<lambda>_ fs.
       if \<not> fs_exists DwFile fs
       then io_bind (fs_open DwFile True) (\<lambda>h. fh_sync h) fs
       else (Inr (), fs))"

text \<open>The batch buffer: the count, then each id with its image, cut or padded to one page.\<close>

definition dw_image :: "bytes \<Rightarrow> bytes" where
  "dw_image img = take PAGE_SIZE img @ replicate (PAGE_SIZE - length img) 0"

definition batch_bytes :: "(u64 \<times> bytes) list \<Rightarrow> bytes" where
  "batch_bytes batch =
     to_be_bytes (of_nat (length batch) :: u32) @
     concat (map (\<lambda>(pid, img). to_be_bytes pid @ dw_image img) batch)"

definition write_batch :: "(u64 \<times> bytes) list \<Rightarrow> (unit, wal_fs) io" where
  "write_batch pages =
     (let batch = take (min (length pages) DOUBLEWRITE_CAPACITY) pages;
          n = 4 + length batch * ENTRY_SIZE; buf = batch_bytes batch
      in io_bind (fs_open DwFile True) (\<lambda>h.
         io_bind (fh_write_at h buf 0) (\<lambda>_.
         io_bind (fh_set_len h n) (\<lambda>_. fh_sync h))))"

definition dw_entry :: "bytes \<Rightarrow> nat \<Rightarrow> u64 \<times> bytes" where
  "dw_entry raw i =
     (let off = 4 + i * ENTRY_SIZE
      in (from_be_bytes (slice raw off 8), slice raw (off + 8) PAGE_SIZE))"

definition dw_parse :: "bytes \<Rightarrow> (u64 \<times> bytes) list" where
  "dw_parse raw =
     (let count = unat (from_be_bytes (slice raw 0 4) :: u32) in
      if length raw < 4 + count * ENTRY_SIZE then [] else map (dw_entry raw) [0..<count])"

definition read_entries :: "((u64 \<times> bytes) list, wal_fs) io" where
  "read_entries = (\<lambda>fs.
     if \<not> fs_exists DwFile fs then (Inr [], fs)
     else io_bind (fs_open DwFile False) (\<lambda>h.
          io_bind (fh_len h) (\<lambda>file_len.
            if file_len < 4 then io_return []
            else io_bind (fh_read_at h 0 file_len) (\<lambda>raw. io_return (dw_parse raw)))) fs)"

definition verify_page_checksum :: "digests \<Rightarrow> bytes \<Rightarrow> bool" where
  "verify_page_checksum H page =
     (if length page < PAGE_SIZE then False
      else if list_all (\<lambda>b. b = 0) page then True
      else verify_checksum_bytes H (take PAGE_SIZE page))"

definition page_end :: "u64 \<Rightarrow> nat" where
  "page_end pid = unat (pid * 8192 + 8192)"

definition is_torn :: "digests \<Rightarrow> u64 \<Rightarrow> (bool, wal_fs) io" where
  "is_torn H pid = (\<lambda>fs.
     if \<not> fs_exists DataFile fs then (Inr True, fs)
     else io_bind (fs_open DataFile False) (\<lambda>h.
          io_bind (fh_len h) (\<lambda>file_len.
            if file_len < page_end pid then io_return True
            else io_bind (fh_read_at h (page_pos pid) PAGE_SIZE) (\<lambda>page_buf.
                   io_return (\<not> verify_page_checksum H page_buf)))) fs)"

definition restore_image :: "u64 \<Rightarrow> bytes \<Rightarrow> (unit, wal_fs) io" where
  "restore_image pid img =
     io_bind (fs_open DataFile True) (\<lambda>h.
     io_bind (fh_write_at h (dw_image img) (page_pos pid)) (\<lambda>_. fh_sync h))"

fun restore_loop :: "digests \<Rightarrow> (u64 \<times> bytes) list \<Rightarrow> nat \<Rightarrow> (nat, wal_fs) io" where
  "restore_loop H [] restored = io_return restored"
| "restore_loop H ((pid, img) # entries) restored =
     io_bind (is_torn H pid) (\<lambda>torn.
       if torn then io_bind (restore_image pid img) (\<lambda>_. restore_loop H entries (restored + 1))
       else restore_loop H entries restored)"

definition recover_torn_pages :: "digests \<Rightarrow> (nat, wal_fs) io" where
  "recover_torn_pages H =
     io_bind read_entries (\<lambda>entries. if entries = [] then io_return 0 else restore_loop H entries 0)"

definition dw_clear :: "(unit, wal_fs) io" where
  "dw_clear =
     io_bind (fs_open DwFile True) (\<lambda>h. io_bind (fh_set_len h 0) (\<lambda>_. fh_sync h))"

definition valid_image_for :: "digests \<Rightarrow> u64 \<Rightarrow> (bytes option, wal_fs) io" where
  "valid_image_for H pid =
     io_bind read_entries (\<lambda>entries.
       io_return (map_option snd (find (\<lambda>(p, img). p = pid \<and> verify_page_checksum H img) entries)))"

section \<open>The batch format\<close>

lemma dw_image_full [simp]: "length img = 8192 \<Longrightarrow> dw_image img = img"
  by (simp add: dw_image_def)

lemma length_dw_image [simp]: "length (dw_image img) = 8192"
  by (simp add: dw_image_def)

lemma length_batch_bytes: "length (batch_bytes batch) = 4 + length batch * 8200"
  by (induction batch) (auto simp: batch_bytes_def)

lemma dw_entry_batch:
  assumes "i < length batch"
  shows "dw_entry (batch_bytes batch @ rest) i = (fst (batch ! i), dw_image (snd (batch ! i)))"
proof -
  let ?e = "\<lambda>(pid :: u64, img). to_be_bytes pid @ dw_image img"
  have len: "length (concat (map ?e xs)) = 8200 * length xs" for xs
    by (induction xs) auto
  obtain p im where bi: "batch ! i = (p, im)"
    by (cases "batch ! i")
  have split: "concat (map ?e batch) =
      concat (map ?e (take i batch)) @ (to_be_bytes p @ dw_image im) @ concat (map ?e (drop (Suc i) batch))"
    using bi by (subst id_take_nth_drop [OF assms]) simp
  define pre where "pre = to_be_bytes (of_nat (length batch) :: u32) @ concat (map ?e (take i batch))"
  define post where "post = concat (map ?e (drop (Suc i) batch)) @ rest"
  have e: "batch_bytes batch @ rest = pre @ to_be_bytes p @ dw_image im @ post"
    unfolding batch_bytes_def split pre_def post_def by simp
  have lp: "length pre = 4 + i * 8200"
    using assms by (simp add: pre_def len)
  show ?thesis
    unfolding e dw_entry_def Let_def ENTRY_SIZE_def bi
    using lp by (simp add: slice_def)
qed

lemma dw_parse_batch:
  assumes "length batch < 2 ^ 32"
  shows "dw_parse (batch_bytes batch @ rest) = map (\<lambda>(pid, img). (pid, dw_image img)) batch"
proof -
  have "slice (batch_bytes batch @ rest) 0 4 = to_be_bytes (of_nat (length batch) :: u32)"
    by (simp add: batch_bytes_def slice_def)
  then have c: "unat (from_be_bytes (slice (batch_bytes batch @ rest) 0 4) :: u32) = length batch"
    using assms by (simp add: unat_of_nat)
  have "map (dw_entry (batch_bytes batch @ rest)) [0..<length batch] = map (\<lambda>(pid, img). (pid, dw_image img)) batch"
    by (rule nth_equalityI) (simp_all add: dw_entry_batch split_beta)
  then show ?thesis
    unfolding dw_parse_def Let_def c by (simp add: length_batch_bytes ENTRY_SIZE_def)
qed

lemma page_end_small:
  assumes "unat pid < 2 ^ 51 - 1"
  shows "page_end pid = 8192 * unat pid + 8192" "page_pos pid = 8192 * unat pid"
proof -
  have "unat (pid * 8192 :: u64) = unat pid * 8192"
    using assms by (simp add: unat_word_ariths)
  then show "page_end pid = 8192 * unat pid + 8192" "page_pos pid = 8192 * unat pid"
    using assms by (simp_all add: page_end_def page_pos_def unat_word_ariths)
qed

end
