(* ===== verification/PageManager.thy ===== *)
theory PageManager
  imports Meta Bitmap DoubleWrite
begin

text \<open>
  The page manager of \<open>src/src/storage/manager.rs\<close>: superblock, chain of region bitmaps, free
  list and the direct path to the data file (no buffer pool attached, so reads and writes go
  to the file and freeing invalidates no frame). A panic of an operation is \<open>None\<close>; a page
  id is a \<open>u64\<close>, and the allocator's counters wrap as in a release build.
\<close>

section \<open>Definitions\<close>

definition PRIMARY_SB_PAGE_ID :: u64 where
  "PRIMARY_SB_PAGE_ID = 0"

definition MIRROR_SB_PAGE_ID :: u64 where
  "MIRROR_SB_PAGE_ID = 1"

definition FIRST_BITMAP_PAGE_ID :: u64 where
  "FIRST_BITMAP_PAGE_ID = 2"

definition FIRST_DATA_PAGE_ID :: u64 where
  "FIRST_DATA_PAGE_ID = 3"

definition MIN_FILE_SIZE :: nat where
  "MIN_FILE_SIZE = unat (FIRST_DATA_PAGE_ID * of_nat PAGE_SIZE)"

definition MAX_ADDRESSABLE_PAGE_ID :: u64 where
  "MAX_ADDRESSABLE_PAGE_ID = (- 1) div of_nat PAGE_SIZE - 1"

definition CACHE_BATCH :: nat where
  "CACHE_BATCH = 64"

definition num_bitmap_pages :: "u64 \<Rightarrow> nat" where
  "num_bitmap_pages nf =
     (if nf = 0 then 1 else (unat nf + (PAGES_PER_BITMAP - 1)) div PAGES_PER_BITMAP)"

record page_manager =
  pm_superblock :: superblock
  pm_bitmaps :: "bitmap_page list"
  pm_free_cache :: free_list_cache
  pm_data_handle :: "wal_path option"
  pm_doublewrite :: bool

definition opt_bind :: "'a option \<Rightarrow> ('a \<Rightarrow> 'b option) \<Rightarrow> 'b option" where
  "opt_bind x f = (case x of None \<Rightarrow> None | Some y \<Rightarrow> f y)"

definition bitmap_physical_page_id :: "u64 \<Rightarrow> u64" where
  "bitmap_physical_page_id slot = (if slot = 0 then FIRST_BITMAP_PAGE_ID else slot * of_nat PAGES_PER_BITMAP)"

definition is_bitmap_page :: "u64 \<Rightarrow> bool" where
  "is_bitmap_page pid \<longleftrightarrow>
     pid = FIRST_BITMAP_PAGE_ID \<or> (pid \<noteq> 0 \<and> pid mod of_nat PAGES_PER_BITMAP = 0)"

text \<open>A fresh bitmap of a region, with its own page and, in region 0, the superblocks reserved.\<close>

definition new_region_bitmap :: "u64 \<Rightarrow> bitmap_page option" where
  "new_region_bitmap new_slot =
     (let phys = bitmap_physical_page_id new_slot in
      opt_bind (bitmap_allocate (bitmap_new phys new_slot) phys) (\<lambda>bmp.
        if new_slot = 0 then
          opt_bind (bitmap_allocate bmp PRIMARY_SB_PAGE_ID) (\<lambda>bmp. bitmap_allocate bmp MIRROR_SB_PAGE_ID)
        else Some bmp))"

function ensure_bitmap :: "nat \<Rightarrow> bitmap_page list \<Rightarrow> bitmap_page list option" where
  "ensure_bitmap slot bitmaps =
     (if length bitmaps \<le> slot then
        opt_bind (new_region_bitmap (of_nat (length bitmaps))) (\<lambda>bmp. ensure_bitmap slot (bitmaps @ [bmp]))
      else Some bitmaps)"
  by pat_completeness auto
termination
  by (relation "measure (\<lambda>(slot, bitmaps). Suc slot - length bitmaps)") auto

declare ensure_bitmap.simps [simp del]

text \<open>\<open>self.bitmaps[slot].allocate(pid)\<close>\<close>

definition mark_allocated :: "bitmap_page list \<Rightarrow> nat \<Rightarrow> u64 \<Rightarrow> bitmap_page list option" where
  "mark_allocated bitmaps slot pid =
     (if slot < length bitmaps then
        opt_bind (bitmap_allocate (bitmaps ! slot) pid) (\<lambda>b. Some (bitmaps[slot := b]))
      else None)"

definition page_offset :: "u64 \<Rightarrow> io_error + nat" where
  "page_offset pid =
     (let off = unat pid * PAGE_SIZE in
      if off < 2 ^ 64 \<and> off + PAGE_SIZE < 2 ^ 64 then Inr off else Inl InvalidInput)"

function extend_alloc :: "page_manager \<Rightarrow> ((io_error + u64) \<times> page_manager) option" where
  "extend_alloc pm =
     (let sb = pm_superblock pm; pid = next_free_page_id sb in
      if pid > MAX_ADDRESSABLE_PAGE_ID then Some (Inl OutOfMemory, pm)
      else let sb' = sb\<lparr>next_free_page_id := pid + 1, total_page_count := total_page_count sb + 1\<rparr>;
               slot = unat pid div PAGES_PER_BITMAP
        in opt_bind (ensure_bitmap slot (pm_bitmaps pm)) (\<lambda>bms.
           opt_bind (mark_allocated bms slot pid) (\<lambda>bms.
             let pm' = pm\<lparr>pm_superblock := sb', pm_bitmaps := bms\<rparr>
             in if is_bitmap_page pid then extend_alloc pm' else Some (Inr pid, pm'))))"
  by pat_completeness auto

lemma max_addressable: "unat MAX_ADDRESSABLE_PAGE_ID = 2 ^ 51 - 2"
proof -
  have "unat ((- 1 :: u64) div 8192) = 2 ^ 51 - 1"
    by (simp add: unat_div unat_u64_max [simplified])
  then show ?thesis
    by (simp add: MAX_ADDRESSABLE_PAGE_ID_def unat_sub word_le_nat_alt)
qed

lemma opt_bind_cong [fundef_cong]:
  "x = y \<Longrightarrow> (\<And>a. y = Some a \<Longrightarrow> f a = g a) \<Longrightarrow> opt_bind x f = opt_bind y g"
  by (auto simp: opt_bind_def split: option.split)

termination extend_alloc
proof (relation "measure (\<lambda>pm. 2 ^ 64 - unat (next_free_page_id (pm_superblock pm)))", goal_cases)
  case (2 pm sb pid sb' slot bms bms' pm')
  have "unat pid \<le> 2 ^ 51 - 2"
    using 2 by (simp add: word_less_nat_alt max_addressable)
  then have "unat (pid + 1) = unat pid + 1"
    by (simp add: unat_word_ariths)
  with 2 \<open>unat pid \<le> 2 ^ 51 - 2\<close> show ?case
    by simp
qed simp

declare extend_alloc.simps [simp del]

definition saturating_sub :: "u64 \<Rightarrow> u64 \<Rightarrow> u64" where
  "saturating_sub a b = (if b \<le> a then a - b else 0)"

definition try_allocate_page :: "page_manager \<Rightarrow> ((io_error + u64) \<times> page_manager) option" where
  "try_allocate_page pm =
     (case cache_pop (pm_free_cache pm) of
        Some (pid, cache) \<Rightarrow>
          let bitmap_idx = unat pid div PAGES_PER_BITMAP; sb = pm_superblock pm in
          opt_bind (if bitmap_idx < length (pm_bitmaps pm) then mark_allocated (pm_bitmaps pm) bitmap_idx pid
                    else Some (pm_bitmaps pm)) (\<lambda>bms.
          Some (Inr pid, pm\<lparr>pm_free_cache := cache, pm_bitmaps := bms,
            pm_superblock := sb\<lparr>free_page_count := saturating_sub (free_page_count sb) 1\<rparr>\<rparr>))
      | None \<Rightarrow> extend_alloc pm)"

text \<open>The infallible wrapper panics on an error.\<close>

definition allocate_page :: "page_manager \<Rightarrow> (u64 \<times> page_manager) option" where
  "allocate_page pm =
     (case try_allocate_page pm of Some (Inr pid, pm') \<Rightarrow> Some (pid, pm') | _ \<Rightarrow> None)"

definition free_page :: "page_manager \<Rightarrow> u64 \<Rightarrow> page_manager option" where
  "free_page pm pid =
     (if pid < FIRST_DATA_PAGE_ID \<or> is_bitmap_page pid then Some pm
      else let bitmap_idx = unat pid div PAGES_PER_BITMAP; bms = pm_bitmaps pm; sb = pm_superblock pm in
        if bitmap_idx \<ge> length bms then Some pm
        else opt_bind (is_set (bms ! bitmap_idx) pid) (\<lambda>b.
          if \<not> b then Some pm
          else opt_bind (bitmap_free (bms ! bitmap_idx) pid) (\<lambda>bm.
            Some (pm\<lparr>pm_bitmaps := bms[bitmap_idx := bm], pm_free_cache := cache_push (pm_free_cache pm) pid,
              pm_superblock := sb\<lparr>free_page_count := free_page_count sb + 1\<rparr>\<rparr>))))"

text \<open>The scan of \<open>rebuild_cache\<close> over the bits of one bitmap; \<open>full\<close> says the batch is complete.\<close>

fun rebuild_bits :: "bitmap_page \<Rightarrow> nat list \<Rightarrow> free_list_cache \<Rightarrow> (bool \<times> free_list_cache) option" where
  "rebuild_bits bitmap [] cache = Some (False, cache)"
| "rebuild_bits bitmap (i # is) cache =
     (if length (cache_pages cache) \<ge> batch_size cache then Some (True, cache)
      else let pid = base_page_id bitmap + of_nat i in
        if pid < FIRST_DATA_PAGE_ID \<or> is_bitmap_page pid then rebuild_bits bitmap is cache
        else opt_bind (is_set bitmap pid) (\<lambda>b.
          if \<not> b then rebuild_bits bitmap is (cache_push cache pid) else rebuild_bits bitmap is cache))"

fun rebuild_loop :: "bitmap_page list \<Rightarrow> free_list_cache \<Rightarrow> free_list_cache option" where
  "rebuild_loop [] cache = Some cache"
| "rebuild_loop (bitmap # bitmaps) cache =
     opt_bind (rebuild_bits bitmap [0..<PAGES_PER_BITMAP] cache) (\<lambda>(full, cache).
       if full then Some cache else rebuild_loop bitmaps cache)"

definition rebuild_cache :: "page_manager \<Rightarrow> page_manager option" where
  "rebuild_cache pm =
     opt_bind (rebuild_loop (pm_bitmaps pm) ((pm_free_cache pm)\<lparr>cache_pages := []\<rparr>))
       (\<lambda>c. Some (pm\<lparr>pm_free_cache := c\<rparr>))"

definition pm_allocated_pages :: "page_manager \<Rightarrow> u64 list" where
  "pm_allocated_pages pm = concat (map bitmap_allocated_pages (pm_bitmaps pm))"

subsection \<open>Creating and opening\<close>

definition pm_init :: "digests \<Rightarrow> u32 \<Rightarrow> wal_fs \<Rightarrow> ((io_error + page_manager) \<times> wal_fs) option" where
  "pm_init H page_size fs =
     (let sb = sb_update_checksum H ((superblock_new page_size)\<lparr>total_page_count := FIRST_DATA_PAGE_ID,
                 free_page_count := 0, next_free_page_id := FIRST_DATA_PAGE_ID\<rparr>)
      in opt_bind (bitmap_allocate (bitmap_new FIRST_BITMAP_PAGE_ID 0) PRIMARY_SB_PAGE_ID) (\<lambda>b.
         opt_bind (bitmap_allocate b MIRROR_SB_PAGE_ID) (\<lambda>b.
         opt_bind (bitmap_allocate b FIRST_BITMAP_PAGE_ID) (\<lambda>b.
           let b = b\<lparr>bm_buf := update_checksum_bytes H (bm_buf b)\<rparr>
           in Some (io_bind (fs_open DataFile True) (\<lambda>h.
              io_bind (\<lambda>fs. case fh_len h fs of (Inr n, fs') \<Rightarrow> (Inr n, fs') | (Inl _, fs') \<Rightarrow> (Inr 0, fs')) (\<lambda>current_len.
              io_bind (if current_len < MIN_FILE_SIZE
                       then io_bind (fh_set_len h MIN_FILE_SIZE) (\<lambda>_. fh_sync h) else io_return ()) (\<lambda>_.
              io_return \<lparr>pm_superblock = sb, pm_bitmaps = [b], pm_free_cache = cache_new CACHE_BATCH,
                         pm_data_handle = Some h, pm_doublewrite = False\<rparr>))) fs)))))"

definition open_multi ::
    "superblock \<Rightarrow> bytes list \<Rightarrow> wal_fs \<Rightarrow> ((io_error + page_manager) \<times> wal_fs) option" where
  "open_multi sb bitmap_bufs fs =
     (case fs_open DataFile False fs of
        (Inl e, fs') \<Rightarrow> Some (Inl e, fs')
      | (Inr h, fs') \<Rightarrow>
          opt_bind (rebuild_cache \<lparr>pm_superblock = sb,
              pm_bitmaps = map (\<lambda>(idx, buf). bitmap_from_buf buf (of_nat idx)) (enumerate 0 bitmap_bufs),
              pm_free_cache = cache_new CACHE_BATCH, pm_data_handle = Some h, pm_doublewrite = False\<rparr>)
            (\<lambda>pm. Some (Inr pm, fs')))"

definition pm_open :: "superblock \<Rightarrow> bytes \<Rightarrow> wal_fs \<Rightarrow> ((io_error + page_manager) \<times> wal_fs) option" where
  "pm_open sb bitmap_buf = open_multi sb [bitmap_buf]"


definition set_doublewrite :: "page_manager \<Rightarrow> page_manager" where
  "set_doublewrite pm = pm\<lparr>pm_doublewrite := True\<rparr>"

definition pm_recover_torn_pages :: "digests \<Rightarrow> page_manager \<Rightarrow> (nat, wal_fs) io" where
  "pm_recover_torn_pages H pm = (if pm_doublewrite pm then recover_torn_pages H else io_return 0)"

text \<open>The scan of \<open>reconcile_from_disk\<close>: a page whose read fails, whose checksum is wrong or
  which has no slot is passed over.\<close>

fun reconcile_loop ::
    "digests \<Rightarrow> wal_path \<Rightarrow> u64 list \<Rightarrow> bitmap_page list \<Rightarrow> u64 \<Rightarrow> wal_fs
      \<Rightarrow> ((bitmap_page list \<times> u64) \<times> wal_fs) option" where
  "reconcile_loop H h [] bms max_in_use fs = Some ((bms, max_in_use), fs)"
| "reconcile_loop H h (pid # pids) bms max_in_use fs =
     (if is_bitmap_page pid then reconcile_loop H h pids bms max_in_use fs
      else case fh_read_at h (page_pos pid) PAGE_SIZE fs of
        (Inl _, fs') \<Rightarrow> reconcile_loop H h pids bms max_in_use fs'
      | (Inr buf, fs') \<Rightarrow>
          if \<not> verify_checksum_bytes H buf then reconcile_loop H h pids bms max_in_use fs'
          else if slot_count (page_header_of buf) > 0 then
            let slot = unat pid div PAGES_PER_BITMAP in
            opt_bind (ensure_bitmap slot bms) (\<lambda>bms.
            opt_bind (mark_allocated bms slot pid) (\<lambda>bms.
              reconcile_loop H h pids bms (if pid > max_in_use then pid else max_in_use) fs'))
          else reconcile_loop H h pids bms max_in_use fs')"

definition saturating_add :: "u64 \<Rightarrow> u64 \<Rightarrow> u64" where
  "saturating_add a b = (if unat a + unat b < 2 ^ 64 then a + b else - 1)"

definition reconcile_from_disk ::
    "digests \<Rightarrow> page_manager \<Rightarrow> wal_fs \<Rightarrow> ((io_error + unit) \<times> page_manager \<times> wal_fs) option" where
  "reconcile_from_disk H pm fs =
     (case io_bind (fs_open DataFile False) fh_len fs of
        (Inl e, fs') \<Rightarrow> Some (Inl e, pm, fs')
      | (Inr file_len, fs') \<Rightarrow>
          let sb = pm_superblock pm; high_water = file_len div PAGE_SIZE in
          opt_bind (reconcile_loop H DataFile (map of_nat [unat FIRST_DATA_PAGE_ID..<high_water])
                      (pm_bitmaps pm) (saturating_sub (next_free_page_id sb) 1) fs') (\<lambda>((bms, max_in_use), fs'').
            let reconciled = saturating_add max_in_use 1;
                sb = (if reconciled > next_free_page_id sb then sb\<lparr>next_free_page_id := reconciled\<rparr> else sb);
                sb = (if of_nat high_water > total_page_count sb then sb\<lparr>total_page_count := of_nat high_water\<rparr> else sb)
            in Some (Inr (), pm\<lparr>pm_superblock := sb, pm_bitmaps := bms\<rparr>, fs'')))"

subsection \<open>Reading, writing and syncing without a pool\<close>

definition handle_of :: "page_manager \<Rightarrow> (wal_path, wal_fs) io" where
  "handle_of pm = (case pm_data_handle pm of Some h \<Rightarrow> io_return h | None \<Rightarrow> io_throw NotConnected)"

definition lift_offset :: "u64 \<Rightarrow> (nat, wal_fs) io" where
  "lift_offset pid = (case page_offset pid of Inr off \<Rightarrow> io_return off | Inl e \<Rightarrow> io_throw e)"

definition pm_read_page :: "digests \<Rightarrow> page_manager \<Rightarrow> u64 \<Rightarrow> (bytes, wal_fs) io" where
  "pm_read_page H pm pid =
     io_bind (handle_of pm) (\<lambda>h.
     io_bind (lift_offset pid) (\<lambda>off.
     io_bind (fh_read_at h off PAGE_SIZE) (\<lambda>buf.
       if verify_checksum_bytes H buf then io_return buf
       else if pm_doublewrite pm then
         io_bind (valid_image_for H pid) (\<lambda>r.
           case r of
             None \<Rightarrow> io_throw InvalidData
           | Some img \<Rightarrow>
               let buf = splice buf 0 (take (min (length img) PAGE_SIZE) img) in
               io_bind (fh_write_at h buf off) (\<lambda>_. io_bind (fh_sync h) (\<lambda>_. io_return buf)))
       else io_throw InvalidData)))"

definition grow_file :: "wal_path \<Rightarrow> nat \<Rightarrow> (unit, wal_fs) io" where
  "grow_file h required_len =
     io_bind (fh_len h) (\<lambda>current_len.
       if current_len < required_len then io_bind (fh_set_len h required_len) (\<lambda>_. fh_sync h) else io_return ())"

definition pm_write_page :: "digests \<Rightarrow> page_manager \<Rightarrow> u64 \<Rightarrow> bytes \<Rightarrow> (unit, wal_fs) io" where
  "pm_write_page H pm pid buf =
     (let buf = update_checksum_bytes H buf in
      io_bind (handle_of pm) (\<lambda>h.
      io_bind (lift_offset pid) (\<lambda>off.
      io_bind (grow_file h (off + PAGE_SIZE)) (\<lambda>_.
      io_bind (if pm_doublewrite pm then write_batch [(pid, buf)] else io_return ()) (\<lambda>_.
      io_bind (fh_write_at h buf off) (\<lambda>_.
      io_bind (fh_sync h) (\<lambda>_.
      if pm_doublewrite pm then dw_clear else io_return ())))))))"

definition sync_superblock :: "digests \<Rightarrow> page_manager \<Rightarrow> (page_manager, wal_fs) io" where
  "sync_superblock H pm =
     (let sb = pm_superblock pm; base = generation sb;
          mirror = sb_update_checksum H (sb\<lparr>generation := base + 1\<rparr>);
          primary = sb_update_checksum H (sb\<lparr>generation := base + 2\<rparr>)
      in io_bind (handle_of pm) (\<lambda>h.
         io_bind (fh_write_at h (encode_superblock mirror) PAGE_SIZE) (\<lambda>_.
         io_bind (fh_sync h) (\<lambda>_.
         io_bind (fh_write_at h (encode_superblock primary) 0) (\<lambda>_.
         io_bind (fh_sync h) (\<lambda>_.
         io_return (pm\<lparr>pm_superblock := sb\<lparr>generation := base + 2\<rparr>\<rparr>)))))))"

definition sync_bitmap_page :: "digests \<Rightarrow> wal_path \<Rightarrow> bitmap_page \<Rightarrow> (bitmap_page, wal_fs) io" where
  "sync_bitmap_page H h bm =
     (let pid = page_id (page_header_of (bm_buf bm)); buf = update_checksum_bytes H (bm_buf bm) in
      io_bind (lift_offset pid) (\<lambda>off.
      io_bind (grow_file h (off + PAGE_SIZE)) (\<lambda>_.
      io_bind (fh_write_at h buf off) (\<lambda>_. io_return (bm\<lparr>bm_buf := buf\<rparr>)))))"

fun sync_bitmap_pages :: "digests \<Rightarrow> wal_path \<Rightarrow> bitmap_page list \<Rightarrow> (bitmap_page list, wal_fs) io" where
  "sync_bitmap_pages H h [] = io_return []"
| "sync_bitmap_pages H h (bm # bms) =
     io_bind (sync_bitmap_page H h bm) (\<lambda>bm. io_bind (sync_bitmap_pages H h bms) (\<lambda>bms. io_return (bm # bms)))"

definition sync_bitmaps :: "digests \<Rightarrow> page_manager \<Rightarrow> (page_manager, wal_fs) io" where
  "sync_bitmaps H pm =
     io_bind (handle_of pm) (\<lambda>h.
     io_bind (sync_bitmap_pages H h (pm_bitmaps pm)) (\<lambda>bms.
     io_bind (fh_sync h) (\<lambda>_. io_return (pm\<lparr>pm_bitmaps := bms\<rparr>))))"

definition sync_bitmap :: "digests \<Rightarrow> page_manager \<Rightarrow> (page_manager, wal_fs) io" where
  "sync_bitmap H pm =
     io_bind (handle_of pm) (\<lambda>h.
     io_bind (sync_bitmap_page H h (hd (pm_bitmaps pm))) (\<lambda>bm.
     io_bind (fh_sync h) (\<lambda>_. io_return (pm\<lparr>pm_bitmaps := (pm_bitmaps pm)[0 := bm]\<rparr>))))"

section \<open>Regions and reserved pages\<close>

lemma page_consts [simp]:
  "PRIMARY_SB_PAGE_ID = 0" "MIRROR_SB_PAGE_ID = 1" "FIRST_BITMAP_PAGE_ID = 2" "FIRST_DATA_PAGE_ID = 3"
  "CACHE_BATCH = 64" "MIN_FILE_SIZE = 24576"
  by (simp_all add: PRIMARY_SB_PAGE_ID_def MIRROR_SB_PAGE_ID_def FIRST_BITMAP_PAGE_ID_def FIRST_DATA_PAGE_ID_def
      CACHE_BATCH_def MIN_FILE_SIZE_def)

definition region :: "u64 \<Rightarrow> nat" where
  "region p = unat p div 65024"

text \<open>The pages that are never handed out: superblocks and region bitmaps.\<close>

definition reserved :: "u64 \<Rightarrow> bool" where
  "reserved p \<longleftrightarrow> p < 3 \<or> is_bitmap_page p"

text \<open>A chain of bitmaps, each for its region, within the address space.\<close>

definition chain_ok :: "bitmap_page list \<Rightarrow> bool" where
  "chain_ok bms \<longleftrightarrow> length bms * 65024 < 2 ^ 64 \<and>
     (\<forall>i < length bms. bitmap_wf (bms ! i) \<and> bitmap_slot (bms ! i) = of_nat i)"

definition allocated :: "bitmap_page list \<Rightarrow> u64 \<Rightarrow> bool" where
  "allocated bms p \<longleftrightarrow> region p < length bms \<and> is_set (bms ! region p) p = Some True"

lemma region_range:
  assumes "chain_ok bms" "i < length bms"
  shows "p \<in> bitmap_range (bms ! i) \<longleftrightarrow> region p = i"
proof -
  have sl: "bitmap_slot (bms ! i) = of_nat i" and b: "length bms * 65024 < 2 ^ 64"
    using assms by (auto simp: chain_ok_def)
  have "Suc i * 65024 \<le> length bms * 65024"
    using assms(2) by (intro mult_le_mono1) simp
  then have i: "i * 65024 + 65024 < 2 ^ 64"
    using b by simp
  then have "i < 2 ^ 64"
    by simp
  then have "unat (of_nat i * 65024 :: u64) = i * 65024"
    using i by (simp add: unat_word_ariths unat_of_nat)
  then have base: "unat (base_page_id (bms ! i)) = i * 65024"
    by (simp add: base_page_id_def sl)
  have p: "unat p < 2 ^ 64"
    by (rule unat_u64_less)
  show ?thesis
  proof (cases "base_page_id (bms ! i) \<le> p")
    case True
    then have "local_index (bms ! i) p = unat p - i * 65024"
      by (simp add: local_index_def unat_sub base)
    moreover have "i * 65024 \<le> unat p"
      using True base by (simp add: word_le_nat_alt)
    ultimately show ?thesis
      by (auto simp: bitmap_range_def region_def div_eq_dividend_iff)
  next
    case False
    then have lt: "unat p < i * 65024"
      by (simp add: word_le_nat_alt base not_le)
    have "local_index (bms ! i) p = 2 ^ 64 - i * 65024 + unat p"
      using lt i base by (simp add: local_index_def unat_sub_if' base)
    then show ?thesis
      using lt i by (auto simp: bitmap_range_def region_def)
  qed
qed


lemma opt_bind_simps [simp]: "opt_bind None f = None" "opt_bind (Some x) f = f x"
  by (simp_all add: opt_bind_def)

lemma allocated_iff:
  assumes "chain_ok bms"
  shows "allocated bms p \<longleftrightarrow> region p < length bms \<and> p \<in> bitmap.elems (bms ! region p)"
  using region_range [OF assms, of "region p" p] by (auto simp: allocated_def bitmap.elems_def)

text \<open>Replacing one bitmap of a chain by one that differs at most in its elements.\<close>

lemma chain_update:
  assumes "chain_ok bms" "i < length bms" "bitmap_wf b" "bitmap_slot b = bitmap_slot (bms ! i)"
  shows "chain_ok (bms[i := b])"
    and "allocated (bms[i := b]) q \<longleftrightarrow> (if region q = i then q \<in> bitmap.elems b else allocated bms q)"
proof -
  show ok: "chain_ok (bms[i := b])"
    using assms by (auto simp: chain_ok_def nth_list_update)
  show "allocated (bms[i := b]) q \<longleftrightarrow> (if region q = i then q \<in> bitmap.elems b else allocated bms q)"
    using assms(2) by (auto simp: allocated_iff [OF ok] allocated_iff [OF assms(1)] nth_list_update)
qed

lemma bitmap_slot_allocate: "bitmap_allocate b p = Some b' \<Longrightarrow> bitmap_slot b' = bitmap_slot b"
  by (auto simp: bitmap_allocate_def Let_def split: if_splits)

lemma bitmap_slot_free: "bitmap_free b p = Some b' \<Longrightarrow> bitmap_slot b' = bitmap_slot b"
  by (auto simp: bitmap_free_def Let_def split: if_splits)

lemma mark_allocated_ok:
  assumes "chain_ok bms" "region p < length bms"
  shows "\<exists>bms'. mark_allocated bms (region p) p = Some bms' \<and> chain_ok bms' \<and> length bms' = length bms
    \<and> (\<forall>q. allocated bms' q \<longleftrightarrow> q = p \<or> allocated bms q)"
proof -
  have wf: "bitmap_wf (bms ! region p)" and r: "p \<in> bitmap_range (bms ! region p)"
    using assms region_range [OF assms] by (auto simp: chain_ok_def)
  from bitmap.elems_add [OF this] obtain b where b: "bitmap_allocate (bms ! region p) p = Some b" "bitmap_wf b"
    "bitmap.elems b = insert p (bitmap.elems (bms ! region p))"
    by blast
  note u = chain_update [OF assms b(2) bitmap_slot_allocate [OF b(1)]]
  have "allocated (bms[region p := b]) q \<longleftrightarrow> q = p \<or> allocated bms q" for q
    unfolding u(2) b(3) using assms(2) by (auto simp: allocated_iff [OF assms(1)])
  then show ?thesis
    using b(1) assms(2) u(1) by (simp add: mark_allocated_def)
qed

section \<open>Fresh regions\<close>

lemma bit_at_init: "i < 65024 \<Longrightarrow> \<not> bit_at (page_init pid pt) i"
  by (simp add: bit_at_iff page_init_def header_image_def nth_append splice_def)

lemma unat_region_base:
  assumes "s * 65024 + 65024 < 2 ^ 64"
  shows "unat (of_nat s * 65024 :: u64) = s * 65024"
proof -
  have "s < 2 ^ 64"
    using assms by simp
  then show ?thesis
    using assms by (simp add: unat_word_ariths unat_of_nat)
qed

lemma reserved_iff: "reserved q \<longleftrightarrow> unat q < 3 \<or> unat q mod 65024 = 0"
proof -
  have "q mod 65024 = 0 \<longleftrightarrow> unat q mod 65024 = 0"
    by (simp add: word_unat_eq_iff unat_mod)
  moreover have "q = 0 \<longleftrightarrow> unat q = 0" "q < 3 \<longleftrightarrow> unat q < 3"
    by (simp_all add: word_unat_eq_iff word_less_nat_alt)
  moreover have "q = 2 \<longleftrightarrow> unat q = 2"
    by (simp add: word_unat_eq_iff)
  ultimately show ?thesis
    by (auto simp: reserved_def is_bitmap_page_def)
qed

lemma new_region_bitmap_ok:
  assumes "s * 65024 + 65024 < 2 ^ 64"
  shows "\<exists>b. new_region_bitmap (of_nat s) = Some b \<and> bitmap_wf b \<and> bitmap_slot b = of_nat s
    \<and> (\<forall>q. region q = s \<longrightarrow> (q \<in> bitmap.elems b \<longleftrightarrow> reserved q))"
proof -
  define phys where "phys = bitmap_physical_page_id (of_nat s)"
  define b0 where "b0 = bitmap_new phys (of_nat s)"
  have s: "s < 2 ^ 64" "(of_nat s :: u64) = 0 \<longleftrightarrow> s = 0"
    using assms by (simp_all add: word_unat_eq_iff unat_of_nat)
  have wf0: "bitmap_wf b0"
    by (simp add: b0_def bitmap_new_def bitmap_wf_def page_init_def header_image_def splice_def)
  have rng: "q \<in> bitmap_range b0 \<longleftrightarrow> region q = s" for q
  proof -
    have "chain_ok ((map (\<lambda>i. b0\<lparr>bitmap_slot := of_nat i\<rparr>) [0..<Suc s]))"
      using assms wf0 by (simp add: chain_ok_def bitmap_wf_def del: upt_Suc)
    from region_range [OF this, of s q] show ?thesis
      by (simp add: b0_def bitmap_new_def bitmap_range_def local_index_def base_page_id_def nth_append del: upt_Suc)
  qed
  have e0: "bitmap.elems b0 = {}"
    by (auto simp: bitmap.elems_def is_set_def Let_def bitmap_range_def b0_def bitmap_new_def bit_at_init split: if_splits)
  have rp: "region phys = s"
    using unat_region_base [OF assms] s(2) by (auto simp: phys_def bitmap_physical_page_id_def region_def)
  obtain b1 where b1: "bitmap_allocate b0 phys = Some b1" "bitmap_wf b1" "bitmap_range b1 = bitmap_range b0"
    "bitmap.elems b1 = {phys}" "bitmap_slot b1 = of_nat s"
    using bitmap.elems_add [OF wf0, of phys] rng [of phys] rp e0 bitmap_slot_allocate [of b0 phys]
    by (auto simp: b0_def bitmap_new_def)
  show ?thesis
  proof (cases "s = 0")
    case True
    have r01: "0 \<in> bitmap_range b1" "1 \<in> bitmap_range b1"
      using True by (simp_all add: b1(3) rng region_def)
    obtain b2 where b2: "bitmap_allocate b1 0 = Some b2" "bitmap_wf b2" "bitmap_range b2 = bitmap_range b1"
      "bitmap.elems b2 = {0, phys}" "bitmap_slot b2 = 0"
      using bitmap.elems_add [OF b1(2) r01(1)] b1(4,5) bitmap_slot_allocate [of b1 0] True by auto
    obtain b3 where b3: "bitmap_allocate b2 1 = Some b3" "bitmap_wf b3" "bitmap.elems b3 = {1, 0, phys}" "bitmap_slot b3 = 0"
      using bitmap.elems_add [OF b2(2), of 1] r01(2) b2(3-5) bitmap_slot_allocate [of b2 1] by auto
    have "q \<in> {1, 0, phys} \<longleftrightarrow> reserved q" if "region q = 0" for q
      using that True by (auto simp: reserved_iff phys_def bitmap_physical_page_id_def region_def word_unat_eq_iff)
    then show ?thesis
      using b1(1) b2(1) b3 True
      by (simp add: new_region_bitmap_def Let_def phys_def [symmetric] b0_def [symmetric, unfolded True, simplified])
        (simp add: phys_def b0_def)
  next
    case False
    have "q = phys \<longleftrightarrow> reserved q" if "region q = s" for q
    proof -
      have "unat phys = s * 65024"
        using False s(2) unat_region_base [OF assms] by (simp add: phys_def bitmap_physical_page_id_def)
      moreover have "unat q mod 65024 = 0 \<longleftrightarrow> unat q = s * 65024" "3 \<le> unat q"
        using that False div_mult_mod_eq [of "unat q" 65024] by (auto simp: region_def)
      ultimately show ?thesis
        by (simp add: reserved_iff word_unat_eq_iff)
    qed
    then show ?thesis
      using b1 False s(2) by (simp add: new_region_bitmap_def Let_def phys_def [symmetric] b0_def [symmetric])
  qed
qed

lemma ensure_bitmap_ok:
  assumes "chain_ok bms" "slot * 65024 + 65024 < 2 ^ 64"
  shows "\<exists>bms'. ensure_bitmap slot bms = Some bms' \<and> chain_ok bms' \<and> length bms' = max (length bms) (Suc slot)
    \<and> (\<forall>q. allocated bms' q \<longleftrightarrow> allocated bms q \<or> (length bms \<le> region q \<and> region q < length bms' \<and> reserved q))"
  using assms
proof (induction slot bms rule: ensure_bitmap.induct)
  case (1 slot bms)
  show ?case
  proof (cases "length bms \<le> slot")
    case False
    then show ?thesis
      using 1(2) by (subst ensure_bitmap.simps) (auto simp: max_def)
  next
    case True
    let ?n = "length bms"
    have "?n * 65024 \<le> slot * 65024"
      using True by (rule mult_le_mono1)
    then have n: "?n * 65024 + 65024 < 2 ^ 64"
      using 1(3) by simp
    obtain b where b: "new_region_bitmap (of_nat ?n) = Some b" "bitmap_wf b" "bitmap_slot b = of_nat ?n"
      "\<forall>q. region q = ?n \<longrightarrow> (q \<in> bitmap.elems b \<longleftrightarrow> reserved q)"
      using new_region_bitmap_ok [OF n] by blast
    have ok: "chain_ok (bms @ [b])"
      using 1(2) b n by (auto simp: chain_ok_def nth_append less_Suc_eq)
    have al: "allocated (bms @ [b]) q \<longleftrightarrow> allocated bms q \<or> (region q = ?n \<and> reserved q)" for q
      using b(4) by (auto simp: allocated_iff [OF ok] allocated_iff [OF 1(2)] nth_append less_Suc_eq)
    obtain bms' where "ensure_bitmap slot (bms @ [b]) = Some bms'" "chain_ok bms'" "length bms' = max (Suc ?n) (Suc slot)"
      "\<forall>q. allocated bms' q \<longleftrightarrow> allocated (bms @ [b]) q \<or> (Suc ?n \<le> region q \<and> region q < length bms' \<and> reserved q)"
      using 1(1) [OF True ok 1(3)] by auto
    then show ?thesis
      using True b(1) al by (subst ensure_bitmap.simps) (auto simp: max_def)
  qed
qed

section \<open>Reading back\<close>

lemma disk_page_grow:
  assumes "8192 dvd length d"
  shows "disk_page (d @ replicate k 0) = disk_page d"
proof
  fix m
  show "disk_page (d @ replicate k 0) m = disk_page d m"
    using page_aligned [OF assms, of m] by (auto simp: disk_page_def slice_def)
qed

lemma grow_file_ok:
  assumes "plan fs = []" "files fs h = Some d" "8192 dvd length d" "8192 dvd n"
  shows "\<exists>fs'. grow_file h n fs = (Inr (), fs') \<and> plan fs' = [] \<and> (\<forall>q. q \<noteq> h \<longrightarrow> files fs' q = files fs q)
    \<and> (\<exists>d'. files fs' h = Some d' \<and> disk_page d' = disk_page d \<and> 8192 dvd length d' \<and> n \<le> length d')"
proof (cases "length d < n")
  case True
  then have "\<exists>d'. take n d @ replicate (n - length d) 0 = d' \<and> disk_page d' = disk_page d \<and> 8192 dvd length d' \<and> n \<le> length d'"
    using disk_page_grow [OF assms(3), of "n - length d"] assms(3,4) by simp
  then show ?thesis
    using True assms(1,2) by (simp add: grow_file_def fh_len_def fh_set_len_def fh_sync_def contents_def)
next
  case False
  then show ?thesis
    using assms by (simp add: grow_file_def fh_len_def contents_def io_return_def)
qed

lemma buffer_step_ok:
  assumes "plan fs = []"
  shows "\<exists>fs'. (if dw then write_batch [(pid, img)] else io_return ()) fs = (Inr (), fs') \<and> plan fs' = [] \<and> files fs' DataFile = files fs DataFile"
    "\<exists>fs'. (if dw then dw_clear else io_return ()) fs = (Inr (), fs') \<and> plan fs' = [] \<and> files fs' DataFile = files fs DataFile
       \<and> durable fs' DataFile = durable fs DataFile"
  using assms
  by (cases "files fs DwFile"; auto simp: io_bind_def write_batch_def dw_clear_def fs_open_def fs_exists_def fh_write_at_def
      fh_set_len_def fh_sync_def io_return_def Let_def)+

text \<open>Without failures a page write is read back: it succeeds, growing the file when it must,
  leaves every other page as it was, is durable when it returns, and the next read of the page
  yields the written bytes with their checksum.\<close>

theorem read_after_write:
  assumes "plan fs = []" "files fs DataFile = Some d" "8192 dvd length d" "pm_data_handle pm = Some DataFile"
    and "unat pid < 2 ^ 51 - 1" "length buf = 8192"
  shows "\<exists>fs'. pm_write_page H pm pid buf fs = (Inr (), fs')
    \<and> pm_read_page H pm pid fs' = (Inr (update_checksum_bytes H buf), fs')
    \<and> disk_page (contents fs' DataFile) = (disk_page d)(unat pid := update_checksum_bytes H buf)
    \<and> durable fs' DataFile = files fs' DataFile"
proof -
  define new where "new = update_checksum_bytes H buf"
  have nw: "length new = 8192" "verify_checksum_bytes H new"
    using checksum_update_verifies [OF assms(6), of H] assms(6) by (simp_all add: new_def update_checksum_bytes_def)
  have off: "page_offset pid = Inr (8192 * unat pid)"
    using assms(5) by (simp add: page_offset_def Let_def mult.commute)
  obtain f1 d1 where f1: "grow_file DataFile (8192 * unat pid + 8192) fs = (Inr (), f1)" "plan f1 = []" "files f1 DataFile = Some d1"
    and d1: "disk_page d1 = disk_page d" "8192 dvd length d1"
    using grow_file_ok [OF assms(1-3), of "8192 * unat pid + 8192"] by auto
  obtain f2 where f2: "(if pm_doublewrite pm then write_batch [(pid, new)] else io_return ()) f1 = (Inr (), f2)" "plan f2 = []"
    "files f2 DataFile = Some d1"
    using buffer_step_ok(1) [OF f1(2), of "pm_doublewrite pm" pid new] f1(3) by auto
  define d2 where "d2 = file_write d1 (8192 * unat pid) new"
  note d2 = disk_page_write [OF d1(2) nw(1), of "unat pid", folded d2_def]
  define f3 where "f3 = f2\<lparr>files := (files f2)(DataFile \<mapsto> d2), durable := (durable f2)(DataFile \<mapsto> d2)\<rparr>"
  have w: "io_bind (fh_write_at DataFile new (8192 * unat pid)) (\<lambda>_. fh_sync DataFile) f2 = (Inr (), f3)"
    using f2(2,3) by (simp add: fh_write_at_def fh_sync_def contents_def f3_def d2_def)
  obtain f4 where f4: "(if pm_doublewrite pm then dw_clear else io_return ()) f3 = (Inr (), f4)" "plan f4 = []"
    "files f4 DataFile = Some d2" "durable f4 DataFile = Some d2"
    using buffer_step_ok(2) [of f3 "pm_doublewrite pm"] f2(2) by (auto simp: f3_def)
  have "pm_write_page H pm pid buf fs = (Inr (), f4)"
    unfolding pm_write_page_def Let_def handle_of_def lift_offset_def assms(4) off option.case sum.case io_bind_return
      new_def [symmetric] size_consts
    using f1(1) f2(1) w f4(1) by (cases "pm_doublewrite pm") (simp_all add: io_bind_def split: prod.splits sum.splits)
  moreover have "8192 * unat pid + 8192 \<le> length d2"
    using nw(1) by (simp add: d2_def file_write_def)
  then have "pm_read_page H pm pid f4 = (Inr new, f4)"
    using f4(2,3) fun_cong [OF d2(1), of "unat pid"] nw(2)
    by (simp add: pm_read_page_def handle_of_def lift_offset_def assms(4) off io_bind_return fh_read_at_def contents_def disk_page_def
        io_return_def)
  ultimately show ?thesis
    using f4(3,4) d2(1) d1(1) by (auto simp: new_def contents_def)
qed

text \<open>A disk with a synced data file, for the instances.\<close>

definition demo_disk :: "bytes \<Rightarrow> wal_fs" where
  "demo_disk d = \<lparr>files = [DataFile \<mapsto> d], durable = [DataFile \<mapsto> d], dir_durable = {}, plan = []\<rparr>"



theorem read_after_write_witness:
  "\<exists>fs'. pm_write_page demo_digests
      \<lparr>pm_superblock = superblock_new 8192, pm_bitmaps = [], pm_free_cache = cache_new 64,
       pm_data_handle = Some DataFile, pm_doublewrite = True\<rparr> 3 (replicate 8192 1) (demo_disk []) = (Inr (), fs')
    \<and> disk_page (contents fs' DataFile) 3 = update_checksum_bytes demo_digests (replicate 8192 1)"
  using read_after_write [of "demo_disk []" "[]" "\<lparr>pm_superblock = superblock_new 8192, pm_bitmaps = [], pm_free_cache = cache_new 64,
       pm_data_handle = Some DataFile, pm_doublewrite = True\<rparr>" 3 "replicate 8192 1" demo_digests]
  by (auto simp: demo_disk_def)

end
