(* ===== verification/Allocator.thy ===== *)
theory Allocator
  imports PageManager
begin

text \<open>
  Correctness of the page allocator of \<open>src/src/storage/manager.rs\<close>, over the operations of
  \<open>PageManager\<close>: the invariant of a session, its preservation by allocating, freeing and
  extending, sessions as a step relation with the pages in use as ghost state, and what
  reopening a database does to the free list.
\<close>

section \<open>The allocator\<close>

text \<open>The invariant of a session that started with a new file: reserved pages of every region
  are marked, every other marked page lies below the high-water mark, and the free list holds
  distinct unmarked pages below it.\<close>

definition pm_ok :: "page_manager \<Rightarrow> bool" where
  "pm_ok pm \<longleftrightarrow>
     (let bms = pm_bitmaps pm; nf = unat (next_free_page_id (pm_superblock pm)); cache = cache_pages (pm_free_cache pm) in
      chain_ok bms \<and> 3 \<le> nf \<and> nf < 2 ^ 51
      \<and> (\<forall>q. reserved q \<and> region q < length bms \<longrightarrow> allocated bms q)
      \<and> (\<forall>q. allocated bms q \<and> \<not> reserved q \<longrightarrow> unat q < nf)
      \<and> distinct cache
      \<and> (\<forall>q \<in> set cache. \<not> allocated bms q \<and> \<not> reserved q \<and> unat q < nf \<and> region q < length bms))"

lemma region_room: "unat pid < 2 ^ 51 \<Longrightarrow> region pid * 65024 + 65024 < 2 ^ 64"
  using div_times_less_eq_dividend [of "unat pid" 65024] by (simp add: region_def)

lemma extend_alloc_ok:
  assumes "pm_ok pm" "cache_pages (pm_free_cache pm) = []"
  shows "\<exists>res pm'. extend_alloc pm = Some (res, pm') \<and> pm_ok pm'
    \<and> (case res of
         Inr p \<Rightarrow> \<not> reserved p \<and> \<not> allocated (pm_bitmaps pm) p
           \<and> (\<forall>q. \<not> reserved q \<longrightarrow> (allocated (pm_bitmaps pm') q \<longleftrightarrow> q = p \<or> allocated (pm_bitmaps pm) q))
       | Inl e \<Rightarrow> e = OutOfMemory \<and> (\<forall>q. \<not> reserved q \<longrightarrow> (allocated (pm_bitmaps pm') q \<longleftrightarrow> allocated (pm_bitmaps pm) q)))"
  using assms
proof (induction pm rule: extend_alloc.induct)
  case (1 pm)
  define sb where "sb = pm_superblock pm"
  define pid where "pid = next_free_page_id sb"
  show ?case
  proof (cases "pid > MAX_ADDRESSABLE_PAGE_ID")
    case True
    then have "extend_alloc pm = Some (Inl OutOfMemory, pm)"
      by (subst extend_alloc.simps) (simp add: Let_def pid_def sb_def)
    then show ?thesis
      using 1(2) by simp
  next
    case False
    define sb' where "sb' = sb\<lparr>next_free_page_id := pid + 1, total_page_count := total_page_count sb + 1\<rparr>"
    have pm: "chain_ok (pm_bitmaps pm)" "3 \<le> unat pid"
      "\<forall>q. reserved q \<and> region q < length (pm_bitmaps pm) \<longrightarrow> allocated (pm_bitmaps pm) q"
      "\<forall>q. allocated (pm_bitmaps pm) q \<and> \<not> reserved q \<longrightarrow> unat q < unat pid"
      using 1(2) by (auto simp: pm_ok_def Let_def pid_def sb_def)
    have mx: "unat pid \<le> 2 ^ 51 - 2"
      using False by (simp add: word_less_nat_alt max_addressable)
    then have pid1: "unat (pid + 1) = unat pid + 1"
      by (simp add: unat_word_ariths)
    obtain bms1 where b1: "ensure_bitmap (region pid) (pm_bitmaps pm) = Some bms1" "chain_ok bms1"
      "length bms1 = max (length (pm_bitmaps pm)) (Suc (region pid))"
      "\<forall>q. allocated bms1 q \<longleftrightarrow> allocated (pm_bitmaps pm) q
         \<or> (length (pm_bitmaps pm) \<le> region q \<and> region q < length bms1 \<and> reserved q)"
      using ensure_bitmap_ok [OF pm(1) region_room, of pid] mx by auto
    obtain bms2 where b2: "mark_allocated bms1 (region pid) pid = Some bms2" "chain_ok bms2" "length bms2 = length bms1"
      "\<forall>q. allocated bms2 q \<longleftrightarrow> q = pid \<or> allocated bms1 q"
      using mark_allocated_ok [OF b1(2), of pid] unfolding b1(3) by (metis less_Suc_eq max.cobounded2 order_less_le_trans)
    define pm' where "pm' = pm\<lparr>pm_superblock := sb', pm_bitmaps := bms2\<rparr>"
    have step: "extend_alloc pm = (if is_bitmap_page pid then extend_alloc pm' else Some (Inr pid, pm'))"
      using False b1(1) b2(1)
      by (subst extend_alloc.simps) (simp add: Let_def sb_def [symmetric] pid_def [symmetric] sb'_def [symmetric]
          pm'_def region_def)
    have al: "allocated bms2 q \<longleftrightarrow> q = pid \<or> allocated (pm_bitmaps pm) q" if "\<not> reserved q" for q
      using that b1(4) b2(4) by auto
    have ok': "pm_ok pm'"
      unfolding pm_ok_def Let_def
    proof (intro conjI allI impI)
      show "chain_ok (pm_bitmaps pm')" "3 \<le> unat (next_free_page_id (pm_superblock pm'))"
        "unat (next_free_page_id (pm_superblock pm')) < 2 ^ 51" "distinct (cache_pages (pm_free_cache pm'))"
        using b2(2) pm(2) mx pid1 1(3) by (simp_all add: pm'_def sb'_def)
      show "\<forall>q \<in> set (cache_pages (pm_free_cache pm')). \<not> allocated (pm_bitmaps pm') q \<and> \<not> reserved q
          \<and> unat q < unat (next_free_page_id (pm_superblock pm')) \<and> region q < length (pm_bitmaps pm')"
        using 1(3) by (simp add: pm'_def)
      show "allocated (pm_bitmaps pm') q" if "reserved q \<and> region q < length (pm_bitmaps pm')" for q
        using that pm(3) b1(4) b2(3,4) by (auto simp: pm'_def not_less)
      show "unat q < unat (next_free_page_id (pm_superblock pm'))" if "allocated (pm_bitmaps pm') q \<and> \<not> reserved q" for q
        using that al [of q] pm(4) pid1 by (fastforce simp: pm'_def sb'_def)
    qed
    show ?thesis
    proof (cases "is_bitmap_page pid")
      case True
      have IH: "\<exists>res pm''. extend_alloc pm' = Some (res, pm'') \<and> pm_ok pm''
        \<and> (case res of
             Inr p \<Rightarrow> \<not> reserved p \<and> \<not> allocated (pm_bitmaps pm') p
               \<and> (\<forall>q. \<not> reserved q \<longrightarrow> (allocated (pm_bitmaps pm'') q \<longleftrightarrow> q = p \<or> allocated (pm_bitmaps pm') q))
           | Inl e \<Rightarrow> e = OutOfMemory \<and> (\<forall>q. \<not> reserved q \<longrightarrow> (allocated (pm_bitmaps pm'') q \<longleftrightarrow> allocated (pm_bitmaps pm') q)))"
        using 1(1) [OF sb_def pid_def False sb'_def refl pm'_def True ok'] 1(3) by (simp add: pm'_def)
      have "reserved pid"
        using True by (simp add: reserved_def)
      then have "allocated (pm_bitmaps pm') q \<longleftrightarrow> allocated (pm_bitmaps pm) q" if "\<not> reserved q" for q
        using al [OF that] that by (auto simp: pm'_def)
      with IH show ?thesis
        unfolding step using True by (auto split: sum.splits) blast+
    next
      case nb: False
      have "\<not> reserved pid"
        using nb pm(2) by (simp add: reserved_def word_less_nat_alt)
      moreover have "\<not> allocated (pm_bitmaps pm) pid"
        using pm(4) calculation by blast
      ultimately show ?thesis
        using step nb ok' al by (simp add: pm'_def)
    qed
  qed
qed


lemma pm_okD:
  assumes "pm_ok pm"
  shows "chain_ok (pm_bitmaps pm)" "3 \<le> unat (next_free_page_id (pm_superblock pm))"
    "unat (next_free_page_id (pm_superblock pm)) < 2 ^ 51"
    "reserved q \<Longrightarrow> region q < length (pm_bitmaps pm) \<Longrightarrow> allocated (pm_bitmaps pm) q"
    "allocated (pm_bitmaps pm) q \<Longrightarrow> \<not> reserved q \<Longrightarrow> unat q < unat (next_free_page_id (pm_superblock pm))"
    "distinct (cache_pages (pm_free_cache pm))"
    "q \<in> set (cache_pages (pm_free_cache pm)) \<Longrightarrow> \<not> allocated (pm_bitmaps pm) q \<and> \<not> reserved q
       \<and> unat q < unat (next_free_page_id (pm_superblock pm)) \<and> region q < length (pm_bitmaps pm)"
  using assms by (auto simp: pm_ok_def Let_def)

lemma pm_okI:
  assumes "chain_ok (pm_bitmaps pm)" "3 \<le> unat (next_free_page_id (pm_superblock pm))"
    "unat (next_free_page_id (pm_superblock pm)) < 2 ^ 51"
    "\<And>q. reserved q \<Longrightarrow> region q < length (pm_bitmaps pm) \<Longrightarrow> allocated (pm_bitmaps pm) q"
    "\<And>q. allocated (pm_bitmaps pm) q \<Longrightarrow> \<not> reserved q \<Longrightarrow> unat q < unat (next_free_page_id (pm_superblock pm))"
    "distinct (cache_pages (pm_free_cache pm))"
    "\<And>q. q \<in> set (cache_pages (pm_free_cache pm)) \<Longrightarrow> \<not> allocated (pm_bitmaps pm) q \<and> \<not> reserved q
       \<and> unat q < unat (next_free_page_id (pm_superblock pm)) \<and> region q < length (pm_bitmaps pm)"
  shows "pm_ok pm"
  using assms by (simp add: pm_ok_def Let_def)

lemma try_allocate_ok:
  assumes "pm_ok pm"
  shows "\<exists>res pm'. try_allocate_page pm = Some (res, pm') \<and> pm_ok pm'
    \<and> (case res of
         Inr p \<Rightarrow> \<not> reserved p \<and> \<not> allocated (pm_bitmaps pm) p
           \<and> (\<forall>q. \<not> reserved q \<longrightarrow> (allocated (pm_bitmaps pm') q \<longleftrightarrow> q = p \<or> allocated (pm_bitmaps pm) q))
       | Inl e \<Rightarrow> e = OutOfMemory \<and> (\<forall>q. \<not> reserved q \<longrightarrow> (allocated (pm_bitmaps pm') q \<longleftrightarrow> allocated (pm_bitmaps pm) q)))"
proof (cases "cache_pages (pm_free_cache pm) = []")
  case True
  with extend_alloc_ok [OF assms] show ?thesis
    by (simp add: try_allocate_page_def cache_pop_def)
next
  case False
  define xs p where "xs = butlast (cache_pages (pm_free_cache pm))" and "p = last (cache_pages (pm_free_cache pm))"
  have c: "cache_pages (pm_free_cache pm) = xs @ [p]"
    using False by (simp add: xs_def p_def)
  note ok = pm_okD [OF assms]
  have p: "\<not> allocated (pm_bitmaps pm) p" "\<not> reserved p" "region p < length (pm_bitmaps pm)"
    "unat p < unat (next_free_page_id (pm_superblock pm))" and d: "distinct xs" "p \<notin> set xs"
    using ok(6) ok(7) [of p] by (simp_all add: c)
  obtain bms where b: "mark_allocated (pm_bitmaps pm) (region p) p = Some bms" "chain_ok bms" "length bms = length (pm_bitmaps pm)"
    "\<forall>q. allocated bms q \<longleftrightarrow> q = p \<or> allocated (pm_bitmaps pm) q"
    using mark_allocated_ok [OF ok(1) p(3)] by blast
  let ?pm = "pm\<lparr>pm_free_cache := (pm_free_cache pm)\<lparr>cache_pages := xs\<rparr>, pm_bitmaps := bms,
      pm_superblock := (pm_superblock pm)\<lparr>free_page_count := saturating_sub (free_page_count (pm_superblock pm)) 1\<rparr>\<rparr>"
  have t: "try_allocate_page pm = Some (Inr p, ?pm)"
    using b(1) p(3) by (simp add: try_allocate_page_def cache_pop_def c Let_def region_def)
  have "pm_ok ?pm"
  proof (rule pm_okI, goal_cases)
    case (4 q)
    then show ?case using ok(4) [of q] b(3,4) by simp
  next
    case (5 q)
    then show ?case using ok(5) [of q] b(4) p(4) by auto
  next
    case (7 q)
    then have "q \<in> set xs"
      by simp
    then show ?case using ok(7) [of q] b(3,4) d(2) by (auto simp: c)
  qed (use b(2) ok(2,3) d in simp_all)
  then show ?thesis
    using t p b(4) by simp
qed

lemma free_page_ok:
  assumes "pm_ok pm"
  shows "\<exists>pm'. free_page pm p = Some pm' \<and> pm_ok pm'
    \<and> (\<forall>q. allocated (pm_bitmaps pm') q \<longleftrightarrow> allocated (pm_bitmaps pm) q \<and> (reserved p \<or> q \<noteq> p))"
proof (cases "reserved p \<or> \<not> allocated (pm_bitmaps pm) p")
  case True
  note ok = pm_okD [OF assms]
  have "free_page pm p = Some pm"
  proof (cases "reserved p \<or> length (pm_bitmaps pm) \<le> region p")
    case True
    then show ?thesis
      by (auto simp: free_page_def reserved_def region_def Let_def)
  next
    case False
    then have r: "p \<in> bitmap_range (pm_bitmaps pm ! region p)" "bitmap_wf (pm_bitmaps pm ! region p)"
      using ok(1) by (auto simp: region_range chain_ok_def)
    then have "is_set (pm_bitmaps pm ! region p) p = Some False"
      using bitmap.mem_elems [OF r(2,1)] \<open>reserved p \<or> \<not> allocated (pm_bitmaps pm) p\<close> False by (simp add: allocated_iff [OF ok(1)])
    with False show ?thesis
      by (simp add: free_page_def reserved_def region_def Let_def)
  qed
  with True assms show ?thesis
    by auto
next
  case False
  note ok = pm_okD [OF assms]
  let ?b = "pm_bitmaps pm ! region p"
  have p: "\<not> reserved p" "region p < length (pm_bitmaps pm)" "p \<in> bitmap.elems ?b" "allocated (pm_bitmaps pm) p"
    using False by (auto simp: allocated_iff [OF ok(1)])
  have r: "bitmap_wf ?b" "p \<in> bitmap_range ?b"
    using ok(1) p(2) by (auto simp: region_range chain_ok_def)
  obtain b where b: "bitmap_free ?b p = Some b" "bitmap_wf b" "bitmap.elems b = bitmap.elems ?b - {p}"
    using bitmap.elems_del [OF r] by blast
  note u = chain_update [OF ok(1) p(2) b(2) bitmap_slot_free [OF b(1)]]
  have al: "allocated ((pm_bitmaps pm)[region p := b]) q \<longleftrightarrow> allocated (pm_bitmaps pm) q \<and> q \<noteq> p" for q
    unfolding u(2) b(3) using p(2) by (auto simp: allocated_iff [OF ok(1)])
  let ?pm = "pm\<lparr>pm_bitmaps := (pm_bitmaps pm)[region p := b], pm_free_cache := cache_push (pm_free_cache pm) p,
      pm_superblock := (pm_superblock pm)\<lparr>free_page_count := free_page_count (pm_superblock pm) + 1\<rparr>\<rparr>"
  have f: "free_page pm p = Some ?pm"
    using p b(1) bitmap.mem_elems [OF r] by (simp add: free_page_def reserved_def region_def Let_def not_le)
  have "pm_ok ?pm"
  proof (rule pm_okI, goal_cases)
    case (4 q)
    then show ?case using ok(4) [of q] p(1) by (auto simp: al)
  next
    case (5 q)
    then show ?case using ok(5) [of q] by (simp add: al)
  next
    case 6
    then show ?case using ok(6) ok(7) [of p] p(4) by (auto simp: cache_push_def)
  next
    case (7 q)
    then have "q = p \<or> q \<in> set (cache_pages (pm_free_cache pm))"
      by (auto simp: cache_push_def)
    then show ?case using ok(5) [OF p(4,1)] ok(7) [of q] p(1,2) by (auto simp: al)
  qed (use u(1) ok(2,3) in simp_all)
  then show ?thesis
    using f al p(1) by simp
qed


lemma update_checksum_bitmap:
  assumes "bitmap_wf b"
  shows "bitmap_wf (b\<lparr>bm_buf := update_checksum_bytes H (bm_buf b)\<rparr>)"
    "is_set (b\<lparr>bm_buf := update_checksum_bytes H (bm_buf b)\<rparr>) p = is_set b p"
proof -
  define c where "c = update_checksum_bytes H (bm_buf b)"
  have c: "drop 32 c = drop 32 (bm_buf b)" "length c = 8192"
    using assms by (simp_all add: c_def update_checksum_bytes_def splice_def bitmap_wf_def)
  have "c ! (64 + k) = bm_buf b ! (64 + k)" if "64 + k < 8192" for k
    using arg_cong [OF c(1), of "\<lambda>xs. xs ! (32 + k)"] that c(2) assms by (simp add: bitmap_wf_def)
  then have "64 + i div 8 < 8192 \<Longrightarrow> bit_at c i = bit_at (bm_buf b) i" for i
    by (simp add: bit_at_iff)
  then show "bitmap_wf (b\<lparr>bm_buf := update_checksum_bytes H (bm_buf b)\<rparr>)"
    "is_set (b\<lparr>bm_buf := update_checksum_bytes H (bm_buf b)\<rparr>) p = is_set b p"
    using c(2) assms unfolding c_def [symmetric]
    by (simp_all add: bitmap_wf_def is_set_def Let_def local_index_def base_page_id_def)
qed

text \<open>A new database file: the three reserved pages are marked and nothing else.\<close>

lemma init_bitmap:
  obtains b1 b2 b3 where "bitmap_allocate (bitmap_new 2 0) 0 = Some b1" "bitmap_allocate b1 1 = Some b2"
    "bitmap_allocate b2 2 = Some b3" "bitmap_wf b3" "bitmap.elems b3 = {2, 1, 0}" "bitmap_slot b3 = 0"
proof -
  let ?b0 = "bitmap_new 2 0"
  have wf0: "bitmap_wf ?b0"
    by (simp add: bitmap_new_def bitmap_wf_def page_init_def header_image_def splice_def)
  have rng: "p \<in> bitmap_range ?b0 \<longleftrightarrow> region p = 0" for p
    using region_range [of "[?b0]" 0 p] wf0 by (simp add: chain_ok_def bitmap_new_def)
  have e0: "bitmap.elems ?b0 = {}"
    by (auto simp: bitmap.elems_def is_set_def Let_def bitmap_range_def bitmap_new_def bit_at_init split: if_splits)
  obtain b1 where b1: "bitmap_allocate ?b0 0 = Some b1" "bitmap_wf b1" "bitmap_range b1 = bitmap_range ?b0"
    "bitmap.elems b1 = {0}" "bitmap_slot b1 = 0"
    using bitmap.elems_add [OF wf0, of 0] rng [of 0] e0 bitmap_slot_allocate [of ?b0 0]
    by (auto simp: bitmap_new_def region_def)
  obtain b2 where b2: "bitmap_allocate b1 1 = Some b2" "bitmap_wf b2" "bitmap_range b2 = bitmap_range b1"
    "bitmap.elems b2 = {1, 0}" "bitmap_slot b2 = 0"
    using bitmap.elems_add [OF b1(2), of 1] rng [of 1] b1(3-5) bitmap_slot_allocate [of b1 1]
    by (auto simp: region_def)
  obtain b3 where "bitmap_allocate b2 2 = Some b3" "bitmap_wf b3" "bitmap.elems b3 = {2, 1, 0}" "bitmap_slot b3 = 0"
    using bitmap.elems_add [OF b2(2), of 2] rng [of 2] b1(3) b2(3-5) bitmap_slot_allocate [of b2 2]
    by (auto simp: region_def)
  with b1(1) b2(1) show thesis
    by (rule that)
qed

lemma pm_init_ok:
  assumes "pm_init H ps fs = Some (Inr pm, fs')"
  shows "pm_ok pm" "allocated (pm_bitmaps pm) q \<longleftrightarrow> q < 3"
    "next_free_page_id (pm_superblock pm) = 3" "cache_pages (pm_free_cache pm) = []"
proof -
  obtain b1 b2 b3 where bs: "bitmap_allocate (bitmap_new 2 0) 0 = Some b1" "bitmap_allocate b1 1 = Some b2"
      "bitmap_allocate b2 2 = Some b3" and b3: "bitmap_wf b3" "bitmap.elems b3 = {2, 1, 0}" "bitmap_slot b3 = 0"
    by (rule init_bitmap)
  define b where "b = b3\<lparr>bm_buf := update_checksum_bytes H (bm_buf b3)\<rparr>"
  have b: "bitmap_wf b" "is_set b p = is_set b3 p" "bitmap_slot b = 0" for p
    using update_checksum_bitmap [OF b3(1), of H] b3(3) by (simp_all add: b_def)
  have pm: "pm_bitmaps pm = [b]" "next_free_page_id (pm_superblock pm) = 3" "pm_free_cache pm = cache_new 64"
    using assms bs
    by (auto simp: pm_init_def Let_def b_def io_return_def sb_update_checksum_def elim!: io_bind_InrE)
  have ch: "chain_ok [b]" "chain_ok [b3]"
    using b b3 by (simp_all add: chain_ok_def)
  have lt3: "p < 3 \<longleftrightarrow> p = 0 \<or> p = 1 \<or> p = 2" for p :: u64
    by (auto simp: word_less_nat_alt word_unat_eq_iff)
  have al: "allocated [b] p \<longleftrightarrow> p < 3" for p
    using allocated_iff [OF ch(2), of p] by (auto simp: allocated_def b b3(2) lt3 region_def)
  show "allocated (pm_bitmaps pm) q \<longleftrightarrow> q < 3" "next_free_page_id (pm_superblock pm) = 3"
    "cache_pages (pm_free_cache pm) = []"
    by (simp_all add: pm al cache_new_def)
  show "pm_ok pm"
  proof (rule pm_okI, goal_cases)
    case (4 p)
    then have "unat p < 65024"
      by (simp add: pm region_def div_eq_0_iff)
    then show ?case
      using 4(1) by (auto simp: pm al reserved_iff word_less_nat_alt)
  next
    case (5 p)
    then show ?case by (simp add: pm al reserved_def)
  qed (use ch in \<open>simp_all add: pm cache_new_def\<close>)
qed


section \<open>Sessions of allocations and frees\<close>

text \<open>What a client sees of the allocator: the pages it was given and the pages it gave back.\<close>

datatype alloc_event = Given u64 | Refused io_error | Freed u64

inductive alloc_step :: "page_manager \<Rightarrow> alloc_event \<Rightarrow> page_manager \<Rightarrow> bool" where
  given: "try_allocate_page pm = Some (Inr p, pm') \<Longrightarrow> alloc_step pm (Given p) pm'"
| refused: "try_allocate_page pm = Some (Inl e, pm') \<Longrightarrow> alloc_step pm (Refused e) pm'"
| freed: "free_page pm p = Some pm' \<Longrightarrow> alloc_step pm (Freed p) pm'"

inductive_simps alloc_step_simps [simp]:
  "alloc_step pm (Given p) pm'" "alloc_step pm (Refused e) pm'" "alloc_step pm (Freed p) pm'"

inductive alloc_run :: "page_manager \<Rightarrow> alloc_event list \<Rightarrow> page_manager \<Rightarrow> bool" where
  alloc_run_Nil: "alloc_run pm [] pm"
| alloc_run_snoc: "alloc_run pm evs pm' \<Longrightarrow> alloc_step pm' ev pm'' \<Longrightarrow> alloc_run pm (evs @ [ev]) pm''"

lemma alloc_run_Cons: "alloc_run pm1 evs pm' \<Longrightarrow> alloc_step pm ev pm1 \<Longrightarrow> alloc_run pm (ev # evs) pm'"
proof (induction rule: alloc_run.induct)
  case (alloc_run_Nil pm1)
  then show ?case
    using alloc_run_snoc [OF alloc_run.alloc_run_Nil, of pm ev pm1] by simp
next
  case (alloc_run_snoc pm1 evs pm' ev' pm'')
  then show ?case
    using alloc_run.alloc_run_snoc [of pm "ev # evs" pm' ev' pm''] by simp
qed

fun live_after :: "u64 set \<Rightarrow> alloc_event \<Rightarrow> u64 set" where
  "live_after L (Given p) = insert p L"
| "live_after L (Refused e) = L"
| "live_after L (Freed p) = L - {p}"

definition live_pages :: "alloc_event list \<Rightarrow> u64 set" where
  "live_pages evs = foldl live_after {} evs"

lemma live_pages_snoc [simp]: "live_pages [] = {}" "live_pages (evs @ [ev]) = live_after (live_pages evs) ev"
  by (simp_all add: live_pages_def)

lemma alloc_step_ok:
  assumes "alloc_step pm ev pm'" "pm_ok pm"
    and "\<forall>q. \<not> reserved q \<longrightarrow> (allocated (pm_bitmaps pm) q \<longleftrightarrow> q \<in> L)" "\<forall>q \<in> L. \<not> reserved q"
  shows "pm_ok pm'" "\<forall>q. \<not> reserved q \<longrightarrow> (allocated (pm_bitmaps pm') q \<longleftrightarrow> q \<in> live_after L ev)"
    "\<forall>q \<in> live_after L ev. \<not> reserved q"
  using assms(1)
proof (atomize (full), cases rule: alloc_step.cases)
  case (given p)
  then show "pm_ok pm' \<and> (\<forall>q. \<not> reserved q \<longrightarrow> (allocated (pm_bitmaps pm') q \<longleftrightarrow> q \<in> live_after L ev))
      \<and> (\<forall>q \<in> live_after L ev. \<not> reserved q)"
    using try_allocate_ok [OF assms(2)] assms(3,4) by auto
next
  case (refused e)
  then show "pm_ok pm' \<and> (\<forall>q. \<not> reserved q \<longrightarrow> (allocated (pm_bitmaps pm') q \<longleftrightarrow> q \<in> live_after L ev))
      \<and> (\<forall>q \<in> live_after L ev. \<not> reserved q)"
    using try_allocate_ok [OF assms(2)] assms(3,4) by auto
next
  case (freed p)
  then show "pm_ok pm' \<and> (\<forall>q. \<not> reserved q \<longrightarrow> (allocated (pm_bitmaps pm') q \<longleftrightarrow> q \<in> live_after L ev))
      \<and> (\<forall>q \<in> live_after L ev. \<not> reserved q)"
    using free_page_ok [OF assms(2), of p] assms(3,4) by auto
qed

lemma alloc_run_ok:
  assumes "alloc_run pm evs pm'" "pm_ok pm" "\<forall>q. \<not> reserved q \<longrightarrow> \<not> allocated (pm_bitmaps pm) q"
  shows "pm_ok pm'" "\<forall>q. \<not> reserved q \<longrightarrow> (allocated (pm_bitmaps pm') q \<longleftrightarrow> q \<in> live_pages evs)"
    "\<forall>q \<in> live_pages evs. \<not> reserved q"
proof -
  from assms have "pm_ok pm' \<and> (\<forall>q. \<not> reserved q \<longrightarrow> (allocated (pm_bitmaps pm') q \<longleftrightarrow> q \<in> live_pages evs))
      \<and> (\<forall>q \<in> live_pages evs. \<not> reserved q)"
  proof induction
    case (alloc_run_snoc pm evs pm' ev pm'')
    then have "pm_ok pm'" "\<forall>q. \<not> reserved q \<longrightarrow> (allocated (pm_bitmaps pm') q \<longleftrightarrow> q \<in> live_pages evs)"
      "\<forall>q \<in> live_pages evs. \<not> reserved q"
      by simp_all
    from alloc_step_ok [OF alloc_run_snoc(2) this] show ?case
      by simp
  qed simp
  then show "pm_ok pm'" "\<forall>q. \<not> reserved q \<longrightarrow> (allocated (pm_bitmaps pm') q \<longleftrightarrow> q \<in> live_pages evs)"
    "\<forall>q \<in> live_pages evs. \<not> reserved q"
    by blast+
qed

text \<open>C7. In a session that started with a new database file, after any sequence of allocations
  and frees (double frees and frees of reserved pages included), the allocator neither panics
  nor hands out a page that is in use or reserved: the next allocation gives a fresh data page
  or reports that the address space is used up, and every free succeeds. The bitmaps mark,
  outside the reserved pages, exactly the pages in use.\<close>

theorem allocator_never_double_allocates:
  assumes "pm_init H ps fs = Some (Inr pm0, fs')" "alloc_run pm0 evs pm"
  shows "(\<exists>res pm'. try_allocate_page pm = Some (res, pm')
      \<and> (case res of Inr p \<Rightarrow> p \<notin> live_pages evs \<and> 3 \<le> p \<and> \<not> is_bitmap_page p | Inl e \<Rightarrow> e = OutOfMemory))
    \<and> (\<forall>p. free_page pm p \<noteq> None)
    \<and> {q. allocated (pm_bitmaps pm) q \<and> 3 \<le> q \<and> \<not> is_bitmap_page q} = live_pages evs"
proof -
  note i = pm_init_ok [OF assms(1)]
  have n: "\<forall>q. \<not> reserved q \<longrightarrow> \<not> allocated (pm_bitmaps pm0) q"
    using i(2) by (simp add: reserved_def)
  note ok = alloc_run_ok [OF assms(2) i(1) n]
  obtain res pm' where r: "try_allocate_page pm = Some (res, pm')"
    "case res of Inr p \<Rightarrow> \<not> reserved p \<and> \<not> allocated (pm_bitmaps pm) p | Inl e \<Rightarrow> e = OutOfMemory"
    using try_allocate_ok [OF ok(1)] by (elim exE conjE) (rule that, assumption, simp split: sum.splits)
  have "case res of Inr p \<Rightarrow> p \<notin> live_pages evs \<and> 3 \<le> p \<and> \<not> is_bitmap_page p | Inl e \<Rightarrow> e = OutOfMemory"
    using r(2) ok(2) by (auto split: sum.splits simp: reserved_def not_less)
  moreover have "free_page pm p \<noteq> None" for p
    using free_page_ok [OF ok(1), of p] by auto
  moreover have "{q. allocated (pm_bitmaps pm) q \<and> 3 \<le> q \<and> \<not> is_bitmap_page q} = live_pages evs"
    using ok(2,3) by (auto simp: reserved_def not_less)
  ultimately show ?thesis
    using r(1) by blast
qed

lemma pm_init_succeeds:
  assumes "plan fs = []"
  shows "\<exists>pm fs'. pm_init H ps fs = Some (Inr pm, fs')"
proof -
  obtain b1 b2 b3 where "bitmap_allocate (bitmap_new 2 0) 0 = Some b1" "bitmap_allocate b1 1 = Some b2"
      "bitmap_allocate b2 2 = Some b3"
    by (rule init_bitmap)
  then show ?thesis
    using assms
    by (cases "files fs DataFile") (auto simp: pm_init_def Let_def io_bind_def fs_open_def fh_len_def fh_set_len_def
        fh_sync_def io_return_def contents_def fs_exists_def)
qed

text \<open>Extending the file with an empty free list gives the page at the high-water mark.\<close>

lemma extend_gives_next:
  assumes "cache_pages (pm_free_cache pm) = []" "chain_ok (pm_bitmaps pm)" "pm_bitmaps pm \<noteq> []"
    and "next_free_page_id (pm_superblock pm) = of_nat n" "3 \<le> n" "n < 65024"
  shows "\<exists>pm'. try_allocate_page pm = Some (Inr (of_nat n), pm')"
proof -
  have n: "unat (of_nat n :: u64) = n"
    using assms(6) by (simp add: unat_of_nat)
  have r: "region (of_nat n) = 0"
    using assms(6) by (simp add: region_def n)
  obtain bms where "mark_allocated (pm_bitmaps pm) 0 (of_nat n) = Some bms"
    using mark_allocated_ok [OF assms(2), of "of_nat n"] r assms(3) by auto
  moreover have "ensure_bitmap 0 (pm_bitmaps pm) = Some (pm_bitmaps pm)"
    using assms(3) by (subst ensure_bitmap.simps) (simp add: Suc_le_eq)
  moreover have "\<not> MAX_ADDRESSABLE_PAGE_ID < of_nat n"
    using assms(6) by (simp add: word_less_nat_alt max_addressable n)
  moreover have "\<not> is_bitmap_page (of_nat n)"
    using reserved_iff [of "of_nat n"] assms(5,6) by (simp add: n reserved_def)
  ultimately show ?thesis
    using assms(6) by (simp add: try_allocate_page_def cache_pop_def assms(1,4) extend_alloc.simps Let_def n)
qed

lemma first_page:
  assumes "pm_init H ps fs = Some (Inr pm0, fs')"
  shows "\<exists>pm1. try_allocate_page pm0 = Some (Inr 3, pm1)"
proof -
  note i = pm_init_ok [OF assms]
  have "pm_bitmaps pm0 \<noteq> []"
    using i(2) [of 0] by (auto simp: allocated_def)
  then show ?thesis
    using extend_gives_next [of pm0 3] i(3,4) pm_okD(1) [OF i(1)] by simp
qed

theorem allocator_never_double_allocates_witness:
  "\<exists>pm0 fs' pm. pm_init demo_digests 8192 (demo_disk []) = Some (Inr pm0, fs') \<and> alloc_run pm0 [Given 3] pm
     \<and> (\<exists>res pm'. try_allocate_page pm = Some (res, pm')
         \<and> (case res of Inr p \<Rightarrow> p \<notin> live_pages [Given 3] \<and> 3 \<le> p \<and> \<not> is_bitmap_page p | Inl e \<Rightarrow> e = OutOfMemory))
     \<and> {q. allocated (pm_bitmaps pm) q \<and> 3 \<le> q \<and> \<not> is_bitmap_page q} = {3}"
proof -
  obtain pm0 fs' where i: "pm_init demo_digests 8192 (demo_disk []) = Some (Inr pm0, fs')"
    using pm_init_succeeds [of "demo_disk []" demo_digests 8192] by (auto simp: demo_disk_def)
  obtain pm where "try_allocate_page pm0 = Some (Inr 3, pm)"
    using first_page [OF i] by blast
  then have r: "alloc_run pm0 [Given 3] pm"
    using alloc_run_snoc [OF alloc_run_Nil, of pm0 "Given 3" pm] by simp
  have "live_pages [Given 3] = {3}"
    by (simp add: live_pages_def)
  then have "{q. allocated (pm_bitmaps pm) q \<and> 3 \<le> q \<and> \<not> is_bitmap_page q} = {3}"
    using allocator_never_double_allocates [OF i r] by argo
  with i r conjunct1 [OF allocator_never_double_allocates [OF i r]] show ?thesis
    by - (rule exI [of _ pm0], rule exI [of _ fs'], rule exI [of _ pm], intro conjI)
qed


section \<open>Reopening\<close>

text \<open>What the scan at open caches: the first clear, unreserved bits, up to a batch.\<close>

definition clear_ids :: "bitmap_page \<Rightarrow> nat list \<Rightarrow> u64 list" where
  "clear_ids b is = filter (\<lambda>p. \<not> reserved p \<and> is_set b p = Some False) (map (\<lambda>i. base_page_id b + of_nat i) is)"

lemma rebuild_bits_eq:
  assumes "\<forall>i \<in> set is. is_set b (base_page_id b + of_nat i) \<noteq> None"
  shows "\<exists>full. rebuild_bits b is c =
    Some (full, c\<lparr>cache_pages := cache_pages c @ take (batch_size c - length (cache_pages c)) (clear_ids b is)\<rparr>)"
  using assms
proof (induction "is" arbitrary: c)
  case (Cons i "is")
  let ?p = "base_page_id b + of_nat i"
  show ?case
  proof (cases "batch_size c \<le> length (cache_pages c) \<or> reserved ?p \<or> is_set b ?p = Some True")
    case True
    then show ?thesis
      using Cons.IH [of c] Cons.prems by (auto simp: clear_ids_def reserved_def Let_def)
  next
    case False
    then have p: "\<not> reserved ?p" "is_set b ?p = Some False" "\<not> batch_size c \<le> length (cache_pages c)"
      using Cons.prems by auto
    then have "clear_ids b (i # is) = ?p # clear_ids b is"
      "batch_size c - length (cache_pages c) = Suc (batch_size c - Suc (length (cache_pages c)))"
      by (auto simp: clear_ids_def)
    then show ?thesis
      using Cons.IH [of "cache_push c ?p"] Cons.prems p by (auto simp: reserved_def Let_def cache_push_def)
  qed
qed (auto simp: clear_ids_def)

lemma is_set_low:
  assumes "bitmap_wf b" "bitmap_slot b = 0" "i < 65024"
  shows "is_set b (of_nat i) = Some (bit_at (bm_buf b) i)"
proof -
  have "i div 8 < 8128"
    using assms(3) by auto
  moreover have "local_index b (of_nat i) = i"
    using assms by (simp add: local_index_def base_page_id_def unat_of_nat)
  ultimately show ?thesis
    using assms by (simp add: is_set_def bitmap_wf_def Let_def)
qed

lemma reserved_low: "i < 65024 \<Longrightarrow> reserved (of_nat i) \<longleftrightarrow> i < 3"
  by (auto simp: reserved_iff unat_of_nat)

lemma open_cache:
  assumes "plan fs = []" "files fs DataFile = Some d" "length buf = 8192"
  shows "open_multi sb [buf] fs = Some (Inr \<lparr>pm_superblock = sb, pm_bitmaps = [bitmap_from_buf buf 0],
      pm_free_cache = \<lparr>cache_pages = take 64 (map of_nat (filter (\<lambda>i. 3 \<le> i \<and> \<not> bit_at buf i) [0..<65024])), batch_size = 64\<rparr>,
      pm_data_handle = Some DataFile, pm_doublewrite = False\<rparr>, fs)"
proof -
  define b where "b = bitmap_from_buf buf 0"
  have b: "bitmap_wf b" "bitmap_slot b = 0" "bm_buf b = buf" "base_page_id b = 0"
    using assms(3) by (simp_all add: b_def bitmap_from_buf_def bitmap_wf_def base_page_id_def)
  have "clear_ids b [0..<65024] = map of_nat (filter (\<lambda>i. 3 \<le> i \<and> \<not> bit_at buf i) [0..<65024])"
    using is_set_low [OF b(1,2)] reserved_low
    by (auto simp: clear_ids_def b filter_map o_def intro!: arg_cong [of _ _ "map of_nat"] filter_cong)
  moreover obtain full where "rebuild_bits b [0..<65024] (cache_new 64) =
      Some (full, (cache_new 64)\<lparr>cache_pages := cache_pages (cache_new 64)
        @ take (batch_size (cache_new 64) - length (cache_pages (cache_new 64))) (clear_ids b [0..<65024])\<rparr>)"
    using rebuild_bits_eq [of "[0..<65024]" b "cache_new 64"] is_set_low [OF b(1,2)] b(4) by auto
  ultimately have "rebuild_loop [b] (cache_new 64) = Some \<lparr>cache_pages =
      take 64 (map of_nat (filter (\<lambda>i. 3 \<le> i \<and> \<not> bit_at buf i) [0..<65024])), batch_size = 64\<rparr>"
    by (simp add: cache_new_def)
  moreover have "(cache_new 64)\<lparr>cache_pages := []\<rparr> = cache_new 64"
    by (simp add: cache_new_def)
  ultimately show ?thesis
    using assms by (simp add: open_multi_def rebuild_cache_def fs_open_def fs_exists_def b_def [symmetric] enumerate_eq_zip
        del: rebuild_loop.simps)
qed


lemma pop_run:
  assumes "chain_ok (pm_bitmaps pm)" "cache_pages (pm_free_cache pm) = xs" "\<forall>p \<in> set xs. region p < length (pm_bitmaps pm)"
  shows "\<exists>pm'. alloc_run pm (map Given (rev xs)) pm' \<and> cache_pages (pm_free_cache pm') = []
    \<and> chain_ok (pm_bitmaps pm') \<and> length (pm_bitmaps pm') = length (pm_bitmaps pm)
    \<and> next_free_page_id (pm_superblock pm') = next_free_page_id (pm_superblock pm)"
  using assms
proof (induction xs arbitrary: pm rule: rev_induct)
  case Nil
  then show ?case
    using alloc_run_Nil [of pm] by auto
next
  case (snoc p xs)
  obtain bms where b: "mark_allocated (pm_bitmaps pm) (region p) p = Some bms" "chain_ok bms" "length bms = length (pm_bitmaps pm)"
    using mark_allocated_ok [OF snoc(2), of p] snoc(4) by auto
  define pm1 where "pm1 = pm\<lparr>pm_free_cache := (pm_free_cache pm)\<lparr>cache_pages := xs\<rparr>, pm_bitmaps := bms,
      pm_superblock := (pm_superblock pm)\<lparr>free_page_count := saturating_sub (free_page_count (pm_superblock pm)) 1\<rparr>\<rparr>"
  have t: "try_allocate_page pm = Some (Inr p, pm1)"
    using b(1) snoc(3,4) by (simp add: try_allocate_page_def cache_pop_def Let_def region_def pm1_def)
  obtain pm' where r: "alloc_run pm1 (map Given (rev xs)) pm'" "cache_pages (pm_free_cache pm') = []"
    "chain_ok (pm_bitmaps pm')" "length (pm_bitmaps pm') = length bms"
    "next_free_page_id (pm_superblock pm') = next_free_page_id (pm_superblock pm)"
    using snoc(1) [of pm1] b(2,3) snoc(4) by (auto simp: pm1_def)
  have "alloc_run pm (Given p # map Given (rev xs)) pm'"
    using r(1) t by (rule_tac alloc_run_Cons) simp_all
  then show ?case
    using r b(3) by auto
qed


text \<open>C17. Reopening a database breaks the allocator. Take the state a first session without
  frees leaves on disk: the bits of the pages below \<open>n\<close> are set, the others clear, and the
  high-water mark is \<open>n\<close>. Opening it caches the 64 clear pages from \<open>n\<close> on, although they
  lie above the high-water mark; the next 64 allocations hand them out without moving the
  mark, and the one after that extends the file and hands out page \<open>n\<close> a second time while
  it is in use.\<close>

theorem reopened_allocator_repeats_a_page:
  assumes "plan fs = []" "files fs DataFile = Some d" "length buf = 8192"
    and "3 \<le> n" "n + 64 \<le> 65024" "\<forall>i < 65024. bit_at buf i \<longleftrightarrow> i < n" "next_free_page_id sb = of_nat n"
  shows "\<exists>pm pm'. open_multi sb [buf] fs = Some (Inr pm, fs)
    \<and> alloc_run pm (map (\<lambda>i. Given (of_nat i)) (rev [n..<n + 64]) @ [Given (of_nat n)]) pm'
    \<and> of_nat n \<in> live_pages (map (\<lambda>i. Given (of_nat i)) (rev [n..<n + 64]))"
proof -
  let ?xs = "map of_nat [n..<n + 64] :: u64 list"
  have "filter (\<lambda>i. 3 \<le> i \<and> \<not> bit_at buf i) [0..<65024] = filter (\<lambda>i. n \<le> i) [0..<65024]"
    using assms(4,6) by (intro filter_cong) auto
  also have "\<dots> = filter (\<lambda>i. n \<le> i) ([0..<n] @ [n..<65024])"
    using assms(5) upt_add_eq_append [of 0 n "65024 - n"] by simp
  also have "\<dots> = [n..<65024]"
    by simp
  finally have c: "take 64 (map of_nat (filter (\<lambda>i. 3 \<le> i \<and> \<not> bit_at buf i) [0..<65024])) = ?xs"
    using assms(5) by (simp add: take_map take_upt)
  obtain pm where o: "open_multi sb [buf] fs = Some (Inr pm, fs)" "cache_pages (pm_free_cache pm) = ?xs"
    "pm_superblock pm = sb" "pm_bitmaps pm = [bitmap_from_buf buf 0]"
    using open_cache [OF assms(1-3), of sb] by (simp add: c)
  have ch: "chain_ok (pm_bitmaps pm)"
    using assms(3) by (simp add: o chain_ok_def bitmap_wf_def bitmap_from_buf_def)
  have reg: "\<forall>p \<in> set ?xs. region p < length (pm_bitmaps pm)"
    using assms(5) by (auto simp: o region_def unat_of_nat)
  obtain pm1 where r: "alloc_run pm (map Given (rev ?xs)) pm1" "cache_pages (pm_free_cache pm1) = []"
    "chain_ok (pm_bitmaps pm1)" "length (pm_bitmaps pm1) = 1" "next_free_page_id (pm_superblock pm1) = of_nat n"
    using pop_run [OF ch o(2) reg] by (auto simp: o assms(7))
  obtain pm' where "try_allocate_page pm1 = Some (Inr (of_nat n), pm')"
    using extend_gives_next [OF r(2,3) _ r(5) assms(4)] r(4) assms(5) by fastforce
  then have "alloc_run pm (map Given (rev ?xs) @ [Given (of_nat n)]) pm'"
    using alloc_run_snoc [OF r(1)] by simp
  moreover have m: "map Given (rev ?xs) = map (\<lambda>i. Given (of_nat i)) (rev [n..<n + 64])"
    by (simp add: rev_map o_def)
  moreover have "live_pages (map Given ps) = set ps" for ps
    by (induction ps rule: rev_induct) simp_all
  from this [of "rev ?xs"] have "of_nat n \<in> live_pages (map (\<lambda>i. Given (of_nat i)) (rev [n..<n + 64]))"
    by (simp add: m)
  ultimately show ?thesis
    using o(1) by metis
qed

definition demo_bitmap :: bytes where
  "demo_bitmap = replicate 64 0 @ [255] @ replicate 8127 0"

lemma demo_bitmap_bits:
  assumes "i < 65024"
  shows "bit_at demo_bitmap i \<longleftrightarrow> i < 8"
proof (cases "i < 8")
  case True
  then have "bit (mask 8 :: u8) i"
    by (simp add: bit_mask_iff)
  moreover have "mask 8 = (255 :: u8)"
    by (simp add: mask_eq_exp_minus_1)
  ultimately show ?thesis
    using True by (simp add: bit_at_iff demo_bitmap_def nth_append)
next
  case False
  then have "0 < i div 8" "i div 8 < 8128"
    using assms by auto
  then have "demo_bitmap ! (64 + i div 8) = 0"
    by (simp add: demo_bitmap_def nth_append nth_Cons' )
  with False show ?thesis
    by (simp add: bit_at_iff)
qed

theorem reopened_allocator_repeats_a_page_witness:
  "\<exists>pm pm'. open_multi ((superblock_new 8192)\<lparr>next_free_page_id := 8\<rparr>) [demo_bitmap] (demo_disk []) = Some (Inr pm, demo_disk [])
    \<and> alloc_run pm (map (\<lambda>i. Given (of_nat i)) (rev [8..<72]) @ [Given 8]) pm'
    \<and> 8 \<in> live_pages (map (\<lambda>i. Given (of_nat i)) (rev [8..<72]))"
  using reopened_allocator_repeats_a_page [of "demo_disk []" "[]" demo_bitmap 8 "(superblock_new 8192)\<lparr>next_free_page_id := 8\<rparr>"]
  by (simp add: demo_disk_def demo_bitmap_bits del: upt_rec_numeral) (simp add: demo_bitmap_def)


section \<open>Reconciling with the data file\<close>

text \<open>A page the scan of the data file takes to be in use.\<close>

definition in_use_on_disk :: "digests \<Rightarrow> bytes \<Rightarrow> u64 \<Rightarrow> bool" where
  "in_use_on_disk H c p \<longleftrightarrow> \<not> is_bitmap_page p \<and> verify_checksum_bytes H (disk_page c (unat p))
     \<and> 0 < slot_count (page_header_of (disk_page c (unat p)))"

lemma read_scanned_page:
  assumes "plan fs = []" "files fs DataFile = Some c" "8192 * i + 8192 \<le> length c" "i < 2 ^ 51"
  shows "fh_read_at DataFile (page_pos (of_nat i)) PAGE_SIZE fs = (Inr (disk_page c i), fs)" "unat (of_nat i :: u64) = i"
proof -
  show u: "unat (of_nat i :: u64) = i"
    using assms(4) by (simp add: unat_of_nat)
  then have "page_pos (of_nat i) = 8192 * i"
    using assms(4) by (simp add: page_pos_eq page_no_small)
  then show "fh_read_at DataFile (page_pos (of_nat i)) PAGE_SIZE fs = (Inr (disk_page c i), fs)"
    using assms(1-3) by (simp add: fh_read_at_def contents_def disk_page_def)
qed

lemma mark_in_chain:
  assumes "chain_ok bms" "unat p < 2 ^ 51"
  shows "\<exists>bms1 bms2. ensure_bitmap (region p) bms = Some bms1 \<and> mark_allocated bms1 (region p) p = Some bms2 \<and> chain_ok bms2
    \<and> length bms \<le> length bms2
    \<and> (\<forall>q. \<not> reserved q \<longrightarrow> (allocated bms2 q \<longleftrightarrow> q = p \<or> allocated bms q))"
proof -
  obtain bms1 where 1: "ensure_bitmap (region p) bms = Some bms1" "chain_ok bms1" "length bms1 = max (length bms) (Suc (region p))"
    "\<forall>q. allocated bms1 q \<longleftrightarrow> allocated bms q \<or> (length bms \<le> region q \<and> region q < length bms1 \<and> reserved q)"
    using ensure_bitmap_ok [OF assms(1) region_room [OF assms(2)]] by blast
  then have "region p < length bms1"
    by simp
  from mark_allocated_ok [OF 1(2) this] 1 show ?thesis
    by auto
qed

lemma reconcile_loop_ok:
  assumes "plan fs = []" "files fs DataFile = Some c" "chain_ok bms"
    and "\<forall>i \<in> set is. 8192 * i + 8192 \<le> length c \<and> i < 2 ^ 51"
  shows "\<exists>bms' mx'. reconcile_loop H DataFile (map of_nat is) bms mx fs = Some ((bms', mx'), fs) \<and> chain_ok bms'
    \<and> length bms \<le> length bms' \<and> mx \<le> mx'
    \<and> (\<forall>q. \<not> reserved q \<longrightarrow> (allocated bms' q \<longleftrightarrow> allocated bms q \<or> (q \<in> of_nat ` set is \<and> in_use_on_disk H c q)))
    \<and> (\<forall>q \<in> of_nat ` set is. in_use_on_disk H c q \<longrightarrow> q \<le> mx')"
  using assms
proof (induction "is" arbitrary: bms mx)
  case (Cons i "is")
  let ?p = "of_nat i :: u64"
  have i: "8192 * i + 8192 \<le> length c" "i < 2 ^ 51"
    using Cons.prems(4) by auto
  note rd = read_scanned_page [OF Cons.prems(1,2) i]
  show ?case
  proof (cases "in_use_on_disk H c ?p")
    case False
    then have "reconcile_loop H DataFile (map of_nat (i # is)) bms mx fs = reconcile_loop H DataFile (map of_nat is) bms mx fs"
      using rd by (auto simp: in_use_on_disk_def)
    then show ?thesis
      using Cons.IH [OF Cons.prems(1-3), of mx] Cons.prems(4) False by auto
  next
    case True
    obtain bms1 bms2 where b: "ensure_bitmap (region ?p) bms = Some bms1" "mark_allocated bms1 (region ?p) ?p = Some bms2"
      "chain_ok bms2" "length bms \<le> length bms2" "\<forall>q. \<not> reserved q \<longrightarrow> (allocated bms2 q \<longleftrightarrow> q = ?p \<or> allocated bms q)"
      using mark_in_chain [OF Cons.prems(3), of ?p] rd(2) i(2) by auto
    have step: "reconcile_loop H DataFile (map of_nat (i # is)) bms mx fs =
        reconcile_loop H DataFile (map of_nat is) bms2 (if mx < ?p then ?p else mx) fs"
      using True rd b(1,2) by (simp add: in_use_on_disk_def region_def)
    define m where "m = (if mx < ?p then ?p else mx)"
    have m: "mx \<le> m" "?p \<le> m"
      by (auto simp: m_def)
    obtain bms' mx' where r: "reconcile_loop H DataFile (map of_nat is) bms2 m fs = Some ((bms', mx'), fs)" "chain_ok bms'"
      "length bms2 \<le> length bms'" "m \<le> mx'"
      "\<forall>q. \<not> reserved q \<longrightarrow> (allocated bms' q \<longleftrightarrow> allocated bms2 q \<or> (q \<in> of_nat ` set is \<and> in_use_on_disk H c q))"
      "\<forall>q \<in> of_nat ` set is. in_use_on_disk H c q \<longrightarrow> q \<le> mx'"
      using Cons.IH [OF Cons.prems(1,2) b(3), of m] Cons.prems(4) by auto
    show ?thesis
      unfolding step m_def [symmetric] r(1)
    proof (intro exI conjI)
      show "\<forall>q. \<not> reserved q \<longrightarrow> (allocated bms' q \<longleftrightarrow> allocated bms q \<or> (q \<in> of_nat ` set (i # is) \<and> in_use_on_disk H c q))"
        using r(5) b(5) True by auto
      show "\<forall>q \<in> of_nat ` set (i # is). in_use_on_disk H c q \<longrightarrow> q \<le> mx'"
        using r(4,6) m(2) by auto
    qed (use r(2-4) b(4) m(1) in auto)
  qed
qed simp


lemma saturating_succ: "mx \<noteq> - 1 \<Longrightarrow> q \<le> mx \<Longrightarrow> q < saturating_add mx 1"
proof -
  assume a: "mx \<noteq> - 1" "q \<le> mx"
  have "unat mx \<noteq> 2 ^ 64 - 1"
    using a(1) unat_u64_max by (metis word_unat_eq_iff)
  then have "unat mx + 1 < 2 ^ 64"
    using unat_u64_less [of mx] by simp
  moreover from this have "unat (mx + 1) = unat mx + 1"
    by (simp add: unat_word_ariths)
  ultimately show ?thesis
    using a(2) by (simp add: saturating_add_def word_less_nat_alt word_le_nat_alt)
qed

lemma reconcile_ok:
  assumes "plan fs = []" "files fs DataFile = Some c" "chain_ok (pm_bitmaps pm)" "length c < 2 ^ 64"
  shows "\<exists>pm'. reconcile_from_disk H pm fs = Some (Inr (), pm', fs) \<and> chain_ok (pm_bitmaps pm')
    \<and> length (pm_bitmaps pm) \<le> length (pm_bitmaps pm') \<and> pm_free_cache pm' = pm_free_cache pm
    \<and> (\<forall>q. \<not> reserved q \<longrightarrow> (allocated (pm_bitmaps pm') q \<longleftrightarrow>
         allocated (pm_bitmaps pm) q \<or> (8192 * unat q + 8192 \<le> length c \<and> in_use_on_disk H c q)))
    \<and> (\<forall>q. \<not> reserved q \<longrightarrow> 8192 * unat q + 8192 \<le> length c \<longrightarrow> in_use_on_disk H c q \<longrightarrow>
         q < next_free_page_id (pm_superblock pm'))"
proof -
  define ids where "ids = [3..<length c div 8192]"
  have i: "8192 * i + 8192 \<le> length c \<and> i < 2 ^ 51" if "i \<in> set ids" for i
  proof -
    have "Suc i * 8192 \<le> length c div 8192 * 8192"
      using that by (intro mult_le_mono1) (simp add: ids_def)
    also have "\<dots> \<le> length c"
      by (rule div_times_less_eq_dividend)
    finally show ?thesis
      using assms(4) by simp
  qed
  have mem: "q \<in> of_nat ` set ids \<longleftrightarrow> 8192 * unat q + 8192 \<le> length c" if "\<not> reserved q" for q
  proof
    assume "8192 * unat q + 8192 \<le> length c"
    then have "Suc (unat q) \<le> length c div 8192"
      by (simp add: less_eq_div_iff_mult_less_eq)
    then have "unat q \<in> set ids"
      using that by (simp add: ids_def reserved_iff)
    then show "q \<in> of_nat ` set ids"
      by (intro image_eqI [of _ _ "unat q"]) simp_all
  next
    assume "q \<in> of_nat ` set ids"
    then obtain j where "q = of_nat j" "j \<in> set ids"
      by auto
    then show "8192 * unat q + 8192 \<le> length c"
      using i [of j] by (simp add: unat_of_nat)
  qed
  obtain bms' mx' where r: "reconcile_loop H DataFile (map of_nat ids) (pm_bitmaps pm)
      (saturating_sub (next_free_page_id (pm_superblock pm)) 1) fs = Some ((bms', mx'), fs)" "chain_ok bms'"
      "length (pm_bitmaps pm) \<le> length bms'"
      "\<forall>q. \<not> reserved q \<longrightarrow> (allocated bms' q \<longleftrightarrow> allocated (pm_bitmaps pm) q \<or> (q \<in> of_nat ` set ids \<and> in_use_on_disk H c q))"
      "\<forall>q \<in> of_nat ` set ids. in_use_on_disk H c q \<longrightarrow> q \<le> mx'"
    using reconcile_loop_ok [OF assms(1-3), of ids H "saturating_sub (next_free_page_id (pm_superblock pm)) 1"] i by blast
  have "q < saturating_add mx' 1" if "q \<le> mx'" "8192 * unat q + 8192 \<le> length c" for q
    using saturating_succ [OF _ that(1)] that(2) assms(4)
    by (cases "mx' = - 1") (simp_all add: saturating_add_def word_less_nat_alt unat_u64_max [simplified])
  then have nf: "q < saturating_add mx' 1" if "\<not> reserved q" "8192 * unat q + 8192 \<le> length c" "in_use_on_disk H c q" for q
    using that r(5) mem [OF that(1)] by blast
  let ?sb = "pm_superblock pm"
  define sb1 where "sb1 = (if next_free_page_id ?sb < saturating_add mx' 1 then ?sb\<lparr>next_free_page_id := saturating_add mx' 1\<rparr> else ?sb)"
  define sb2 where "sb2 = (if total_page_count sb1 < of_nat (length c div 8192)
    then sb1\<lparr>total_page_count := of_nat (length c div 8192)\<rparr> else sb1)"
  have "saturating_add mx' 1 \<le> next_free_page_id sb2"
    by (auto simp: sb1_def sb2_def)
  with nf have nf2: "q < next_free_page_id sb2" if "\<not> reserved q" "8192 * unat q + 8192 \<le> length c" "in_use_on_disk H c q" for q
    using that by (meson order_less_le_trans)
  have "reconcile_from_disk H pm fs = Some (Inr (), pm\<lparr>pm_superblock := sb2, pm_bitmaps := bms'\<rparr>, fs)"
    using assms(1,2) r(1)
    by (simp add: reconcile_from_disk_def Let_def fs_open_def fs_exists_def fh_len_def contents_def ids_def sb1_def [symmetric])
      (simp add: sb2_def)
  then show ?thesis
    using r(2-4) mem nf2 by auto
qed


text \<open>Reconciling a reopened database with its data file marks every data page that carries
  records, keeps the marks it had, adds no other mark to a data page, and leaves the high-water
  mark above every page in use, so that extending the file cannot hand one out again.\<close>

theorem reconcile_marks_pages_in_use:
  assumes "plan fs = []" "files fs DataFile = Some c" "chain_ok (pm_bitmaps pm)" "length c < 2 ^ 64"
  shows "\<exists>pm'. reconcile_from_disk H pm fs = Some (Inr (), pm', fs)
    \<and> (\<forall>q. \<not> reserved q \<longrightarrow> (allocated (pm_bitmaps pm') q \<longleftrightarrow>
         allocated (pm_bitmaps pm) q \<or> (8192 * unat q + 8192 \<le> length c \<and> in_use_on_disk H c q)))
    \<and> (\<forall>q. \<not> reserved q \<longrightarrow> 8192 * unat q + 8192 \<le> length c \<longrightarrow> in_use_on_disk H c q \<longrightarrow>
         q < next_free_page_id (pm_superblock pm'))"
  using reconcile_ok [OF assms, of H] by blast

text \<open>Reconciling does not touch the free list that opening filled before it. A page that
  carries records on disk but whose bit was clear in the persisted bitmap is marked by the
  reconciliation and still handed out by the next allocation.\<close>

theorem reconcile_leaves_stale_free_list:
  assumes "plan fs = []" "files fs DataFile = Some c" "chain_ok (pm_bitmaps pm)" "length c < 2 ^ 64"
    and "cache_pages (pm_free_cache pm) = xs @ [p]" "\<not> reserved p" "region p < length (pm_bitmaps pm)"
    and "8192 * unat p + 8192 \<le> length c" "in_use_on_disk H c p"
  shows "\<exists>pm' pm''. reconcile_from_disk H pm fs = Some (Inr (), pm', fs) \<and> allocated (pm_bitmaps pm') p
    \<and> try_allocate_page pm' = Some (Inr p, pm'')"
proof -
  obtain pm' where r: "reconcile_from_disk H pm fs = Some (Inr (), pm', fs)" "chain_ok (pm_bitmaps pm')"
    "length (pm_bitmaps pm) \<le> length (pm_bitmaps pm')" "pm_free_cache pm' = pm_free_cache pm" "allocated (pm_bitmaps pm') p"
    using reconcile_ok [OF assms(1-4), of H] assms(6,8,9) by blast
  have rp: "region p < length (pm_bitmaps pm')"
    using assms(7) r(3) by simp
  then obtain bms where "mark_allocated (pm_bitmaps pm') (region p) p = Some bms"
    using mark_allocated_ok [OF r(2)] by blast
  then have "\<exists>pm''. try_allocate_page pm' = Some (Inr p, pm'')"
    using assms(5) r(4) rp by (simp add: try_allocate_page_def cache_pop_def Let_def region_def)
  with r(1,5) show ?thesis
    by blast
qed


text \<open>A data file whose page 3 carries one record, beside an empty bitmap and a free list with
  page 3 in it.\<close>

definition demo_records :: bytes where
  "demo_records = update_checksum_bytes demo_digests (set_slot_count (replicate 8192 0) 1)"

definition demo_reopened :: page_manager where
  "demo_reopened = \<lparr>pm_superblock = superblock_new 8192, pm_bitmaps = [bitmap_from_buf (replicate 8192 0) 0],
     pm_free_cache = \<lparr>cache_pages = [3], batch_size = 64\<rparr>, pm_data_handle = Some DataFile, pm_doublewrite = False\<rparr>"

abbreviation demo_reopened_file :: bytes where
  "demo_reopened_file \<equiv> replicate 24576 0 @ demo_records"

lemma demo_reopened_facts:
  "chain_ok (pm_bitmaps demo_reopened)" "length demo_reopened_file = 32768" "in_use_on_disk demo_digests demo_reopened_file 3"
  "\<not> reserved 3" "region 3 = 0"
proof -
  have l: "length (set_slot_count (replicate 8192 0) 1) = 8192"
    by (simp add: set_slot_count_def)
  then have lr: "length demo_records = 8192"
    by (simp add: demo_records_def update_checksum_bytes_def)
  then show "length demo_reopened_file = 32768"
    by simp
  show "chain_ok (pm_bitmaps demo_reopened)" "region 3 = 0"
    by (simp_all add: demo_reopened_def chain_ok_def bitmap_wf_def bitmap_from_buf_def region_def)
  show r: "\<not> reserved 3"
    by (simp add: reserved_iff)
  have "slice demo_records 34 2 = slice (set_slot_count (replicate 8192 0) 1) 34 2"
    unfolding demo_records_def update_checksum_bytes_def using l by (intro slice_splice_disjoint) auto
  then have "slot_count (page_header_of demo_records) = 1"
    by (simp add: page_header_of_def set_slot_count_def)
  moreover have "verify_checksum_bytes demo_digests demo_records"
    using checksum_update_verifies [OF l, of demo_digests] by (simp add: demo_records_def)
  moreover have "disk_page demo_reopened_file 3 = demo_records"
    using lr by (simp add: disk_page_def slice_def)
  ultimately show "in_use_on_disk demo_digests demo_reopened_file 3"
    using r by (simp add: in_use_on_disk_def reserved_def)
qed

theorem reconcile_marks_pages_in_use_witness:
  "\<exists>pm'. reconcile_from_disk demo_digests demo_reopened (demo_disk demo_reopened_file) = Some (Inr (), pm', demo_disk demo_reopened_file)
    \<and> allocated (pm_bitmaps pm') 3 \<and> 3 < next_free_page_id (pm_superblock pm')"
  using reconcile_marks_pages_in_use [of "demo_disk demo_reopened_file" demo_reopened_file demo_reopened demo_digests]
    demo_reopened_facts by (fastforce simp: demo_disk_def)

theorem reconcile_leaves_stale_free_list_witness:
  "\<exists>pm' pm''. reconcile_from_disk demo_digests demo_reopened (demo_disk demo_reopened_file)
      = Some (Inr (), pm', demo_disk demo_reopened_file)
    \<and> allocated (pm_bitmaps pm') 3 \<and> try_allocate_page pm' = Some (Inr 3, pm'')"
  by (rule reconcile_leaves_stale_free_list [where xs = "[]" and c = demo_reopened_file])
    (use demo_reopened_facts in \<open>simp_all add: demo_disk_def\<close>, simp_all add: demo_reopened_def)

end
