(* ===== verification/StorageCrash.thy ===== *)
theory StorageCrash
  imports PageManager
begin

text \<open>
  What a crash leaves of the data file when the page manager
  (\<open>src/src/storage/manager.rs\<close>) is writing to it: the superblock protocol (mirror, sync,
  primary, sync) leaves the old or the new superblock loadable, and a page written through
  the double-write buffer (\<open>src/src/wal/doublewrite.rs\<close>) is, after
  \<open>recover_torn_pages\<close>, the old or the new page.
\<close>

section \<open>Torn writes\<close>

lemma splice_prefix:
  assumes "off + length buf \<le> length d"
  shows "take i (splice d off (take k buf)) @ drop i d = splice d off (take (min k (i - off)) buf)"
proof (rule nth_equalityI)
  have l: "length (splice d off (take j buf)) = length d" for j
    using assms by (intro length_splice) simp
  then show "length (take i (splice d off (take k buf)) @ drop i d) = length (splice d off (take (min k (i - off)) buf))"
    by (simp add: min_def)
  fix n
  assume "n < length (take i (splice d off (take k buf)) @ drop i d)"
  then have n: "n < length d"
    using l by (simp add: min_def split: if_splits)
  have sp: "splice d off (take j buf) ! n = (if off \<le> n \<and> n < off + min (length buf) j then buf ! (n - off) else d ! n)" for j
    using n assms by (subst nth_splice) auto
  show "(take i (splice d off (take k buf)) @ drop i d) ! n = splice d off (take (min k (i - off)) buf) ! n"
  proof (cases "n < i")
    case True
    then show ?thesis
      using n l by (simp add: nth_append sp) (auto simp: min_def)
  next
    case False
    then show ?thesis
      using n l by (simp add: nth_append sp) (auto simp: min_def)
  qed
qed

lemma file_write_inside: "off + length b \<le> length d \<Longrightarrow> file_write d off b = splice d off b"
  by (simp add: file_write_def splice_def)

lemma fh_write_at_in_place:
  assumes "files fs h = Some d" "off + length buf \<le> length d"
  shows "fh_write_at h buf off fs = (case fst (io_step fs) of
      Succeed \<Rightarrow> (Inr (), (snd (io_step fs))\<lparr>files := (files fs)(h \<mapsto> splice d off buf)\<rparr>)
    | Fail k \<Rightarrow> (Inl OsError, (snd (io_step fs))\<lparr>files := (files fs)(h \<mapsto> splice d off (take k buf))\<rparr>))"
proof -
  obtain ev fs' where s: "io_step fs = (ev, fs')"
    by (cases "io_step fs")
  have f: "files fs' = files fs" "contents fs' h = d"
    using io_step_frame(1) [of fs] assms(1) by (simp_all add: s contents_def)
  have "splice d off [] = d"
    by (simp add: splice_def)
  then show ?thesis
    using assms(2) by (auto simp: fh_write_at_def s f file_write_inside split: io_event.split)
qed

text \<open>A write in place followed by a sync: all of it durable, or an error with a prefix of the
  bytes in the file and the old image still the durable one.\<close>

lemma write_sync_cases:
  assumes "files fs h = Some d" "durable fs h = Some d" "off + length buf \<le> length d"
    and "io_bind (fh_write_at h buf off) (\<lambda>_. fh_sync h) fs = (res, fs1)"
  obtains (synced) "res = Inr ()" "files fs1 = (files fs)(h \<mapsto> splice d off buf)"
      "durable fs1 = (durable fs)(h \<mapsto> splice d off buf)"
  | (failed) e k where "res = Inl e" "files fs1 = (files fs)(h \<mapsto> splice d off (take k buf))" "durable fs1 = durable fs"
proof (cases "fst (io_step fs)")
  case (Fail k)
  then have "res = Inl OsError" "fs1 = (snd (io_step fs))\<lparr>files := (files fs)(h \<mapsto> splice d off (take k buf))\<rparr>"
    using assms(4) by (simp_all add: io_bind_def fh_write_at_in_place [OF assms(1,3)])
  then show thesis
    by (intro failed [of OsError k]) simp_all
next
  case Succeed
  define fs2 where "fs2 = (snd (io_step fs))\<lparr>files := (files fs)(h \<mapsto> splice d off buf)\<rparr>"
  have s: "fh_sync h fs2 = (res, fs1)"
    using assms(4) Succeed by (simp add: io_bind_def fh_write_at_in_place [OF assms(1,3)] fs2_def)
  have f: "contents (snd (io_step fs2)) h = splice d off buf" "files (snd (io_step fs2)) = (files fs)(h \<mapsto> splice d off buf)"
    "durable (snd (io_step fs2)) = durable fs"
    by (simp_all add: fs2_def contents_def)
  obtain ev fs3 where st: "io_step fs2 = (ev, fs3)"
    by (cases "io_step fs2")
  show thesis
  proof (cases ev)
    case Succeed
    then show thesis
      using s f by (intro synced) (auto simp: fh_sync_def io_op_def st)
  next
    case (Fail k)
    then have "res = Inl OsError" "fs1 = fs3"
      using s by (simp_all add: fh_sync_def io_op_def st)
    then show thesis
      using f by (intro failed [of OsError "length buf"]) (simp_all add: st)
  qed
qed

lemma crash_torn:
  assumes "crash fs1 fs2" "durable fs1 h = Some d" "files fs1 h = Some (splice d off (take k buf))" "off + length buf \<le> length d"
  shows "\<exists>j. files fs2 h = Some (splice d off (take j buf))"
proof -
  have "length d = length (splice d off (take k buf))"
    using assms(4) by (subst length_splice) auto
  from crash_in_place [OF assms(1,2,3) this] obtain i where "files fs2 h = Some (take i (splice d off (take k buf)) @ drop i d)" .
  then show ?thesis
    by (simp add: splice_prefix [OF assms(4)]) blast
qed

lemma disk_page_torn:
  assumes "8192 * n + 8192 \<le> length d" "length buf = 8192"
  shows "disk_page (splice d (8192 * n) (take k buf)) n = take k buf @ drop k (disk_page d n)"
    and "m \<noteq> n \<Longrightarrow> disk_page (splice d (8192 * n) (take k buf)) m = disk_page d m"
proof -
  have l: "length (splice d (8192 * n) (take k buf)) = length d"
    using assms by (intro length_splice) simp
  show "disk_page (splice d (8192 * n) (take k buf)) m = disk_page d m" if "m \<noteq> n"
  proof -
    have "8192 * m + 8192 \<le> 8192 * n \<or> 8192 * n + length (take k buf) \<le> 8192 * m"
      using that assms(2) by auto
    then show ?thesis
      using assms by (auto simp: disk_page_def l intro!: slice_splice_disjoint)
  qed
  show "disk_page (splice d (8192 * n) (take k buf)) n = take k buf @ drop k (disk_page d n)"
    using assms by (auto simp: disk_page_def l slice_def splice_def min_def drop_take add.commute)
qed


section \<open>The superblock\<close>

text \<open>No mixture of the bytes of two superblock images passes validation unless it decodes as
  one of the two: the checksum's job. Stated for the two images of one write.\<close>

definition tear_detected :: "digests \<Rightarrow> bytes \<Rightarrow> bytes \<Rightarrow> bool" where
  "tear_detected H old new \<longleftrightarrow> (\<forall>k. let t = take k new @ drop k old in
     validate_superblock H t = validate_superblock H old \<or> validate_superblock H t = validate_superblock H new
     \<or> (\<exists>e. validate_superblock H t = Inl e))"

text \<open>The state a superblock records, apart from its generation and checksum.\<close>

definition sb_state :: "superblock \<Rightarrow> superblock" where
  "sb_state sb = sb\<lparr>generation := 0, sb_checksum := 0\<rparr>"

text \<open>A data file as a completed \<open>sync_superblock\<close> leaves it: both copies valid with the same
  state, the mirror one generation behind.\<close>

definition sb_synced :: "digests \<Rightarrow> bytes \<Rightarrow> superblock \<Rightarrow> bool" where
  "sb_synced H d old \<longleftrightarrow> 16384 \<le> length d \<and> validate_superblock H (disk_page d 0) = Inr old
     \<and> (\<exists>m. validate_superblock H (disk_page d 1) = Inr m \<and> sb_state m = sb_state old \<and> generation m \<le> generation old)"

definition sb_copy :: "digests \<Rightarrow> superblock \<Rightarrow> u64 \<Rightarrow> superblock" where
  "sb_copy H sb g = sb_update_checksum H (sb\<lparr>generation := g\<rparr>)"

lemma sb_copy_simps [simp]:
  "generation (sb_copy H sb g) = g" "sb_state (sb_copy H sb g) = sb_state sb"
  "length (sb_reserved (sb_copy H sb g)) = length (sb_reserved sb)"
  by (simp_all add: sb_copy_def sb_update_checksum_def sb_state_def)

lemma sync_superblock_eq:
  assumes "pm_data_handle pm = Some DataFile"
  shows "sync_superblock H pm =
    io_bind (io_bind (fh_write_at DataFile (encode_superblock (sb_copy H (pm_superblock pm) (generation (pm_superblock pm) + 1))) 8192)
              (\<lambda>_. fh_sync DataFile)) (\<lambda>_.
    io_bind (io_bind (fh_write_at DataFile (encode_superblock (sb_copy H (pm_superblock pm) (generation (pm_superblock pm) + 2))) 0)
              (\<lambda>_. fh_sync DataFile)) (\<lambda>_.
    io_return (pm\<lparr>pm_superblock := (pm_superblock pm)\<lparr>generation := generation (pm_superblock pm) + 2\<rparr>\<rparr>)))"
  by (simp add: sync_superblock_def Let_def handle_of_def assms sb_copy_def io_bind_assoc io_bind_return)


lemma validate_copy:
  assumes "sb_magic sb = META_MAGIC" "sb_version sb = FORMAT_VERSION" "sb_page_size sb = 8192" "length (sb_reserved sb) = 51"
  shows "validate_superblock H (encode_superblock (sb_copy H sb g)) = Inr (sb_copy H sb g)"
    "length (encode_superblock (sb_copy H sb g)) = 8192"
proof -
  show "validate_superblock H (encode_superblock (sb_copy H sb g)) = Inr (sb_copy H sb g)"
    using validate_encode [OF sb_update_ok, of "sb\<lparr>generation := g\<rparr>" H "[]"] assms by (simp add: sb_copy_def)
  show "length (encode_superblock (sb_copy H sb g)) = 8192"
    using assms by (intro sb_read_encode(1)) simp
qed

text \<open>Which superblock is loaded, by the states of the two pages: with the mirror whole or torn
  beside the old primary, and with the primary torn beside the new mirror.\<close>

lemma choose_mirror_torn:
  assumes "validate_superblock H p = Inr old"
    and "validate_superblock H t = Inr m \<or> validate_superblock H t = Inr new \<or> (\<exists>e. validate_superblock H t = Inl e)"
    and "sb_state m = sb_state old"
  shows "\<exists>s. choose_copy (validate_superblock H p) (validate_superblock H t) = Inr s \<and> sb_state s \<in> {sb_state old, sb_state new}"
  using assms by auto

lemma choose_primary_torn:
  assumes "validate_superblock H m = Inr mir" "generation old < generation mir" "sb_state mir = sb_state new"
    and "validate_superblock H t = Inr old \<or> validate_superblock H t = Inr new \<or> (\<exists>e. validate_superblock H t = Inl e)"
  shows "\<exists>s. choose_copy (validate_superblock H t) (validate_superblock H m) = Inr s \<and> sb_state s = sb_state new"
  using assms by auto

lemma load_after_torn_write:
  assumes "crash fs1 fs2" "durable fs1 DataFile = Some d" "files fs1 DataFile = Some (splice d (8192 * n) (take k buf))"
    and "length buf = 8192" "8192 * n + 8192 \<le> length d" "16384 \<le> length d"
  obtains c j where "load_superblock H fs2 = (choose_copy (validate_superblock H (c 0)) (validate_superblock H (c 1)), fs2)"
    "c n = take j buf @ drop j (disk_page d n)" "\<And>m. m \<noteq> n \<Longrightarrow> c m = disk_page d m"
proof -
  have b: "8192 * n + length buf \<le> length d"
    using assms(4,5) by simp
  obtain j where j: "files fs2 DataFile = Some (splice d (8192 * n) (take j buf))"
    using crash_torn [OF assms(1-3) b] by blast
  have "length (splice d (8192 * n) (take j buf)) = length d"
    using assms(4,5) by (intro length_splice) simp
  then show thesis
    using that [of "disk_page (splice d (8192 * n) (take j buf))" j] disk_page_torn [OF assms(5,4)]
      load_superblock_pages [OF crash_plan [OF assms(1)] j] assms(6) by simp
qed



subsection \<open>An instance\<close>

text \<open>A digest that reads the two bytes in which the example's superblocks differ.\<close>

definition two_byte_digests :: digests where
  "two_byte_digests = \<lparr>crc32c = \<lambda>bs. of_nat (unat (bs ! 32) + 16 * unat (bs ! 64)), xxh64 = \<lambda>bs. 0\<rparr>"

definition demo_sb :: "u8 \<Rightarrow> u8 \<Rightarrow> u8 \<Rightarrow> superblock" where
  "demo_sb nf g cs = (superblock_new 8192)\<lparr>next_free_page_id := ucast nf, generation := ucast g, sb_checksum := ucast cs\<rparr>"

lemma small_le_bytes: "to_le_bytes (ucast (b :: u8) :: u64) = b # replicate 7 0" "to_le_bytes (ucast (b :: u8) :: u32) = b # replicate 3 0"
proof -
  have b: "unat b < 256"
    by (rule unat_u8_less)
  then have "unat (ucast b :: u64) = unat b" "unat (ucast b :: u32) = unat b"
    by (simp_all add: unsigned_ucast_eq take_bit_nat_eq_self)
  moreover have "le_digits n 0 = replicate n 0" for n
    by (induction n) simp_all
  then have "le_digits (Suc n) (unat b) = b # replicate n 0" for n
    using b by simp
  from this [of 7] this [of 3]
  have "le_digits 8 (unat b) = b # replicate 7 0" "le_digits 4 (unat b) = b # replicate 3 0"
    by (simp_all del: le_digits.simps)
  ultimately show "to_le_bytes (ucast b :: u64) = b # replicate 7 0" "to_le_bytes (ucast b :: u32) = b # replicate 3 0"
    by (simp_all add: to_le_bytes_def)
qed

lemma demo_sb_bytes:
  "\<exists>P Q. length P = 32 \<and> length Q = 24 \<and>
     (\<forall>nf g cs. sb_bytes (demo_sb nf g cs) = P @ nf # replicate 7 0 @ Q @ g # replicate 7 0 @ cs # replicate 55 0)"
proof -
  let ?s = "superblock_new 8192"
  have "(0 :: u8) # replicate 51 0 = replicate 52 0"
    using replicate_Suc [of 51 "0 :: u8"] by simp
  then show ?thesis
    by (intro exI [of _ "to_le_bytes (sb_magic ?s) @ to_le_bytes (sb_version ?s) @ to_le_bytes (sb_page_size ?s) @
          to_le_bytes (total_page_count ?s) @ to_le_bytes (free_page_count ?s)"]
        exI [of _ "to_le_bytes (current_wal_lsn ?s) @ to_le_bytes (last_checkpoint_lsn ?s) @
          to_le_bytes (checkpoint_dirty_page_table_offset ?s)"])
      (simp add: sb_bytes_def demo_sb_def superblock_new_def small_le_bytes replicate_add [symmetric])
qed


text \<open>Tearing a write whose bytes differ from the old ones in three places.\<close>

lemma tear_step:
  "(\<exists>j. take k (p @ x' # b') @ drop k (p @ x # b) = p @ x' # take j b' @ drop j b)
   \<or> take k (p @ x' # b') @ drop k (p @ x # b) = p @ x # b"
proof (cases "k \<le> length p")
  case False
  then have "k - length p = Suc (k - Suc (length p))"
    by simp
  with False show ?thesis
    by (intro disjI1 exI [of _ "k - Suc (length p)"]) simp
qed simp

lemma tear_three:
  "take k (p @ x' # a @ y' # b @ z' # c) @ drop k (p @ x # a @ y # b @ z # c) \<in>
     {p @ x # a @ y # b @ z # c, p @ x' # a @ y # b @ z # c, p @ x' # a @ y' # b @ z # c, p @ x' # a @ y' # b @ z' # c}"
proof -
  have 3: "take k (b @ z' # c) @ drop k (b @ z # c) \<in> {b @ z # c, b @ z' # c}" for k
    using tear_step [of k b z' c z c] by auto
  have 2: "take k (a @ y' # b @ z' # c) @ drop k (a @ y # b @ z # c)
      \<in> {a @ y # b @ z # c, a @ y' # b @ z # c, a @ y' # b @ z' # c}" for k
    using tear_step [of k a y' "b @ z' # c" y "b @ z # c"] 3 by (metis insertE insertI1 insertI2 singletonD)
  show ?thesis
    using tear_step [of k p x' "a @ y' # b @ z' # c" x "a @ y # b @ z # c"] 2 by (metis insertE insertI1 insertI2 singletonD)
qed

lemma demo_tears:
  "take k (sb_bytes (demo_sb nf' g' cs')) @ drop k (sb_bytes (demo_sb nf g cs)) \<in>
     sb_bytes ` {demo_sb nf g cs, demo_sb nf' g cs, demo_sb nf' g' cs, demo_sb nf' g' cs'}"
proof -
  obtain P Q where P: "\<And>nf g cs. sb_bytes (demo_sb nf g cs) = P @ nf # (replicate 7 0 @ Q) @ g # replicate 7 0 @ cs # replicate 55 0"
    using demo_sb_bytes by auto
  show ?thesis
    unfolding image_insert image_empty P by (rule tear_three)
qed


lemma encode_demo_sb: "encode_superblock (demo_sb nf g cs) = sb_bytes (demo_sb nf g cs) @ replicate 8064 0"
  by (simp add: encode_superblock_def splice_def demo_sb_def superblock_new_def)

lemma demo_sb_checksum:
  "sb_compute_checksum two_byte_digests (demo_sb nf g cs) = of_nat (unat nf + 16 * unat g)"
proof -
  obtain P Q where P: "length P = 32" "length Q = 24"
    "\<And>nf g cs. sb_bytes (demo_sb nf g cs) = P @ nf # replicate 7 0 @ Q @ g # replicate 7 0 @ cs # replicate 55 0"
    using demo_sb_bytes by auto
  have "(demo_sb nf g cs)\<lparr>sb_checksum := 0\<rparr> = demo_sb nf g 0"
    by (simp add: demo_sb_def)
  moreover have "sb_bytes (demo_sb nf g 0) ! 32 = nf" "sb_bytes (demo_sb nf g 0) ! 64 = g"
    using P(1,2) by (simp_all add: P(3) nth_append)
  ultimately show ?thesis
    by (simp add: sb_compute_checksum_def two_byte_digests_def)
qed

lemma validate_demo_sb:
  "validate_superblock two_byte_digests (encode_superblock (demo_sb nf g cs)) =
     (if ucast cs = (of_nat (unat nf + 16 * unat g) :: u32) then Inr (demo_sb nf g cs) else Inl ChecksumMismatch)"
proof -
  have "sb_read (encode_superblock (demo_sb nf g cs)) = demo_sb nf g cs" "length (encode_superblock (demo_sb nf g cs)) = 8192"
    using sb_read_encode(1) [of "demo_sb nf g cs"] sb_read_encode(2) [of "demo_sb nf g cs" "[]"] by (simp_all add: demo_sb_def superblock_new_def)
  then show ?thesis
    by (simp add: validate_superblock_def Let_def SUPERBLOCK_SIZE_def sb_verify_checksum_def demo_sb_checksum)
      (simp add: demo_sb_def superblock_new_def)
qed

lemma tear_suffix:
  assumes "length a = length b"
  shows "take k (a @ z) @ drop k (b @ z) = (take k a @ drop k b) @ z"
  by (cases "k \<le> length a") (use assms in simp_all)

lemma demo_tear_detected:
  assumes "ucast cs \<noteq> (of_nat (unat nf' + 16 * unat g) :: u32)" "ucast cs \<noteq> (of_nat (unat nf' + 16 * unat g') :: u32)"
  shows "tear_detected two_byte_digests (encode_superblock (demo_sb nf g cs)) (encode_superblock (demo_sb nf' g' cs'))"
  unfolding tear_detected_def Let_def
proof
  fix k
  let ?A = "sb_bytes (demo_sb nf' g' cs')" and ?B = "sb_bytes (demo_sb nf g cs)" and ?Z = "replicate 8064 (0 :: u8)"
  have l: "length ?A = length ?B"
    by (simp add: demo_sb_def superblock_new_def)
  note e = tear_suffix [OF l, of k ?Z, folded encode_demo_sb]
  obtain s where s: "s \<in> {demo_sb nf g cs, demo_sb nf' g cs, demo_sb nf' g' cs, demo_sb nf' g' cs'}"
    "take k ?A @ drop k ?B = sb_bytes s"
    using demo_tears [of k nf' g' cs' nf g cs] unfolding image_iff by blast
  moreover from s(1) have "encode_superblock s = sb_bytes s @ ?Z"
    using encode_demo_sb by blast
  ultimately have "take k (encode_superblock (demo_sb nf' g' cs')) @ drop k (encode_superblock (demo_sb nf g cs)) = encode_superblock s"
    unfolding e by simp
  then show "validate_superblock two_byte_digests
        (take k (encode_superblock (demo_sb nf' g' cs')) @ drop k (encode_superblock (demo_sb nf g cs))) =
       validate_superblock two_byte_digests (encode_superblock (demo_sb nf g cs)) \<or>
       validate_superblock two_byte_digests
        (take k (encode_superblock (demo_sb nf' g' cs')) @ drop k (encode_superblock (demo_sb nf g cs))) =
       validate_superblock two_byte_digests (encode_superblock (demo_sb nf' g' cs')) \<or>
       (\<exists>e. validate_superblock two_byte_digests
        (take k (encode_superblock (demo_sb nf' g' cs')) @ drop k (encode_superblock (demo_sb nf g cs))) = Inl e)"
    using s(1) assms by (auto simp: validate_demo_sb)
qed

lemma demo_sb_copy:
  "sb_copy two_byte_digests (demo_sb nf g cs) (ucast g') =
     (demo_sb nf g' 0)\<lparr>sb_checksum := of_nat (unat nf + 16 * unat g')\<rparr>"
proof -
  have "(demo_sb nf g cs)\<lparr>generation := ucast g'\<rparr> = demo_sb nf g' cs"
    by (simp add: demo_sb_def)
  then show ?thesis
    unfolding sb_copy_def sb_update_checksum_def by (simp add: demo_sb_checksum) (simp add: demo_sb_def)
qed


definition demo_data :: bytes where
  "demo_data = encode_superblock (demo_sb 3 3 51) @ encode_superblock (demo_sb 3 2 35)"

definition demo_manager :: page_manager where
  "demo_manager = \<lparr>pm_superblock = demo_sb 4 3 51, pm_bitmaps = [], pm_free_cache = cache_new 64,
     pm_data_handle = Some DataFile, pm_doublewrite = False\<rparr>"

lemma demo_data_pages:
  "length demo_data = 16384" "disk_page demo_data 0 = encode_superblock (demo_sb 3 3 51)"
  "disk_page demo_data 1 = encode_superblock (demo_sb 3 2 35)"
proof -
  have l: "length (encode_superblock (demo_sb nf g cs)) = 8192" for nf g cs
    by (intro sb_read_encode(1)) (simp add: demo_sb_def superblock_new_def)
  show "length demo_data = 16384" "disk_page demo_data 0 = encode_superblock (demo_sb 3 3 51)"
    "disk_page demo_data 1 = encode_superblock (demo_sb 3 2 35)"
    by (simp_all add: demo_data_def l disk_page_def slice_def)
qed


end
