(* ===== verification/DoubleWriteCrash.thy ===== *)
theory DoubleWriteCrash
  imports StorageCrash
begin

text \<open>
  Crash safety of a page write through the double-write buffer: the sequence
  \<open>write_batch\<close>, write in place, sync, \<open>dw_clear\<close> of \<open>PageManager::write_page\<close>
  (\<open>src/src/storage/manager.rs\<close>) against \<open>recover_torn_pages\<close>
  (\<open>src/src/wal/doublewrite.rs\<close>), for any failures of the operating system and a crash
  that tears the file.
\<close>

section \<open>What recovery finds\<close>

definition dw_entries :: "bytes \<Rightarrow> (u64 \<times> bytes) list" where
  "dw_entries w = (if length w < 4 then [] else dw_parse w)"

lemma read_entries_eq:
  assumes "plan fs = []" "files fs DwFile = Some w"
  shows "read_entries fs = (Inr (dw_entries w), fs)"
  using assms by (simp add: read_entries_def fs_exists_def fs_open_def fh_len_def fh_read_at_def contents_def io_return_def
      dw_entries_def slice_def)

lemma dw_entries_prefix:
  assumes "length img = 8192"
  shows "dw_entries (take k (batch_bytes [(pid, img)])) = (if k < 8204 then [] else [(pid, img)])"
proof -
  let ?b = "batch_bytes [(pid, img)]"
  have l: "length ?b = 8204"
    by (simp add: length_batch_bytes)
  show ?thesis
  proof (cases "k < 8204")
    case True
    have "slice (take k ?b) 0 4 = slice ?b 0 4" if "4 \<le> k"
      using that by (simp add: slice_def)
    moreover have "slice ?b 0 4 = to_be_bytes (1 :: u32)"
      by (simp add: batch_bytes_def slice_def)
    ultimately show ?thesis
      using True l by (simp add: dw_entries_def dw_parse_def ENTRY_SIZE_def)
  next
    case False
    then show ?thesis
      using dw_parse_batch [of "[(pid, img)]" "[]"] l assms by (simp add: dw_entries_def)
  qed
qed

lemma is_torn_eq:
  assumes "plan fs = []" "files fs DataFile = Some c" "8192 * unat pid + 8192 \<le> length c" "unat pid < 2 ^ 51 - 1"
  shows "is_torn H pid fs = (Inr (\<not> verify_page_checksum H (disk_page c (unat pid))), fs)"
  using assms by (simp add: is_torn_def fs_exists_def fs_open_def fh_len_def fh_read_at_def contents_def io_return_def
      page_end_small disk_page_def not_less)

lemma restore_image_eq:
  assumes "plan fs = []" "files fs DataFile = Some c" "8192 * unat pid + 8192 \<le> length c" "unat pid < 2 ^ 51 - 1" "length img = 8192"
  shows "\<exists>fs'. restore_image pid img fs = (Inr (), fs') \<and> plan fs' = []
    \<and> files fs' = (files fs)(DataFile \<mapsto> splice c (8192 * unat pid) img)"
  using assms by (simp add: restore_image_def fs_exists_def fs_open_def fh_write_at_def fh_sync_def contents_def
      page_end_small file_write_inside)

lemma recover_one_image:
  assumes "plan fs = []" "files fs DataFile = Some c" "8192 * unat pid + 8192 \<le> length c" "unat pid < 2 ^ 51 - 1"
    and "length img = 8192" "files fs DwFile = Some w" "dw_entries w = [] \<or> dw_entries w = [(pid, img)]"
  shows "\<exists>n fs'. recover_torn_pages H fs = (Inr n, fs') \<and> files fs' DataFile = Some
    (if dw_entries w \<noteq> [] \<and> \<not> verify_page_checksum H (disk_page c (unat pid)) then splice c (8192 * unat pid) img else c)"
proof (cases "dw_entries w = []")
  case True
  then show ?thesis
    using assms(2) by (simp add: recover_torn_pages_def read_entries_eq [OF assms(1,6)] io_return_def)
next
  case False
  then have e: "dw_entries w = [(pid, img)]"
    using assms(7) by simp
  obtain fs' where "restore_image pid img fs = (Inr (), fs')" "files fs' = (files fs)(DataFile \<mapsto> splice c (8192 * unat pid) img)"
    using restore_image_eq [OF assms(1-5)] by blast
  then show ?thesis
    using assms(2) by (simp add: recover_torn_pages_def read_entries_eq [OF assms(1,6)] is_torn_eq [OF assms(1-4)] e io_return_def)
qed


section \<open>The operations under any plan\<close>

lemma io_bind_cases:
  assumes "io_bind m f s = (r, t)"
  obtains (stop) e where "m s = (Inl e, t)" "r = Inl e" | (go) x s' where "m s = (Inr x, s')" "f x s' = (r, t)"
  using assms by (auto simp: io_bind_def split: prod.splits sum.splits)

lemma io_op_any:
  "io_op f fs = (if fst (io_step fs) = Succeed then f (snd (io_step fs)) else (Inl OsError, snd (io_step fs)))"
  by (auto simp: io_op_def split: prod.split io_event.split)

lemma fs_open_cases:
  assumes "fs_open p b fs = (r, fs')" "files fs p \<noteq> None"
  obtains "r = Inl OsError" "files fs' = files fs" "durable fs' = durable fs"
  | "r = Inr p" "files fs' = files fs" "durable fs' = durable fs"
  using assms by (auto simp: fs_open_def io_op_any fs_exists_def split: if_splits)

lemma fh_set_len_cases:
  assumes "fh_set_len h n fs = (r, fs')"
  obtains "r = Inl OsError" "files fs' = files fs" "durable fs' = durable fs"
  | "r = Inr ()" "files fs' = (files fs)(h \<mapsto> take n (contents fs h) @ replicate (n - length (contents fs h)) 0)"
    "durable fs' = durable fs"
  using assms by (auto simp: fh_set_len_def io_op_any split: if_splits)

lemma fh_sync_cases:
  assumes "fh_sync h fs = (r, fs')"
  obtains "r = Inl OsError" "files fs' = files fs" "durable fs' = durable fs"
  | "r = Inr ()" "files fs' = files fs" "durable fs' = (durable fs)(h \<mapsto> contents fs h)"
  using assms by (auto simp: fh_sync_def io_op_any split: if_splits)

lemma fh_len_cases:
  assumes "fh_len h fs = (r, fs')"
  obtains "r = Inl OsError" "files fs' = files fs" "durable fs' = durable fs"
  | "r = Inr (length (contents fs h))" "files fs' = files fs" "durable fs' = durable fs"
  using assms by (auto simp: fh_len_def io_op_any split: if_splits)

lemma fh_write_new_cases:
  assumes "fh_write_at h buf 0 fs = (r, fs')" "files fs h = Some []"
  obtains k where "r = Inl OsError" "files fs' = (files fs)(h \<mapsto> take k buf)" "durable fs' = durable fs"
  | "r = Inr ()" "files fs' = (files fs)(h \<mapsto> buf)" "durable fs' = durable fs"
proof -
  obtain ev fs1 where s: "io_step fs = (ev, fs1)"
    by (cases "io_step fs")
  have f: "files fs1 = files fs" "contents fs1 h = []" "durable fs1 = durable fs"
    using io_step_frame(1,2) [of fs] assms(2) by (simp_all add: s contents_def)
  show thesis
  proof (cases ev)
    case Succeed
    then show thesis
      using assms(1) f by (intro that(2)) (auto simp: fh_write_at_def s file_write_def)
  next
    case (Fail k)
    then show thesis
      using assms(1) f by (intro that(1) [of k]) (auto simp: fh_write_at_def s file_write_def)
  qed
qed

lemma write_batch_cases:
  assumes "files fs DwFile = Some []" "write_batch [(pid, img)] fs = (res, fs1)"
  obtains (written) "res = Inr ()" "files fs1 = (files fs)(DwFile \<mapsto> batch_bytes [(pid, img)])"
      "durable fs1 = (durable fs)(DwFile \<mapsto> batch_bytes [(pid, img)])"
  | (failed) e k where "res = Inl e" "files fs1 = (files fs)(DwFile \<mapsto> take k (batch_bytes [(pid, img)]))" "durable fs1 = durable fs"
proof -
  define b where "b = batch_bytes [(pid, img)]"
  have lb: "length b = 8204"
    by (simp add: b_def length_batch_bytes)
  have id: "(files fs)(DwFile \<mapsto> take 0 b) = files fs"
    using assms(1) by auto
  note bad = failed [folded b_def]
  from assms(2) consider (a) e where "res = Inl e" "fs_open DwFile True fs = (Inl e, fs1)"
    | (b) f1 where "fs_open DwFile True fs = (Inr DwFile, f1)"
        "io_bind (fh_write_at DwFile b 0) (\<lambda>_. io_bind (fh_set_len DwFile 8204) (\<lambda>_. fh_sync DwFile)) f1 = (res, fs1)"
    using assms(1) unfolding write_batch_def Let_def
    by (elim io_bind_cases) (auto simp: b_def DOUBLEWRITE_CAPACITY_def ENTRY_SIZE_def elim: fs_open_cases)
  then show thesis
  proof cases
    case a
    then show thesis
      using bad [of e 0] id assms(1) by (auto elim: fs_open_cases)
  next
    case b
    then have f1: "files f1 = files fs" "durable f1 = durable fs"
      using assms(1) by (auto elim: fs_open_cases)
    from b(2) show thesis
    proof (cases rule: io_bind_cases)
      case (stop e)
      then show thesis
        using bad f1 assms(1) by (auto elim: fh_write_new_cases)
    next
      case (go u f2)
      then have f2: "files f2 = (files fs)(DwFile \<mapsto> b)" "durable f2 = durable fs"
        using f1 assms(1) by (auto elim: fh_write_new_cases)
      from go(2) show thesis
      proof (cases rule: io_bind_cases)
        case (stop e)
        then show thesis
          using bad [of e 8204] f2 lb by (auto elim: fh_set_len_cases)
      next
        case (go u f3)
        then have f3: "files f3 = (files fs)(DwFile \<mapsto> b)" "durable f3 = durable fs"
          using f2 lb by (auto simp: contents_def elim: fh_set_len_cases)
        from go(2) show thesis
        proof (cases rule: fh_sync_cases)
          case 1
          then show thesis
            using bad [of OsError 8204] f3 lb by simp
        next
          case 2
          then show thesis
            using written [folded b_def] f3 by (simp add: contents_def)
        qed
      qed
    qed
  qed
qed

lemma dw_clear_cases:
  assumes "files fs DwFile = Some w" "durable fs DwFile = Some w" "dw_clear fs = (res, fs1)"
  obtains F D where "files fs1 = (files fs)(DwFile \<mapsto> F)" "durable fs1 = (durable fs)(DwFile \<mapsto> D)" "F \<in> {w, []}" "D \<in> {w, []}"
proof -
  have id: "(files fs)(DwFile \<mapsto> w) = files fs" "(durable fs)(DwFile \<mapsto> w) = durable fs"
    using assms(1,2) by auto
  from assms(3) consider (a) e where "res = Inl e" "fs_open DwFile True fs = (Inl e, fs1)"
    | (b) f1 where "fs_open DwFile True fs = (Inr DwFile, f1)"
        "io_bind (fh_set_len DwFile 0) (\<lambda>_. fh_sync DwFile) f1 = (res, fs1)"
    using assms(1) unfolding dw_clear_def by (elim io_bind_cases) (auto elim: fs_open_cases)
  then show thesis
  proof cases
    case a
    then show thesis
      using that [of w w] id assms(1) by (auto elim: fs_open_cases)
  next
    case b
    then have f1: "files f1 = files fs" "durable f1 = durable fs"
      using assms(1) by (auto elim: fs_open_cases)
    from b(2) show thesis
    proof (cases rule: io_bind_cases)
      case (stop e)
      then show thesis
        using that [of w w] f1 id by (auto elim: fh_set_len_cases)
    next
      case (go u f2)
      then have f2: "files f2 = (files fs)(DwFile \<mapsto> [])" "durable f2 = durable fs"
        using f1 assms(1) by (auto simp: contents_def elim!: fh_set_len_cases)
      then show thesis
        using go(2) that [of "[]" w] that [of "[]" "[]"] id(2) by (auto simp: contents_def elim!: fh_sync_cases)
    qed
  qed
qed


section \<open>A page write, a crash and recovery\<close>

lemma update_checksum_page:
  assumes "length buf = 8192"
  shows "length (update_checksum_bytes H buf) = 8192" "verify_page_checksum H (update_checksum_bytes H buf)"
proof -
  show l: "length (update_checksum_bytes H buf) = 8192"
    using assms by (simp add: update_checksum_bytes_def)
  show "verify_page_checksum H (update_checksum_bytes H buf)"
    using checksum_update_verifies [OF assms, of H] by (simp add: verify_page_checksum_def l)
qed

lemma write_sync_ok:
  assumes "files fs h = Some d" "durable fs h = Some d" "off + length buf \<le> length d"
    and "io_bind (fh_write_at h buf off) (\<lambda>_. fh_sync h) fs = (Inr u, fs1)"
  shows "files fs1 = (files fs)(h \<mapsto> splice d off buf)" "durable fs1 = (durable fs)(h \<mapsto> splice d off buf)"
proof -
  from assms have "files fs1 = (files fs)(h \<mapsto> splice d off buf) \<and> durable fs1 = (durable fs)(h \<mapsto> splice d off buf)"
    by (cases rule: write_sync_cases) simp_all
  then show "files fs1 = (files fs)(h \<mapsto> splice d off buf)" "durable fs1 = (durable fs)(h \<mapsto> splice d off buf)"
    by blast+
qed

text \<open>The states in which \<open>write_page\<close> can return: before the buffer is durable, with the page
  partly written behind a durable buffer, and with the page durable.\<close>

lemma write_page_states:
  assumes "pm_data_handle pm = Some DataFile" "pm_doublewrite pm" "unat pid < 2 ^ 51 - 1" "length buf = 8192"
    and "files fs DataFile = Some d" "durable fs DataFile = Some d" "8192 * unat pid + 8192 \<le> length d"
    and "files fs DwFile = Some []" "durable fs DwFile = Some []"
    and "pm_write_page H pm pid buf fs = (res, fs1)"
  defines "new \<equiv> update_checksum_bytes H buf"
  obtains (buffering) e k where "res = Inl e" "files fs1 = (files fs)(DwFile \<mapsto> take k (batch_bytes [(pid, new)]))"
      "durable fs1 = durable fs"
  | (in_place) e k where "res = Inl e"
      "files fs1 = (files fs)(DwFile \<mapsto> batch_bytes [(pid, new)], DataFile \<mapsto> splice d (8192 * unat pid) (take k new))"
      "durable fs1 = (durable fs)(DwFile \<mapsto> batch_bytes [(pid, new)])"
  | (clearing) F D where
      "files fs1 = (files fs)(DataFile \<mapsto> splice d (8192 * unat pid) new, DwFile \<mapsto> F)"
      "durable fs1 = (durable fs)(DataFile \<mapsto> splice d (8192 * unat pid) new, DwFile \<mapsto> D)"
      "F \<in> {batch_bytes [(pid, new)], []}" "D \<in> {batch_bytes [(pid, new)], []}"
proof -
  let ?b = "batch_bytes [(pid, new)]"
  have ln: "8192 * unat pid + length new \<le> length d"
    using assms(7) update_checksum_page(1) [OF assms(4)] by (simp add: new_def)
  have off: "page_offset pid = Inr (8192 * unat pid)"
    using assms(3) by (simp add: page_offset_def Let_def mult.commute)
  have run: "io_bind (grow_file DataFile (8192 * unat pid + 8192)) (\<lambda>_. io_bind (write_batch [(pid, new)]) (\<lambda>_.
      io_bind (io_bind (fh_write_at DataFile new (8192 * unat pid)) (\<lambda>_. fh_sync DataFile)) (\<lambda>_. dw_clear))) fs = (res, fs1)"
    using assms(10) unfolding pm_write_page_def Let_def new_def [symmetric]
    by (simp only: handle_of_def lift_offset_def assms(1,2) off io_bind_return io_bind_assoc option.case sum.case if_True size_consts(1))
  have grow: "files f = files fs \<and> durable f = durable fs" if "grow_file DataFile (8192 * unat pid + 8192) fs = (r, f)" for r f
    using that assms(5,7) unfolding grow_file_def
    by (elim io_bind_cases) (auto simp: contents_def io_return_def elim: fh_len_cases)
  have id: "(files fs)(DwFile \<mapsto> take 0 ?b) = files fs"
    using assms(8) by auto
  from run show thesis
  proof (cases rule: io_bind_cases)
    case (stop e)
    show thesis
      using buffering [of e 0, OF stop(2), unfolded id] grow [OF stop(1)] by blast
  next
    case (go u f1)
    then have f1: "files f1 = files fs" "durable f1 = durable fs"
      using grow by blast+
    from go(2) show thesis
    proof (cases rule: io_bind_cases)
      case (stop e)
      from f1(1) assms(8) have "files f1 DwFile = Some []"
        by simp
      from this stop(1) show thesis
      proof (cases rule: write_batch_cases)
        case (failed e' k)
        show thesis
          using buffering [of e k, OF stop(2)] unfolding failed(2,3) f1 by blast
      qed simp
    next
      case (go u f2)
      from f1(1) assms(8) have "files f1 DwFile = Some []"
        by simp
      from this go(1) have "files f2 = (files f1)(DwFile \<mapsto> ?b) \<and> durable f2 = (durable f1)(DwFile \<mapsto> ?b)"
        by (cases rule: write_batch_cases) simp_all
      then have f2: "files f2 = (files fs)(DwFile \<mapsto> ?b)" "durable f2 = (durable fs)(DwFile \<mapsto> ?b)"
        using f1 by simp_all
      then have f2d: "files f2 DataFile = Some d" "durable f2 DataFile = Some d"
        using assms(5,6) by simp_all
      from go(2) show thesis
      proof (cases rule: io_bind_cases)
        case (stop e)
        from f2d ln stop(1) show thesis
        proof (cases rule: write_sync_cases)
          case (failed e' k)
          show thesis
            using in_place [of e k, OF stop(2)] unfolding failed(2,3) f2 by blast
        qed simp
      next
        case (go u f3)
        note f3 = write_sync_ok [OF f2d ln go(1)]
        have "files f3 DwFile = Some ?b" "durable f3 DwFile = Some ?b"
          unfolding f3 f2 by simp_all
        from this go(2) obtain F D where "files fs1 = (files f3)(DwFile \<mapsto> F)" "durable fs1 = (durable f3)(DwFile \<mapsto> D)"
          "F \<in> {?b, []}" "D \<in> {?b, []}"
          by (rule dw_clear_cases)
        then show thesis
          by (intro clearing [of F D]) (simp_all only: f2 f3, simp_all add: fun_eq_iff)
      qed
    qed
  qed
qed


text \<open>The checksum's job for one page write: a mixture of the old and the new image that passes
  it is one of the two.\<close>

definition page_tear_detected :: "digests \<Rightarrow> bytes \<Rightarrow> bytes \<Rightarrow> bool" where
  "page_tear_detected H old new \<longleftrightarrow>
     (\<forall>k. verify_page_checksum H (take k new @ drop k old) \<longrightarrow> take k new @ drop k old \<in> {old, new})"

lemma crash_short:
  assumes "crash fs1 fs2" "durable fs1 p = Some D" "files fs1 p = Some F" "length D \<noteq> length F \<or> D = F"
  shows "files fs2 p = Some D \<or> files fs2 p = Some F"
proof -
  have "crash_file (Some D) (Some F) (files fs2 p)"
    using assms(1-3) unfolding crash_def by metis
  then show ?thesis
    using assms(4) by (auto simp: crash_file_def)
qed

text \<open>C4. A page written through the double-write buffer is replaced atomically. Whatever the
  operating system lets fail during \<open>write_page\<close>, and wherever a crash then tears the files,
  \<open>recover_torn_pages\<close> succeeds and leaves the page with its old or its new image and every
  other page as it was; when \<open>write_page\<close> had succeeded the page holds the new image.\<close>

theorem double_write_is_atomic:
  assumes "pm_data_handle pm = Some DataFile" "pm_doublewrite pm" "unat pid < 2 ^ 51 - 1" "length buf = 8192"
    and "files fs DataFile = Some d" "durable fs DataFile = Some d" "8192 * unat pid + 8192 \<le> length d"
    and "files fs DwFile = Some []" "durable fs DwFile = Some []"
    and "pm_write_page H pm pid buf fs = (res, fs1)" "crash fs1 fs2"
    and "verify_page_checksum H (disk_page d (unat pid))"
    and "page_tear_detected H (disk_page d (unat pid)) (update_checksum_bytes H buf)"
  shows "\<exists>n fs3 c. recover_torn_pages H fs2 = (Inr n, fs3) \<and> files fs3 DataFile = Some c
    \<and> (\<forall>m. m \<noteq> unat pid \<longrightarrow> disk_page c m = disk_page d m)
    \<and> disk_page c (unat pid) \<in> {disk_page d (unat pid), update_checksum_bytes H buf}
    \<and> (res = Inr () \<longrightarrow> disk_page c (unat pid) = update_checksum_bytes H buf)"
proof -
  define new where "new = update_checksum_bytes H buf"
  let ?b = "batch_bytes [(pid, new)]" and ?off = "8192 * unat pid"
  note nw = update_checksum_page [OF assms(4), of H, folded new_def]
  have lb: "length ?b = 8204"
    by (simp add: length_batch_bytes)
  have eb: "dw_entries ?b = [(pid, new)]" "dw_entries [] = []"
    using dw_entries_prefix [OF nw(1), of 8204 pid] lb by (simp_all add: dw_entries_def)
  have rec: "\<exists>n fs3. recover_torn_pages H fs2 = (Inr n, fs3) \<and> files fs3 DataFile = Some
      (if dw_entries w \<noteq> [] \<and> \<not> verify_page_checksum H (disk_page c (unat pid)) then splice c ?off new else c)"
    if "files fs2 DataFile = Some c" "length c = length d" "files fs2 DwFile = Some w" "dw_entries w = [] \<or> dw_entries w = [(pid, new)]"
    for c w
    using recover_one_image [OF crash_plan [OF assms(11)] that(1) _ assms(3) nw(1) that(3,4)] that(2) assms(7) by simp
  from assms(1-10) show ?thesis
  proof (cases rule: write_page_states)
    case (buffering e k)
    note st = buffering [folded new_def]
    have "files fs2 DataFile = Some d"
      using crash_synced [OF assms(11), of DataFile] assms(5,6) st(2,3) by simp
    moreover obtain w where "files fs2 DwFile = Some w" "w = [] \<or> w = take k ?b"
      using crash_short [OF assms(11), of DwFile "[]" "take k ?b"] assms(9) st(2,3) by (metis fun_upd_same length_0_conv)
    moreover from this have "dw_entries w = [] \<or> dw_entries w = [(pid, new)]"
      using eb(2) dw_entries_prefix [OF nw(1), of k pid] by (auto split: if_splits)
    ultimately show ?thesis
      using rec [of d w] assms(12) st(1) by auto
  next
    case (in_place e k)
    note st = in_place [folded new_def]
    have ln: "?off + length new \<le> length d"
      using assms(7) nw(1) by simp
    obtain j where c: "files fs2 DataFile = Some (splice d ?off (take j new))"
      using crash_torn [OF assms(11) _ _ ln, of DataFile k] assms(6) st(2,3) by auto
    define c where "c = splice d ?off (take j new)"
    have lc: "length c = length d"
      unfolding c_def using assms(7) nw(1) by (intro length_splice) simp
    note pg = disk_page_torn [OF assms(7) nw(1), where k = j, folded c_def]
    have w: "files fs2 DwFile = Some ?b"
      using crash_synced [OF assms(11), of DwFile] st(2,3) by simp
    note pr = disk_page_torn [OF assms(7) [folded lc] nw(1), where k = 8192]
    show ?thesis
    proof (cases "verify_page_checksum H (disk_page c (unat pid))")
      case True
      then have "disk_page c (unat pid) \<in> {disk_page d (unat pid), new}"
        using assms(13) unfolding page_tear_detected_def pg(1) new_def [symmetric] by blast
      then show ?thesis
        using rec [OF c [folded c_def] lc w] True eb pg(2) st(1) by (auto simp: new_def)
    next
      case False
      then show ?thesis
        using rec [OF c [folded c_def] lc w] eb pg(2) pr nw(1) st(1) by (auto simp: new_def)
    qed
  next
    case (clearing F D)
    note st = clearing [folded new_def]
    define c where "c = splice d ?off new"
    have c: "files fs2 DataFile = Some c"
      using crash_synced [OF assms(11), of DataFile] st(1,2) by (simp add: c_def)
    have lc: "length c = length d"
      unfolding c_def using assms(7) nw(1) by (intro length_splice) simp
    have pg: "disk_page c (unat pid) = new" "\<And>m. m \<noteq> unat pid \<Longrightarrow> disk_page c m = disk_page d m"
      using disk_page_torn [OF assms(7) nw(1), where k = 8192] nw(1) by (simp_all add: c_def)
    have "length D \<noteq> length F \<or> D = F"
      using st(3,4) lb by auto
    then obtain w where "files fs2 DwFile = Some w" "w \<in> {?b, []}"
      using crash_short [OF assms(11), of DwFile D F] st by (metis fun_upd_same)
    moreover from this have "dw_entries w = [] \<or> dw_entries w = [(pid, new)]"
      using eb by auto
    ultimately show ?thesis
      using rec [OF c lc] pg nw(2) by (auto simp: new_def)
  qed
qed


subsection \<open>An instance\<close>

definition first_byte_digests :: digests where
  "first_byte_digests = \<lparr>crc32c = \<lambda>bs. of_nat (2 * unat (bs ! 0)), xxh64 = \<lambda>bs. 0\<rparr>"

definition marked_page :: "u8 \<Rightarrow> u8 \<Rightarrow> bytes" where
  "marked_page x c = x # replicate 27 0 @ c # replicate 8163 0"

lemma marked_page_update: "update_checksum_bytes first_byte_digests (marked_page 1 0) = marked_page 1 2"
proof -
  have "to_le_bytes (2 :: u32) = 2 # replicate 3 0"
    using small_le_bytes(2) [of 2] by simp
  moreover have "replicate 8163 (0 :: u8) = replicate 3 0 @ replicate 8160 0"
    by (simp add: replicate_add [symmetric])
  ultimately show ?thesis
    by (simp add: update_checksum_bytes_def compute_checksum_bytes_def first_byte_digests_def marked_page_def splice_def)
qed

lemma marked_page_verify: "verify_page_checksum first_byte_digests (marked_page x c) \<longleftrightarrow> (x = 0 \<and> c = 0) \<or> ucast c = (2 * ucast x :: u32)"
proof -
  have "slice (marked_page x c) 28 4 = c # replicate 3 0"
    by (simp add: marked_page_def slice_def)
  then have "(from_le_bytes (slice (marked_page x c) 28 4) :: u32) = ucast c"
    using small_le_bytes(2) [of c] by (metis from_to_le_u32)
  moreover have "list_all (\<lambda>b. b = 0) (marked_page x c) \<longleftrightarrow> x = 0 \<and> c = 0"
    by (simp add: marked_page_def list_all_iff)
  moreover have "length (marked_page x c) = 8192" "compute_checksum_bytes first_byte_digests (marked_page x c) = 2 * ucast x"
    by (simp_all add: marked_page_def compute_checksum_bytes_def first_byte_digests_def)
  ultimately show ?thesis
    by (auto simp: verify_page_checksum_def verify_checksum_bytes_def)
qed


lemma marked_page_tears: "page_tear_detected first_byte_digests (marked_page 0 0) (marked_page 1 2)"
  unfolding page_tear_detected_def
proof (intro allI impI)
  fix k
  assume v: "verify_page_checksum first_byte_digests (take k (marked_page 1 2) @ drop k (marked_page 0 0))"
  let ?z = "replicate 27 (0 :: u8)" and ?t = "replicate 8163 (0 :: u8)"
  have 2: "take j (?z @ 2 # ?t) @ drop j (?z @ 0 # ?t) \<in> {?z @ 0 # ?t, ?z @ 2 # ?t}" for j
    using tear_step [of j ?z 2 ?t 0 ?t] append_take_drop_id [of _ ?t] by auto
  have "take k (marked_page 1 2) @ drop k (marked_page 0 0) \<in> {marked_page 0 0, marked_page 1 0, marked_page 1 2}"
    using tear_step [of k "[]" 1 "?z @ 2 # ?t" 0 "?z @ 0 # ?t"] 2 unfolding marked_page_def by (metis append_Nil insertE insertI1 insertI2 singletonD)
  moreover have "\<not> verify_page_checksum first_byte_digests (marked_page 1 0)"
    by (simp add: marked_page_verify)
  ultimately show "take k (marked_page 1 2) @ drop k (marked_page 0 0) \<in> {marked_page 0 0, marked_page 1 2}"
    using v by auto
qed

definition demo_dw_disk :: wal_fs where
  "demo_dw_disk = \<lparr>files = [DataFile \<mapsto> marked_page 0 0, DwFile \<mapsto> []], durable = [DataFile \<mapsto> marked_page 0 0, DwFile \<mapsto> []],
     dir_durable = {}, plan = [Succeed, Succeed, Succeed, Succeed, Succeed, Fail 5]\<rparr>"

text \<open>The write in place fails after five bytes; recovery finds the image in the buffer.\<close>

theorem double_write_is_atomic_witness:
  "\<exists>fs1 n fs3 c. pm_write_page first_byte_digests
      \<lparr>pm_superblock = superblock_new 8192, pm_bitmaps = [], pm_free_cache = cache_new 64,
       pm_data_handle = Some DataFile, pm_doublewrite = True\<rparr> 0 (marked_page 1 0) demo_dw_disk = (Inl OsError, fs1)
    \<and> recover_torn_pages first_byte_digests (fs1\<lparr>plan := []\<rparr>) = (Inr n, fs3) \<and> files fs3 DataFile = Some c
    \<and> disk_page c 0 \<in> {marked_page 0 0, marked_page 1 2}"
proof -
  let ?pm = "\<lparr>pm_superblock = superblock_new 8192, pm_bitmaps = [], pm_free_cache = cache_new 64,
       pm_data_handle = Some DataFile, pm_doublewrite = True\<rparr>"
  have l: "length (marked_page x c) = 8192" "disk_page (marked_page x c) 0 = marked_page x c" for x c
    by (simp_all add: marked_page_def disk_page_def slice_def)
  obtain fs1 where r: "pm_write_page first_byte_digests ?pm 0 (marked_page 1 0) demo_dw_disk = (Inl OsError, fs1)"
    by (simp add: pm_write_page_def Let_def handle_of_def lift_offset_def page_offset_def grow_file_def write_batch_def dw_clear_def
        io_bind_def io_return_def demo_dw_disk_def fh_len_def fh_write_at_def fh_sync_def fh_set_len_def fs_open_def fs_exists_def
        io_op_def io_step_def contents_def l)
  have "crash fs1 (fs1\<lparr>plan := []\<rparr>)"
    by (simp add: crash_def crash_file_def)
  from double_write_is_atomic [OF _ _ _ l(1) _ _ _ _ _ r this, of "marked_page 0 0"] show ?thesis
    using r marked_page_tears by (auto simp: demo_dw_disk_def l marked_page_update marked_page_verify)
qed

end
