(* ===== verification/IndexKey.thy ===== *)
theory IndexKey
  imports Prelude "HOL-Library.List_Lexorder"
begin

text \<open>
  The keys of the indexes: the order-preserving encoding of property values
  (\<open>src/src/index/value_codec.rs\<close>) and the composite keys built from it and from ids
  (\<open>src/src/index/key.rs\<close>). Keys are byte strings compared lexicographically, which is the
  order of \<open>HOL-Library.List_Lexorder\<close> on lists of bytes. An \<open>f64\<close> is its 64-bit pattern.
\<close>

section \<open>Definitions\<close>

type_synonym u128 = "128 word"
type_synonym i64 = "64 word"

definition MAX_ENCODED_LEN :: nat where
  "MAX_ENCODED_LEN = 512"

datatype pvalue =
    VNull | VBool bool | VInt64 i64 | VFloat64 u64 | VString bytes | VList bytes | VMap bytes

datatype value_type = TNull | TBool | TInt64 | TFloat64 | TString | TList | TMap

definition order_i64 :: "i64 \<Rightarrow> u64" where
  "order_i64 v = v XOR 0x8000000000000000"

definition unorder_i64 :: "u64 \<Rightarrow> i64" where
  "unorder_i64 v = v XOR 0x8000000000000000"

definition order_f64_bits :: "u64 \<Rightarrow> u64" where
  "order_f64_bits bits =
     (if bits AND 0x8000000000000000 \<noteq> 0 then NOT bits else bits XOR 0x8000000000000000)"

definition unorder_f64_bits :: "u64 \<Rightarrow> u64" where
  "unorder_f64_bits bits =
     (if bits AND 0x8000000000000000 \<noteq> 0 then bits XOR 0x8000000000000000 else NOT bits)"

text \<open>\<open>f64::is_nan\<close> on the bit pattern: exponent all ones, fraction not zero.\<close>

definition is_nan_bits :: "u64 \<Rightarrow> bool" where
  "is_nan_bits bits \<longleftrightarrow> bits AND 0x7FFFFFFFFFFFFFFF > 0x7FF0000000000000"

definition from_f64 :: "u64 \<Rightarrow> pvalue" where
  "from_f64 v = VFloat64 (order_f64_bits (if is_nan_bits v then 0x7FF8000000000000 else v))"

fun to_f64 :: "pvalue \<Rightarrow> u64 option" where
  "to_f64 (VFloat64 ordered) = Some (unorder_f64_bits ordered)"
| "to_f64 _ = None"

definition escape_byte :: "u8 \<Rightarrow> bytes" where
  "escape_byte b = (if b = 0x00 then [0x00, 0xFF] else if b = 0xFF then [0xFF, 0x00] else [b])"

definition escape_bytes :: "bytes \<Rightarrow> bytes" where
  "escape_bytes bs = concat (map escape_byte (take 65535 bs)) @ [0x00]"

fun value_tag :: "pvalue \<Rightarrow> u8" where
  "value_tag VNull = 0x00"
| "value_tag (VBool _) = 0x01"
| "value_tag (VInt64 _) = 0x02"
| "value_tag (VFloat64 _) = 0x03"
| "value_tag (VString _) = 0x04"
| "value_tag (VList _) = 0x05"
| "value_tag (VMap _) = 0x06"

fun value_payload :: "pvalue \<Rightarrow> bytes" where
  "value_payload VNull = []"
| "value_payload (VBool b) = [if b then 0x01 else 0x00]"
| "value_payload (VInt64 v) = to_be_bytes (order_i64 v)"
| "value_payload (VFloat64 ordered) = to_be_bytes ordered"
| "value_payload (VString bs) = escape_bytes bs"
| "value_payload (VList bs) = escape_bytes bs"
| "value_payload (VMap bs) = escape_bytes bs"

text \<open>\<open>encode\<close> appends to \<open>out\<close> and takes the bytes back when they are too many.\<close>

definition value_encode :: "pvalue \<Rightarrow> bytes \<Rightarrow> nat option \<times> bytes" where
  "value_encode v out =
     (let enc = value_tag v # value_payload v; appended = length enc in
      if appended > MAX_ENCODED_LEN then (None, out) else (Some appended, out @ enc))"

function decode_terminated :: "bytes \<Rightarrow> (bytes \<times> nat) option" where
  "decode_terminated [] = None"
| "decode_terminated (b # bs) =
     (if b = 0x00 \<and> bs \<noteq> [] \<and> hd bs = 0xFF
      then map_option (\<lambda>(out, n). (0x00 # out, n + 2)) (decode_terminated (tl bs))
      else if b = 0xFF \<and> bs \<noteq> [] \<and> hd bs = 0x00
      then map_option (\<lambda>(out, n). (0xFF # out, n + 2)) (decode_terminated (tl bs))
      else if b = 0x00 then Some ([], 1)
      else map_option (\<lambda>(out, n). (b # out, n + 1)) (decode_terminated bs))"
  by pat_completeness auto
termination
  by (relation "measure length") (auto simp: neq_Nil_conv)

definition value_decode :: "bytes \<Rightarrow> (pvalue \<times> nat) option" where
  "value_decode data =
     (if data = [] then None
      else let tag = data ! 0; rest = drop 1 data in
        if tag = 0x00 then Some (VNull, 1)
        else if tag = 0x01 then if length data < 2 then None else Some (VBool (data ! 1 \<noteq> 0), 2)
        else if tag = 0x02 then if length data < 9 then None
          else Some (VInt64 (unorder_i64 (from_be_bytes (slice data 1 8))), 9)
        else if tag = 0x03 then if length data < 9 then None
          else Some (VFloat64 (from_be_bytes (slice data 1 8)), 9)
        else if tag = 0x04 then map_option (\<lambda>(bs, n). (VString bs, 1 + n)) (decode_terminated rest)
        else if tag = 0x05 then map_option (\<lambda>(bs, n). (VList bs, 1 + n)) (decode_terminated rest)
        else if tag = 0x06 then map_option (\<lambda>(bs, n). (VMap bs, 1 + n)) (decode_terminated rest)
        else None)"

fun payload_value :: "value_type \<Rightarrow> bytes \<Rightarrow> pvalue option" where
  "payload_value TNull payload = Some VNull"
| "payload_value TBool payload = (if payload = [] then None else Some (VBool (payload ! 0 \<noteq> 0)))"
| "payload_value TInt64 payload =
     (if length payload < 8 then None else Some (VInt64 (from_be_bytes (slice payload 0 8))))"
| "payload_value TFloat64 payload =
     (if length payload < 8 then None else Some (VFloat64 (order_f64_bits (from_be_bytes (slice payload 0 8)))))"
| "payload_value TString payload = Some (VString payload)"
| "payload_value TList payload = Some (VList payload)"
| "payload_value TMap payload = Some (VMap payload)"

definition encode_property_value :: "value_type \<Rightarrow> bytes \<Rightarrow> bytes option" where
  "encode_property_value t payload =
     (case payload_value t payload of
        None \<Rightarrow> None
      | Some v \<Rightarrow> (case value_encode v [] of (None, _) \<Rightarrow> None | (Some _, buf) \<Rightarrow> Some buf))"

subsection \<open>The derived order of values\<close>

text \<open>\<open>#[derive(Ord)]\<close>: by variant in the order of declaration, then by content.\<close>

fun value_num :: "pvalue \<Rightarrow> int" where
  "value_num (VBool b) = of_bool b"
| "value_num (VInt64 v) = sint v"
| "value_num (VFloat64 v) = uint v"
| "value_num _ = 0"

fun value_str :: "pvalue \<Rightarrow> bytes" where
  "value_str (VString bs) = bs"
| "value_str (VList bs) = bs"
| "value_str (VMap bs) = bs"
| "value_str _ = []"

lemma value_parts_inj:
  assumes "value_tag a = value_tag b" "value_num a = value_num b" "value_str a = value_str b"
  shows "a = b"
  using assms by (cases a; cases b) (auto simp flip: word_uint_eq_iff intro: signed_word_eqI split: if_splits)

instantiation pvalue :: linorder
begin

definition less_pvalue :: "pvalue \<Rightarrow> pvalue \<Rightarrow> bool" where
  "less_pvalue a b \<longleftrightarrow> value_tag a < value_tag b \<or> value_tag a = value_tag b \<and>
     (value_num a < value_num b \<or> value_num a = value_num b \<and> value_str a < value_str b)"

definition less_eq_pvalue :: "pvalue \<Rightarrow> pvalue \<Rightarrow> bool" where
  "less_eq_pvalue a b \<longleftrightarrow> a < b \<or> a = (b :: pvalue)"

instance
proof
  fix a b c :: pvalue
  show "a < b \<longleftrightarrow> a \<le> b \<and> \<not> b \<le> a"
    by (auto simp: less_pvalue_def less_eq_pvalue_def)
  show "a \<le> a"
    by (simp add: less_eq_pvalue_def)
  show "a \<le> b \<Longrightarrow> b \<le> c \<Longrightarrow> a \<le> c"
    by (auto simp: less_pvalue_def less_eq_pvalue_def)
  show "a \<le> b \<Longrightarrow> b \<le> a \<Longrightarrow> a = b"
    by (auto simp: less_pvalue_def less_eq_pvalue_def)
  show "a \<le> b \<or> b \<le> a"
    using value_parts_inj [of a b]
    by (auto simp: less_pvalue_def less_eq_pvalue_def) (meson linorder_neqE linorder_cases)+
qed

end

subsection \<open>Composite keys\<close>

type_synonym composite_key = bytes

definition cmp_keys :: "composite_key \<Rightarrow> composite_key \<Rightarrow> bool" where
  "cmp_keys a b \<longleftrightarrow> a < b"

definition node_id_key :: "u128 \<Rightarrow> composite_key" where
  "node_id_key node_id = to_be_bytes node_id"

definition edge_id_key :: "u128 \<Rightarrow> composite_key" where
  "edge_id_key edge_id = to_be_bytes edge_id"

definition edge_adjacency_key :: "u128 \<Rightarrow> u64 \<Rightarrow> u128 \<Rightarrow> composite_key" where
  "edge_adjacency_key source_id type_id target_id =
     to_be_bytes source_id @ to_be_bytes type_id @ to_be_bytes target_id"

definition label_index_key :: "u64 \<Rightarrow> u128 \<Rightarrow> composite_key" where
  "label_index_key label_hash node_id = to_be_bytes label_hash @ to_be_bytes node_id"

definition type_index_key :: "u64 \<Rightarrow> u128 \<Rightarrow> composite_key" where
  "type_index_key type_id edge_id = to_be_bytes type_id @ to_be_bytes edge_id"

definition property_index_key :: "u64 \<Rightarrow> bytes \<Rightarrow> u128 \<Rightarrow> composite_key" where
  "property_index_key property_id serialized_value entity_id =
     to_be_bytes property_id @ serialized_value @ to_be_bytes entity_id"

definition rdf_spo_key :: "u128 \<Rightarrow> u64 \<Rightarrow> u128 \<Rightarrow> composite_key" where
  "rdf_spo_key subject predicate obj = to_be_bytes subject @ to_be_bytes predicate @ to_be_bytes obj"

definition rdf_pos_key :: "u64 \<Rightarrow> u128 \<Rightarrow> u128 \<Rightarrow> composite_key" where
  "rdf_pos_key predicate obj subject = to_be_bytes predicate @ to_be_bytes obj @ to_be_bytes subject"

definition rdf_osp_key :: "u128 \<Rightarrow> u128 \<Rightarrow> u64 \<Rightarrow> composite_key" where
  "rdf_osp_key obj subject predicate = to_be_bytes obj @ to_be_bytes subject @ to_be_bytes predicate"


section \<open>Big-endian bytes and the order of integers\<close>

lemma le_value_append: "le_value (xs @ ys) = le_value xs + 256 ^ length xs * le_value ys"
  by (induction xs) (simp_all add: algebra_simps)

lemma be_order:
  "length xs = length ys \<Longrightarrow> xs < ys \<longleftrightarrow> le_value (rev xs) < le_value (rev ys)"
proof (induction xs ys rule: list_induct2)
  case (Cons x xs y ys)
  have b: "le_value (rev xs) < 256 ^ length ys" "le_value (rev ys) < 256 ^ length ys"
    using le_value_bound [of "rev xs"] le_value_bound [of "rev ys"] Cons(1) by simp_all
  have cmp: "a + m * unat x < b + m * unat y \<longleftrightarrow> unat x < unat y \<or> unat x = unat y \<and> a < b"
    if "a < m" "b < m" for a b m :: nat
  proof (cases "unat x < unat y")
    case True
    then have "m * (unat x + 1) \<le> m * unat y"
      by (intro mult_le_mono2) simp
    then show ?thesis
      using True that by simp
  next
    case False
    show ?thesis
    proof (cases "unat x = unat y")
      case ne: False
      then have "m * (unat y + 1) \<le> m * unat x"
        using False by (intro mult_le_mono2) simp
      then show ?thesis
        using False ne that by simp
    qed simp
  qed
  show ?case
    using cmp [OF b] Cons by (simp add: le_value_append word_less_nat_alt word_unat_eq_iff)
qed simp

lemma to_be_bytes_order:
  assumes "8 dvd LENGTH('a)"
  shows "to_be_bytes (v :: 'a::len word) < to_be_bytes w \<longleftrightarrow> v < w"
proof -
  have "(256 :: nat) ^ (LENGTH('a) div 8) = 2 ^ (8 * (LENGTH('a) div 8))"
    by (simp add: power_mult)
  also have "\<dots> = 2 ^ LENGTH('a)"
    using assms by simp
  finally have p: "(256 :: nat) ^ (LENGTH('a) div 8) = 2 ^ LENGTH('a)" .
  have "le_value (to_le_bytes u) = unat u" for u :: "'a word"
    using unsigned_less [of u, where ?'a = nat] by (simp add: to_le_bytes_def le_value_le_digits p)
  then show ?thesis
    by (subst be_order) (simp_all add: to_be_bytes_def word_less_nat_alt)
qed

lemma to_be_order_u64 [simp]: "to_be_bytes (v :: u64) < to_be_bytes w \<longleftrightarrow> v < w"
  by (rule to_be_bytes_order) simp

lemma to_be_order_u128 [simp]: "to_be_bytes (v :: u128) < to_be_bytes w \<longleftrightarrow> v < w"
  by (rule to_be_bytes_order) simp

lemma from_to_be_u128 [simp, byte_simps]: "from_be_bytes (to_be_bytes (w :: u128)) = w"
  by (simp add: from_be_bytes_def to_be_bytes_def from_to_le_bytes)

lemma to_be_inj_u64 [simp]: "to_be_bytes (v :: u64) = to_be_bytes w \<longleftrightarrow> v = w"
  by (metis from_to_be_u64)

lemma to_be_inj_u128 [simp]: "to_be_bytes (v :: u128) = to_be_bytes w \<longleftrightarrow> v = w"
  by (metis from_to_be_u128)

lemma lex_append:
  "length a = length b \<Longrightarrow> a @ x < b @ y \<longleftrightarrow> a < b \<or> a = b \<and> x < (y :: 'a::linorder list)"
  by (induction a b rule: list_induct2) auto


section \<open>Flipping the sign bit\<close>

abbreviation sign_bit :: u64 where
  "sign_bit \<equiv> 0x8000000000000000"

lemma sign_bit_push: "sign_bit = push_bit 63 1"
  by simp

lemma sign_and: "v AND sign_bit \<noteq> 0 \<longleftrightarrow> bit v 63" for v :: u64
  unfolding sign_bit_push by (simp add: bit_iff_and_push_bit_not_eq_0 del: push_bit_of_1)

lemma sign_unat: "bit v 63 \<longleftrightarrow> 2 ^ 63 \<le> unat v" for v :: u64
proof -
  have "bit (unat v) 63 \<longleftrightarrow> bit v 63"
    by (simp add: bit_unsigned_iff)
  then have "bit v 63 \<longleftrightarrow> odd (unat v div 2 ^ 63)"
    by (simp add: bit_iff_odd)
  moreover have "unat v div 2 ^ 63 < 2"
    using unat_u64_less [of v] by (intro less_mult_imp_div_less) simp
  then have "unat v div 2 ^ 63 = 0 \<or> unat v div 2 ^ 63 = 1"
    by (simp add: less_2_cases_iff)
  moreover have "unat v div 2 ^ 63 = 0 \<longleftrightarrow> unat v < 2 ^ 63"
    by (simp add: div_eq_0_iff)
  ultimately show ?thesis
    by auto
qed

lemma flip_sign_add:
  fixes v :: u64
  assumes "\<not> bit v 63"
  shows "unat (v XOR sign_bit) = unat v + 2 ^ 63"
proof -
  have "v AND sign_bit = 0"
    using assms sign_and by blast
  then have "v XOR sign_bit = v + sign_bit"
    by (rule disjunctive_add_eq_xor [symmetric])
  then show ?thesis
    using assms sign_unat [of v] by (simp add: unat_word_ariths)
qed

lemma flip_sign: "unat (v XOR sign_bit) = (if bit v 63 then unat v - 2 ^ 63 else unat v + 2 ^ 63)" for v :: u64
proof (cases "bit v 63")
  case True
  then have "\<not> bit (v XOR sign_bit) 63"
    unfolding sign_bit_push by (simp add: bit_xor_iff bit_push_bit_iff del: push_bit_of_1)
  then show ?thesis
    using flip_sign_add [of "v XOR sign_bit"] True by (simp add: xor.assoc)
qed (simp add: flip_sign_add)

lemma sint_unat: "sint v = (if bit v 63 then int (unat v) - 2 ^ 64 else int (unat v))" for v :: i64
proof -
  have "bit (uint v) 63 \<longleftrightarrow> bit v 63" "take_bit 64 (uint v) = uint v"
    using uint_lt2p [of v] by (simp_all add: bit_uint_iff take_bit_int_eq_self)
  then show ?thesis
    by (simp add: sint_uint signed_take_bit_eq_take_bit_minus)
qed

lemma order_i64_order: "order_i64 a < order_i64 b \<longleftrightarrow> sint a < sint b"
proof -
  define x y where "x = unat a" and "y = unat b"
  have b: "x < 2 ^ 64" "y < 2 ^ 64"
    unfolding x_def y_def by (rule unat_u64_less)+
  have s: "sint a = (if 2 ^ 63 \<le> x then int x - 2 ^ 64 else int x)" "sint b = (if 2 ^ 63 \<le> y then int y - 2 ^ 64 else int y)"
    unfolding x_def y_def sint_unat sign_unat by (rule refl)+
  have u: "unat (order_i64 a) = (if 2 ^ 63 \<le> x then x - 2 ^ 63 else x + 2 ^ 63)"
    "unat (order_i64 b) = (if 2 ^ 63 \<le> y then y - 2 ^ 63 else y + 2 ^ 63)"
    unfolding x_def y_def order_i64_def flip_sign sign_unat by (rule refl)+
  show ?thesis
    unfolding word_less_nat_alt u s using b by (auto split: if_splits)
qed

lemma order_i64_inverse [simp]: "unorder_i64 (order_i64 v) = v" "order_i64 v = order_i64 w \<longleftrightarrow> v = w"
proof -
  show u: "unorder_i64 (order_i64 v) = v" for v
    by (simp add: order_i64_def unorder_i64_def xor.assoc)
  show "order_i64 v = order_i64 w \<longleftrightarrow> v = w"
    using u [of v] u [of w] by metis
qed


section \<open>Escaped strings\<close>

lemma escape_byte_simps: "escape_byte b = (if b = 0 then [0, 255] else if b = 255 then [255, 0] else [b])"
  by (simp add: escape_byte_def)

lemma byte_less_255: "b \<noteq> 255 \<Longrightarrow> b < 255" for b :: u8
proof -
  assume "b \<noteq> 255"
  then have "unat b \<noteq> 255"
    by (simp add: word_unat_eq_iff)
  with unat_u8_less [of b] show "b < 255"
    by (simp add: word_less_nat_alt)
qed

text \<open>Escaped and terminated strings compare as the strings do, and what follows them decides
  between equal ones, as long as it does not start with the byte of the escape.\<close>

lemma escape_order:
  assumes "u < [255]" "w < [255]"
  shows "concat (map escape_byte xs) @ 0 # u < concat (map escape_byte ys) @ 0 # w \<longleftrightarrow> xs < ys \<or> xs = ys \<and> u < w"
  using assms
proof (induction xs arbitrary: ys)
  case Nil
  show ?case
  proof (cases ys)
    case (Cons y ys')
    have "u < 255 # v" for v
      using Nil(1) by (cases u) auto
    then show ?thesis
      by (simp add: Cons escape_byte_simps) (simp add: word_gt_0)
  qed simp
next
  case (Cons x xs)
  show ?case
  proof (cases ys)
    case Nil
    have "\<not> 255 # v < w" for v
      using Cons.prems(2) by (cases w) auto
    then show ?thesis
      by (simp add: Nil escape_byte_simps)
  next
    case ys: (Cons y ys')
    show ?thesis
      using Cons.IH [OF Cons.prems, of ys'] byte_less_255 [of x] byte_less_255 [of y]
      by (auto simp: ys escape_byte_simps word_gt_0)
  qed
qed

lemma decode_escaped:
  assumes "rest < [255]"
  shows "decode_terminated (concat (map escape_byte xs) @ 0 # rest) = Some (xs, length (concat (map escape_byte xs)) + 1)"
proof (induction xs)
  case Nil
  have "\<not> (rest \<noteq> [] \<and> hd rest = 255)"
    using assms by (cases rest) auto
  then show ?case
    by simp
next
  case (Cons x xs)
  then show ?case
    by (simp add: escape_byte_simps)
qed


section \<open>Encoded values\<close>

abbreviation value_bytes :: "pvalue \<Rightarrow> bytes" where
  "value_bytes v \<equiv> value_tag v # value_payload v"

definition encodable :: "pvalue \<Rightarrow> bool" where
  "encodable v \<longleftrightarrow> length (value_bytes v) \<le> MAX_ENCODED_LEN"

lemma value_encode_eq:
  "value_encode v out = (if encodable v then (Some (length (value_bytes v)), out @ value_bytes v) else (None, out))"
  by (simp add: value_encode_def encodable_def Let_def)

lemma length_escaped: "length xs \<le> length (concat (map escape_byte xs))"
  by (induction xs) (auto simp: escape_byte_simps)

lemma escape_short: "length (escape_bytes bs) \<le> 511 \<Longrightarrow> escape_bytes bs = concat (map escape_byte bs) @ [0]"
proof -
  assume "length (escape_bytes bs) \<le> 511"
  then have "length (take 65535 bs) < 65535"
    using length_escaped [of "take 65535 bs"] by (simp add: escape_bytes_def)
  then show ?thesis
    by (simp add: escape_bytes_def)
qed

lemma encodable_payload:
  "encodable (VString bs) \<Longrightarrow> escape_bytes bs = concat (map escape_byte bs) @ [0]"
  "encodable (VList bs) \<Longrightarrow> escape_bytes bs = concat (map escape_byte bs) @ [0]"
  "encodable (VMap bs) \<Longrightarrow> escape_bytes bs = concat (map escape_byte bs) @ [0]"
  by (rule escape_short; simp add: encodable_def MAX_ENCODED_LEN_def)+

lemma value_order_tail:
  assumes "encodable a" "encodable b" "u < [255]" "w < [255]"
  shows "value_bytes a @ u < value_bytes b @ w \<longleftrightarrow> a < b \<or> a = b \<and> u < w"
proof (cases "value_tag a = value_tag b")
  case False
  then show ?thesis
    by (auto simp: less_pvalue_def)
next
  case True
  show ?thesis
    using True assms escape_order [OF assms(3,4)]
    by (cases a; cases b)
      (auto simp: less_pvalue_def encodable_payload lex_append order_i64_order [unfolded word_less_def] word_less_def)
qed

lemma value_decode_tail:
  assumes "encodable v" "rest < [255]"
  shows "value_decode (value_bytes v @ rest) = Some (v, length (value_bytes v))"
  using assms decode_escaped [OF assms(2)]
  by (cases v) (auto simp: value_decode_def Let_def encodable_payload slice_def)


text \<open>The encoding of property values preserves and reflects their order: two values the
  encoder accepts compare as their encodings do, byte by byte. Range scans over the encoded
  values therefore return the values in range.\<close>

theorem value_encoding_preserves_order:
  assumes "value_encode a [] = (Some n, x)" "value_encode b [] = (Some m, y)"
  shows "x < y \<longleftrightarrow> a < b"
  using assms value_order_tail [of a b "[]" "[]"] by (auto simp: value_encode_eq split: if_splits)

theorem value_encoding_preserves_order_witness:
  "(snd (value_encode (VInt64 (- 1)) []) < snd (value_encode (VString [97]) [])) = (VInt64 (- 1) < VString [97])"
  by (rule value_encoding_preserves_order [where n = 9 and m = 3])
    (simp_all add: value_encode_def MAX_ENCODED_LEN_def escape_bytes_def escape_byte_def)

text \<open>A value is decoded from its encoding, wherever it stands, with the number of bytes it
  takes, as long as the byte that follows is not \<open>0xFF\<close>. Since no encoded value starts with
  that byte, concatenated values are read back one by one.\<close>

theorem value_round_trip:
  assumes "value_encode v out = (Some n, out')" "rest = [] \<or> hd rest \<noteq> 0xFF"
  shows "value_decode (drop (length out) out' @ rest) = Some (v, n)"
proof -
  have "rest < [255]"
    using assms(2) byte_less_255 by (cases rest) auto
  then show ?thesis
    using assms(1) value_decode_tail [of v rest] by (auto simp: value_encode_eq split: if_splits)
qed

theorem value_round_trip_witness:
  "value_decode ([0x04, 0x61, 0x00] @ [0x01]) = Some (VString [0x61], 3)"
  using value_round_trip [of "VString [0x61]" "[9]" 3 "[9, 0x04, 0x61, 0x00]" "[0x01]"]
  by (simp add: value_encode_def MAX_ENCODED_LEN_def escape_bytes_def escape_byte_def)

section \<open>Property keys\<close>

lemma le_digits_snoc: "le_digits (Suc n) x = le_digits n x @ [of_nat (x div 256 ^ n)]"
proof (induction n arbitrary: x)
  case (Suc n)
  have "le_digits (Suc (Suc n)) x = of_nat x # le_digits n (x div 256) @ [of_nat (x div 256 div 256 ^ n)]"
    using Suc [of "x div 256"] by simp
  then show ?case
    by (simp add: div_mult2_eq)
qed simp

text \<open>Ids below this bound have a first byte other than the escape byte.\<close>

lemma id_tail:
  assumes "unat (i :: u128) < 255 * 2 ^ 120"
  shows "to_be_bytes i < [255]"
proof -
  have "le_digits 16 (unat i) = le_digits 15 (unat i) @ [of_nat (unat i div 256 ^ 15)]"
    using le_digits_snoc [of 15 "unat i"] by (simp del: le_digits.simps)
  then have "to_be_bytes i = of_nat (unat i div 256 ^ 15) # rev (le_digits 15 (unat i))"
    by (simp add: to_be_bytes_def to_le_bytes_def)
  moreover have d: "unat i div 256 ^ 15 < 255"
    using assms by (intro less_mult_imp_div_less) simp
  then have "(of_nat (unat i div 256 ^ 15) :: u8) < 255"
    by (simp add: word_less_nat_alt unat_of_nat)
  ultimately show ?thesis
    by simp
qed




section \<open>Floating-point numbers\<close>

text \<open>The number a bit pattern stands for, in units of the smallest subnormal; the infinities
  come out as the next numbers after the largest finite ones.\<close>

definition f64_magnitude :: "nat \<Rightarrow> nat" where
  "f64_magnitude x = (let e = x div 2 ^ 52; m = x mod 2 ^ 52 in if e = 0 then m else (2 ^ 52 + m) * 2 ^ (e - 1))"

definition f64_number :: "u64 \<Rightarrow> int" where
  "f64_number bits = (let x = unat bits mod 2 ^ 63 in
     if 2 ^ 63 \<le> unat bits then - int (f64_magnitude x) else int (f64_magnitude x))"

lemma f64_magnitude_mono:
  assumes "x < y"
  shows "f64_magnitude x < f64_magnitude y"
proof -
  define e m e' m' where "e = x div 2 ^ 52" "m = x mod 2 ^ 52" "e' = y div 2 ^ 52" "m' = y mod 2 ^ 52"
  note d = e_m_e'_m'_def
  have m: "m < 2 ^ 52" "m' < 2 ^ 52"
    by (simp_all add: d)
  have xy: "x = 2 ^ 52 * e + m" "y = 2 ^ 52 * e' + m'"
    by (simp_all add: d)
  have "e \<le> e'"
    using assms unfolding d by (intro div_le_mono) simp
  have mag: "f64_magnitude x = (if e = 0 then m else (2 ^ 52 + m) * 2 ^ (e - 1))"
    "f64_magnitude y = (if e' = 0 then m' else (2 ^ 52 + m') * 2 ^ (e' - 1))"
    by (simp_all add: f64_magnitude_def Let_def d)
  show ?thesis
  proof (cases "e = e'")
    case True
    then have "m < m'"
      using assms xy by simp
    then show ?thesis
      using True mag by simp
  next
    case False
    then have e': "e < e'"
      using \<open>e \<le> e'\<close> by simp
    have "f64_magnitude x < 2 ^ 52 * 2 ^ e"
    proof (cases e)
      case (Suc k)
      have "(2 ^ 52 + m) * 2 ^ k < (2 ^ 52 + 2 ^ 52) * 2 ^ k"
        using m(1) by (intro mult_strict_right_mono) simp_all
      then show ?thesis
        using mag(1) Suc by simp
    qed (use m(1) mag(1) in simp)
    also have "(2 :: nat) ^ 52 * 2 ^ e \<le> 2 ^ 52 * 2 ^ (e' - 1)"
      using e' by (intro mult_le_mono2 power_increasing) auto
    also have "\<dots> \<le> f64_magnitude y"
      using mag(2) e' by simp
    finally show ?thesis .
  qed
qed

lemma unat_not: "unat (NOT v) = 2 ^ 64 - 1 - unat v" for v :: u64
proof -
  have "NOT v = - 1 - v"
    by (simp add: not_eq_complement)
  then show ?thesis
    using unat_u64_max unat_u64_less [of v] by (simp add: unat_sub word_le_nat_alt)
qed

lemma unat_order_f64:
  "unat (order_f64_bits v) = (if 2 ^ 63 \<le> unat v then 2 ^ 64 - 1 - unat v else unat v + 2 ^ 63)"
  unfolding order_f64_bits_def sign_and by (simp add: sign_unat unat_not flip_sign)


lemma is_nan_unat: "is_nan_bits v \<longleftrightarrow> 0x7FF0000000000000 < unat v mod 2 ^ 63"
proof -
  have m: "(0x7FFFFFFFFFFFFFFF :: u64) = mask 63"
    by (simp add: mask_eq_exp_minus_1)
  have "unat (v AND mask 63) = unat v mod 2 ^ 63"
    unfolding take_bit_eq_mask [symmetric] unsigned_take_bit_eq by (rule take_bit_eq_mod)
  then show ?thesis
    unfolding is_nan_bits_def m word_less_nat_alt by simp
qed

lemma f64_magnitude_less: "f64_magnitude x < f64_magnitude y \<longleftrightarrow> x < y"
  using f64_magnitude_mono [of x y] f64_magnitude_mono [of y x] by (cases rule: linorder_cases [of x y]) auto

text \<open>The code of a pattern by its sign and its other bits.\<close>

lemma f64_code:
  "unat (order_f64_bits v) = (if 2 ^ 63 \<le> unat v then 2 ^ 63 - 1 - unat v mod 2 ^ 63 else 2 ^ 63 + unat v mod 2 ^ 63)"
proof (cases "2 ^ 63 \<le> unat v")
  case True
  then have "unat v - 2 ^ 63 < 2 ^ 63"
    using unat_u64_less [of v] by simp
  then have "unat v mod 2 ^ 63 = unat v - 2 ^ 63"
    using True by (simp add: le_mod_geq)
  then show ?thesis
    using True unfolding unat_order_f64 by simp
next
  case False
  then show ?thesis
    unfolding unat_order_f64 by simp
qed

lemma f64_code_mono:
  assumes "f64_number a < f64_number b"
  shows "unat (order_f64_bits a) < unat (order_f64_bits b)"
proof -
  define x y where "x = unat a mod 2 ^ 63" and "y = unat b mod 2 ^ 63"
  have b: "x < 2 ^ 63" "y < 2 ^ 63"
    by (simp_all add: x_def y_def)
  show ?thesis
    using assms b f64_magnitude_less [of x y] f64_magnitude_less [of y x]
    unfolding f64_code f64_number_def Let_def x_def [symmetric] y_def [symmetric]
    by (cases "2 ^ 63 \<le> unat a"; cases "2 ^ 63 \<le> unat b") simp_all
qed

lemma f64_code_nan:
  assumes "\<not> is_nan_bits a"
  shows "unat (order_f64_bits a) < unat (order_f64_bits 0x7FF8000000000000)"
proof -
  define x where "x = unat a mod 2 ^ 63"
  have "x \<le> 0x7FF0000000000000"
    using assms by (simp add: is_nan_unat x_def)
  then show ?thesis
    unfolding f64_code [of a] x_def [symmetric] by (auto simp: f64_code)
qed

lemma f64_code_inverse: "unorder_f64_bits (order_f64_bits a) = a"
proof -
  have "bit (order_f64_bits a) 63 \<longleftrightarrow> \<not> bit a 63"
    unfolding sign_unat unat_order_f64 by auto
  then show ?thesis
    unfolding unorder_f64_bits_def sign_and by (auto simp: order_f64_bits_def sign_and xor.assoc)
qed

lemma less_VFloat64: "VFloat64 a < VFloat64 b \<longleftrightarrow> unat a < unat b"
  by (simp add: less_pvalue_def flip: word_less_def word_less_nat_alt)

text \<open>Floating-point values are encoded so that a smaller number gets a smaller code, every
  NaN gets the same code, above that of every number, and every pattern that is not a NaN is
  recovered from its code.\<close>

theorem float_order:
  "(\<not> is_nan_bits a \<and> \<not> is_nan_bits b \<and> f64_number a < f64_number b \<longrightarrow> from_f64 a < from_f64 b)
    \<and> (is_nan_bits n \<and> \<not> is_nan_bits a \<longrightarrow> from_f64 a < from_f64 n)
    \<and> (is_nan_bits n \<and> is_nan_bits n' \<longrightarrow> from_f64 n = from_f64 n')
    \<and> (\<not> is_nan_bits a \<longrightarrow> to_f64 (from_f64 a) = Some a)"
  by (auto simp: from_f64_def less_VFloat64 f64_code_mono f64_code_nan f64_code_inverse)

theorem float_order_witness:
  "from_f64 0xBFF0000000000000 < from_f64 0x3FF0000000000000"
proof -
  have "\<not> is_nan_bits 0xBFF0000000000000" "\<not> is_nan_bits 0x3FF0000000000000"
    "f64_number 0xBFF0000000000000 < f64_number 0x3FF0000000000000"
    by (simp_all add: is_nan_unat f64_number_def f64_magnitude_def Let_def)
  then show ?thesis
    using float_order [of "0xBFF0000000000000" "0x3FF0000000000000" 0 0] by blast
qed

end
