(* ===== verification/IndexPrefix.thy ===== *)
theory IndexPrefix
  imports Prelude
begin

text \<open>
  The prefix compression of B+ tree records (\<open>src/src/index/prefix.rs\<close>): a record is a
  two-byte key length, the key and the value; a compressed record has only the suffix of its
  key behind the page's common prefix.
\<close>

section \<open>Definitions\<close>

text \<open>The inner loop of \<open>common_prefix\<close>: the first mismatch below the current length.\<close>

fun match_len :: "bytes \<Rightarrow> bytes \<Rightarrow> nat \<Rightarrow> nat" where
  "match_len (a # as) (b # bs) (Suc n) = (if a \<noteq> b then 0 else Suc (match_len as bs n))"
| "match_len _ _ _ = 0"

fun prefix_scan :: "bytes \<Rightarrow> bytes list \<Rightarrow> nat \<Rightarrow> nat" where
  "prefix_scan first [] prefix_len = prefix_len"
| "prefix_scan first (key # keys) prefix_len =
     (let n = match_len first key (min prefix_len (length key)) in
      if n = 0 then 0 else prefix_scan first keys n)"

definition common_prefix :: "bytes list \<Rightarrow> bytes" where
  "common_prefix keys =
     (case keys of [] \<Rightarrow> [] | first # rest \<Rightarrow> take (prefix_scan first rest (length first)) first)"

text \<open>\<open>None\<close>: the slice is out of range, a panic.\<close>

definition strip_prefix :: "bytes \<Rightarrow> bytes \<Rightarrow> bytes option" where
  "strip_prefix key prefix = (if length prefix \<le> length key then Some (drop (length prefix) key) else None)"

definition decompress_record :: "bytes \<Rightarrow> bytes \<Rightarrow> bytes option" where
  "decompress_record rec prefix =
     (if length rec < 2 then None
      else let key_len = unat (from_be_bytes (slice rec 0 2) :: u16) in
        if 2 + key_len > length rec then None
        else let suffix = slice rec 2 key_len; val = drop (2 + key_len) rec;
                 full_key_len = length prefix + length suffix
          in Some (to_be_bytes (of_nat full_key_len :: u16) @ prefix @ suffix @ val))"

definition starts_with :: "bytes \<Rightarrow> bytes \<Rightarrow> bool" where
  "starts_with key prefix \<longleftrightarrow> take (length prefix) key = prefix"

definition compress_record :: "bytes \<Rightarrow> bytes \<Rightarrow> bytes option" where
  "compress_record rec prefix =
     (if length rec < 2 then None
      else let key_len = unat (from_be_bytes (slice rec 0 2) :: u16) in
        if 2 + key_len > length rec then None
        else let key = slice rec 2 key_len in
          if \<not> starts_with key prefix then None
          else let suffix = drop (length prefix) key; val = drop (2 + key_len) rec
            in Some (to_be_bytes (of_nat (length suffix) :: u16) @ suffix @ val))"

definition extract_key :: "bytes \<Rightarrow> bytes option" where
  "extract_key rec =
     (if length rec < 2 then None
      else let key_len = unat (from_be_bytes (slice rec 0 2) :: u16) in
        if 2 + key_len > length rec then None else Some (slice rec 2 key_len))"

section \<open>The common prefix\<close>

lemma match_len_le: "match_len as bs n \<le> n" "match_len as bs n \<le> length as" "match_len as bs n \<le> length bs"
  by (induction as bs n rule: match_len.induct) auto

lemma match_len_take: "take (match_len as bs n) bs = take (match_len as bs n) as"
  by (induction as bs n rule: match_len.induct) auto

lemma match_len_greatest: "take m as = take m bs \<Longrightarrow> m \<le> n \<Longrightarrow> m \<le> length as \<Longrightarrow> m \<le> length bs \<Longrightarrow> m \<le> match_len as bs n"
proof (induction as bs n arbitrary: m rule: match_len.induct)
  case (1 a as b bs n)
  then show ?case
    by (cases m) auto
qed auto

lemma prefix_scan_le: "prefix_scan first keys n \<le> n"
proof (induction keys arbitrary: n)
  case (Cons k ks)
  have "match_len first k (min n (length k)) \<le> n"
    using match_len_le(1) [of first k "min n (length k)"] by simp
  then show ?case
    using Cons [of "match_len first k (min n (length k))"] by (auto simp: Let_def intro: order_trans)
qed simp

lemma prefix_scan_sound:
  "n \<le> length first \<Longrightarrow> k \<in> set keys \<Longrightarrow> take (prefix_scan first keys n) first = take (prefix_scan first keys n) k"
proof (induction keys arbitrary: n)
  case (Cons k' ks)
  define m where "m = match_len first k' (min n (length k'))"
  have m: "m \<le> length first" "take m k' = take m first"
    by (simp_all add: m_def match_len_le match_len_take)
  show ?case
  proof (cases "m = 0 \<or> k \<noteq> k'")
    case True
    then show ?thesis
      using Cons.IH [OF m(1)] Cons.prems(2) by (auto simp: m_def [symmetric] Let_def)
  next
    case False
    have "prefix_scan first ks m \<le> m"
      by (rule prefix_scan_le)
    then have "take (prefix_scan first ks m) k' = take (prefix_scan first ks m) first"
      using arg_cong [OF m(2), of "take (prefix_scan first ks m)"] by (simp add: min_def)
    with False show ?thesis
      by (simp add: m_def [symmetric] Let_def)
  qed
qed simp

lemma prefix_scan_greatest:
  "m \<le> n \<Longrightarrow> \<forall>k \<in> set keys. take m k = take m first \<and> m \<le> length k \<Longrightarrow> m \<le> length first \<Longrightarrow> m \<le> prefix_scan first keys n"
proof (induction keys arbitrary: n)
  case (Cons k ks)
  have "m \<le> match_len first k (min n (length k))"
    using Cons.prems by (intro match_len_greatest) auto
  then show ?case
    using Cons.IH [of "match_len first k (min n (length k))"] Cons.prems by (auto simp: Let_def)
qed simp

text \<open>The common prefix of some keys is a prefix of each of them, and the longest one.\<close>

lemma common_prefix_spec:
  assumes "keys \<noteq> []"
  shows "\<forall>k \<in> set keys. starts_with k (common_prefix keys)"
    and "\<forall>k \<in> set keys. starts_with k p \<Longrightarrow> length p \<le> length (common_prefix keys)"
proof -
  obtain first rest where k: "keys = first # rest"
    using assms by (cases keys) auto
  let ?n = "prefix_scan first rest (length first)"
  have le: "?n \<le> length first"
    by (rule prefix_scan_le)
  have cp: "common_prefix keys = take ?n first" "length (take ?n first) = ?n"
    using le by (simp_all add: common_prefix_def k min_def)
  have "starts_with k (common_prefix keys)" if "k \<in> set keys" for k
    unfolding starts_with_def cp using that prefix_scan_sound [of "length first" first k rest] by (auto simp: k)
  then show "\<forall>k \<in> set keys. starts_with k (common_prefix keys)"
    by blast
  assume p: "\<forall>k \<in> set keys. starts_with k p"
  have pk: "take (length p) k = p" "length p \<le> length k" if "k \<in> set keys" for k
  proof -
    show t: "take (length p) k = p"
      using p that by (simp add: starts_with_def)
    show "length p \<le> length k"
      using arg_cong [OF t, of length] by simp
  qed
  have "length p \<le> ?n"
    using pk by (intro prefix_scan_greatest ballI) (simp_all add: k)
  then show "length p \<le> length (common_prefix keys)"
    unfolding cp .
qed

section \<open>Compressing and decompressing\<close>

lemma record_parts:
  assumes "2 \<le> length rec" "2 + unat (from_be_bytes (slice rec 0 2) :: u16) \<le> length rec"
  shows "rec = to_be_bytes (from_be_bytes (slice rec 0 2) :: u16)
    @ slice rec 2 (unat (from_be_bytes (slice rec 0 2) :: u16)) @ drop (2 + unat (from_be_bytes (slice rec 0 2) :: u16)) rec"
proof -
  define n where "n = unat (from_be_bytes (slice rec 0 2) :: u16)"
  have "to_be_bytes (from_be_bytes (slice rec 0 2) :: u16) = slice rec 0 2"
    using assms(1) by (simp add: from_be_bytes_def to_be_bytes_def to_from_le_bytes)
  moreover have "slice rec 0 2 @ slice rec 2 n @ drop (2 + n) rec = rec"
    unfolding slice_def drop_drop [of n 2, symmetric, unfolded add.commute [of n 2]] append_take_drop_id by simp
  ultimately show ?thesis
    unfolding n_def [symmetric] by simp
qed

text \<open>Compressing a record and decompressing it again gives the record back.\<close>

lemma compress_round_trip:
  assumes "compress_record rec prefix = Some c"
  shows "decompress_record c prefix = Some rec"
proof -
  define n where "n = unat (from_be_bytes (slice rec 0 2) :: u16)"
  define key where "key = slice rec 2 n"
  define val where "val = drop (2 + n) rec"
  have r: "2 \<le> length rec" "2 + n \<le> length rec" "take (length prefix) key = prefix"
    and c: "c = to_be_bytes (of_nat (length (drop (length prefix) key)) :: u16) @ drop (length prefix) key @ val"
    using assms by (auto simp: compress_record_def Let_def starts_with_def n_def key_def val_def split: if_splits)
  have lk: "length key = n"
    using r(2) by (simp add: key_def)
  have n: "n < 65536"
    unfolding n_def using unsigned_less [of "from_be_bytes (slice rec 0 2) :: u16", where ?'a = nat] by simp
  have lp: "length prefix \<le> n"
    using arg_cong [OF r(3), of length] lk by simp
  have key: "prefix @ drop (length prefix) key = key"
    using r(3) by (metis append_take_drop_id)
  have sl: "slice c 0 2 = to_be_bytes (of_nat (n - length prefix) :: u16)"
    by (simp add: c slice_def lk)
  have u: "unat (of_nat (n - length prefix) :: u16) = n - length prefix"
    using n by (simp add: unat_of_nat)
  have "rec = to_be_bytes (of_nat n :: u16) @ key @ val"
    using record_parts [OF r(1)] r(2) by (simp add: n_def key_def val_def)
  moreover have "slice c 2 (n - length prefix) = drop (length prefix) key" "drop (2 + (n - length prefix)) c = val"
    by (simp_all add: c slice_def lk)
  moreover have "\<not> length c < 2" "\<not> 2 + (n - length prefix) > length c"
    by (simp_all add: c lk)
  moreover have "prefix @ drop (length prefix) key @ val = key @ val"
    using key by (metis append_assoc)
  ultimately show ?thesis
    unfolding decompress_record_def Let_def sl from_to_be_u16 u by (simp add: lk lp)
qed

end
