(* ===== verification/BTreePage.thy ===== *)
theory BTreePage
  imports Page
begin

text \<open>
  The pages of the B+ tree (\<open>src/src/index/page.rs\<close>): a slotted page whose record area starts
  with a 32-byte header of its own. The operations are those of the source over the bytes of
  the page; a panic is \<open>None\<close> of the outer option. The predicate \<open>bt_view\<close> says what a
  well-formed page holds: its id, its kind, its header and its records in slot order.
\<close>

section \<open>Definitions\<close>

definition BTREE_HEADER_SIZE :: nat where
  "BTREE_HEADER_SIZE = 32"

record btree_header =
  sibling_prev :: u64
  sibling_next :: u64
  rightmost_child :: u64
  key_count :: u16
  common_prefix_len :: u16
  bh_level :: u8
  bh_reserved :: bytes

definition btree_header_new :: "u8 \<Rightarrow> btree_header" where
  "btree_header_new level =
     \<lparr>sibling_prev = 0, sibling_next = 0, rightmost_child = 0, key_count = 0, common_prefix_len = 0,
      bh_level = level, bh_reserved = [0, 0, 0]\<rparr>"

text \<open>The \<open>repr(C)\<close> image of the header, little-endian like that of the page header.\<close>

definition btree_header_image :: "btree_header \<Rightarrow> bytes" where
  "btree_header_image h =
     to_le_bytes (sibling_prev h) @ to_le_bytes (sibling_next h) @ to_le_bytes (rightmost_child h) @
     to_le_bytes (key_count h) @ to_le_bytes (common_prefix_len h) @ [bh_level h] @ bh_reserved h"

definition btree_header_of :: "bytes \<Rightarrow> btree_header" where
  "btree_header_of buf =
     \<lparr>sibling_prev = from_le_bytes (slice buf 64 8), sibling_next = from_le_bytes (slice buf 72 8),
      rightmost_child = from_le_bytes (slice buf 80 8), key_count = from_le_bytes (slice buf 88 2),
      common_prefix_len = from_le_bytes (slice buf 90 2), bh_level = buf ! 92, bh_reserved = slice buf 93 3\<rparr>"

definition write_btree_header :: "bytes \<Rightarrow> btree_header \<Rightarrow> bytes" where
  "write_btree_header buf h = splice buf HEADER_SIZE (btree_header_image h)"

definition new_leaf :: "u64 \<Rightarrow> bytes" where
  "new_leaf pid =
     set_free_space_offset (write_btree_header (page_init pid BTreeLeaf) (btree_header_new 0))
       (of_nat BTREE_HEADER_SIZE)"

definition new_branch :: "u64 \<Rightarrow> u8 \<Rightarrow> bytes" where
  "new_branch pid level =
     set_free_space_offset (write_btree_header (page_init pid BTreeInterior) (btree_header_new level))
       (of_nat BTREE_HEADER_SIZE)"

definition set_page_lsn :: "bytes \<Rightarrow> u64 \<Rightarrow> bytes" where
  "set_page_lsn buf lsn = splice buf 0 (to_le_bytes lsn)"

definition is_leaf :: "bytes \<Rightarrow> bool" where
  "is_leaf buf \<longleftrightarrow> ph_page_type (page_header_of buf) = page_type_code BTreeLeaf"

definition is_branch :: "bytes \<Rightarrow> bool" where
  "is_branch buf \<longleftrightarrow> ph_page_type (page_header_of buf) = page_type_code BTreeInterior"

definition bt_key_count :: "bytes \<Rightarrow> u16" where
  "bt_key_count buf = key_count (btree_header_of buf)"

definition bt_key :: "bytes \<Rightarrow> nat \<Rightarrow> bytes option" where
  "bt_key buf idx = page_read buf idx"

text \<open>The outer \<open>None\<close> is the panic on a record of fewer than eight bytes.\<close>

definition child_pointer :: "bytes \<Rightarrow> nat \<Rightarrow> u64 option option" where
  "child_pointer buf idx =
     (case page_read buf idx of
        None \<Rightarrow> Some None
      | Some data \<Rightarrow>
          (if length data < 8 then None else Some (Some (from_be_bytes (drop (length data - 8) data)))))"

definition separator_key :: "bytes \<Rightarrow> nat \<Rightarrow> bytes option" where
  "separator_key buf idx = map_option (\<lambda>data. take (length data - 8) data) (page_read buf idx)"

definition bump_key_count :: "bytes \<Rightarrow> bytes" where
  "bump_key_count buf =
     (let bh = btree_header_of buf in write_btree_header buf (bh\<lparr>key_count := key_count bh + 1\<rparr>))"

definition insert_raw :: "bytes \<Rightarrow> bytes \<Rightarrow> (nat option \<times> bytes) option" where
  "insert_raw buf record =
     (case page_insert buf record of
        None \<Rightarrow> None
      | Some (None, buf1) \<Rightarrow> Some (None, buf1)
      | Some (Some slot, buf1) \<Rightarrow> Some (Some slot, bump_key_count buf1))"

definition insert_raw_at :: "bytes \<Rightarrow> nat \<Rightarrow> bytes \<Rightarrow> (nat option \<times> bytes) option" where
  "insert_raw_at buf idx record =
     (case page_insert_at buf idx record of
        None \<Rightarrow> None
      | Some (None, buf1) \<Rightarrow> Some (None, buf1)
      | Some (Some slot, buf1) \<Rightarrow> Some (Some slot, bump_key_count buf1))"

definition set_siblings :: "bytes \<Rightarrow> u64 \<Rightarrow> u64 \<Rightarrow> bytes" where
  "set_siblings buf prev nxt =
     write_btree_header buf ((btree_header_of buf)\<lparr>sibling_prev := prev, sibling_next := nxt\<rparr>)"

definition set_rightmost_child :: "bytes \<Rightarrow> u64 \<Rightarrow> bytes" where
  "set_rightmost_child buf child =
     write_btree_header buf ((btree_header_of buf)\<lparr>rightmost_child := child\<rparr>)"

definition has_room_for :: "bytes \<Rightarrow> nat \<Rightarrow> bool" where
  "has_room_for buf record_len =
     (let used = HEADER_SIZE + free_off buf + nslots buf * SLOT_SIZE; available = PAGE_SIZE - used
      in record_len + SLOT_SIZE \<le> available)"

definition bt_free_space :: "bytes \<Rightarrow> nat" where
  "bt_free_space buf = free_space (page_header_of buf)"

definition bt_slot_count :: "bytes \<Rightarrow> nat" where
  "bt_slot_count buf = nslots buf"

text \<open>Re-inserting the records during a compaction; the assertion that each fits is a panic.\<close>

fun reinsert :: "bytes \<Rightarrow> nat \<Rightarrow> bytes list \<Rightarrow> bytes option" where
  "reinsert buf idx [] = Some buf"
| "reinsert buf idx (rec # recs) =
     (case page_insert_at buf idx rec of
        Some (Some _, buf1) \<Rightarrow> reinsert buf1 (idx + 1) recs
      | _ \<Rightarrow> None)"

definition bt_compact :: "bytes \<Rightarrow> bytes option" where
  "bt_compact buf =
     (let bh = btree_header_of buf; h = page_header_of buf;
          pt = (if is_leaf buf then BTreeLeaf else BTreeInterior);
          records = List.map_filter (page_read buf) [0..<bt_slot_count buf];
          new_inner = set_free_space_offset (set_page_lsn (page_init (page_id h) pt) (page_lsn h))
                        (of_nat BTREE_HEADER_SIZE)
      in reinsert (write_btree_header new_inner bh) 0 records)"

definition bt_delete :: "bytes \<Rightarrow> nat \<Rightarrow> (bool \<times> bytes) option" where
  "bt_delete buf idx =
     (case page_delete buf idx of
        (True, buf1) \<Rightarrow>
          (let bh = btree_header_of buf1;
               bh' = (if key_count bh > 0 then bh\<lparr>key_count := key_count bh - 1\<rparr> else bh)
           in map_option (Pair True) (bt_compact (write_btree_header buf1 bh')))
      | (False, buf1) \<Rightarrow> Some (False, buf1))"

section \<open>Pages as a view of their bytes\<close>

named_theorems bt_simps \<open>what the operations do to the view of a page\<close>

lemma BTREE_HEADER_SIZE [simp]: "BTREE_HEADER_SIZE = 32"
  by (simp add: BTREE_HEADER_SIZE_def)

definition header_wf :: "btree_header \<Rightarrow> bool" where
  "header_wf bh \<longleftrightarrow> length (bh_reserved bh) = 3"

lemma length_header_image [simp]: "header_wf bh \<Longrightarrow> length (btree_header_image bh) = 32"
  by (simp add: btree_header_image_def header_wf_def)

lemma header_wf_new [simp]: "header_wf (btree_header_new l)"
  by (simp add: header_wf_def btree_header_new_def)

lemma header_wf_of: "length buf = 8192 \<Longrightarrow> header_wf (btree_header_of buf)"
  by (simp add: header_wf_def btree_header_of_def)

lemma header_wf_update [simp]:
  "header_wf (bh\<lparr>sibling_prev := p\<rparr>) = header_wf bh" "header_wf (bh\<lparr>sibling_next := n\<rparr>) = header_wf bh"
  "header_wf (bh\<lparr>rightmost_child := p\<rparr>) = header_wf bh" "header_wf (bh\<lparr>key_count := k\<rparr>) = header_wf bh"
  by (simp_all add: header_wf_def)

lemma header_write_read:
  assumes "length buf = 8192" "header_wf bh"
  shows "btree_header_of (write_btree_header buf bh) = bh"
proof -
  have l: "length (btree_header_image bh) = 32" using assms(2) by simp
  have s: "slice (write_btree_header buf bh) (64 + a) n = slice (btree_header_image bh) a n" if "a + n \<le> 32" for a n
    using assms(1) l that by (simp add: write_btree_header_def splice_def slice_def drop_append)
  have n: "write_btree_header buf bh ! 92 = btree_header_image bh ! 28"
    using assms(1) l by (simp add: write_btree_header_def nth_splice)
  show ?thesis
    using s [of 0 8] s [of 8 8] s [of 16 8] s [of 24 2] s [of 26 2] s [of 29 3] n assms(2)
    by (simp add: btree_header_of_def btree_header_image_def header_wf_def slice_def nth_append)
qed

lemma header_of_slices:
  assumes "slice buf' 64 32 = slice buf 64 32" "length buf = 8192" "length buf' = 8192"
  shows "btree_header_of buf' = btree_header_of buf"
proof -
  have s: "slice buf' (64 + a) n = slice buf (64 + a) n" if "a + n \<le> 32" for a n
  proof -
    have "slice b (64 + a) n = slice (slice b 64 32) a n" for b :: bytes
      using that by (simp add: slice_def drop_take add.commute min_def)
    then show ?thesis using assms(1) by simp
  qed
  have "buf' ! 92 = buf ! 92"
    using nth_slice [of 64 32 buf 28] nth_slice [of 64 32 buf' 28] assms by simp
  then show ?thesis
    using s [of 0 8] s [of 8 8] s [of 16 8] s [of 24 2] s [of 26 2] s [of 29 3]
    by (simp add: btree_header_of_def)
qed

lemma write_header_frame [bt_simps]:
  assumes "length buf = 8192" "header_wf bh"
  shows "length (write_btree_header buf bh) = 8192"
    "page_header_of (write_btree_header buf bh) = page_header_of buf"
    "64 + 4 * (i + 1) + 32 \<le> 8192 \<Longrightarrow> slot_at (write_btree_header buf bh) i = slot_at buf i"
    "96 \<le> a \<Longrightarrow> a + n \<le> 8192 \<Longrightarrow> slice (write_btree_header buf bh) a n = slice buf a n"
proof -
  have l: "length (btree_header_image bh) = 32" using assms(2) by simp
  show "length (write_btree_header buf bh) = 8192"
    "page_header_of (write_btree_header buf bh) = page_header_of buf"
    using assms(1) l by (simp_all add: write_btree_header_def header_splice)
  show "slot_at (write_btree_header buf bh) i = slot_at buf i" if "64 + 4 * (i + 1) + 32 \<le> 8192"
    unfolding write_btree_header_def by (rule slot_at_splice) (use assms(1) l that in auto)
  show "slice (write_btree_header buf bh) a n = slice buf a n" if "96 \<le> a" "a + n \<le> 8192"
    using assms(1) l that by (simp add: write_btree_header_def slice_splice_disjoint)
qed

definition slot_holds :: "bytes \<Rightarrow> nat \<Rightarrow> slot \<Rightarrow> bytes \<Rightarrow> bool" where
  "slot_holds buf f s r \<longleftrightarrow> 32 \<le> unat (s_offset s) \<and> unat (s_offset s) + unat (s_length s) \<le> f \<and>
     slice buf (64 + unat (s_offset s)) (unat (s_length s)) = r"

text \<open>A well-formed page: no slot is deleted, the record area holds the records of the slots and
  nothing else behind the header, and the key count is the slot count.\<close>

definition bt_body :: "bytes \<Rightarrow> u64 \<Rightarrow> page_type \<Rightarrow> btree_header \<Rightarrow> bytes list \<Rightarrow> bool" where
  "bt_body buf pid pt bh recs \<longleftrightarrow>
     length buf = 8192 \<and> page_id (page_header_of buf) = pid \<and>
     ph_page_type (page_header_of buf) = page_type_code pt \<and> btree_header_of buf = bh \<and>
     nslots buf = length recs \<and>
     free_off buf = 32 + sum_list (map length recs) \<and>
     96 + sum_list (map length recs) + 4 * length recs \<le> 8192 \<and>
     (\<forall>i < length recs. slot_holds buf (32 + sum_list (map length recs)) (slot_at buf i) (recs ! i))"

text \<open>The bytes a list of records takes on a page, slots included.\<close>

definition space :: "bytes list \<Rightarrow> nat" where
  "space recs = (\<Sum>r \<leftarrow> recs. length r + 4)"

lemma space_simps [simp]:
  "space [] = 0" "space (r # rs) = length r + 4 + space rs" "space (rs @ rs') = space rs + space rs'"
  by (simp_all add: space_def)

lemma space_eq: "space recs = sum_list (map length recs) + 4 * length recs"
  by (induction recs) auto

lemma bt_bodyD:
  assumes "bt_body buf pid pt bh recs"
  shows "length buf = 8192" "page_id (page_header_of buf) = pid" "ph_page_type (page_header_of buf) = page_type_code pt"
    "btree_header_of buf = bh" "header_wf bh" "nslots buf = length recs"
    "free_off buf = 32 + sum_list (map length recs)" "space recs \<le> 8096" "length recs \<le> 2024"
  using assms header_wf_of [of buf] by (auto simp: bt_body_def space_eq)

lemma bt_body_slot:
  assumes "bt_body buf pid pt bh recs" "i < length recs"
  shows "slot_holds buf (free_off buf) (slot_at buf i) (recs ! i)"
    "\<not> slot_is_deleted (slot_at buf i)" "unat (s_length (slot_at buf i)) = length (recs ! i)"
proof -
  note d = bt_bodyD [OF assms(1)]
  have "slot_holds buf (32 + sum_list (map length recs)) (slot_at buf i) (recs ! i)"
    using assms unfolding bt_body_def by blast
  then show s: "slot_holds buf (free_off buf) (slot_at buf i) (recs ! i)"
    by (simp only: d(7))
  define off len where o: "off = unat (s_offset (slot_at buf i))" "len = unat (s_length (slot_at buf i))"
  have l: "off + len \<le> free_off buf" "slice buf (64 + off) len = recs ! i"
    using s by (simp_all add: slot_holds_def o)
  have f: "64 + free_off buf \<le> 8192"
    using d(7,8) unfolding space_eq by linarith
  have "length (slice buf (64 + off) len) = len"
    using l f d(1) by (intro length_slice) linarith
  then show "unat (s_length (slot_at buf i)) = length (recs ! i)"
    using l(2) o(2) by simp
  have "off \<noteq> 65535"
    using l f by linarith
  then show "\<not> slot_is_deleted (slot_at buf i)"
    by (auto simp: slot_is_deleted_def o)
qed

lemma bt_body_page_ok:
  assumes "bt_body buf pid pt bh recs"
  shows "page_ok buf"
proof -
  note d = bt_bodyD [OF assms]
  have "64 + free_off buf + 4 * nslots buf \<le> 8192"
    using d(6,7,8) unfolding space_eq by linarith
  then show ?thesis
    using bt_body_slot(1) [OF assms] d(1,6) by (simp add: page_ok_def slot_holds_def)
qed

lemma bt_body_read [bt_simps]:
  assumes "bt_body buf pid pt bh recs"
  shows "page_read buf i = (if i < length recs then Some (recs ! i) else None)"
  using bt_body_slot [OF assms, of i] bt_bodyD(6) [OF assms]
  by (simp add: page_read_eq [OF bt_body_page_ok [OF assms]] slot_holds_def)

text \<open>The view depends on the page id, the kind, the record area and the slots only.\<close>

lemma bt_body_cong:
  assumes v: "bt_body buf pid pt bh recs" and "length buf' = 8192" "header_wf bh'"
    and "page_id (page_header_of buf') = pid" "ph_page_type (page_header_of buf') = page_type_code pt"
    and "nslots buf' = nslots buf" "free_off buf' = free_off buf"
    and "btree_header_of buf' = bh'"
    and slots: "\<And>i. i < length recs \<Longrightarrow> slot_at buf' i = slot_at buf i"
    and data: "\<And>a n. 96 \<le> a \<Longrightarrow> a + n \<le> 64 + free_off buf \<Longrightarrow> slice buf' a n = slice buf a n"
  shows "bt_body buf' pid pt bh' recs"
proof -
  note d = bt_bodyD [OF v]
  have "slot_holds buf' (32 + sum_list (map length recs)) (slot_at buf' i) (recs ! i)" if "i < length recs" for i
    using bt_body_slot(1) [OF v that] d(7) slots [OF that]
      data [of "64 + unat (s_offset (slot_at buf i))" "unat (s_length (slot_at buf i))"]
    by (simp add: slot_holds_def)
  moreover have "96 + sum_list (map length recs) + 4 * length recs \<le> 8192"
    using d(8) unfolding space_eq by linarith
  ultimately show ?thesis
    unfolding bt_body_def using assms(2-8) d(5,6,7) by simp
qed

lemma bt_body_bounds:
  assumes "bt_body buf pid pt bh recs"
  shows "64 + free_off buf + 4 * length recs \<le> 8192" "length recs \<le> 2024"
  using bt_bodyD(7,8) [OF assms] unfolding space_eq by linarith+

lemma bt_body_write_header:
  assumes "bt_body buf pid pt bh recs" "header_wf bh'"
  shows "bt_body (write_btree_header buf bh') pid pt bh' recs"
  using bt_bodyD [OF assms(1)] bt_body_bounds [OF assms(1)] assms(2)
  by (intro bt_body_cong [OF assms(1)]) (simp_all add: write_header_frame header_write_read)

lemma bt_body_set_siblings [bt_simps]:
  assumes "bt_body buf pid pt bh recs"
  shows "bt_body (set_siblings buf p n) pid pt (bh\<lparr>sibling_prev := p, sibling_next := n\<rparr>) recs"
  unfolding set_siblings_def bt_bodyD(4) [OF assms]
  by (rule bt_body_write_header [OF assms]) (use bt_bodyD(5) [OF assms] in simp)

lemma bt_body_set_rightmost [bt_simps]:
  assumes "bt_body buf pid pt bh recs"
  shows "bt_body (set_rightmost_child buf c) pid pt (bh\<lparr>rightmost_child := c\<rparr>) recs"
  unfolding set_rightmost_child_def bt_bodyD(4) [OF assms]
  by (rule bt_body_write_header [OF assms]) (use bt_bodyD(5) [OF assms] in simp)

lemma set_page_lsn_frame:
  assumes "length buf = 8192"
  shows "length (set_page_lsn buf l) = 8192" "page_header_of (set_page_lsn buf l) = (page_header_of buf)\<lparr>page_lsn := l\<rparr>"
    "64 \<le> a \<Longrightarrow> a + n \<le> 8192 \<Longrightarrow> slice (set_page_lsn buf l) a n = slice buf a n"
    "btree_header_of (set_page_lsn buf l) = btree_header_of buf"
    "64 + 4 * (i + 1) \<le> 8192 \<Longrightarrow> slot_at (set_page_lsn buf l) i = slot_at buf i"
  using assms by (simp_all add: set_page_lsn_def page_header_of_def btree_header_of_def slot_at_def
      slice_splice_disjoint nth_splice)

lemma bt_body_set_lsn [bt_simps]:
  assumes "bt_body buf pid pt bh recs"
  shows "bt_body (set_page_lsn buf l) pid pt bh recs"
  using bt_bodyD [OF assms] bt_body_bounds [OF assms]
  by (intro bt_body_cong [OF assms]) (simp_all add: set_page_lsn_frame)

section \<open>New pages and insertion\<close>

lemma list_insert_simps [simp]:
  "length (list_insert xs i x) = length xs + 1" "map f (list_insert xs i x) = list_insert (map f xs) i (f x)"
  "list_insert xs (length xs) x = xs @ [x]" "list_insert xs 0 x = x # xs"
  by (simp_all add: list_insert_def take_map drop_map)

lemma sum_list_insert [simp]: "sum_list (list_insert xs i x) = sum_list xs + (x :: nat)"
proof -
  have "sum_list xs = sum_list (take i xs) + sum_list (drop i xs)"
    by (simp flip: sum_list_append)
  then show ?thesis by (simp add: list_insert_def)
qed

lemma space_list_insert [simp]: "space (list_insert rs i r) = space rs + length r + 4"
  by (simp add: space_eq)

lemma nth_list_insert:
  "i \<le> length xs \<Longrightarrow> j \<le> length xs \<Longrightarrow>
    list_insert xs i x ! j = (if j < i then xs ! j else if j = i then x else xs ! (j - 1))"
  by (auto simp: list_insert_def nth_append min_def nth_Cons')

lemma bt_body_new:
  assumes "pt = BTreeLeaf \<or> pt = BTreeInterior" "header_wf bh" "length buf = 8192"
    and "page_header_of buf = (page_header_new pid pt)\<lparr>page_lsn := l, free_space_offset := 32\<rparr>"
    and "btree_header_of buf = bh"
  shows "bt_body buf pid pt bh []"
  using assms by (simp add: bt_body_def page_header_new_def)

lemma length_page_init [simp]: "length (page_init pid pt) = 8192"
  using page_okD(1) [OF page_ok_init] .

lemma fresh_page:
  assumes "header_wf bh"
  shows "length (set_free_space_offset (write_btree_header (page_init pid pt) bh) v) = 8192"
    "page_header_of (set_free_space_offset (write_btree_header (page_init pid pt) bh) v)
       = (page_header_new pid pt)\<lparr>free_space_offset := v\<rparr>"
    "btree_header_of (set_free_space_offset (write_btree_header (page_init pid pt) bh) v) = bh"
proof -
  let ?b = "write_btree_header (page_init pid pt) bh"
  have b: "length ?b = 8192" "page_header_of ?b = page_header_new pid pt" "btree_header_of ?b = bh"
    using assms by (simp_all add: write_header_frame header_write_read page_init_header)
  show l: "length (set_free_space_offset ?b v) = 8192"
    using b(1) by simp
  show "page_header_of (set_free_space_offset ?b v) = (page_header_new pid pt)\<lparr>free_space_offset := v\<rparr>"
    using b by (simp add: set_fields_eqs)
  have "slice (set_free_space_offset ?b v) 64 32 = slice ?b 64 32"
    using b(1) by (simp add: set_fields_slice)
  then show "btree_header_of (set_free_space_offset ?b v) = bh"
    using header_of_slices l b(1,3) by metis
qed

lemma key_count_new: "key_count (btree_header_new l) = 0"
  by (simp add: btree_header_new_def)

lemma bt_body_new_leaf [bt_simps]: "bt_body (new_leaf pid) pid BTreeLeaf (btree_header_new 0) []"
  unfolding new_leaf_def
  by (rule bt_body_new [where l = 0])
    (simp_all add: fresh_page page_header_new_def del: page_type_code.simps)

lemma bt_body_new_branch [bt_simps]: "bt_body (new_branch pid l) pid BTreeInterior (btree_header_new l) []"
  unfolding new_branch_def
  by (rule bt_body_new [where l = 0])
    (simp_all add: fresh_page page_header_new_def del: page_type_code.simps)

text \<open>What both insertions do to a page with room: the record is written behind the others, and
  its slot takes the position \<open>idx\<close> in the directory.\<close>

lemma bt_body_appended:
  assumes v: "bt_body buf pid pt bh recs" and room: "space recs + length r + 4 \<le> 8096"
    and idx: "idx \<le> length recs" and l: "length buf' = 8192"
    and hdr: "page_header_of buf' = (page_header_of buf)\<lparr>slot_count := slot_count (page_header_of buf) + 1,
        free_space_offset := of_nat (free_off buf + length r)\<rparr>"
    and slots: "\<And>i. i \<le> length recs \<Longrightarrow> slot_at buf' i =
        list_insert (map (slot_at buf) [0..<length recs]) idx
          \<lparr>s_offset = of_nat (free_off buf), s_length = of_nat (length r)\<rparr> ! i"
    and new: "slice buf' (64 + free_off buf) (length r) = r"
    and old: "\<And>a n. 64 \<le> a \<Longrightarrow> a + n \<le> 64 + free_off buf \<Longrightarrow> slice buf' a n = slice buf a n"
  shows "bt_body buf' pid pt bh (list_insert recs idx r)"
proof -
  note d = bt_bodyD [OF v]
  let ?f = "free_off buf" and ?n = "length recs"
  have fit: "64 + ?f + length r + 4 * (?n + 1) \<le> 8192"
    using d(7) room by (simp add: space_eq)
  have "slice buf' 64 32 = slice buf 64 32"
    using old [of 64 32] d(7) by simp
  then have bh: "btree_header_of buf' = bh"
    using header_of_slices [OF _ d(1) l] d(4) by simp
  have fo: "free_off buf' = ?f + length r"
    unfolding hdr using unat_of_nat_u16 [of "?f + length r"] fit by (simp del: of_nat_add)
  have ns: "nslots buf' = ?n + 1"
    unfolding hdr using fit d(6) by (simp add: unat_word_ariths)
  have sh: "slot_holds buf' (?f + length r) (slot_at buf' i) (list_insert recs idx r ! i)" if i: "i \<le> ?n" for i
  proof (cases "i = idx")
    case True
    have "slot_at buf' i = \<lparr>s_offset = of_nat ?f, s_length = of_nat (length r)\<rparr>"
      using slots [OF i] True idx by (simp add: nth_list_insert)
    moreover have "unat (of_nat ?f :: u16) = ?f" "unat (of_nat (length r) :: u16) = length r" "32 \<le> ?f"
      using fit d(7) by (intro unat_of_nat_u16, linarith)+ (use d(7) in linarith)
    ultimately show ?thesis
      using True idx new by (simp add: slot_holds_def nth_list_insert)
  next
    case False
    define j where "j = (if i < idx then i else i - 1)"
    have j: "j < ?n" using False i idx by (auto simp: j_def)
    have s: "slot_at buf' i = slot_at buf j" "list_insert recs idx r ! i = recs ! j"
      using slots [OF i] False i idx j by (auto simp: nth_list_insert j_def)
    show ?thesis
      using bt_body_slot(1) [OF v j] old [of "64 + unat (s_offset (slot_at buf j))" "unat (s_length (slot_at buf j))"]
      unfolding s slot_holds_def by simp
  qed
  show ?thesis
    unfolding bt_body_def
    using l d fo ns fit hdr bh sh by (simp add: less_Suc_eq_le add_ac)
qed

text \<open>Writing a run of slots.\<close>

lemma write_slots:
  assumes "length buf = 8192" "64 + 4 * count \<le> 8192" "k + length ss \<le> count"
  defines "w \<equiv> \<lambda>b (i, s). splice b (8192 - count * 4 + (count - 1 - i) * 4) (slot_image s)"
  shows "length (foldl w buf (zip [k..<k + length ss] ss)) = 8192
    \<and> page_header_of (foldl w buf (zip [k..<k + length ss] ss)) = page_header_of buf
    \<and> (\<forall>i < count. slot_at (foldl w buf (zip [k..<k + length ss] ss)) i =
         (if k \<le> i \<and> i < k + length ss then ss ! (i - k) else slot_at buf i))
    \<and> (\<forall>a n. a + n \<le> 8192 - 4 * count \<longrightarrow>
         slice (foldl w buf (zip [k..<k + length ss] ss)) a n = slice buf a n)"
  using assms(1,3)
proof (induction ss arbitrary: buf k)
  case (Cons s ss)
  have pos: "8192 - count * 4 + (count - 1 - k) * 4 = 8192 - 4 * (k + 1)"
    using Cons.prems(2) assms(2) by (simp add: diff_mult_distrib)
  let ?b = "splice buf (8192 - 4 * (k + 1)) (slot_image s)"
  have b: "length ?b = 8192" "page_header_of ?b = page_header_of buf"
    using Cons.prems assms(2) by (simp_all add: header_splice)
  have bs: "slot_at ?b i = (if i = k then s else slot_at buf i)" if "i < count" for i
  proof (cases "i = k")
    case True
    then show ?thesis
      using Cons.prems assms(2) that by (simp only: simp_thms if_True) (rule slot_at_splice_same, auto)
  next
    case False
    have "slot_at ?b i = slot_at buf i"
      by (rule slot_at_splice) (use Cons.prems assms(2) that False in auto)
    then show ?thesis using False by simp
  qed
  have bd: "slice ?b a n = slice buf a n" if "a + n \<le> 8192 - 4 * count" for a n
    by (rule slice_splice_disjoint) (use Cons.prems assms(2) that in auto)
  have "zip [k..<k + length (s # ss)] (s # ss) = (k, s) # zip [Suc k..<Suc k + length ss] ss"
    by (subst upt_conv_Cons) (simp_all del: upt_Suc)
  moreover have "w buf (k, s) = ?b"
    unfolding w_def prod.case pos ..
  ultimately have f: "foldl w buf (zip [k..<k + length (s # ss)] (s # ss)) = foldl w ?b (zip [Suc k..<Suc k + length ss] ss)"
    by (simp only: foldl_Cons)
  have k: "Suc k + length ss \<le> count" using Cons.prems by simp
  show ?case
    unfolding f using Cons.IH [OF b(1) k] b(2) bs bd
    by (auto simp: nth_Cons' Suc_le_eq not_less)
qed (auto simp: w_def)

lemma map_filter_some: "(\<And>x. x \<in> set xs \<Longrightarrow> f x = Some (g x)) \<Longrightarrow> List.map_filter f xs = map g xs"
  by (induction xs) (auto simp: List.map_filter_simps)

lemma free_space_view:
  assumes "bt_body buf pid pt bh recs"
  shows "free_space (page_header_of buf) = 8096 - space recs"
  using bt_bodyD(6,7) [OF assms] by (simp add: free_space_def space_eq)

lemma best_fit_none:
  assumes "\<And>i s. i \<in> set is \<Longrightarrow> page_slot buf i = Some s \<Longrightarrow> \<not> slot_is_deleted s"
  shows "best_fit buf n is None m = None"
  using assms by (induction "is") (auto split: option.splits)

lemma page_insert_at_body:
  assumes v: "bt_body buf pid pt bh recs" and "length r \<le> 2048" and room: "space recs + length r + 4 \<le> 8096"
    and idx: "idx \<le> length recs"
  shows "\<exists>buf'. page_insert_at buf idx r = Some (Some idx, buf') \<and> bt_body buf' pid pt bh (list_insert recs idx r)"
proof -
  note d = bt_bodyD [OF v] and ok = bt_body_page_ok [OF v]
  have fs: "length r + 4 \<le> free_space (page_header_of buf)"
    using room by (simp add: free_space_view [OF v])
  note b2 = record_written [OF ok fs]
  let ?n = "length recs" and ?f = "free_off buf" and ?b2 = "splice buf (64 + free_off buf) r"
  let ?s = "\<lparr>s_offset = of_nat ?f, s_length = of_nat (length r)\<rparr>"
  let ?b3 = "set_slot_count ?b2 (slot_count (page_header_of ?b2) + 1)"
  let ?b4 = "set_free_space_offset ?b3 (of_nat (?f + length r))"
  have fit: "64 + ?f + length r + 4 * (?n + 1) \<le> 8192"
    using b2(1) d(6) by simp
  have b4: "length ?b4 = 8192" "page_header_of ?b4 = (page_header_of buf)\<lparr>slot_count := slot_count (page_header_of buf) + 1,
        free_space_offset := of_nat (?f + length r)\<rparr>"
    using b2(3,4) by (simp_all add: set_fields_eqs)
  have ns: "nslots ?b4 = ?n + 1"
    unfolding b4(2) using fit d(6) by (simp add: unat_word_ariths)
  have s4: "slot_at ?b4 i = slot_at buf i" if "i \<le> ?n" for i
    using b2(3,5) that fit d(6) by (simp add: set_fields_slot)
  have "List.map_filter (page_slot ?b4) [0..<?n + 1 - 1] = map (slot_at buf) [0..<?n]"
    by (subst map_filter_some [where g = "slot_at buf"]) (use ns fit s4 in \<open>auto simp: page_slot_eq\<close>)
  moreover define ss where "ss = list_insert (map (slot_at buf) [0..<?n]) idx ?s"
  moreover have pos: "min idx ?n = idx" using idx by simp
  define w where "w = (\<lambda>b (i, s). splice b (8192 - (?n + 1) * 4 + (?n + 1 - 1 - i) * 4) (slot_image s))"
  define b5 where "b5 = foldl w ?b4 (zip [0..<0 + length ss] ss)"
  ultimately have ins: "page_insert_at buf idx r = Some (Some idx, b5)"
    using assms(2) fs b2(2) ns pos unfolding page_insert_at_def b5_def w_def
    by (simp add: make_room_fits Let_def ss_def del: of_nat_add upt_Suc)
  have w: "length b5 = 8192 \<and> page_header_of b5 = page_header_of ?b4
    \<and> (\<forall>i < ?n + 1. slot_at b5 i = (if 0 \<le> i \<and> i < 0 + length ss then ss ! (i - 0) else slot_at ?b4 i))
    \<and> (\<forall>a n. a + n \<le> 8192 - 4 * (?n + 1) \<longrightarrow> slice b5 a n = slice ?b4 a n)"
    unfolding b5_def w_def by (rule write_slots [OF b4(1)]) (use fit in \<open>auto simp: ss_def\<close>)
  have sl: "slice b5 a k = slice ?b2 a k" if "64 \<le> a" "a + k \<le> 64 + ?f + length r" for a k
    using w that fit b2(3) by (simp add: set_fields_slice)
  have "bt_body b5 pid pt bh (list_insert recs idx r)"
  proof (rule bt_body_appended [OF v room idx])
    show "length b5 = 8192" using w by blast
    show "page_header_of b5 = (page_header_of buf)\<lparr>slot_count := slot_count (page_header_of buf) + 1,
        free_space_offset := of_nat (?f + length r)\<rparr>"
      using w b4(2) by simp
    show "slot_at b5 i = list_insert (map (slot_at buf) [0..<?n]) idx ?s ! i" if "i \<le> ?n" for i
      using w that by (simp add: ss_def)
    show "slice b5 (64 + ?f) (length r) = r"
      using sl b2(6) by simp
    show "slice b5 a k = slice buf a k" if "64 \<le> a" "a + k \<le> 64 + ?f" for a k
      using sl b2(7) that by simp
  qed
  then show ?thesis
    using ins by simp
qed

lemma page_insert_body:
  assumes v: "bt_body buf pid pt bh recs" and "length r \<le> 2048" and room: "space recs + length r + 4 \<le> 8096"
  shows "\<exists>buf'. page_insert buf r = Some (Some (length recs), buf') \<and> bt_body buf' pid pt bh (recs @ [r])"
proof -
  note d = bt_bodyD [OF v] and ok = bt_body_page_ok [OF v]
  have fs: "length r + 4 \<le> free_space (page_header_of buf)"
    using room by (simp add: free_space_view [OF v])
  note b2 = record_written [OF ok fs]
  let ?n = "length recs" and ?f = "free_off buf" and ?b2 = "splice buf (64 + free_off buf) r"
  let ?s = "\<lparr>s_offset = of_nat ?f, s_length = of_nat (length r)\<rparr>"
  let ?b3 = "set_slot_count ?b2 (slot_count (page_header_of ?b2) + 1)"
  let ?b4 = "set_free_space_offset ?b3 (of_nat (?f + length r))"
  let ?b5 = "splice ?b4 (8192 - 4 * (?n + 1)) (slot_image ?s)"
  have fit: "64 + ?f + length r + 4 * (?n + 1) \<le> 8192"
    using b2(1) d(6) by simp
  have b4: "length ?b4 = 8192" "page_header_of ?b4 = (page_header_of buf)\<lparr>slot_count := slot_count (page_header_of buf) + 1,
        free_space_offset := of_nat (?f + length r)\<rparr>"
    using b2(3,4) by (simp_all add: set_fields_eqs)
  have ns: "nslots ?b4 = ?n + 1"
    unfolding b4(2) using fit d(6) by (simp add: unat_word_ariths)
  have "best_fit buf (length r) [0..<?n] None (2 ^ 64 - 1) = None"
    by (rule best_fit_none) (use bt_body_slot(2) [OF v] d(6) page_okD(3) [OF ok] in \<open>auto simp: page_slot_eq\<close>)
  then have ins: "page_insert buf r = Some (Some ?n, ?b5)"
    using assms(2) fs b2(2) ns d(6) by (simp add: page_insert_def make_room_fits Let_def mult.commute del: of_nat_add)
  have sl: "slice ?b5 a k = slice ?b2 a k" if "64 \<le> a" "a + k \<le> 64 + ?f + length r" for a k
  proof -
    have "slice ?b5 a k = slice ?b4 a k"
      by (rule slice_splice_disjoint) (use b4(1) fit that in auto)
    then show ?thesis using that fit b2(3) by (simp add: set_fields_slice)
  qed
  have "bt_body ?b5 pid pt bh (list_insert recs ?n r)"
  proof (rule bt_body_appended [OF v room order_refl])
    show "length ?b5 = 8192" using b4(1) fit by simp
    show "page_header_of ?b5 = (page_header_of buf)\<lparr>slot_count := slot_count (page_header_of buf) + 1,
        free_space_offset := of_nat (?f + length r)\<rparr>"
      using b4 fit by (simp add: header_splice)
    show "slot_at ?b5 i = list_insert (map (slot_at buf) [0..<?n]) ?n ?s ! i" if "i \<le> ?n" for i
    proof (cases "i = ?n")
      case True
      have "slot_at ?b5 ?n = ?s"
        by (rule slot_at_splice_same) (use b4(1) fit in auto)
      then show ?thesis using True by (simp add: nth_list_insert)
    next
      case False
      have "slot_at ?b5 i = slot_at ?b4 i"
        by (rule slot_at_splice) (use b4(1) fit that False in auto)
      then show ?thesis
        using False that b2(3,5) fit d(6) by (simp add: nth_list_insert set_fields_slot)
    qed
    show "slice ?b5 (64 + ?f) (length r) = r"
      using sl b2(6) by simp
    show "slice ?b5 a k = slice buf a k" if "64 \<le> a" "a + k \<le> 64 + ?f" for a k
      using sl b2(7) that by simp
  qed
  then show ?thesis
    using ins by simp
qed

section \<open>Well-formed pages\<close>

definition bt_view :: "bytes \<Rightarrow> u64 \<Rightarrow> page_type \<Rightarrow> btree_header \<Rightarrow> bytes list \<Rightarrow> bool" where
  "bt_view buf pid pt bh recs \<longleftrightarrow> bt_body buf pid pt bh recs \<and> key_count bh = of_nat (length recs)"

lemma bt_view_body: "bt_view buf pid pt bh recs \<Longrightarrow> bt_body buf pid pt bh recs"
  by (simp add: bt_view_def)

lemma bt_viewD:
  assumes "bt_view buf pid pt bh recs"
  shows "page_id (page_header_of buf) = pid" "btree_header_of buf = bh" "space recs \<le> 8096" "length recs \<le> 2024"
    "key_count bh = of_nat (length recs)"
  using bt_bodyD [OF bt_view_body [OF assms]] assms by (simp_all add: bt_view_def)

lemma bt_view_new [bt_simps]:
  "bt_view (new_leaf pid) pid BTreeLeaf (btree_header_new 0) []"
  "bt_view (new_branch pid l) pid BTreeInterior (btree_header_new l) []"
  by (simp_all add: bt_view_def bt_body_new_leaf bt_body_new_branch key_count_new)

lemma bt_view_set [bt_simps]:
  assumes "bt_view buf pid pt bh recs"
  shows "bt_view (set_siblings buf p n) pid pt (bh\<lparr>sibling_prev := p, sibling_next := n\<rparr>) recs"
    "bt_view (set_rightmost_child buf c) pid pt (bh\<lparr>rightmost_child := c\<rparr>) recs"
    "bt_view (set_page_lsn buf l) pid pt bh recs"
  using assms by (simp_all add: bt_view_def bt_body_set_siblings bt_body_set_rightmost bt_body_set_lsn)

lemma bt_view_bump:
  assumes "bt_body buf pid pt bh recs" "key_count bh + 1 = of_nat (length recs)"
  shows "bt_view (bump_key_count buf) pid pt (bh\<lparr>key_count := of_nat (length recs)\<rparr>) recs"
  using assms bt_bodyD(4,5) [OF assms(1)]
  by (simp add: bt_view_def bump_key_count_def Let_def bt_body_write_header)

lemma insert_raw_at_view:
  assumes "bt_view buf pid pt bh recs" "length r \<le> 2048" "space recs + length r + 4 \<le> 8096" "idx \<le> length recs"
  shows "\<exists>buf'. insert_raw_at buf idx r = Some (Some idx, buf') \<and>
    bt_view buf' pid pt (bh\<lparr>key_count := of_nat (length recs + 1)\<rparr>) (list_insert recs idx r)"
proof -
  obtain b where b: "page_insert_at buf idx r = Some (Some idx, b)" "bt_body b pid pt bh (list_insert recs idx r)"
    using page_insert_at_body [OF bt_view_body [OF assms(1)] assms(2-4)] by blast
  have "bt_view (bump_key_count b) pid pt (bh\<lparr>key_count := of_nat (length (list_insert recs idx r))\<rparr>) (list_insert recs idx r)"
    by (rule bt_view_bump [OF b(2)]) (use bt_viewD(5) [OF assms(1)] in simp)
  then show ?thesis
    using b(1) by (simp add: insert_raw_at_def)
qed

lemma insert_raw_view:
  assumes "bt_view buf pid pt bh recs" "length r \<le> 2048" "space recs + length r + 4 \<le> 8096"
  shows "\<exists>buf'. insert_raw buf r = Some (Some (length recs), buf') \<and>
    bt_view buf' pid pt (bh\<lparr>key_count := of_nat (length recs + 1)\<rparr>) (recs @ [r])"
proof -
  obtain b where b: "page_insert buf r = Some (Some (length recs), b)" "bt_body b pid pt bh (recs @ [r])"
    using page_insert_body [OF bt_view_body [OF assms(1)] assms(2,3)] by blast
  have "bt_view (bump_key_count b) pid pt (bh\<lparr>key_count := of_nat (length (recs @ [r]))\<rparr>) (recs @ [r])"
    by (rule bt_view_bump [OF b(2)]) (use bt_viewD(5) [OF assms(1)] in simp)
  then show ?thesis
    using b(1) by (simp add: insert_raw_def)
qed

lemma has_room_for_view [bt_simps]:
  assumes "bt_view buf pid pt bh recs"
  shows "has_room_for buf n \<longleftrightarrow> space recs + n + 4 \<le> 8096"
proof -
  note d = bt_bodyD(6,7,8) [OF bt_view_body [OF assms]]
  have "64 + free_off buf + nslots buf * 4 = 96 + space recs"
    using d(1,2) by (simp add: space_eq)
  then show ?thesis
    using d(3) by (simp add: has_room_for_def Let_def) linarith
qed

lemma bt_view_reads [bt_simps]:
  assumes "bt_view buf pid pt bh recs"
  shows "page_read buf i = (if i < length recs then Some (recs ! i) else None)"
    "bt_key buf i = (if i < length recs then Some (recs ! i) else None)"
    "bt_slot_count buf = length recs" "unat (bt_key_count buf) = length recs"
    "is_leaf buf \<longleftrightarrow> pt = BTreeLeaf" "is_branch buf \<longleftrightarrow> pt = BTreeInterior"
proof -
  note d = bt_bodyD [OF bt_view_body [OF assms]] and r = bt_body_read [OF bt_view_body [OF assms], of i]
  show "page_read buf i = (if i < length recs then Some (recs ! i) else None)"
    "bt_key buf i = (if i < length recs then Some (recs ! i) else None)"
    using r by (simp_all add: bt_key_def)
  show "bt_slot_count buf = length recs"
    by (simp add: bt_slot_count_def d(6))
  show "unat (bt_key_count buf) = length recs"
    using d(4,9) bt_viewD(5) [OF assms] by (simp add: bt_key_count_def unat_of_nat_u16)
  show "is_leaf buf \<longleftrightarrow> pt = BTreeLeaf" "is_branch buf \<longleftrightarrow> pt = BTreeInterior"
    by (cases pt; simp add: is_leaf_def is_branch_def d(3))+
qed

section \<open>Deletion\<close>

text \<open>Compaction inserts the records of the page one by one into a fresh one.\<close>

lemma reinsert_body:
  assumes "bt_body buf pid pt bh done_recs" "\<forall>r \<in> set recs. length r \<le> 2048" "space (done_recs @ recs) \<le> 8096"
  shows "\<exists>buf'. reinsert buf (length done_recs) recs = Some buf' \<and> bt_body buf' pid pt bh (done_recs @ recs)"
  using assms
proof (induction recs arbitrary: buf done_recs)
  case (Cons r recs)
  have "length r \<le> 2048" "space done_recs + length r + 4 \<le> 8096"
    using Cons.prems(2,3) by simp_all
  then obtain b where b: "page_insert_at buf (length done_recs) r = Some (Some (length done_recs), b)"
    "bt_body b pid pt bh (done_recs @ [r])"
    using page_insert_at_body [OF Cons.prems(1), of r "length done_recs"] by auto
  have "\<exists>buf'. reinsert b (length (done_recs @ [r])) recs = Some buf' \<and> bt_body buf' pid pt bh ((done_recs @ [r]) @ recs)"
    by (rule Cons.IH [OF b(2)]) (use Cons.prems(2,3) in simp_all)
  then show ?case
    using b(1) by simp
qed auto

text \<open>The page between the deletion of a slot and the compaction.\<close>

lemma deleted_slot_reads:
  assumes v: "bt_body buf pid pt bh recs" and i: "i < length recs" and wf: "header_wf bh'"
  defines "b \<equiv> write_btree_header (set_slot buf i ((slot_at buf i)\<lparr>s_offset := 0xFFFF\<rparr>)) bh'"
  shows "page_header_of b = page_header_of buf" "btree_header_of b = bh'"
    "page_read b j = (if j < length recs \<and> j \<noteq> i then Some (recs ! j) else None)"
proof -
  note d = bt_bodyD [OF v] and bd = bt_body_bounds [OF v] and ok = bt_body_page_ok [OF v]
  let ?s = "(slot_at buf i)\<lparr>s_offset := 0xFFFF\<rparr>"
  define b1 where "b1 = splice buf (8192 - 4 * (i + 1)) (slot_image ?s)"
  have b: "b = write_btree_header b1 bh'"
    unfolding b_def b1_def using set_slot_eq [OF page_okD(3) [OF ok], of i ?s] i d(6) by simp
  have b1: "length b1 = 8192" "page_header_of b1 = page_header_of buf"
    using d(1) bd(1) i by (simp_all add: b1_def header_splice)
  have s1: "slot_at b1 k = (if k = i then ?s else slot_at buf k)" if "k < length recs" for k
  proof (cases "k = i")
    case True
    have "slot_at b1 i = ?s"
      unfolding b1_def by (rule slot_at_splice_same) (use d(1) bd(1) i in auto)
    then show ?thesis using True by simp
  next
    case False
    have "slot_at b1 k = slot_at buf k"
      unfolding b1_def by (rule slot_at_splice) (use d(1) bd(1) i that False in auto)
    then show ?thesis using False by simp
  qed
  show h: "page_header_of b = page_header_of buf" and "btree_header_of b = bh'"
    using b1 wf by (simp_all add: b write_header_frame header_write_read)
  have lb: "length b = 8192" and sb: "slot_at b k = (if k = i then ?s else slot_at buf k)" if "k < length recs" for k
    using b1(1) wf bd s1 [OF that] that by (simp_all add: b write_header_frame)
  have data: "slice b a n = slice buf a n" if "96 \<le> a" "a + n \<le> 64 + free_off buf" for a n
  proof -
    have "slice b1 a n = slice buf a n"
      unfolding b1_def by (rule slice_splice_disjoint) (use d(1) bd(1) i that in auto)
    then show ?thesis using b1(1) wf bd(1) that by (simp add: b write_header_frame)
  qed
  have "page_slot b j = (if j < length recs then Some (slot_at b j) else None)"
    using page_slot_eq [of b j] page_okD(3) [OF ok] d(6) by (simp add: h)
  then show "page_read b j = (if j < length recs \<and> j \<noteq> i then Some (recs ! j) else None)"
    using sb [of j] bt_body_slot(1,2) [OF v, of j]
      data [of "64 + unat (s_offset (slot_at buf j))" "unat (s_length (slot_at buf j))"]
    by (auto simp: page_read_def slot_is_deleted_def slot_holds_def)
qed

lemma map_nth_range: "b \<le> length xs \<Longrightarrow> map ((!) xs) [a..<b] = take (b - a) (drop a xs)"
  by (rule nth_equalityI) auto

lemma map_filter_remove:
  assumes "i < length xs" "\<And>j. f j = (if j < length xs \<and> j \<noteq> i then Some (xs ! j) else None)"
  shows "List.map_filter f [0..<length xs] = take i xs @ drop (i + 1) xs"
proof -
  have "[0..<length xs] = [0..<i] @ [i] @ [Suc i..<length xs]"
    using assms(1) upt_add_eq_append [of 0 i "length xs - i"] by (simp add: upt_conv_Cons)
  moreover have "List.map_filter f [0..<i] = map (\<lambda>j. xs ! j) [0..<i]"
    by (rule map_filter_some) (use assms in simp)
  moreover have "List.map_filter f [Suc i..<length xs] = map (\<lambda>j. xs ! j) [Suc i..<length xs]"
    by (rule map_filter_some) (use assms in simp)
  moreover have "f i = None"
    using assms(2) [of i] by simp
  ultimately show ?thesis
    using assms(1) by (simp add: List.map_filter_def map_nth_range)
qed

text \<open>Deleting a record removes it from the page and leaves the order of the others.\<close>

lemma bt_delete_view:
  assumes v: "bt_view buf pid pt bh recs" and pt: "pt = BTreeLeaf \<or> pt = BTreeInterior"
    and i: "i < length recs" and small: "\<forall>r \<in> set recs. length r \<le> 2048"
  shows "\<exists>buf'. bt_delete buf i = Some (True, buf') \<and>
    bt_view buf' pid pt (bh\<lparr>key_count := of_nat (length recs - 1)\<rparr>) (take i recs @ drop (i + 1) recs)"
proof -
  note b = bt_view_body [OF v] and d = bt_bodyD [OF bt_view_body [OF v]]
  let ?bh = "bh\<lparr>key_count := of_nat (length recs - 1)\<rparr>" and ?recs = "take i recs @ drop (i + 1) recs"
  define b1 where "b1 = set_slot buf i ((slot_at buf i)\<lparr>s_offset := 0xFFFF\<rparr>)"
  define b2 where "b2 = write_btree_header b1 ?bh"
  have wf: "header_wf ?bh" using d(5) by simp
  note r2 = deleted_slot_reads [OF b i wf, folded b1_def b2_def]
  have h1: "btree_header_of b1 = bh"
  proof -
    have b1: "b1 = splice buf (8192 - 4 * (i + 1)) (slot_image ((slot_at buf i)\<lparr>s_offset := 0xFFFF\<rparr>))"
      unfolding b1_def by (rule set_slot_eq) (use page_okD(3) [OF bt_body_page_ok [OF b]] i d(6) in auto)
    have "4 * (i + 1) + 96 \<le> 8192"
      using i bt_body_bounds(1) [OF b] d(7) by simp
    then have "slice b1 64 32 = slice buf 64 32" "length b1 = 8192"
      unfolding b1 using d(1) by (intro slice_splice_disjoint, auto)
    then show ?thesis using header_of_slices [OF _ d(1)] d(4) by simp
  qed
  have kc: "key_count bh = of_nat (length recs)" "0 < key_count bh"
    using bt_viewD(5) [OF v] d(9) i by (auto simp: word_less_nat_alt unat_of_nat_u16)
  then have kc1: "key_count bh - 1 = of_nat (length recs - 1)"
    using i by simp
  have "page_slot buf i = Some (slot_at buf i)"
    using page_slot_eq [OF page_okD(3) [OF bt_body_page_ok [OF b]], of i] i d(6) by simp
  then have "page_delete buf i = (True, b1)"
    using bt_body_slot(2) [OF b i] by (simp add: page_delete_def b1_def)
  then have del: "bt_delete buf i = map_option (Pair True) (bt_compact b2)"
    using kc(2) kc1 by (simp add: bt_delete_def h1 b2_def)
  have pid: "page_id (page_header_of b2) = pid" "(if is_leaf b2 then BTreeLeaf else BTreeInterior) = pt"
    "bt_slot_count b2 = length recs"
    using pt d(2,3,6) by (auto simp: r2(1) is_leaf_def bt_slot_count_def)
  define fresh where "fresh = write_btree_header (set_free_space_offset (set_page_lsn (page_init pid pt) (page_lsn (page_header_of b2))) 32) ?bh"
  have c: "bt_compact b2 = reinsert fresh 0 ?recs"
    using map_filter_remove [OF i, of "page_read b2"] r2(3) pid
    by (simp add: bt_compact_def Let_def fresh_def r2(2))
  have "bt_body fresh pid pt ?bh []"
    unfolding fresh_def
    by (rule bt_body_new [OF pt wf, where l = "page_lsn (page_header_of b2)"])
      (use wf in \<open>simp_all add: set_page_lsn_frame set_fields_eqs page_init_header write_header_frame header_write_read\<close>)
  moreover have "\<forall>r \<in> set ?recs. length r \<le> 2048"
    using small by (auto dest: in_set_takeD in_set_dropD)
  moreover have "space recs = space (take i recs @ recs ! i # drop (i + 1) recs)"
    using id_take_nth_drop [OF i] by simp
  then have "space ?recs \<le> 8096"
    using d(8) by simp
  ultimately obtain b' where "reinsert fresh (length []) ?recs = Some b'" "bt_body b' pid pt ?bh ([] @ ?recs)"
    using reinsert_body [of fresh pid pt ?bh "[]" ?recs] by auto
  then have "bt_delete buf i = Some (True, b')" "bt_view b' pid pt ?bh ?recs"
    using i by (simp_all add: del c bt_view_def min_def)
  then show ?thesis by blast
qed

section \<open>Full pages\<close>

text \<open>The compaction of a slotted page does not know of the B+ tree header and gives its 32 bytes
  away.\<close>

lemma compact_collect_live:
  assumes "\<And>i. i \<in> set is \<Longrightarrow> \<exists>s. page_slot buf i = Some s \<and> \<not> slot_is_deleted s"
  shows "length (fst (snd (compact_collect buf is off))) = length is"
  using assms
proof (induction "is" arbitrary: off)
  case (Cons i "is")
  obtain s where s: "page_slot buf i = Some s" "\<not> slot_is_deleted s"
    using Cons.prems by fastforce
  have "length (fst (snd (compact_collect buf is (off + s_length s)))) = length is"
    using Cons.IH Cons.prems by simp
  then show ?case
    using s by (auto simp: Let_def split: prod.splits)
qed simp

lemma compact_collect_offsets:
  assumes "page_ok buf" "set is \<subseteq> {..<nslots buf}" "unat off + (\<Sum>i\<leftarrow>is. live_len buf i) \<le> free_off buf"
    "s \<in> set (fst (snd (compact_collect buf is off)))"
  shows "unat (s_offset s) \<le> free_off buf"
  using assms(2-)
proof (induction "is" arbitrary: off)
  case (Cons i "is")
  let ?s = "slot_at buf i"
  have ps: "page_slot buf i = Some ?s"
    using Cons.prems(1) page_okD(3) [OF assms(1)] by (simp add: page_slot_eq)
  show ?case
  proof (cases "slot_is_deleted ?s")
    case True
    then show ?thesis
      using Cons.IH [of off] Cons.prems ps by (simp add: live_len_def)
  next
    case False
    have u: "unat (off + s_length ?s) = unat off + unat (s_length ?s)"
      using Cons.prems(2) False page_okD(2) [OF assms(1)]
      by (subst unat_add_lem [THEN iffD1]) (simp_all add: live_len_def)
    have "s = \<lparr>s_offset = off, s_length = s_length ?s\<rparr> \<or> s \<in> set (fst (snd (compact_collect buf is (off + s_length ?s))))"
      using Cons.prems(3) ps False by (auto simp: Let_def split: prod.splits)
    then show ?thesis
      using Cons.IH [of "off + s_length ?s"] Cons.prems(1,2) False u by (auto simp: live_len_def)
  qed
qed simp

lemma compacted_body:
  assumes v: "bt_body buf pid pt bh recs"
  shows "length (page_compact buf) = 8192" "nslots (page_compact buf) = length recs"
    "free_off (page_compact buf) = sum_list (map length recs)"
    "free_space (page_header_of (page_compact buf)) = 8128 - space recs"
    "i < length recs \<Longrightarrow> page_slot (page_compact buf) i = Some s \<Longrightarrow> \<not> slot_is_deleted s"
proof -
  note d = bt_bodyD [OF v] and ok = bt_body_page_ok [OF v]
  obtain moves ns off where c: "compact_collect buf [0..<nslots buf] 0 = (moves, ns, off)"
    by (metis prod_cases3)
  have ns: "length ns = length recs"
    using compact_collect_live [of "[0..<nslots buf]" buf 0] bt_body_slot(2) [OF v] d(6) page_okD(3) [OF ok] c
    by (simp add: page_slot_eq)
  have live: "(\<Sum>i\<leftarrow>[0..<nslots buf]. live_len buf i) = sum_list (map length recs)"
  proof -
    have "map (live_len buf) [0..<length recs] = map (\<lambda>i. length (recs ! i)) [0..<length recs]"
      using bt_body_slot(2,3) [OF v] by (auto simp: live_len_def)
    also have "\<dots> = map length recs"
      by (rule nth_equalityI) auto
    finally show ?thesis using d(6) by simp
  qed
  have fits: "live_fits buf"
    using live d(7) by (simp add: live_fits_def)
  note cv = page_compact_view [OF ok fits c]
  show "\<not> slot_is_deleted s" if "i < length recs" "page_slot (page_compact buf) i = Some s"
  proof -
    have "s \<in> set ns"
      using cv(4) [of i] that ns by (simp add: nth_mem)
    then have "unat (s_offset s) \<le> free_off buf"
      using fits c by (intro compact_collect_offsets [OF ok, of "[0..<nslots buf]" 0 s]) (auto simp: live_fits_def)
    then show ?thesis
      using page_okD(2) [OF ok] by (auto simp: slot_is_deleted_def)
  qed
  show "length (page_compact buf) = 8192" "nslots (page_compact buf) = length recs"
    "free_off (page_compact buf) = sum_list (map length recs)"
    using cv(1-3) ns live by simp_all
  then show "free_space (page_header_of (page_compact buf)) = 8128 - space recs"
    by (simp add: free_space_def space_eq)
qed

text \<open>A record that does not fit even then is refused.\<close>

lemma insert_raw_full:
  assumes "bt_view buf pid pt bh recs" "8128 < space recs + length r + 4"
  shows "\<exists>buf'. insert_raw buf r = Some (None, buf')"
proof -
  note b = bt_view_body [OF assms(1)]
  have "free_space (page_header_of buf) < length r + 4" "free_space (page_header_of (page_compact buf)) < length r + 4"
    using free_space_view [OF b] compacted_body(4) [OF b] assms(2) by simp_all
  then show ?thesis
    by (simp add: insert_raw_def page_insert_def Let_def make_room_def)
qed

text \<open>A record that fits only thanks to those bytes is written where the page ended before, so
  that the record area runs into the slot directory.\<close>

lemma insert_raw_overflow:
  assumes v: "bt_view buf pid pt bh recs" and r: "length r \<le> 2048" "8 \<le> length recs"
    and full: "8096 < space recs + length r + 4" "space recs + length r + 4 \<le> 8128"
  shows "\<exists>slot buf'. insert_raw buf r = Some (Some slot, buf') \<and> length buf' = 8192 \<and>
    8192 < 64 + free_off buf' + 4 * nslots buf'"
proof -
  note b = bt_view_body [OF v]
  note d = bt_bodyD [OF b] and c = compacted_body [OF b]
  let ?c = "page_compact buf" and ?f = "free_off buf" and ?n = "length recs"
  have "\<not> 8128 - space recs < length r + 4" "8096 - space recs < length r + 4"
    using full by linarith+
  then have room: "make_room buf (length r + 4) = Inr ?c"
    by (simp add: make_room_def Let_def free_space_view [OF b] c(4))
  have sp: "sum_list (map length recs) + 4 * ?n + length r + 4 \<le> 8128"
    using full(2) by (simp add: space_eq)
  have f: "?f + length r \<le> 8124"
    using d(7) sp r(2) by simp
  define b2 where "b2 = splice ?c (64 + ?f) r"
  have w: "write_slice ?c (64 + ?f) r = Some b2"
    using c(1) f by (simp add: write_slice_def b2_def)
  have b2: "length b2 = 8192" "page_header_of b2 = page_header_of ?c"
    using c(1) f by (simp_all add: b2_def header_splice)
  let ?b3 = "set_slot_count b2 (slot_count (page_header_of b2) + 1)"
  let ?b4 = "set_free_space_offset ?b3 (of_nat (?f + length r))"
  have b4: "length ?b4 = 8192" "free_off ?b4 = ?f + length r" "nslots ?b4 = ?n + 1"
    using b2 c(2) f sp unat_of_nat_u16 [of "?f + length r"]
    by (simp_all add: set_fields_eqs unat_word_ariths del: of_nat_add)
  let ?b5 = "splice ?b4 (8192 - (?n + 1) * 4) (slot_image \<lparr>s_offset = of_nat ?f, s_length = of_nat (length r)\<rparr>)"
  have "best_fit ?c (length r) [0..<?n] None (2 ^ 64 - 1) = None"
    by (rule best_fit_none) (use c(5) in auto)
  then have ins: "insert_raw buf r = Some (Some ?n, bump_key_count ?b5)"
    using r(1) room w b4(3) d(6) by (simp add: insert_raw_def page_insert_def Let_def del: of_nat_add)
  have dir: "64 \<le> 8192 - (?n + 1) * 4" "(?n + 1) * 4 \<le> 8128"
    using sp by simp_all
  have b5: "length ?b5 = 8192" "page_header_of ?b5 = page_header_of ?b4"
    using b4(1) dir by (simp_all add: header_splice)
  then have "page_header_of (bump_key_count ?b5) = page_header_of ?b4" "length (bump_key_count ?b5) = 8192"
    by (simp_all add: bump_key_count_def Let_def write_header_frame header_wf_of)
  moreover have "8192 < 64 + (?f + length r) + 4 * (?n + 1)"
    using full(1) d(7) by (simp add: space_eq)
  ultimately show ?thesis
    using ins b4(2,3) by simp
qed

end
