(* ===== verification/BTree.thy ===== *)
theory BTree
  imports BTreePage IndexKey "HOL-Library.Monad_Syntax"
begin

text \<open>
  The B+ tree of \<open>src/src/index/btree.rs\<close> over its pages: descent, search, insertion with leaf
  and branch splits, deletion with borrowing and merging, range scans. The tree is the one
  without a buffer pool, whose pages are in a map of its own; an operation runs under the
  structural latch, so it is one step on the state. The configuration is the default one,
  which is the only one the program uses. The state-passing operations return \<open>None\<close> when the
  source panics, and so do the descents when they follow child pointers for ever.
\<close>

section \<open>Definitions\<close>

datatype btree_error = MissingRoot | MissingLeaf | MissingParent | SplitFailed | MergeFailed

record btree =
  root_page_id :: u64
  bt_pages :: "u64 \<Rightarrow> bytes option"
  next_page_id :: u64
  next_lsn :: u64

definition btree_new :: btree where
  "btree_new = \<lparr>root_page_id = 1, bt_pages = [1 \<mapsto> new_leaf 1], next_page_id = 2, next_lsn = 1\<rparr>"

definition bump_lsn :: "btree \<Rightarrow> u64 \<times> btree" where
  "bump_lsn t = (next_lsn t, t\<lparr>next_lsn := next_lsn t + 1\<rparr>)"

definition alloc_page :: "btree \<Rightarrow> u64 \<times> btree" where
  "alloc_page t = (next_page_id t, t\<lparr>next_page_id := next_page_id t + 1\<rparr>)"

definition get_page :: "btree \<Rightarrow> u64 \<Rightarrow> bytes option" where
  "get_page t pid = bt_pages t pid"

definition put_page_with_lsn :: "btree \<Rightarrow> u64 \<Rightarrow> bytes \<Rightarrow> btree" where
  "put_page_with_lsn t pid page =
     (let (lsn, t) = bump_lsn t in t\<lparr>bt_pages := (bt_pages t)(pid \<mapsto> set_page_lsn page lsn)\<rparr>)"

text \<open>Operations that may fail or panic, and the pieces they are made of.\<close>

type_synonym 'a bt = "btree \<Rightarrow> ((btree_error + 'a) \<times> btree) option"

definition bt_return :: "'a \<Rightarrow> 'a bt" where
  "bt_return x = (\<lambda>t. Some (Inr x, t))"

definition bt_throw :: "btree_error \<Rightarrow> 'a bt" where
  "bt_throw e = (\<lambda>t. Some (Inl e, t))"

definition bt_bind :: "'a bt \<Rightarrow> ('a \<Rightarrow> 'b bt) \<Rightarrow> 'b bt" where
  "bt_bind m f = (\<lambda>t. case m t of None \<Rightarrow> None | Some (Inl e, t') \<Rightarrow> Some (Inl e, t') | Some (Inr x, t') \<Rightarrow> f x t')"

definition bt_lift :: "'a option \<Rightarrow> 'a bt" where
  "bt_lift x = (\<lambda>t. map_option (\<lambda>v. (Inr v, t)) x)"

definition bt_get :: "u64 \<Rightarrow> btree_error \<Rightarrow> bytes bt" where
  "bt_get pid e = (\<lambda>t. case get_page t pid of None \<Rightarrow> Some (Inl e, t) | Some p \<Rightarrow> Some (Inr p, t))"

definition bt_put :: "u64 \<Rightarrow> bytes \<Rightarrow> unit bt" where
  "bt_put pid page = (\<lambda>t. Some (Inr (), put_page_with_lsn t pid page))"

definition bt_alloc :: "u64 bt" where
  "bt_alloc = (\<lambda>t. let (pid, t) = alloc_page t in Some (Inr pid, t))"

subsection \<open>Records\<close>

definition encode_kv :: "bytes \<Rightarrow> bytes \<Rightarrow> bytes" where
  "encode_kv key value = to_be_bytes (of_nat (length key) :: u16) @ key @ value"

definition encode_branch_entry :: "bytes \<Rightarrow> u64 \<Rightarrow> bytes" where
  "encode_branch_entry key child = key @ to_be_bytes child"

definition record_key_len :: "bytes \<Rightarrow> nat" where
  "record_key_len kv = unat (from_be_bytes (slice kv 0 2) :: u16)"

definition leaf_record_key :: "bytes \<Rightarrow> bytes" where
  "leaf_record_key record =
     (if length record < 2 then []
      else let key_len = record_key_len record in
        if 2 + key_len > length record then [] else slice record 2 key_len)"

definition leaf_key :: "bytes \<Rightarrow> nat \<Rightarrow> bytes option" where
  "leaf_key page slot =
     (case bt_key page slot of
        None \<Rightarrow> None
      | Some kv \<Rightarrow>
          (if length kv < 2 then None
           else let key_len = record_key_len kv in
             if 2 + key_len > length kv then None else Some (slice kv 2 key_len)))"

definition leaf_value :: "bytes \<Rightarrow> nat \<Rightarrow> bytes option" where
  "leaf_value page slot =
     (case bt_key page slot of
        None \<Rightarrow> None
      | Some kv \<Rightarrow>
          (if length kv < 2 then None
           else let key_len = record_key_len kv in
             if 2 + key_len > length kv then None else Some (drop (2 + key_len) kv)))"

subsection \<open>Descent\<close>

text \<open>The halving loop of \<open>branch_slot\<close> and \<open>leaf_lower_bound\<close>; \<open>right\<close> says of an index that
  the search goes on behind it.\<close>

function halving :: "(nat \<Rightarrow> bool) \<Rightarrow> nat \<Rightarrow> nat \<Rightarrow> nat" where
  "halving right lo hi =
     (if lo < hi then
        let mid = (lo + hi) div 2 in if right mid then halving right (mid + 1) hi else halving right lo mid
      else lo)"
  by pat_completeness auto
termination
  by (relation "measure (\<lambda>(r, lo, hi). hi - lo)") auto

declare halving.simps [simp del]

definition branch_slot :: "bytes \<Rightarrow> bytes \<Rightarrow> (u64 \<times> nat) option" where
  "branch_slot page key =
     (let count = unat (bt_key_count page);
          lo = halving (\<lambda>mid. case separator_key page mid of Some sep \<Rightarrow> sep \<le> key | None \<Rightarrow> False) 0 count
      in if lo < count
         then map_option (\<lambda>child. (case child of Some c \<Rightarrow> c | None \<Rightarrow> 0, lo)) (child_pointer page lo)
         else Some (rightmost_child (btree_header_of page), count))"

definition branch_child :: "bytes \<Rightarrow> bytes \<Rightarrow> u64 option" where
  "branch_child page key = map_option fst (branch_slot page key)"

definition leaf_lower_bound :: "bytes \<Rightarrow> bytes \<Rightarrow> nat" where
  "leaf_lower_bound page key =
     (let count = unat (bt_key_count page);
          lo = halving (\<lambda>mid. case leaf_key page mid of Some mid_key \<Rightarrow> mid_key < key | None \<Rightarrow> False) 0 count
      in min lo 65535)"

text \<open>The inner option of the two descents is that of the source, for a missing page.\<close>

partial_function (option) find_leaf_loop ::
    "btree \<Rightarrow> bytes \<Rightarrow> bytes \<Rightarrow> (u64 \<times> u64) list \<Rightarrow> (u64 \<times> (u64 \<times> u64) list) option option" where
  "find_leaf_loop t key page path =
     (if is_branch page then
        case branch_child page key of
          None \<Rightarrow> None
        | Some child \<Rightarrow>
            (case get_page t child of
               None \<Rightarrow> Some None
             | Some page' \<Rightarrow> find_leaf_loop t key page' (path @ [(child, page_lsn (page_header_of page'))]))
      else Some (Some (fst (last path), path)))"

definition find_leaf :: "btree \<Rightarrow> bytes \<Rightarrow> bytes \<Rightarrow> (u64 \<times> (u64 \<times> u64) list) option option" where
  "find_leaf t page key =
     find_leaf_loop t key page [(page_id (page_header_of page), page_lsn (page_header_of page))]"

text \<open>The path is a stack: the parent of the leaf comes first, the root last.\<close>

type_synonym descend_path = "(u64 \<times> nat) list"

partial_function (option) descend_loop ::
    "btree \<Rightarrow> bytes \<Rightarrow> bytes \<Rightarrow> descend_path \<Rightarrow> (u64 \<times> bytes \<times> descend_path) option option" where
  "descend_loop t key page path =
     (if is_branch page then
        case branch_slot page key of
          None \<Rightarrow> None
        | Some (child, idx) \<Rightarrow>
            (case get_page t child of
               None \<Rightarrow> Some None
             | Some page' \<Rightarrow> descend_loop t key page' ((page_id (page_header_of page), idx) # path))
      else Some (Some (page_id (page_header_of page), page, path)))"

definition descend_to_leaf_with_path ::
    "btree \<Rightarrow> bytes \<Rightarrow> bytes \<Rightarrow> (u64 \<times> bytes \<times> descend_path) option option" where
  "descend_to_leaf_with_path t page key = descend_loop t key page []"

definition search_unlatched :: "btree \<Rightarrow> bytes \<Rightarrow> (u64 \<times> nat) option option" where
  "search_unlatched t key =
     (case get_page t (root_page_id t) of
        None \<Rightarrow> Some None
      | Some root \<Rightarrow>
          (case find_leaf t root key of
             None \<Rightarrow> None
           | Some None \<Rightarrow> Some None
           | Some (Some (leaf_id, _)) \<Rightarrow>
               (case get_page t leaf_id of
                  None \<Rightarrow> Some None
                | Some leaf \<Rightarrow>
                    (let slot = leaf_lower_bound leaf key in
                     Some (if leaf_key leaf slot = Some key then Some (leaf_id, slot) else None)))))"

definition search :: "btree \<Rightarrow> bytes \<Rightarrow> (u64 \<times> nat) option option" where
  "search t key = search_unlatched t key"

subsection \<open>Branches in canonical form\<close>

fun decode_loop :: "bytes \<Rightarrow> nat list \<Rightarrow> (bytes list \<times> u64 list) option" where
  "decode_loop page [] = Some ([], [])"
| "decode_loop page (i # is) =
     (case child_pointer page i of
        None \<Rightarrow> None
      | Some child \<Rightarrow>
          map_option (\<lambda>(seps, children).
              ((case separator_key page i of Some sep \<Rightarrow> [sep] | None \<Rightarrow> []) @ seps,
               (case child of Some c \<Rightarrow> [c] | None \<Rightarrow> []) @ children))
            (decode_loop page is))"

definition decode_branch :: "bytes \<Rightarrow> (bytes list \<times> u64 list) option" where
  "decode_branch page =
     map_option (\<lambda>(seps, children). (seps, children @ [rightmost_child (btree_header_of page)]))
       (decode_loop page [0..<unat (bt_key_count page)])"

fun build_loop :: "bytes \<Rightarrow> bytes list \<Rightarrow> u64 list \<Rightarrow> bytes option option" where
  "build_loop branch [] children = Some (Some branch)"
| "build_loop branch (sep # seps) [] = None"
| "build_loop branch (sep # seps) (c # children) =
     (case insert_raw branch (encode_branch_entry sep c) of
        None \<Rightarrow> None
      | Some (None, _) \<Rightarrow> Some None
      | Some (Some _, branch') \<Rightarrow> build_loop branch' seps children)"

definition try_build_branch :: "u64 \<Rightarrow> u8 \<Rightarrow> bytes list \<Rightarrow> u64 list \<Rightarrow> bytes option option" where
  "try_build_branch branch_id level seps children =
     (case build_loop (new_branch branch_id level) seps children of
        None \<Rightarrow> None
      | Some None \<Rightarrow> Some None
      | Some (Some branch) \<Rightarrow>
          (if children = [] then None else Some (Some (set_rightmost_child branch (last children)))))"

definition build_branch :: "u64 \<Rightarrow> u8 \<Rightarrow> bytes list \<Rightarrow> u64 list \<Rightarrow> bytes option" where
  "build_branch branch_id level seps children =
     (case try_build_branch branch_id level seps children of Some (Some b) \<Rightarrow> Some b | _ \<Rightarrow> None)"

subsection \<open>Insertion\<close>

text \<open>Appending records to a page, with the results ignored as in \<open>split_leaf\<close>.\<close>

fun insert_all :: "bytes \<Rightarrow> bytes list \<Rightarrow> bytes option" where
  "insert_all page [] = Some page"
| "insert_all page (rec # recs) =
     (case insert_raw page rec of None \<Rightarrow> None | Some (_, page') \<Rightarrow> insert_all page' recs)"

definition split_branch_pages ::
    "u64 \<Rightarrow> u8 \<Rightarrow> bytes list \<Rightarrow> u64 list \<Rightarrow> (u64 \<times> bytes) bt" where
  "split_branch_pages branch_id level seps children =
     (let mid = length seps div 2 in
      bt_bind (bt_lift (if mid < length seps \<and> mid < length children then Some () else None)) (\<lambda>_.
      let promoted = seps ! mid;
          left_seps = take mid seps; left_children = take (mid + 1) children;
          right_seps = drop (mid + 1) seps; right_children = drop (mid + 1) children
      in bt_bind (bt_lift (build_branch branch_id level left_seps left_children)) (\<lambda>left_branch.
         bt_bind bt_alloc (\<lambda>new_branch_id.
         bt_bind (bt_lift (build_branch new_branch_id level right_seps right_children)) (\<lambda>right_branch.
         bt_bind (bt_put branch_id left_branch) (\<lambda>_.
         bt_bind (bt_put new_branch_id right_branch) (\<lambda>_.
         bt_return (new_branch_id, promoted))))))))"

text \<open>\<open>insert_into_parent\<close> with the recursive call of \<open>split_branch\<close>.\<close>

fun insert_into_parent :: "u64 \<Rightarrow> u64 \<Rightarrow> bytes \<Rightarrow> descend_path \<Rightarrow> unit bt" where
  "insert_into_parent left_child right_child separator [] =
     bt_bind bt_alloc (\<lambda>new_root_id t.
       let old_level = (case get_page t left_child of Some p \<Rightarrow> bh_level (btree_header_of p) | None \<Rightarrow> 0);
           new_root = new_branch new_root_id (old_level + 1)
       in case insert_raw new_root (encode_branch_entry separator left_child) of
            None \<Rightarrow> None
          | Some (_, new_root) \<Rightarrow>
              Some (Inr (), (put_page_with_lsn t new_root_id (set_rightmost_child new_root right_child))
                              \<lparr>root_page_id := new_root_id\<rparr>))"
| "insert_into_parent left_child right_child separator ((parent_id, child_index) # ancestors) =
     bt_bind (bt_get parent_id MissingParent) (\<lambda>parent.
     bt_bind (bt_lift (decode_branch parent)) (\<lambda>(seps, children).
     bt_bind (bt_lift (if child_index < length children \<and> child_index \<le> length seps then Some () else None)) (\<lambda>_.
     let children = list_insert (children[child_index := left_child]) (child_index + 1) right_child;
         seps = list_insert seps child_index separator;
         level = bh_level (btree_header_of parent)
     in bt_bind (bt_lift (try_build_branch parent_id level seps children)) (\<lambda>built.
        case built of
          Some branch \<Rightarrow> bt_put parent_id branch
        | None \<Rightarrow>
            bt_bind (split_branch_pages parent_id level seps children) (\<lambda>(new_branch_id, promoted).
              insert_into_parent parent_id new_branch_id promoted ancestors)))))"

text \<open>The entries of a leaf other than the one with the given key, as \<open>split_leaf\<close> reads them.\<close>

definition split_entries :: "bytes \<Rightarrow> bytes \<Rightarrow> (bytes \<times> bytes) list" where
  "split_entries leaf new_key =
     List.map_filter
       (\<lambda>i. case bt_key leaf i of
              None \<Rightarrow> None
            | Some kv \<Rightarrow>
                (if length kv < 2 then None
                 else let key_len = record_key_len kv in
                   if 2 + key_len > length kv \<or> slice kv 2 key_len = new_key then None
                   else Some (slice kv 2 key_len, drop (2 + key_len) kv)))
       [0..<bt_slot_count leaf]"

definition split_leaf :: "u64 \<Rightarrow> bytes \<Rightarrow> bytes \<Rightarrow> bytes \<Rightarrow> descend_path \<Rightarrow> unit bt" where
  "split_leaf leaf_id leaf new_key new_value path =
     bt_bind bt_alloc (\<lambda>new_leaf_id.
     let entries = sort_key fst (split_entries leaf new_key @ [(new_key, new_value)]);
         mid = length entries div 2;
         records = map (\<lambda>(k, v). encode_kv k v) entries;
         bh = btree_header_of leaf
     in bt_bind (bt_lift (insert_all (new_leaf leaf_id) (take mid records))) (\<lambda>left_leaf.
        bt_bind (bt_lift (insert_all (new_leaf new_leaf_id) (drop mid records))) (\<lambda>right_leaf.
        bt_bind (bt_put leaf_id (set_siblings left_leaf (sibling_prev bh) new_leaf_id)) (\<lambda>_.
        bt_bind (bt_put new_leaf_id (set_siblings right_leaf leaf_id (sibling_next bh))) (\<lambda>_.
        insert_into_parent leaf_id new_leaf_id (fst (entries ! mid)) path)))))"

fun rebuild_leaf_loop :: "bytes \<Rightarrow> nat \<Rightarrow> bytes \<Rightarrow> nat list \<Rightarrow> bytes \<Rightarrow> bytes option option" where
  "rebuild_leaf_loop leaf slot record [] rebuilt = Some (Some rebuilt)"
| "rebuild_leaf_loop leaf slot record (i # is) rebuilt =
     (case (if i = slot then Some record else bt_key leaf i) of
        None \<Rightarrow> Some None
      | Some rec \<Rightarrow>
          (if \<not> has_room_for rebuilt (length rec) then Some None
           else case insert_raw rebuilt rec of
                  None \<Rightarrow> None
                | Some (None, _) \<Rightarrow> Some None
                | Some (Some _, rebuilt') \<Rightarrow> rebuild_leaf_loop leaf slot record is rebuilt'))"

definition rebuild_leaf_replacing :: "bytes \<Rightarrow> nat \<Rightarrow> bytes \<Rightarrow> bytes option option" where
  "rebuild_leaf_replacing leaf slot record =
     (let bh = btree_header_of leaf in
      rebuild_leaf_loop leaf slot record [0..<unat (bt_key_count leaf)]
        (set_siblings (new_leaf (page_id (page_header_of leaf))) (sibling_prev bh) (sibling_next bh)))"

text \<open>\<open>insert_locked\<close> behind its fast path for an empty tree: at the leaf, and with the descent.\<close>

definition insert_at_leaf :: "u64 \<Rightarrow> bytes \<Rightarrow> descend_path \<Rightarrow> bytes \<Rightarrow> bytes \<Rightarrow> unit bt" where
  "insert_at_leaf leaf_id leaf path key value =
     (let record = encode_kv key value; slot = leaf_lower_bound leaf key in
      if leaf_key leaf slot = Some key then
        bt_bind (bt_lift (rebuild_leaf_replacing leaf slot record)) (\<lambda>rebuilt.
          case rebuilt of
            Some rebuilt \<Rightarrow> bt_put leaf_id rebuilt
          | None \<Rightarrow> split_leaf leaf_id leaf key value path)
      else if has_room_for leaf (length record) then
        bt_bind (bt_lift (insert_raw_at leaf slot record)) (\<lambda>(inserted, leaf').
          bt_bind (bt_lift inserted) (\<lambda>_. bt_put leaf_id leaf'))
      else split_leaf leaf_id leaf key value path)"

definition insert_descend :: "bytes \<Rightarrow> bytes \<Rightarrow> bytes \<Rightarrow> unit bt" where
  "insert_descend root key value =
     (\<lambda>t. case descend_to_leaf_with_path t root key of
        None \<Rightarrow> None
      | Some None \<Rightarrow> Some (Inl MissingLeaf, t)
      | Some (Some (leaf_id, leaf, path)) \<Rightarrow> insert_at_leaf leaf_id leaf path key value t)"

definition insert_locked :: "bytes \<Rightarrow> bytes \<Rightarrow> unit bt" where
  "insert_locked key value =
     (\<lambda>t. let root_id = root_page_id t in
        bt_bind (bt_get root_id MissingRoot) (\<lambda>root.
          if is_leaf root \<and> bt_key_count root = 0 then
            let record = encode_kv key value in
            if has_room_for root (length record) then
              bt_bind (bt_lift (insert_raw root record)) (\<lambda>(slot, root').
                case slot of Some _ \<Rightarrow> bt_put root_id root' | None \<Rightarrow> insert_descend root key value)
            else insert_descend root key value
          else insert_descend root key value) t)"

definition bt_insert :: "bytes \<Rightarrow> bytes \<Rightarrow> unit bt" where
  "bt_insert key value = insert_locked key value"

fun insert_batch :: "(bytes \<times> bytes) list \<Rightarrow> unit bt" where
  "insert_batch [] = bt_return ()"
| "insert_batch ((key, value) # entries) = bt_bind (insert_locked key value) (\<lambda>_. insert_batch entries)"

subsection \<open>Range scans\<close>

fun scan_slots ::
    "bytes \<Rightarrow> bytes \<Rightarrow> bytes \<Rightarrow> nat list \<Rightarrow> (bytes \<times> bytes) list \<times> bool" where
  "scan_slots leaf start end_key [] = ([], False)"
| "scan_slots leaf start end_key (slot # slots) =
     (case leaf_key leaf slot of
        None \<Rightarrow> scan_slots leaf start end_key slots
      | Some key \<Rightarrow>
          (if key < start then scan_slots leaf start end_key slots
           else if key \<ge> end_key then ([], True)
           else let (results, stop) = scan_slots leaf start end_key slots in
             ((case leaf_value leaf slot of Some value \<Rightarrow> [(key, value)] | None \<Rightarrow> []) @ results, stop)))"

partial_function (option) range_loop ::
    "btree \<Rightarrow> bytes \<Rightarrow> bytes \<Rightarrow> u64 \<Rightarrow> (bytes \<times> bytes) list \<Rightarrow> (bytes \<times> bytes) list option" where
  "range_loop t start end_key leaf_id results =
     (case get_page t leaf_id of
        None \<Rightarrow> Some results
      | Some leaf \<Rightarrow>
          (case scan_slots leaf start end_key [0..<unat (bt_key_count leaf)] of
             (found, stop) \<Rightarrow>
               (let results = results @ found; nxt = sibling_next (btree_header_of leaf) in
                if stop \<or> nxt = 0 then Some results else range_loop t start end_key nxt results)))"

definition range_search :: "btree \<Rightarrow> bytes \<Rightarrow> bytes \<Rightarrow> (bytes \<times> bytes) list option" where
  "range_search t start end_key =
     (case get_page t (root_page_id t) of
        None \<Rightarrow> Some []
      | Some root \<Rightarrow>
          (case find_leaf t root start of
             None \<Rightarrow> None
           | Some None \<Rightarrow> Some []
           | Some (Some (leaf_id, _)) \<Rightarrow> range_loop t start end_key leaf_id []))"

subsection \<open>Deletion\<close>

text \<open>The bytes of the records of a page. The usable space of a page is 8096 bytes, and the
  minimum fill ratio is 0.30; a quotient \<open>b / 8096\<close> of naturals is below the double 0.30 exactly
  when \<open>10 * b < 3 * 8096\<close>.\<close>

definition record_sizes :: "bytes \<Rightarrow> nat list" where
  "record_sizes page = List.map_filter (\<lambda>i. map_option length (bt_key page i)) [0..<bt_slot_count page]"

definition below_min_fill :: "nat \<Rightarrow> bool" where
  "below_min_fill b \<longleftrightarrow> 10 * b < 3 * (PAGE_SIZE - HEADER_SIZE - BTREE_HEADER_SIZE)"

definition is_underfull :: "bytes \<Rightarrow> bool" where
  "is_underfull page \<longleftrightarrow> bt_key_count page = 0 \<or> below_min_fill (sum_list (record_sizes page))"

definition can_lend :: "bytes \<Rightarrow> bool" where
  "can_lend page =
     (if bt_key_count page \<le> 1 then False
      else let sizes = record_sizes page in
        if length sizes \<le> 1 then False
        else let total = sum_list sizes; max_rec = fold max sizes 0 in \<not> below_min_fill (total - max_rec))"

definition bt_key_or :: "bytes \<Rightarrow> nat \<Rightarrow> btree_error \<Rightarrow> bytes bt" where
  "bt_key_or page i e = (case bt_key page i of None \<Rightarrow> bt_throw e | Some rec \<Rightarrow> bt_return rec)"

definition borrow_leaf_from_left :: "u64 \<Rightarrow> u64 \<Rightarrow> bytes bt" where
  "borrow_leaf_from_left left_id right_id =
     bt_bind (bt_get left_id MissingLeaf) (\<lambda>left.
     bt_bind (bt_get right_id MissingLeaf) (\<lambda>right.
     let last = unat (bt_key_count left - 1) in
     bt_bind (bt_key_or left last MergeFailed) (\<lambda>rec.
     bt_bind (bt_lift (bt_delete left last)) (\<lambda>(_, left).
     bt_bind (bt_lift (insert_raw_at right 0 rec)) (\<lambda>(_, right).
     bt_bind (bt_put left_id left) (\<lambda>_.
     let new_sep = leaf_record_key rec in
     bt_bind (bt_put right_id right) (\<lambda>_.
     bt_return new_sep)))))))"

definition borrow_leaf_from_right :: "u64 \<Rightarrow> u64 \<Rightarrow> bytes bt" where
  "borrow_leaf_from_right left_id right_id =
     bt_bind (bt_get left_id MissingLeaf) (\<lambda>left.
     bt_bind (bt_get right_id MissingLeaf) (\<lambda>right.
     bt_bind (bt_key_or right 0 MergeFailed) (\<lambda>rec.
     bt_bind (bt_lift (bt_delete right 0)) (\<lambda>(_, right).
     bt_bind (bt_lift (insert_raw left rec)) (\<lambda>(_, left).
     bt_bind (bt_key_or right 0 MergeFailed) (\<lambda>new_first.
     let new_sep = leaf_record_key new_first in
     bt_bind (bt_put left_id left) (\<lambda>_.
     bt_bind (bt_put right_id right) (\<lambda>_.
     bt_return new_sep))))))))"

definition borrow_branch_from_left :: "u64 \<Rightarrow> u64 \<Rightarrow> bytes \<Rightarrow> bytes bt" where
  "borrow_branch_from_left left_id right_id parent_sep =
     bt_bind (bt_get left_id MissingParent) (\<lambda>left.
     bt_bind (bt_get right_id MissingParent) (\<lambda>right.
     bt_bind (bt_lift (decode_branch left)) (\<lambda>(lseps, lchildren).
     bt_bind (bt_lift (decode_branch right)) (\<lambda>(rseps, rchildren).
     if lseps = [] \<or> lchildren = [] then bt_throw MergeFailed
     else let moved_sep = last lseps; moved_child = last lchildren;
              level = bh_level (btree_header_of left)
       in bt_bind (bt_lift (build_branch left_id level (butlast lseps) (butlast lchildren))) (\<lambda>lb.
          bt_bind (bt_lift (build_branch right_id level (parent_sep # rseps) (moved_child # rchildren))) (\<lambda>rb.
          bt_bind (bt_put left_id lb) (\<lambda>_.
          bt_bind (bt_put right_id rb) (\<lambda>_.
          bt_return moved_sep))))))))"

definition borrow_branch_from_right :: "u64 \<Rightarrow> u64 \<Rightarrow> bytes \<Rightarrow> bytes bt" where
  "borrow_branch_from_right left_id right_id parent_sep =
     bt_bind (bt_get left_id MissingParent) (\<lambda>left.
     bt_bind (bt_get right_id MissingParent) (\<lambda>right.
     bt_bind (bt_lift (decode_branch left)) (\<lambda>(lseps, lchildren).
     bt_bind (bt_lift (decode_branch right)) (\<lambda>(rseps, rchildren).
     if rseps = [] then bt_throw MergeFailed
     else bt_bind (bt_lift (if rchildren = [] then None else Some ())) (\<lambda>_.
       let moved_sep = hd rseps; moved_child = hd rchildren;
           level = bh_level (btree_header_of left)
       in bt_bind (bt_lift (build_branch left_id level (lseps @ [parent_sep]) (lchildren @ [moved_child]))) (\<lambda>lb.
          bt_bind (bt_lift (build_branch right_id level (tl rseps) (tl rchildren))) (\<lambda>rb.
          bt_bind (bt_put left_id lb) (\<lambda>_.
          bt_bind (bt_put right_id rb) (\<lambda>_.
          bt_return moved_sep)))))))))"

text \<open>The loop of \<open>merge_leaves\<close>: it stops at the first record that does not fit.\<close>

fun merge_loop :: "bytes \<Rightarrow> nat list \<Rightarrow> bytes \<Rightarrow> bytes bt" where
  "merge_loop right [] left = bt_return left"
| "merge_loop right (i # is) left =
     (case bt_key right i of
        None \<Rightarrow> merge_loop right is left
      | Some rec \<Rightarrow>
          bt_bind (bt_lift (insert_raw left rec)) (\<lambda>(slot, left').
            case slot of None \<Rightarrow> bt_throw MergeFailed | Some _ \<Rightarrow> merge_loop right is left'))"

definition merge_leaves :: "u64 \<Rightarrow> u64 \<Rightarrow> unit bt" where
  "merge_leaves left_id right_id =
     bt_bind (bt_get left_id MissingLeaf) (\<lambda>left.
     bt_bind (bt_get right_id MissingLeaf) (\<lambda>right.
     bt_bind (merge_loop right [0..<unat (bt_key_count right)] left) (\<lambda>left.
     let right_next = sibling_next (btree_header_of right) in
     bt_bind (bt_put left_id (set_siblings left (sibling_prev (btree_header_of left)) right_next)) (\<lambda>_ t.
       if right_next \<noteq> 0 then
         case get_page t right_next of
           None \<Rightarrow> Some (Inr (), t)
         | Some nxt \<Rightarrow> bt_put right_next (set_siblings nxt left_id (sibling_next (btree_header_of nxt))) t
       else Some (Inr (), t)))))"

definition merge_branches :: "u64 \<Rightarrow> u64 \<Rightarrow> bytes \<Rightarrow> unit bt" where
  "merge_branches left_id right_id separator =
     bt_bind (bt_get left_id MissingParent) (\<lambda>left.
     bt_bind (bt_get right_id MissingParent) (\<lambda>right.
     bt_bind (bt_lift (decode_branch left)) (\<lambda>(lseps, lchildren).
     bt_bind (bt_lift (decode_branch right)) (\<lambda>(rseps, rchildren).
     bt_bind (bt_lift (try_build_branch left_id (bh_level (btree_header_of left))
       (lseps @ [separator] @ rseps) (lchildren @ rchildren))) (\<lambda>merged.
     case merged of None \<Rightarrow> bt_throw MergeFailed | Some page \<Rightarrow> bt_put left_id page)))))"

definition bt_free_page :: "u64 \<Rightarrow> unit bt" where
  "bt_free_page pid = (\<lambda>t. Some (Inr (), t\<lparr>bt_pages := (bt_pages t)(pid := None)\<rparr>))"

definition remove_at :: "'a list \<Rightarrow> nat \<Rightarrow> 'a list" where
  "remove_at xs i = take i xs @ drop (i + 1) xs"

text \<open>Rewriting the parent with one separator replaced, after a borrow.\<close>

definition replace_separator :: "u64 \<Rightarrow> bytes \<Rightarrow> bytes list \<Rightarrow> u64 list \<Rightarrow> nat \<Rightarrow> bytes \<Rightarrow> unit bt" where
  "replace_separator parent_id parent seps children i new_sep =
     bt_bind (bt_lift (if i < length seps then Some () else None)) (\<lambda>_.
     bt_bind (bt_lift (build_branch parent_id (bh_level (btree_header_of parent)) (seps[i := new_sep]) children)) (\<lambda>branch.
     bt_put parent_id branch))"

text \<open>Asking a sibling for an entry: \<open>True\<close> when it lent one.\<close>

definition try_borrow :: "bool \<Rightarrow> u64 \<Rightarrow> u64 \<Rightarrow> bool \<Rightarrow> u64 \<Rightarrow> bytes \<Rightarrow> bytes list \<Rightarrow> u64 list \<Rightarrow> nat \<Rightarrow> bool bt" where
  "try_borrow from_left sibling_id node_id leaf parent_id parent seps children sep_idx =
     bt_bind (bt_get sibling_id MissingLeaf) (\<lambda>sibling.
     if can_lend sibling then
       bt_bind
         (if leaf then (if from_left then borrow_leaf_from_left sibling_id node_id else borrow_leaf_from_right node_id sibling_id)
          else bt_bind (bt_lift (if sep_idx < length seps then Some (seps ! sep_idx) else None)) (\<lambda>sep.
            if from_left then borrow_branch_from_left sibling_id node_id sep else borrow_branch_from_right node_id sibling_id sep))
         (\<lambda>new_sep.
       bt_bind (replace_separator parent_id parent seps children sep_idx new_sep) (\<lambda>_. bt_return True))
     else bt_return False)"

definition merge_nodes :: "bool \<Rightarrow> u64 \<Rightarrow> u64 \<Rightarrow> bytes \<Rightarrow> unit bt" where
  "merge_nodes leaf left_id right_id separator =
     (if leaf then merge_leaves left_id right_id else merge_branches left_id right_id separator)"

fun rebalance_node :: "u64 \<Rightarrow> descend_path \<Rightarrow> unit bt" where
  "rebalance_node node_id [] = bt_return ()"
| "rebalance_node node_id ((parent_id, child_index) # ancestors) =
     bt_bind (bt_get parent_id MissingParent) (\<lambda>parent.
     bt_bind (bt_lift (decode_branch parent)) (\<lambda>(seps, children).
     bt_bind (bt_get node_id MissingLeaf) (\<lambda>node.
     let leaf = is_leaf node; has_left = child_index > 0; has_right = child_index + 1 < length children in
     bt_bind (bt_lift (if has_left \<and> child_index - 1 \<ge> length children then None else Some ())) (\<lambda>_.
     bt_bind (if has_left
              then try_borrow True (children ! (child_index - 1)) node_id leaf parent_id parent seps children (child_index - 1)
              else bt_return False) (\<lambda>borrowed.
     if borrowed then bt_return ()
     else bt_bind (if has_right
                   then try_borrow False (children ! (child_index + 1)) node_id leaf parent_id parent seps children child_index
                   else bt_return False) (\<lambda>borrowed.
     if borrowed then bt_return ()
     else let i = (if has_left then child_index - 1 else child_index) in
       bt_bind (bt_lift (if i + 1 < length children \<and> i < length seps then Some () else None)) (\<lambda>_.
       let left_id = children ! i; right_id = children ! (i + 1) in
       bt_bind (merge_nodes leaf left_id right_id (seps ! i)) (\<lambda>_.
       let seps = remove_at seps i; children = remove_at children (i + 1) in
       bt_bind (bt_free_page right_id) (\<lambda>_ t.
         if ancestors = [] \<and> parent_id = root_page_id t \<and> seps = [] then
           (if children = [] then None
            else bt_free_page parent_id (t\<lparr>root_page_id := hd children\<rparr>))
         else
           bt_bind (bt_lift (build_branch parent_id (bh_level (btree_header_of parent)) seps children)) (\<lambda>parent_branch.
           bt_bind (bt_put parent_id parent_branch) (\<lambda>_.
           if is_underfull parent_branch \<and> ancestors \<noteq> [] then rebalance_node parent_id ancestors
           else bt_return ())) t)))))))))"

definition rebalance_after_delete :: "u64 \<Rightarrow> descend_path \<Rightarrow> unit bt" where
  "rebalance_after_delete leaf_id path =
     bt_bind (bt_get leaf_id MissingLeaf) (\<lambda>leaf.
       if path = [] \<or> \<not> is_underfull leaf then bt_return () else rebalance_node leaf_id path)"

definition delete_key :: "bytes \<Rightarrow> bool bt" where
  "delete_key key =
     (\<lambda>t. bt_bind (bt_get (root_page_id t) MissingRoot) (\<lambda>root.
        bt_bind (\<lambda>t. case descend_to_leaf_with_path t root key of
                      None \<Rightarrow> None
                    | Some None \<Rightarrow> Some (Inl MissingLeaf, t)
                    | Some (Some r) \<Rightarrow> Some (Inr r, t)) (\<lambda>(leaf_id, leaf, path).
        let slot = leaf_lower_bound leaf key in
        if leaf_key leaf slot = Some key then
          bt_bind (bt_lift (bt_delete leaf slot)) (\<lambda>(_, leaf).
          bt_bind (bt_put leaf_id leaf) (\<lambda>_.
          bt_bind (rebalance_after_delete leaf_id path) (\<lambda>_.
          bt_return True)))
        else bt_return False)) t)"

end
