(* ===== verification/BTreeNode.thy ===== *)
theory BTreeNode
  imports BTree "HOL-Library.Multiset"
begin

text \<open>
  The nodes of the B+ tree as what they hold: a leaf page holds key/value pairs and the id of the
  next leaf, a branch page holds separators and one child more than separators. The lemmas say
  what the page-level operations of the tree (binary searches, decoding and building of
  branches, rebuilding and splitting of leaves) do in these terms.
\<close>

section \<open>Capacities\<close>

text \<open>A tree of keys of \<open>kl\<close> bytes and values of \<open>vl\<close> bytes: the bytes an entry of a leaf or of a
  branch takes with its slot, and how many fit on a page.\<close>

definition leaf_cap :: "nat \<Rightarrow> nat \<Rightarrow> nat" where
  "leaf_cap kl vl = 8096 div (kl + vl + 6)"

definition branch_cap :: "nat \<Rightarrow> nat" where
  "branch_cap kl = 8096 div (kl + 12)"

text \<open>Records that are stored inline.\<close>

definition sizes_ok :: "nat \<Rightarrow> nat \<Rightarrow> bool" where
  "sizes_ok kl vl \<longleftrightarrow> kl + vl + 2 \<le> 2048 \<and> kl + 8 \<le> 2048"

text \<open>Key lengths for which the entry behind the last one that fits does not fit in the 32 bytes
  of the header either.\<close>

definition branch_safe :: "nat \<Rightarrow> bool" where
  "branch_safe kl \<longleftrightarrow> 8096 mod (kl + 12) + 32 < kl + 12"

lemma mult_le_cap: "0 < (b::nat) \<Longrightarrow> n * b \<le> m \<longleftrightarrow> n \<le> m div b"
  by (simp add: less_eq_div_iff_mult_less_eq)

lemma leaf_cap: "n * (kl + vl + 6) \<le> 8096 \<longleftrightarrow> n \<le> leaf_cap kl vl"
  by (simp add: leaf_cap_def mult_le_cap)

lemma branch_cap: "n * (kl + 12) \<le> 8096 \<longleftrightarrow> n \<le> branch_cap kl"
  by (simp add: branch_cap_def mult_le_cap)

lemma caps_ge_3: "sizes_ok kl vl \<Longrightarrow> 3 \<le> leaf_cap kl vl" "sizes_ok kl vl \<Longrightarrow> 3 \<le> branch_cap kl"
  by (simp_all add: sizes_ok_def flip: leaf_cap branch_cap)

lemma branch_overflow:
  "8128 < branch_cap kl * (kl + 12) + (kl + 12) \<longleftrightarrow> branch_safe kl"
proof -
  have "branch_cap kl * (kl + 12) + 8096 mod (kl + 12) = 8096"
    unfolding branch_cap_def by (rule div_mult_mod_eq)
  then show ?thesis
    unfolding branch_safe_def by linarith
qed

section \<open>Records\<close>

abbreviation kv_record :: "bytes \<times> bytes \<Rightarrow> bytes" where
  "kv_record kv \<equiv> encode_kv (fst kv) (snd kv)"

lemma length_encode_kv [simp]: "length (encode_kv k v) = 2 + length k + length v"
  by (simp add: encode_kv_def)

lemma length_encode_branch_entry [simp]: "length (encode_branch_entry k c) = length k + 8"
  by (simp add: encode_branch_entry_def)

lemma record_key_len_kv [simp]: "length k < 65536 \<Longrightarrow> record_key_len (encode_kv k v) = length k"
  by (simp add: record_key_len_def encode_kv_def slice_def unat_of_nat_u16)

lemma encode_kv_parts [simp]:
  "slice (encode_kv k v) 2 (length k) = k" "drop (2 + length k) (encode_kv k v) = v"
  "drop (Suc (Suc (length k))) (encode_kv k v) = v"
  by (simp_all add: encode_kv_def slice_def)

lemma leaf_record_key_kv [simp]: "length k < 65536 \<Longrightarrow> leaf_record_key (encode_kv k v) = k"
  by (simp add: leaf_record_key_def)

lemma entry_parts [simp]:
  "take (length (encode_branch_entry k c) - 8) (encode_branch_entry k c) = k"
  "from_be_bytes (drop (length (encode_branch_entry k c) - 8) (encode_branch_entry k c)) = c"
  by (simp_all add: encode_branch_entry_def)

section \<open>Leaves\<close>

definition leaf_view :: "bytes \<Rightarrow> u64 \<Rightarrow> u64 \<Rightarrow> (bytes \<times> bytes) list \<Rightarrow> bool" where
  "leaf_view buf pid nxt kvs \<longleftrightarrow>
     (\<exists>bh. bt_view buf pid BTreeLeaf bh (map kv_record kvs) \<and> sibling_next bh = nxt)"

definition uniform :: "nat \<Rightarrow> nat \<Rightarrow> (bytes \<times> bytes) list \<Rightarrow> bool" where
  "uniform kl vl kvs \<longleftrightarrow> (\<forall>kv \<in> set kvs. length (fst kv) = kl \<and> length (snd kv) = vl)"

lemma uniform_simps [simp]:
  "uniform kl vl []" "uniform kl vl (kv # kvs) \<longleftrightarrow> length (fst kv) = kl \<and> length (snd kv) = vl \<and> uniform kl vl kvs"
  "uniform kl vl (kvs @ kvs') \<longleftrightarrow> uniform kl vl kvs \<and> uniform kl vl kvs'"
  by (auto simp: uniform_def)

lemma uniform_subset: "uniform kl vl kvs \<Longrightarrow> set kvs' \<subseteq> set kvs \<Longrightarrow> uniform kl vl kvs'"
  by (auto simp: uniform_def)

lemma space_kvs: "uniform kl vl kvs \<Longrightarrow> space (map kv_record kvs) = length kvs * (kl + vl + 6)"
  by (induction kvs) (auto simp: algebra_simps)

lemma key_length_bound:
  assumes "bt_view buf pid pt bh (map kv_record kvs)" "i < length kvs"
  shows "length (fst (kvs ! i)) < 65536"
proof -
  have "space (map kv_record kvs) = space (map kv_record (take i kvs)) + length (kv_record (kvs ! i)) + 4
      + space (map kv_record (drop (Suc i) kvs))"
    using arg_cong [OF id_take_nth_drop [OF assms(2)], of "\<lambda>l. space (map kv_record l)"] by simp
  then show ?thesis
    using bt_viewD(3) [OF assms(1)] by simp
qed

lemma leaf_viewI:
  "bt_view buf pid BTreeLeaf bh recs \<Longrightarrow> recs = map kv_record kvs \<Longrightarrow> sibling_next bh = nxt \<Longrightarrow> leaf_view buf pid nxt kvs"
  by (auto simp: leaf_view_def)

lemma leaf_view_reads:
  assumes "leaf_view buf pid nxt kvs"
  shows "page_id (page_header_of buf) = pid" "is_leaf buf" "\<not> is_branch buf" "sibling_next (btree_header_of buf) = nxt"
    "unat (bt_key_count buf) = length kvs" "bt_slot_count buf = length kvs" "length kvs \<le> 2024"
    "bt_key buf i = (if i < length kvs then Some (kv_record (kvs ! i)) else None)"
    "leaf_key buf i = (if i < length kvs then Some (fst (kvs ! i)) else None)"
    "leaf_value buf i = (if i < length kvs then Some (snd (kvs ! i)) else None)"
    "has_room_for buf n \<longleftrightarrow> space (map kv_record kvs) + n + 4 \<le> 8096"
proof -
  obtain bh where v: "bt_view buf pid BTreeLeaf bh (map kv_record kvs)" "sibling_next bh = nxt"
    using assms by (auto simp: leaf_view_def)
  note d = bt_viewD [OF v(1)] and r = bt_view_reads [OF v(1)] has_room_for_view [OF v(1)]
  show "page_id (page_header_of buf) = pid" "is_leaf buf" "\<not> is_branch buf" "sibling_next (btree_header_of buf) = nxt"
    "unat (bt_key_count buf) = length kvs" "bt_slot_count buf = length kvs" "length kvs \<le> 2024"
    "has_room_for buf n \<longleftrightarrow> space (map kv_record kvs) + n + 4 \<le> 8096"
    "bt_key buf i = (if i < length kvs then Some (kv_record (kvs ! i)) else None)"
    using d r v(2) by simp_all
  show "leaf_key buf i = (if i < length kvs then Some (fst (kvs ! i)) else None)"
    "leaf_value buf i = (if i < length kvs then Some (snd (kvs ! i)) else None)"
    using key_length_bound [OF v(1), of i] r(2) [of i] by (simp_all add: leaf_key_def leaf_value_def Let_def)
qed

lemma leaf_view_lsn: "leaf_view buf pid nxt kvs \<Longrightarrow> leaf_view (set_page_lsn buf l) pid nxt kvs"
  by (auto simp: leaf_view_def intro: bt_view_set)

lemma leaf_view_siblings: "leaf_view buf pid nxt kvs \<Longrightarrow> leaf_view (set_siblings buf p n) pid n kvs"
  unfolding leaf_view_def by (elim exE conjE) (drule bt_view_set(1) [where p = p and n = n], auto)

lemma leaf_view_new: "leaf_view (new_leaf pid) pid 0 []"
  unfolding leaf_view_def using bt_view_new(1) [of pid] by (auto simp: btree_header_new_def)

section \<open>Binary search\<close>

lemma halving_eq:
  assumes "\<And>i. i < hi \<Longrightarrow> right i \<longleftrightarrow> i < n" "lo \<le> n" "n \<le> hi"
  shows "halving right lo hi = n"
  using assms
proof (induction right lo hi rule: halving.induct)
  case (1 right lo hi)
  define mid where "mid = (lo + hi) div 2"
  show ?case
  proof (cases "lo < hi")
    case True
    then have mid: "lo \<le> mid" "mid < hi"
      by (auto simp: mid_def)
    show ?thesis
    proof (cases "right mid")
      case r: True
      have "halving right (mid + 1) hi = n"
        using 1(1) [OF True mid_def r] 1(3-5) r mid by simp
      then show ?thesis
        using True r by (subst halving.simps) (simp add: Let_def mid_def)
    next
      case r: False
      have "halving right lo mid = n"
        using 1(2) [OF True mid_def r] 1(3-5) r mid by simp
      then show ?thesis
        using True r by (subst halving.simps) (simp add: Let_def mid_def)
    qed
  next
    case False
    then show ?thesis
      using 1(4,5) by (subst halving.simps) simp
  qed
qed

text \<open>In a sorted list the elements a monotone test accepts are a prefix.\<close>

lemma sorted_prefix:
  assumes "\<And>i j. i < j \<Longrightarrow> j < length xs \<Longrightarrow> P (xs ! j) \<Longrightarrow> P (xs ! i)" "i < length xs"
  shows "P (xs ! i) \<longleftrightarrow> i < length (takeWhile P xs)"
proof
  assume "i < length (takeWhile P xs)"
  then show "P (xs ! i)"
    by (metis nth_mem set_takeWhileD takeWhile_nth)
next
  assume i: "P (xs ! i)"
  show "i < length (takeWhile P xs)"
  proof (rule ccontr)
    assume n: "\<not> i < length (takeWhile P xs)"
    let ?m = "length (takeWhile P xs)"
    have m: "?m < length xs" "\<not> P (xs ! ?m)"
      using n assms(2) nth_length_takeWhile [of P xs] by auto
    then show False
      using assms(1) [of ?m i] i n assms(2) by (cases "?m = i") auto
  qed
qed

definition keys_below :: "bytes \<Rightarrow> (bytes \<times> bytes) list \<Rightarrow> nat" where
  "keys_below key kvs = length (takeWhile (\<lambda>kv. fst kv < key) kvs)"

abbreviation sorted_kvs :: "(bytes \<times> bytes) list \<Rightarrow> bool" where
  "sorted_kvs kvs \<equiv> sorted_wrt (<) (map fst kvs)"

lemma leaf_lower_bound_eq:
  assumes "leaf_view buf pid nxt kvs" "sorted_kvs kvs"
  shows "leaf_lower_bound buf key = keys_below key kvs"
proof -
  note r = leaf_view_reads [OF assms(1)]
  have le: "keys_below key kvs \<le> length kvs"
    by (simp add: keys_below_def length_takeWhile_le)
  have "halving (\<lambda>mid. case leaf_key buf mid of Some mid_key \<Rightarrow> mid_key < key | None \<Rightarrow> False) 0 (length kvs) = keys_below key kvs"
  proof (rule halving_eq)
    fix i assume i: "i < length kvs"
    have "fst (kvs ! i) < key \<longleftrightarrow> i < length (takeWhile (\<lambda>kv. fst kv < key) kvs)"
    proof (rule sorted_prefix [OF _ i])
      fix i j assume "i < j" "j < length kvs" "fst (kvs ! j) < key"
      then show "fst (kvs ! i) < key"
        using sorted_wrt_nth_less [OF assms(2), of i j] by simp
    qed
    then show "(case leaf_key buf i of Some mid_key \<Rightarrow> mid_key < key | None \<Rightarrow> False) \<longleftrightarrow> i < keys_below key kvs"
      using i r(9) [of i] by (simp add: keys_below_def)
  qed (use le in simp_all)
  then show ?thesis
    using le r(5,7) by (simp add: leaf_lower_bound_def Let_def)
qed

section \<open>Branches\<close>

definition branch_view :: "bytes \<Rightarrow> u64 \<Rightarrow> bytes list \<Rightarrow> u64 list \<Rightarrow> bool" where
  "branch_view buf pid seps cs \<longleftrightarrow> length cs = length seps + 1 \<and>
     (\<exists>bh. bt_view buf pid BTreeInterior bh (map2 encode_branch_entry seps (butlast cs)) \<and> rightmost_child bh = last cs)"

lemma branch_view_reads:
  assumes "branch_view buf pid seps cs"
  shows "length cs = length seps + 1" "page_id (page_header_of buf) = pid" "\<not> is_leaf buf" "is_branch buf"
    "unat (bt_key_count buf) = length seps" "rightmost_child (btree_header_of buf) = last cs"
    "separator_key buf i = (if i < length seps then Some (seps ! i) else None)"
    "child_pointer buf i = Some (if i < length seps then Some (cs ! i) else None)"
proof -
  obtain bh where l: "length cs = length seps + 1"
    and v: "bt_view buf pid BTreeInterior bh (map2 encode_branch_entry seps (butlast cs))" "rightmost_child bh = last cs"
    using assms by (auto simp: branch_view_def)
  note d = bt_viewD [OF v(1)] and r = bt_view_reads [OF v(1)]
  show "length cs = length seps + 1" "page_id (page_header_of buf) = pid" "\<not> is_leaf buf" "is_branch buf"
    "unat (bt_key_count buf) = length seps" "rightmost_child (btree_header_of buf) = last cs"
    using d r v(2) l by simp_all
  show "separator_key buf i = (if i < length seps then Some (seps ! i) else None)"
    using r(1) [of i] l by (simp add: separator_key_def del: length_encode_branch_entry)
  show "child_pointer buf i = Some (if i < length seps then Some (cs ! i) else None)"
    using r(1) [of i] l entry_parts(2) [of "seps ! i" "cs ! i"] by (simp add: child_pointer_def nth_butlast)
qed

lemma branch_view_lsn: "branch_view buf pid seps cs \<Longrightarrow> branch_view (set_page_lsn buf l) pid seps cs"
  by (auto simp: branch_view_def intro: bt_view_set)

definition child_index :: "bytes \<Rightarrow> bytes list \<Rightarrow> nat" where
  "child_index key seps = length (takeWhile (\<lambda>sep. sep \<le> key) seps)"

lemma child_index_le [simp]: "child_index key seps \<le> length seps"
  by (simp add: child_index_def length_takeWhile_le)

lemma branch_slot_eq:
  assumes "branch_view buf pid seps cs" "sorted seps"
  shows "branch_slot buf key = Some (cs ! child_index key seps, child_index key seps)"
proof -
  note r = branch_view_reads [OF assms(1)]
  have "halving (\<lambda>mid. case separator_key buf mid of Some sep \<Rightarrow> sep \<le> key | None \<Rightarrow> False) 0 (length seps)
      = child_index key seps"
  proof (rule halving_eq)
    fix i assume i: "i < length seps"
    have "seps ! i \<le> key \<longleftrightarrow> i < length (takeWhile (\<lambda>sep. sep \<le> key) seps)"
    proof (rule sorted_prefix [OF _ i])
      fix i j assume "i < j" "j < length seps" "seps ! j \<le> key"
      then show "seps ! i \<le> key"
        using sorted_nth_mono [OF assms(2), of i j] by simp
    qed
    then show "(case separator_key buf i of Some sep \<Rightarrow> sep \<le> key | None \<Rightarrow> False) \<longleftrightarrow> i < child_index key seps"
      using i r(7) [of i] by (simp add: child_index_def)
  qed simp_all
  moreover have "last cs = cs ! length seps"
    using r(1) by (simp add: last_conv_nth flip: length_greater_0_conv)
  moreover have "child_index key seps < length seps \<or> child_index key seps = length seps"
    using child_index_le [of key seps] by linarith
  ultimately show ?thesis
    using r(5,6) r(8) [of "child_index key seps"] by (auto simp: branch_slot_def Let_def)
qed

lemma decode_loop_eq:
  assumes "branch_view buf pid seps cs" "\<forall>i \<in> set is. i < length seps"
  shows "decode_loop buf is = Some (map ((!) seps) is, map ((!) cs) is)"
  using assms(2) branch_view_reads(7,8) [OF assms(1)] by (induction "is") auto

lemma decode_branch_eq:
  assumes "branch_view buf pid seps cs"
  shows "decode_branch buf = Some (seps, cs)"
proof -
  note r = branch_view_reads [OF assms]
  have "map ((!) seps) [0..<length seps] = seps" "map ((!) cs) [0..<length seps] @ [last cs] = cs"
  proof -
    have "cs \<noteq> []" using r(1) by auto
    then have "butlast cs @ [last cs] = cs"
      by (rule append_butlast_last_id)
    moreover have "butlast cs = take (length seps) cs"
      using r(1) by (simp add: butlast_conv_take)
    ultimately show "map ((!) cs) [0..<length seps] @ [last cs] = cs"
      using map_nth_range [of "length seps" cs 0] r(1) by simp
  qed (simp add: map_nth)
  then show ?thesis
    using decode_loop_eq [OF assms, of "[0..<length seps]"] r(5,6) by (simp add: decode_branch_def)
qed

text \<open>Building a branch whose entries fit.\<close>

lemma key_count_same: "key_count bh = c \<Longrightarrow> bh\<lparr>key_count := c\<rparr> = bh"
  by (cases bh) simp

lemma build_loop_fits:
  assumes "bt_view branch pid pt bh recs" "space recs + (\<Sum>s\<leftarrow>seps. length s + 12) \<le> 8096"
    "\<forall>s \<in> set seps. length s + 8 \<le> 2048" "length seps \<le> length cs"
  shows "\<exists>b'. build_loop branch seps cs = Some (Some b') \<and>
    bt_view b' pid pt (bh\<lparr>key_count := of_nat (length recs + length seps)\<rparr>) (recs @ map2 encode_branch_entry seps cs)"
  using assms
proof (induction seps arbitrary: branch bh recs cs)
  case Nil
  then show ?case using bt_viewD(5) [OF Nil(1)] by (simp add: key_count_same)
next
  case (Cons s seps)
  obtain c cs' where cs: "cs = c # cs'" using Cons.prems(4) by (cases cs) auto
  obtain b where b: "insert_raw branch (encode_branch_entry s c) = Some (Some (length recs), b)"
    "bt_view b pid pt (bh\<lparr>key_count := of_nat (length recs + 1)\<rparr>) (recs @ [encode_branch_entry s c])"
    using insert_raw_view [OF Cons.prems(1), of "encode_branch_entry s c"] Cons.prems(2,3) by auto
  show ?case
    using Cons.IH [OF b(2), of cs'] b(1) Cons.prems(2-4) cs by (auto simp: add_ac)
qed

lemma sum_list_uniform: "\<forall>s \<in> set seps. length s = kl \<Longrightarrow> (\<Sum>s\<leftarrow>seps. length s + 12) = length seps * (kl + 12)"
  by (induction seps) auto

lemma try_build_branch_fits:
  assumes "\<forall>s \<in> set seps. length s = kl" "kl + 8 \<le> 2048" "length seps \<le> branch_cap kl" "length cs = length seps + 1"
  shows "\<exists>b. try_build_branch pid level seps cs = Some (Some b) \<and> build_branch pid level seps cs = Some b \<and> branch_view b pid seps cs"
proof -
  have "(\<Sum>s\<leftarrow>seps. length s + 12) \<le> 8096"
    using sum_list_uniform [OF assms(1)] assms(3) by (simp add: branch_cap)
  then obtain b where b: "build_loop (new_branch pid level) seps cs = Some (Some b)"
    "bt_view b pid BTreeInterior ((btree_header_new level)\<lparr>key_count := of_nat (length seps)\<rparr>) (map2 encode_branch_entry seps cs)"
    using build_loop_fits [OF bt_view_new(2) [of pid level], of seps cs] assms(1,2,4) by auto
  have "map2 encode_branch_entry seps cs = map2 encode_branch_entry seps (butlast cs)"
    using zip_append2 [of seps "butlast cs" "[last cs]"] assms(4) by simp (metis append_butlast_last_id length_0_conv nat.distinct(1))
  then have "branch_view (set_rightmost_child b (last cs)) pid seps cs"
    unfolding branch_view_def using bt_view_set(2) [OF b(2), of "last cs"] assms(4) by auto
  moreover have "cs \<noteq> []" using assms(4) by auto
  ultimately show ?thesis
    using b(1) by (simp add: try_build_branch_def build_branch_def)
qed

text \<open>Building a branch with one entry too many.\<close>

lemma build_loop_snoc:
  assumes "length seps \<le> length cs" "build_loop branch seps cs = Some (Some b)"
  shows "build_loop branch (seps @ [s]) (take (length seps) cs @ [c] @ cs') =
    (case insert_raw b (encode_branch_entry s c) of
       None \<Rightarrow> None | Some (None, _) \<Rightarrow> Some None | Some (Some _, b') \<Rightarrow> Some (Some b'))"
  using assms
proof (induction seps arbitrary: cs branch)
  case (Cons s' seps)
  obtain c1 cs1 where cs: "cs = c1 # cs1" using Cons.prems(1) by (cases cs) auto
  show ?case
    using Cons.IH [of cs1] Cons.prems by (auto simp: cs split: option.splits prod.splits)
qed (auto split: option.splits prod.splits)

lemma full_branch:
  assumes seps: "\<forall>s \<in> set seps. length s = kl" and kl: "kl + 8 \<le> 2048"
    and len: "length seps = branch_cap kl + 1" "length cs = length seps + 1"
  shows "\<exists>b bh recs. bt_view b pid BTreeInterior bh recs \<and> space recs = branch_cap kl * (kl + 12) \<and>
    length recs = branch_cap kl \<and>
    build_loop (new_branch pid level) seps cs =
      (case insert_raw b (encode_branch_entry (last seps) (cs ! branch_cap kl)) of
         None \<Rightarrow> None | Some (None, _) \<Rightarrow> Some None | Some (Some _, b') \<Rightarrow> Some (Some b'))"
proof -
  let ?n = "branch_cap kl" and ?ss = "butlast seps"
  have ss: "length ?ss = ?n" "\<forall>s \<in> set ?ss. length s = kl" "seps = ?ss @ [last seps]"
    using len(1) seps by (auto dest: in_set_butlastD simp flip: length_greater_0_conv)
  have sum: "(\<Sum>s\<leftarrow>?ss. length s + 12) = ?n * (kl + 12)"
    using sum_list_uniform [OF ss(2)] ss(1) by simp
  then have "(\<Sum>s\<leftarrow>?ss. length s + 12) \<le> 8096"
    by (simp add: branch_cap)
  then obtain b where b: "build_loop (new_branch pid level) ?ss cs = Some (Some b)"
    "bt_view b pid BTreeInterior ((btree_header_new level)\<lparr>key_count := of_nat ?n\<rparr>) (map2 encode_branch_entry ?ss cs)"
    using build_loop_fits [OF bt_view_new(2) [of pid level], of ?ss cs] ss(1,2) kl len by auto
  have "cs = take (length ?ss) cs @ [cs ! ?n] @ drop (?n + 1) cs"
    using len ss(1) id_take_nth_drop [of ?n cs] by simp
  then have "build_loop (new_branch pid level) seps cs =
      (case insert_raw b (encode_branch_entry (last seps) (cs ! ?n)) of
         None \<Rightarrow> None | Some (None, _) \<Rightarrow> Some None | Some (Some _, b') \<Rightarrow> Some (Some b'))"
    using build_loop_snoc [OF _ b(1), of "last seps" "cs ! ?n" "drop (?n + 1) cs"] ss len by simp
  moreover have "space (map2 encode_branch_entry ?ss cs) = ?n * (kl + 12)" "length (map2 encode_branch_entry ?ss cs) = ?n"
  proof -
    have "length ss \<le> length cs \<Longrightarrow> space (map2 encode_branch_entry ss cs) = (\<Sum>s\<leftarrow>ss. length s + 12)" for ss
    proof (induction ss arbitrary: cs)
      case (Cons s ss)
      then show ?case by (cases cs) auto
    qed simp
    then show "space (map2 encode_branch_entry ?ss cs) = ?n * (kl + 12)"
      using sum ss(1) len by simp
    show "length (map2 encode_branch_entry ?ss cs) = ?n"
      using ss(1) len by simp
  qed
  ultimately show ?thesis
    using b(2) by blast
qed

lemma try_build_branch_splits:
  assumes "\<forall>s \<in> set seps. length s = kl" "kl + 8 \<le> 2048"
    "length seps = branch_cap kl + 1" "length cs = length seps + 1" "branch_safe kl"
  shows "try_build_branch pid level seps cs = Some None"
proof -
  obtain b bh recs where b: "bt_view b pid BTreeInterior bh recs" "space recs = branch_cap kl * (kl + 12)"
    "build_loop (new_branch pid level) seps cs =
      (case insert_raw b (encode_branch_entry (last seps) (cs ! branch_cap kl)) of
         None \<Rightarrow> None | Some (None, _) \<Rightarrow> Some None | Some (Some _, b') \<Rightarrow> Some (Some b'))"
    using full_branch [OF assms(1-4)] by blast
  have "length (last seps) = kl"
    using assms(1,3) by (simp add: last_in_set flip: length_greater_0_conv)
  then obtain b' where "insert_raw b (encode_branch_entry (last seps) (cs ! branch_cap kl)) = Some (None, b')"
    using insert_raw_full [OF b(1)] b(2) assms(5) branch_overflow [of kl] by fastforce
  then show ?thesis
    using b(3) by (simp add: try_build_branch_def)
qed

text \<open>C20. An overflowing branch is corrupted instead of split: for keys of a length that is not
  \<open>branch_safe\<close>, such as the 16 bytes of a node key, a branch with one separator more than fit
  is not refused. The page that is built has a record area that runs into its slot directory,
  and the caller, who would split the branch if it were refused, stores it.\<close>

theorem branch_overflow_corrupts:
  assumes "\<forall>s \<in> set seps. length s = kl" and "kl \<le> 256" and "\<not> branch_safe kl"
    and "length seps = branch_cap kl + 1" and "length cs = length seps + 1"
  shows "\<exists>b. try_build_branch pid level seps cs = Some (Some b) \<and> 8192 < 64 + free_off b + 4 * nslots b"
proof -
  have kl: "kl + 8 \<le> 2048" using assms(2) by simp
  obtain b bh recs where b: "bt_view b pid BTreeInterior bh recs" "space recs = branch_cap kl * (kl + 12)"
    "length recs = branch_cap kl"
    "build_loop (new_branch pid level) seps cs =
      (case insert_raw b (encode_branch_entry (last seps) (cs ! branch_cap kl)) of
         None \<Rightarrow> None | Some (None, _) \<Rightarrow> Some None | Some (Some _, b') \<Rightarrow> Some (Some b'))"
    using full_branch [OF assms(1) kl assms(4,5)] by blast
  have l: "length (last seps) = kl"
    using assms(1,4) by (simp add: last_in_set flip: length_greater_0_conv)
  have cap: "8 \<le> branch_cap kl" "8096 < branch_cap kl * (kl + 12) + (kl + 12)"
    using assms(2) branch_cap [of 8 kl] branch_cap [of "branch_cap kl + 1" kl] by auto
  moreover have "branch_cap kl * (kl + 12) + (kl + 12) \<le> 8128"
    using assms(3) branch_overflow [of kl] by linarith
  ultimately obtain slot b' where b': "insert_raw b (encode_branch_entry (last seps) (cs ! branch_cap kl)) = Some (Some slot, b')"
    "length b' = 8192" "8192 < 64 + free_off b' + 4 * nslots b'"
    using insert_raw_overflow [OF b(1), of "encode_branch_entry (last seps) (cs ! branch_cap kl)"] b(2,3) kl l by auto
  have "page_header_of (set_rightmost_child b' c) = page_header_of b'" for c
    using b'(2) by (simp add: set_rightmost_child_def write_header_frame header_wf_of)
  moreover have "cs \<noteq> []"
    using assms(5) by auto
  ultimately show ?thesis
    using b(4) b' by (simp add: try_build_branch_def)
qed

theorem branch_overflow_corrupts_witness:
  "\<exists>b. try_build_branch 7 1 (replicate 290 (replicate 16 0)) (replicate 291 9) = Some (Some b) \<and> 8192 < 64 + free_off b + 4 * nslots b"
  by (rule branch_overflow_corrupts [where kl = 16]) (simp_all add: branch_safe_def branch_cap_def)

section \<open>Updates of sorted leaves\<close>

text \<open>The entries of a sorted list with the key bound to the value.\<close>

definition upsert :: "bytes \<Rightarrow> bytes \<Rightarrow> (bytes \<times> bytes) list \<Rightarrow> (bytes \<times> bytes) list" where
  "upsert k v kvs = takeWhile (\<lambda>kv. fst kv < k) kvs @ (k, v) # dropWhile (\<lambda>kv. fst kv \<le> k) kvs"

lemma upsert_Nil [simp]: "upsert k v [] = [(k, v)]"
  by (simp add: upsert_def)

lemma upsert_Cons:
  "upsert k v ((a, b) # kvs) =
     (if a < k then (a, b) # upsert k v kvs
      else if a = k then (k, v) # dropWhile (\<lambda>kv. fst kv \<le> k) kvs
      else (k, v) # (a, b) # kvs)"
  by (auto simp: upsert_def)

lemma upsert_append_left: "\<forall>kv \<in> set xs. fst kv < k \<Longrightarrow> upsert k v (xs @ ys) = xs @ upsert k v ys"
  by (induction xs) (auto simp: upsert_Cons)

lemma upsert_append_right: "\<forall>kv \<in> set ys. k < fst kv \<Longrightarrow> upsert k v (xs @ ys) = upsert k v xs @ ys"
proof (induction xs)
  case Nil
  then show ?case by (cases ys) (auto simp: upsert_Cons)
next
  case (Cons x xs)
  have "dropWhile (\<lambda>kv. fst kv \<le> k) (xs @ ys) = dropWhile (\<lambda>kv. fst kv \<le> k) xs @ ys"
    using Cons.prems by (induction xs) (auto simp: dropWhile_eq_self_iff neq_Nil_conv leD)
  then show ?case
    using Cons by (cases x) (auto simp: upsert_Cons)
qed

lemma sorted_drop_smaller:
  "sorted_kvs ((a, b) # kvs) \<Longrightarrow> dropWhile (\<lambda>kv. fst kv \<le> a) kvs = kvs"
  by (cases kvs) auto

lemma upsert_sorted_Cons:
  "sorted_kvs ((a, b) # kvs) \<Longrightarrow> upsert k v ((a, b) # kvs) =
     (if a < k then (a, b) # upsert k v kvs else if a = k then (k, v) # kvs else (k, v) # (a, b) # kvs)"
  using sorted_drop_smaller [of a b kvs] by (auto simp: upsert_Cons)

lemma set_upsert: "sorted_kvs kvs \<Longrightarrow> set (upsert k v kvs) = {kv \<in> set kvs. fst kv \<noteq> k} \<union> {(k, v)}"
proof (induction kvs)
  case (Cons x kvs)
  obtain a b where x: "x = (a, b)" by (cases x)
  note u = upsert_sorted_Cons [OF Cons.prems [unfolded x]]
  show ?case
    unfolding x u using Cons by (auto simp: x)
qed simp

lemma sorted_upsert: "sorted_kvs kvs \<Longrightarrow> sorted_kvs (upsert k v kvs)"
proof (induction kvs)
  case (Cons x kvs)
  obtain a b where x: "x = (a, b)" by (cases x)
  note u = upsert_sorted_Cons [OF Cons.prems [unfolded x]]
  have "sorted_kvs kvs" using Cons.prems by simp
  then show ?case
    unfolding x u using Cons.IH Cons.prems set_upsert [of kvs k v] by (auto simp: x)
qed simp

lemma map_of_upsert: "sorted_kvs kvs \<Longrightarrow> map_of (upsert k v kvs) = (map_of kvs)(k \<mapsto> v)"
proof (induction kvs)
  case (Cons x kvs)
  obtain a b where x: "x = (a, b)" by (cases x)
  note u = upsert_sorted_Cons [OF Cons.prems [unfolded x]]
  show ?case
    unfolding x u using Cons by (auto simp: x)
qed simp

lemma sorted_kvs_distinct: "sorted_kvs kvs \<Longrightarrow> distinct (map fst kvs)"
  by (induction kvs) auto

lemma keys_below_Cons: "keys_below k ((a, b) # kvs) = (if a < k then Suc (keys_below k kvs) else 0)"
  by (simp add: keys_below_def)

text \<open>At the position found by the binary search a new key is inserted, a known one replaced.\<close>

lemma upsert_insert:
  "sorted_kvs kvs \<Longrightarrow> k \<notin> fst ` set kvs \<Longrightarrow> upsert k v kvs = list_insert kvs (keys_below k kvs) (k, v)"
proof (induction kvs)
  case (Cons x kvs)
  obtain a b where x: "x = (a, b)" by (cases x)
  show ?case
    using Cons by (auto simp: upsert_Cons keys_below_Cons x list_insert_def)
qed (simp add: keys_below_def list_insert_def)

lemma upsert_replace:
  "sorted_kvs kvs \<Longrightarrow> k \<in> fst ` set kvs \<Longrightarrow> upsert k v kvs = kvs[keys_below k kvs := (k, v)]"
proof (induction kvs)
  case (Cons x kvs)
  obtain a b where x: "x = (a, b)" by (cases x)
  show ?case
    using Cons sorted_drop_smaller [of a b kvs] by (auto simp: upsert_Cons keys_below_Cons x)
qed simp

lemma keys_below_hit:
  "sorted_kvs kvs \<Longrightarrow> k \<in> fst ` set kvs \<Longrightarrow> keys_below k kvs < length kvs \<and> fst (kvs ! keys_below k kvs) = k"
proof (induction kvs)
  case (Cons x kvs)
  obtain a b where x: "x = (a, b)" by (cases x)
  show ?case
    using Cons by (auto simp: keys_below_Cons x)
qed simp

lemma keys_below_le [simp]: "keys_below k kvs \<le> length kvs"
  by (simp add: keys_below_def length_takeWhile_le)

lemma length_upsert:
  "sorted_kvs kvs \<Longrightarrow> length (upsert k v kvs) = (if k \<in> fst ` set kvs then length kvs else length kvs + 1)"
  by (simp add: upsert_insert upsert_replace)

lemma leaf_search:
  assumes "leaf_view buf pid nxt kvs" "sorted_kvs kvs"
  shows "leaf_key buf (leaf_lower_bound buf k) = Some k \<longleftrightarrow> k \<in> fst ` set kvs"
    "k \<in> fst ` set kvs \<Longrightarrow> leaf_value buf (leaf_lower_bound buf k) = map_of kvs k"
proof -
  note r = leaf_view_reads [OF assms(1)] and lb = leaf_lower_bound_eq [OF assms, of k]
  show "leaf_key buf (leaf_lower_bound buf k) = Some k \<longleftrightarrow> k \<in> fst ` set kvs"
    using r(9) keys_below_hit [OF assms(2), of k]
    by (auto simp: lb intro: rev_image_eqI [of "kvs ! keys_below k kvs"])
  show "leaf_value buf (leaf_lower_bound buf k) = map_of kvs k" if "k \<in> fst ` set kvs"
  proof -
    have "distinct (map fst kvs)"
      using sorted_kvs_distinct [OF assms(2)] .
    moreover have h: "keys_below k kvs < length kvs" "fst (kvs ! keys_below k kvs) = k"
      using keys_below_hit [OF assms(2) that] by auto
    then have "(k, snd (kvs ! keys_below k kvs)) \<in> set kvs"
      using nth_mem [of "keys_below k kvs" kvs] prod.collapse [of "kvs ! keys_below k kvs"] by simp
    ultimately have "map_of kvs k = Some (snd (kvs ! keys_below k kvs))"
      by (rule map_of_is_SomeI)
    then show ?thesis
      using r(10) h(1) by (simp add: lb)
  qed
qed

section \<open>Building leaves\<close>

lemma insert_all_view:
  assumes "bt_view page pid pt bh recs0" "\<forall>r \<in> set recs. length r \<le> 2048" "space (recs0 @ recs) \<le> 8096"
  shows "\<exists>page'. insert_all page recs = Some page' \<and>
    bt_view page' pid pt (bh\<lparr>key_count := of_nat (length (recs0 @ recs))\<rparr>) (recs0 @ recs)"
  using assms
proof (induction recs arbitrary: page bh recs0)
  case Nil
  then show ?case using bt_viewD(5) [OF Nil(1)] by (simp add: key_count_same)
next
  case (Cons r recs)
  obtain b where b: "insert_raw page r = Some (Some (length recs0), b)"
    "bt_view b pid pt (bh\<lparr>key_count := of_nat (length recs0 + 1)\<rparr>) (recs0 @ [r])"
    using insert_raw_view [OF Cons.prems(1), of r] Cons.prems(2,3) by auto
  show ?case
    using Cons.IH [OF b(2)] b(1) Cons.prems(2,3) by (auto simp: add_ac)
qed

lemma insert_all_leaf:
  assumes "uniform kl vl kvs" "length kvs \<le> leaf_cap kl vl" "sizes_ok kl vl"
  shows "\<exists>b. insert_all (new_leaf pid) (map kv_record kvs) = Some b \<and> leaf_view b pid 0 kvs"
proof -
  have "space ([] @ map kv_record kvs) \<le> 8096"
    using space_kvs [OF assms(1)] assms(2) by (simp add: leaf_cap)
  moreover have "\<forall>r \<in> set (map kv_record kvs). length r \<le> 2048"
    using assms(1,3) by (auto simp: uniform_def sizes_ok_def)
  ultimately obtain b where b: "insert_all (new_leaf pid) (map kv_record kvs) = Some b"
    "bt_view b pid BTreeLeaf ((btree_header_new 0)\<lparr>key_count := of_nat (length ([] @ map kv_record kvs))\<rparr>) ([] @ map kv_record kvs)"
    using insert_all_view [OF bt_view_new(1) [of pid], of "map kv_record kvs"] by blast
  have "leaf_view b pid 0 kvs"
    by (rule leaf_viewI [OF b(2)]) (simp_all add: btree_header_new_def)
  then show ?thesis
    using b(1) by blast
qed

lemma leaf_insert_at:
  assumes "leaf_view buf pid nxt kvs" "uniform kl vl (kv # kvs)" "sizes_ok kl vl" "length kvs < leaf_cap kl vl" "i \<le> length kvs"
  shows "\<exists>b. insert_raw_at buf i (kv_record kv) = Some (Some i, b) \<and> leaf_view b pid nxt (list_insert kvs i kv)"
proof -
  obtain bh where v: "bt_view buf pid BTreeLeaf bh (map kv_record kvs)" "sibling_next bh = nxt"
    using assms(1) by (auto simp: leaf_view_def)
  have u: "uniform kl vl kvs" "length (kv_record kv) = kl + vl + 2"
    using assms(2) by simp_all
  have "(length kvs + 1) * (kl + vl + 6) \<le> 8096"
    unfolding leaf_cap using assms(4) by simp
  then have "space (map kv_record kvs) + length (kv_record kv) + 4 \<le> 8096"
    using space_kvs [OF u(1)] u(2) by simp
  then obtain b where b: "insert_raw_at buf i (kv_record kv) = Some (Some i, b)"
    "bt_view b pid BTreeLeaf (bh\<lparr>key_count := of_nat (length (map kv_record kvs) + 1)\<rparr>) (list_insert (map kv_record kvs) i (kv_record kv))"
    using insert_raw_at_view [OF v(1), of "kv_record kv" i] u(2) assms(3,5) by (auto simp: sizes_ok_def)
  have "leaf_view b pid nxt (list_insert kvs i kv)"
    by (rule leaf_viewI [OF b(2)]) (simp_all add: v(2))
  then show ?thesis
    using b(1) by blast
qed

lemma leaf_insert_end:
  assumes "leaf_view buf pid nxt kvs" "uniform kl vl (kv # kvs)" "sizes_ok kl vl" "length kvs < leaf_cap kl vl"
  shows "\<exists>b. insert_raw buf (kv_record kv) = Some (Some (length kvs), b) \<and> leaf_view b pid nxt (kvs @ [kv])"
proof -
  obtain bh where v: "bt_view buf pid BTreeLeaf bh (map kv_record kvs)" "sibling_next bh = nxt"
    using assms(1) by (auto simp: leaf_view_def)
  have u: "uniform kl vl kvs" "length (kv_record kv) = kl + vl + 2"
    using assms(2) by simp_all
  have "(length kvs + 1) * (kl + vl + 6) \<le> 8096"
    unfolding leaf_cap using assms(4) by simp
  then have "space (map kv_record kvs) + length (kv_record kv) + 4 \<le> 8096"
    using space_kvs [OF u(1)] u(2) by simp
  then obtain b where b: "insert_raw buf (kv_record kv) = Some (Some (length kvs), b)"
    "bt_view b pid BTreeLeaf (bh\<lparr>key_count := of_nat (length (map kv_record kvs) + 1)\<rparr>) (map kv_record kvs @ [kv_record kv])"
    using insert_raw_view [OF v(1), of "kv_record kv"] u(2) assms(3) by (auto simp: sizes_ok_def)
  have "leaf_view b pid nxt (kvs @ [kv])"
    by (rule leaf_viewI [OF b(2)]) (simp_all add: v(2))
  then show ?thesis
    using b(1) by blast
qed

lemma leaf_has_room:
  assumes "leaf_view buf pid nxt kvs" "uniform kl vl kvs" "length k = kl" "length v = vl"
  shows "has_room_for buf (length (encode_kv k v)) \<longleftrightarrow> length kvs < leaf_cap kl vl"
proof -
  have "length kvs < leaf_cap kl vl \<longleftrightarrow> (length kvs + 1) * (kl + vl + 6) \<le> 8096"
    unfolding leaf_cap by linarith
  then show ?thesis
    using leaf_view_reads(11) [OF assms(1)] space_kvs [OF assms(2)] assms(3,4) by (simp add: add_ac)
qed

lemma leaf_delete:
  assumes "leaf_view buf pid nxt kvs" "i < length kvs" "uniform kl vl kvs" "sizes_ok kl vl"
  shows "\<exists>b. bt_delete buf i = Some (True, b) \<and> leaf_view b pid nxt (take i kvs @ drop (i + 1) kvs)"
proof -
  obtain bh where v: "bt_view buf pid BTreeLeaf bh (map kv_record kvs)" "sibling_next bh = nxt"
    using assms(1) by (auto simp: leaf_view_def)
  have "\<forall>r \<in> set (map kv_record kvs). length r \<le> 2048"
    using assms(3,4) by (auto simp: uniform_def sizes_ok_def)
  then obtain b where b: "bt_delete buf i = Some (True, b)"
    "bt_view b pid BTreeLeaf (bh\<lparr>key_count := of_nat (length (map kv_record kvs) - 1)\<rparr>)
       (take i (map kv_record kvs) @ drop (i + 1) (map kv_record kvs))"
    using bt_delete_view [OF v(1), of i] assms(2) by auto
  have "leaf_view b pid nxt (take i kvs @ drop (i + 1) kvs)"
    by (rule leaf_viewI [OF b(2)]) (simp_all add: take_map drop_map v(2))
  then show ?thesis
    using b(1) by blast
qed

text \<open>Rebuilding a leaf with one record replaced.\<close>

lemma rebuild_leaf_loop_view:
  assumes v: "leaf_view leaf pid nxt kvs" and u: "uniform kl vl ((k, v) # kvs)" and sz: "sizes_ok kl vl"
    and slot: "slot < length kvs" and cap: "length kvs \<le> leaf_cap kl vl"
    and b: "leaf_view b pid nxt (take i (kvs[slot := (k, v)]))" and i: "i \<le> length kvs"
  shows "\<exists>b'. rebuild_leaf_loop leaf slot (encode_kv k v) [i..<length kvs] b = Some (Some b') \<and> leaf_view b' pid nxt (kvs[slot := (k, v)])"
  using i b
proof (induction "length kvs - i" arbitrary: i b)
  case 0
  then show ?case by simp
next
  case (Suc d)
  then have i: "i < length kvs" by simp
  let ?kvs = "kvs[slot := (k, v)]" and ?kv = "kvs[slot := (k, v)] ! i"
  have uk: "uniform kl vl ?kvs"
    using u by (auto simp: uniform_def dest: set_update_subset_insert [THEN subsetD])
  then have ut: "uniform kl vl (?kv # take i ?kvs)"
    using i nth_mem [of i ?kvs] by (auto simp: uniform_def dest: in_set_takeD)
  have rec: "(if i = slot then Some (encode_kv k v) else bt_key leaf i) = Some (kv_record ?kv)"
    using leaf_view_reads(8) [OF v, of i] i slot by simp
  have lt: "length (take i ?kvs) < leaf_cap kl vl"
    using i cap by simp
  have room: "has_room_for b (length (kv_record ?kv))"
    using leaf_has_room [OF Suc.prems(2), of kl vl "fst ?kv" "snd ?kv"] ut lt by simp
  obtain b1 where b1: "insert_raw b (kv_record ?kv) = Some (Some (length (take i ?kvs)), b1)"
    "leaf_view b1 pid nxt (take i ?kvs @ [?kv])"
    using leaf_insert_end [OF Suc.prems(2) ut sz lt] by blast
  have "take i ?kvs @ [?kv] = take (Suc i) ?kvs"
    using i by (simp add: take_Suc_conv_app_nth)
  then have "\<exists>b'. rebuild_leaf_loop leaf slot (encode_kv k v) [Suc i..<length kvs] b1 = Some (Some b') \<and> leaf_view b' pid nxt ?kvs"
    using Suc.hyps(1) [of "Suc i" b1] Suc.hyps(2) i b1(2) by simp
  then show ?case
    using i rec room b1(1) by (simp add: upt_conv_Cons)
qed

lemma rebuild_leaf_replacing_view:
  assumes v: "leaf_view leaf pid nxt kvs" and "uniform kl vl ((k, v) # kvs)" "sizes_ok kl vl"
    "slot < length kvs" "length kvs \<le> leaf_cap kl vl"
  shows "\<exists>b. rebuild_leaf_replacing leaf slot (encode_kv k v) = Some (Some b) \<and> leaf_view b pid nxt (kvs[slot := (k, v)])"
proof -
  note r = leaf_view_reads [OF v]
  have "leaf_view (set_siblings (new_leaf pid) p nxt) pid nxt (take 0 (kvs[slot := (k, v)]))" for p
    using leaf_view_siblings [OF leaf_view_new] by simp
  then show ?thesis
    using rebuild_leaf_loop_view [OF assms, of _ 0] r by (simp add: rebuild_leaf_replacing_def Let_def)
qed

lemma map_filter_nth: "List.map_filter (\<lambda>i. h (xs ! i)) [0..<length xs] = List.map_filter h xs"
proof -
  have m: "List.map_filter h (map g is) = List.map_filter (\<lambda>i. h (g i)) is" for g and "is" :: "nat list"
    by (induction "is") (auto simp: List.map_filter_simps split: option.split)
  show ?thesis
    using m [of "(!) xs" "[0..<length xs]"] by (simp add: map_nth)
qed

lemma map_filter_if: "List.map_filter (\<lambda>x. if P x then None else Some x) xs = filter (\<lambda>x. \<not> P x) xs"
  by (induction xs) (auto simp: List.map_filter_simps)

lemma map_filter_cong: "(\<And>x. x \<in> set xs \<Longrightarrow> f x = g x) \<Longrightarrow> List.map_filter f xs = List.map_filter g xs"
  by (induction xs) (auto simp: List.map_filter_simps split: option.splits)

lemma split_entries_eq:
  assumes "leaf_view leaf pid nxt kvs"
  shows "split_entries leaf k = filter (\<lambda>kv. fst kv \<noteq> k) kvs"
proof -
  obtain bh where v: "bt_view leaf pid BTreeLeaf bh (map kv_record kvs)"
    using assms by (auto simp: leaf_view_def)
  note r = leaf_view_reads [OF assms]
  have "split_entries leaf k = List.map_filter (\<lambda>i. if fst (kvs ! i) = k then None else Some (kvs ! i)) [0..<length kvs]"
    unfolding split_entries_def r(6)
  proof (rule map_filter_cong)
    fix i assume "i \<in> set [0..<length kvs]"
    then have i: "i < length kvs" by simp
    have l: "record_key_len (kv_record (kvs ! i)) = length (fst (kvs ! i))"
      using key_length_bound [OF v i] by simp
    have "bt_key leaf i = Some (kv_record (kvs ! i))"
      using r(8) [of i] i by simp
    then show "(case bt_key leaf i of
              None \<Rightarrow> None
            | Some kv \<Rightarrow>
                (if length kv < 2 then None
                 else let key_len = record_key_len kv in
                   if 2 + key_len > length kv \<or> slice kv 2 key_len = k then None
                   else Some (slice kv 2 key_len, drop (2 + key_len) kv)))
        = (if fst (kvs ! i) = k then None else Some (kvs ! i))"
      by (simp only: option.case Let_def l encode_kv_parts prod.collapse) simp
  qed
  also have "\<dots> = List.map_filter (\<lambda>kv. if fst kv = k then None else Some kv) kvs"
    using map_filter_nth [of "\<lambda>kv. if fst kv = k then None else Some kv" kvs] .
  also have "\<dots> = filter (\<lambda>kv. fst kv \<noteq> k) kvs"
    by (rule map_filter_if)
  finally show ?thesis .
qed

lemma split_sorted:
  assumes "sorted_kvs kvs"
  shows "sort_key fst (filter (\<lambda>kv. fst kv \<noteq> k) kvs @ [(k, v)]) = upsert k v kvs"
proof (rule sort_key_inj_key_eq)
  have d: "distinct (upsert k v kvs)" "distinct kvs"
    by (rule sorted_kvs_distinct [THEN distinct_map [THEN iffD1], THEN conjunct1], rule sorted_upsert, rule assms)
      (rule sorted_kvs_distinct [THEN distinct_map [THEN iffD1], THEN conjunct1], rule assms)
  have "set (filter (\<lambda>kv. fst kv \<noteq> k) kvs @ [(k, v)]) = set (upsert k v kvs)"
    unfolding set_upsert [OF assms, of k v] by auto
  moreover have "distinct (filter (\<lambda>kv. fst kv \<noteq> k) kvs @ [(k, v)])"
    using d(2) by auto
  ultimately show "mset (filter (\<lambda>kv. fst kv \<noteq> k) kvs @ [(k, v)]) = mset (upsert k v kvs)"
    using set_eq_iff_mset_eq_distinct [OF _ d(1)] by metis
  show "inj_on fst (set (filter (\<lambda>kv. fst kv \<noteq> k) kvs @ [(k, v)]))"
  proof -
    have "inj_on fst (set kvs)"
      using sorted_kvs_distinct [OF assms] by (simp add: distinct_map)
    then have "inj_on fst {kv \<in> set kvs. fst kv \<noteq> k}"
      by (rule inj_on_subset) auto
    moreover have "set (filter (\<lambda>kv. fst kv \<noteq> k) kvs @ [(k, v)]) = insert (k, v) {kv \<in> set kvs. fst kv \<noteq> k}"
      by auto
    ultimately show ?thesis
      by (simp only: inj_on_insert) auto
  qed
  show "sorted (map fst (upsert k v kvs))"
    by (rule strict_sorted_imp_sorted [OF sorted_upsert [OF assms]])
qed

end
