(* ===== verification/BTreeShape.thy ===== *)
theory BTreeShape
  imports BTreeNode
begin

text \<open>
  The tree a set of pages stands for. A \<open>gtree\<close> is the abstract tree; \<open>rep\<close> says that a page
  map represents it, \<open>gwf\<close> that it is a B+ tree: balanced, its separators dividing the keys,
  its nodes within their capacities. Searches and range scans over the pages are related to
  the entries of the tree.
\<close>

section \<open>Trees\<close>

datatype gtree =
    GLeaf (gid: u64) (gnext: u64) "(bytes \<times> bytes) list"
  | GNode (gid: u64) "bytes list" "gtree list"

primrec entries :: "gtree \<Rightarrow> (bytes \<times> bytes) list" where
  "entries (GLeaf pid nxt kvs) = kvs"
| "entries (GNode pid seps ts) = concat (map entries ts)"

primrec gpids :: "gtree \<Rightarrow> u64 list" where
  "gpids (GLeaf pid nxt kvs) = [pid]"
| "gpids (GNode pid seps ts) = pid # concat (map gpids ts)"

text \<open>The leaves from left to right: the page, the next page it names, and its entries.\<close>

primrec gleaves :: "gtree \<Rightarrow> (u64 \<times> u64 \<times> (bytes \<times> bytes) list) list" where
  "gleaves (GLeaf pid nxt kvs) = [(pid, nxt, kvs)]"
| "gleaves (GNode pid seps ts) = concat (map gleaves ts)"

fun leaf_kvs :: "u64 \<times> u64 \<times> (bytes \<times> bytes) list \<Rightarrow> (bytes \<times> bytes) list" where
  "leaf_kvs (pid, nxt, kvs) = kvs"

primrec rep :: "(u64 \<Rightarrow> bytes option) \<Rightarrow> gtree \<Rightarrow> bool" where
  "rep P (GLeaf pid nxt kvs) = (\<exists>b. P pid = Some b \<and> leaf_view b pid nxt kvs)"
| "rep P (GNode pid seps ts) =
     ((\<exists>b. P pid = Some b \<and> branch_view b pid seps (map gid ts)) \<and> list_all (rep P) ts)"

lemma gid_in_gpids [simp]: "gid t \<in> set (gpids t)"
  by (cases t) auto

lemma rep_cong: "(\<And>p. p \<in> set (gpids t) \<Longrightarrow> P p = Q p) \<Longrightarrow> rep P t = rep Q t"
proof (induction t)
  case (GNode pid seps ts)
  have "rep P t = rep Q t" if "t \<in> set ts" for t
    using GNode that by auto
  then have "list_all (rep P) ts = list_all (rep Q) ts"
    by (simp add: list_all_iff)
  then show ?case
    using GNode.prems by simp
qed simp

text \<open>Following the next pointers: each leaf names the one to its right, the last one \<open>z\<close>.\<close>

fun first_leaf :: "(u64 \<times> 'a) list \<Rightarrow> u64 \<Rightarrow> u64" where
  "first_leaf [] z = z"
| "first_leaf (l # ls) z = fst l"

fun chained :: "(u64 \<times> u64 \<times> 'a) list \<Rightarrow> u64 \<Rightarrow> bool" where
  "chained [] z = True"
| "chained ((pid, nxt, kvs) # ls) z = (nxt = first_leaf ls z \<and> chained ls z)"

lemma first_leaf_append: "first_leaf (xs @ ys) z = first_leaf xs (first_leaf ys z)"
  by (cases xs) auto

lemma chained_append: "chained (xs @ ys) z \<longleftrightarrow> chained xs (first_leaf ys z) \<and> chained ys z"
  by (induction xs) (auto simp: first_leaf_append)

section \<open>Ordered tilings\<close>

definition below :: "bytes \<Rightarrow> bytes option \<Rightarrow> bool" where
  "below k hi = (case hi of None \<Rightarrow> True | Some s \<Rightarrow> k < s)"

lemma below_simps [simp]: "below k None" "below k (Some s) \<longleftrightarrow> k < s"
  by (simp_all add: below_def)

definition upto :: "bytes \<Rightarrow> bytes option \<Rightarrow> bool" where
  "upto lo hi = (case hi of None \<Rightarrow> True | Some s \<Rightarrow> lo \<le> s)"

lemma upto_simps [simp]: "upto lo None" "upto lo (Some s) \<longleftrightarrow> lo \<le> s"
  by (simp_all add: upto_def)

text \<open>Separators and subtrees that cover the keys from \<open>lo\<close> up to \<open>hi\<close>.\<close>

fun tiled :: "(bytes \<Rightarrow> bytes option \<Rightarrow> 'a \<Rightarrow> bool) \<Rightarrow> bytes \<Rightarrow> bytes option \<Rightarrow> bytes list \<Rightarrow> 'a list \<Rightarrow> bool" where
  "tiled P lo hi [] [t] = (upto lo hi \<and> P lo hi t)"
| "tiled P lo hi (s # ss) (t # ts) = (lo \<le> s \<and> P lo (Some s) t \<and> tiled P s hi ss ts)"
| "tiled P lo hi _ _ = False"

lemma tiled_length: "tiled P lo hi ss ts \<Longrightarrow> length ts = length ss + 1"
  by (induction P lo hi ss ts rule: tiled.induct) auto

lemma tiled_Cons_iff: "tiled P lo hi (s # ss) ts \<longleftrightarrow> (\<exists>t ts'. ts = t # ts' \<and> lo \<le> s \<and> P lo (Some s) t \<and> tiled P s hi ss ts')"
  by (cases ts) auto

lemma tiled_Nil_iff: "tiled P lo hi [] ts \<longleftrightarrow> (\<exists>t. ts = [t] \<and> upto lo hi \<and> P lo hi t)"
  by (cases ts rule: remdups_adj.cases) auto

lemma upto_trans: "lo \<le> s \<Longrightarrow> upto s hi \<Longrightarrow> upto lo hi"
  by (cases hi) auto

lemma tiled_sorted: "tiled P lo hi ss ts \<Longrightarrow> sorted ss \<and> (\<forall>s \<in> set ss. lo \<le> s \<and> upto s hi) \<and> upto lo hi"
  by (induction P lo hi ss ts rule: tiled.induct) (auto intro: upto_trans)

lemma tiled_mono:
  "tiled P lo hi ss ts \<Longrightarrow> (\<And>lo hi t. t \<in> set ts \<Longrightarrow> P lo hi t \<Longrightarrow> Q lo hi t) \<Longrightarrow> tiled Q lo hi ss ts"
  by (induction P lo hi ss ts rule: tiled.induct) auto

text \<open>A tiling is cut at a separator and glued together there.\<close>

lemma tiled_glue:
  "tiled P lo (Some s) ss ts \<Longrightarrow> tiled P s hi ss' ts' \<Longrightarrow> tiled P lo hi (ss @ s # ss') (ts @ ts')"
proof (induction ss arbitrary: lo ts)
  case Nil
  then show ?case by (auto simp: tiled_Nil_iff)
next
  case (Cons s1 ss)
  then show ?case by (fastforce simp: tiled_Cons_iff)
qed

lemma tiled_cut:
  assumes "tiled P lo hi (ss @ s # ss') ts"
  shows "tiled P lo (Some s) ss (take (length ss + 1) ts) \<and> tiled P s hi ss' (drop (length ss + 1) ts)"
  using assms
proof (induction ss arbitrary: lo ts)
  case (Cons s1 ss)
  then show ?case
    by (fastforce simp: tiled_Cons_iff)
qed (auto simp: tiled_Cons_iff)

lemma tiled_cut_at:
  assumes "tiled P lo hi seps ts" "j < length seps"
  shows "tiled P lo (Some (seps ! j)) (take j seps) (take (Suc j) ts)" "tiled P (seps ! j) hi (drop (Suc j) seps) (drop (Suc j) ts)"
proof -
  have "tiled P lo hi (take j seps @ seps ! j # drop (Suc j) seps) ts"
    using assms(1) unfolding id_take_nth_drop [OF assms(2), symmetric] .
  from tiled_cut [OF this] show "tiled P lo (Some (seps ! j)) (take j seps) (take (Suc j) ts)"
    "tiled P (seps ! j) hi (drop (Suc j) seps) (drop (Suc j) ts)"
    using assms(2) by (simp_all add: min_def)
qed

text \<open>The subtree at a position, its bounds, and what may stand in its place.\<close>

lemma tiled_focus:
  assumes "tiled P lo hi seps ts" "i \<le> length seps"
  obtains lo' hi' where "P lo' hi' (ts ! i)"
    "lo' = (if i = 0 then lo else seps ! (i - 1))" "hi' = (if i = length seps then hi else Some (seps ! i))"
    "\<And>ss gs. tiled P lo' hi' ss gs \<Longrightarrow>
      tiled P lo hi (take i seps @ ss @ drop i seps) (take i ts @ gs @ drop (Suc i) ts)"
proof -
  have "P (if i = 0 then lo else seps ! (i - 1)) (if i = length seps then hi else Some (seps ! i)) (ts ! i) \<and>
    (\<forall>ss gs. tiled P (if i = 0 then lo else seps ! (i - 1)) (if i = length seps then hi else Some (seps ! i)) ss gs \<longrightarrow>
      tiled P lo hi (take i seps @ ss @ drop i seps) (take i ts @ gs @ drop (Suc i) ts))"
    using assms
  proof (induction i arbitrary: lo seps ts)
    case 0
    show ?case
    proof (cases seps)
      case Nil
      then show ?thesis using 0 by (auto simp: tiled_Nil_iff)
    next
      case (Cons s ss)
      then show ?thesis
        using 0 tiled_glue by (fastforce simp: tiled_Cons_iff)
    qed
  next
    case (Suc i)
    then obtain s ss where s: "seps = s # ss" by (cases seps) auto
    then obtain t ts' where t: "ts = t # ts'" "lo \<le> s" "P lo (Some s) t" "tiled P s hi ss ts'"
      using Suc.prems by (auto simp: tiled_Cons_iff)
    show ?case
      using Suc.IH [OF t(4)] Suc.prems(2) s t by (cases i) auto
  qed
  then show ?thesis using that by blast
qed

section \<open>B+ trees\<close>

fun gwf :: "nat \<Rightarrow> nat \<Rightarrow> nat \<Rightarrow> bytes \<Rightarrow> bytes option \<Rightarrow> gtree \<Rightarrow> bool" where
  "gwf kl vl 0 lo hi (GLeaf pid nxt kvs) =
     (sorted_kvs kvs \<and> (\<forall>kv \<in> set kvs. lo \<le> fst kv \<and> below (fst kv) hi) \<and> uniform kl vl kvs \<and>
      length kvs \<le> leaf_cap kl vl)"
| "gwf kl vl (Suc h) lo hi (GNode pid seps ts) =
     (tiled (gwf kl vl h) lo hi seps ts \<and> seps \<noteq> [] \<and> length seps \<le> branch_cap kl \<and>
      (\<forall>s \<in> set seps. length s = kl))"
| "gwf kl vl h lo hi t = False"

lemma gwf_leafE:
  assumes "gwf kl vl 0 lo hi t"
  obtains pid nxt kvs where "t = GLeaf pid nxt kvs" "sorted_kvs kvs" "\<forall>kv \<in> set kvs. lo \<le> fst kv \<and> below (fst kv) hi"
    "uniform kl vl kvs" "length kvs \<le> leaf_cap kl vl"
  using assms by (cases t) auto

lemma gwf_nodeE:
  assumes "gwf kl vl (Suc h) lo hi t"
  obtains pid seps ts where "t = GNode pid seps ts" "tiled (gwf kl vl h) lo hi seps ts" "seps \<noteq> []"
    "length seps \<le> branch_cap kl" "\<forall>s \<in> set seps. length s = kl"
  using assms by (cases t) auto

text \<open>Entries in order and within bounds.\<close>

definition ranged :: "bytes \<Rightarrow> bytes option \<Rightarrow> (bytes \<times> bytes) list \<Rightarrow> bool" where
  "ranged lo hi kvs \<longleftrightarrow> sorted_kvs kvs \<and> (\<forall>kv \<in> set kvs. lo \<le> fst kv \<and> below (fst kv) hi)"

lemma below_upto: "k < s \<Longrightarrow> upto s hi \<Longrightarrow> below k hi"
  by (cases hi) auto

lemma ranged_append:
  assumes "ranged lo (Some s) xs" "ranged s hi ys" "lo \<le> s" "upto s hi"
  shows "ranged lo hi (xs @ ys)"
proof -
  have x: "lo \<le> fst x" "fst x < s" if "x \<in> set xs" for x
    using assms(1) that by (simp_all add: ranged_def)
  have y: "s \<le> fst y" "below (fst y) hi" if "y \<in> set ys" for y
    using assms(2) that by (simp_all add: ranged_def)
  have "fst x < fst y" if "x \<in> set xs" "y \<in> set ys" for x y
    using x(2) [OF that(1)] y(1) [OF that(2)] by (rule order_less_le_trans)
  then have "sorted_kvs (xs @ ys)"
    using assms(1,2) by (auto simp: ranged_def sorted_wrt_append)
  moreover have "lo \<le> fst y" if "y \<in> set ys" for y
    using assms(3) y(1) [OF that] by (rule order_trans)
  moreover have "below (fst x) hi" if "x \<in> set xs" for x
    by (rule below_upto [OF x(2) [OF that] assms(4)])
  ultimately show ?thesis
    unfolding ranged_def set_append ball_Un using x(1) y(2) by blast
qed

lemma tiled_ranged:
  "tiled P lo hi ss ts \<Longrightarrow> (\<And>lo hi t. t \<in> set ts \<Longrightarrow> P lo hi t \<Longrightarrow> ranged lo hi (entries t)) \<Longrightarrow>
    ranged lo hi (concat (map entries ts))"
proof (induction P lo hi ss ts rule: tiled.induct)
  case (2 P lo hi s ss t ts)
  then show ?case
    using ranged_append [of lo s "entries t" hi "concat (map entries ts)"] tiled_sorted [of P s hi ss ts] by auto
qed auto

lemma gwf_ranged: "gwf kl vl h lo hi t \<Longrightarrow> ranged lo hi (entries t)"
proof (induction h arbitrary: lo hi t)
  case 0
  show ?case
    by (rule gwf_leafE [OF 0]) (simp add: ranged_def)
next
  case (Suc h)
  obtain pid seps ts where t: "t = GNode pid seps ts" "tiled (gwf kl vl h) lo hi seps ts"
    by (rule gwf_nodeE [OF Suc.prems])
  show ?case
    unfolding t(1) entries.simps by (rule tiled_ranged [OF t(2)]) (rule Suc.IH)
qed

lemma tiled_set:
  "tiled P lo hi ss ts \<Longrightarrow> t \<in> set ts \<Longrightarrow> \<exists>lo' hi'. P lo' hi' t"
  by (induction P lo hi ss ts rule: tiled.induct) auto

lemma gwf_uniform: "gwf kl vl h lo hi t \<Longrightarrow> uniform kl vl (entries t)"
proof (induction h arbitrary: lo hi t)
  case 0
  show ?case
    by (rule gwf_leafE [OF 0]) simp
next
  case (Suc h)
  obtain pid seps ts where t: "t = GNode pid seps ts" "tiled (gwf kl vl h) lo hi seps ts"
    by (rule gwf_nodeE [OF Suc.prems])
  have "uniform kl vl (entries t')" if "t' \<in> set ts" for t'
    using tiled_set [OF t(2) that] Suc.IH by blast
  then show ?case
    unfolding t(1) entries.simps uniform_def by simp
qed

section \<open>The leaf of a key\<close>

fun leaf_for :: "nat \<Rightarrow> bytes \<Rightarrow> gtree \<Rightarrow> gtree" where
  "leaf_for (Suc h) key (GNode pid seps ts) = leaf_for h key (ts ! child_index key seps)"
| "leaf_for h key t = t"

text \<open>Among the children of a node, the key belongs to the one \<open>child_index\<close> names.\<close>

lemma child_index_bounds:
  assumes "tiled P lo hi seps ts" "lo \<le> key" "below key hi"
  defines "i \<equiv> child_index key seps"
  shows "(if i = 0 then lo else seps ! (i - 1)) \<le> key" "below key (if i = length seps then hi else Some (seps ! i))"
    "i < length ts"
proof -
  show "i < length ts"
    using tiled_length [OF assms(1)] child_index_le [of key seps] unfolding i_def by linarith
  have "seps ! (i - 1) \<le> key" if "i \<noteq> 0"
    using that set_takeWhileD [of "takeWhile (\<lambda>s. s \<le> key) seps ! (i - 1)" "\<lambda>s. s \<le> key" seps]
      nth_mem [of "i - 1" "takeWhile (\<lambda>s. s \<le> key) seps"] takeWhile_nth [of "i - 1" "\<lambda>s. s \<le> key" seps]
    by (simp add: i_def child_index_def)
  then show "(if i = 0 then lo else seps ! (i - 1)) \<le> key"
    using assms(2) by simp
  have "key < seps ! i" if "i \<noteq> length seps"
    using that nth_length_takeWhile [of "\<lambda>s. s \<le> key" seps] child_index_le [of key seps]
    by (simp add: i_def child_index_def)
  then show "below key (if i = length seps then hi else Some (seps ! i))"
    using assms(3) by simp
qed

text \<open>The entries left of a position are below its lower bound, those right of it are not below
  its upper bound.\<close>

lemma tiled_neighbours:
  assumes t: "tiled P lo hi seps ts" and i: "i \<le> length seps"
    and P: "\<And>lo hi t. t \<in> set ts \<Longrightarrow> P lo hi t \<Longrightarrow> ranged lo hi (entries t)"
  shows "\<forall>kv \<in> set (concat (map entries (take i ts))). fst kv < (if i = 0 then lo else seps ! (i - 1))"
    "\<forall>kv \<in> set (concat (map entries (drop (Suc i) ts))). \<forall>k. below k (if i = length seps then hi else Some (seps ! i)) \<longrightarrow> k < fst kv"
proof -
  show "\<forall>kv \<in> set (concat (map entries (take i ts))). fst kv < (if i = 0 then lo else seps ! (i - 1))"
  proof (cases "i = 0")
    case False
    then have "tiled P lo (Some (seps ! (i - 1))) (take (i - 1) seps) (take i ts)"
      using tiled_cut_at(1) [OF t, of "i - 1"] i by simp
    then have "ranged lo (Some (seps ! (i - 1))) (concat (map entries (take i ts)))"
      by (rule tiled_ranged) (rule P [OF in_set_takeD])
    then show ?thesis
      using False by (simp add: ranged_def)
  qed simp
  show "\<forall>kv \<in> set (concat (map entries (drop (Suc i) ts))). \<forall>k. below k (if i = length seps then hi else Some (seps ! i)) \<longrightarrow> k < fst kv"
  proof (cases "i = length seps")
    case True
    then show ?thesis
      using tiled_length [OF t] by simp
  next
    case False
    then have "tiled P (seps ! i) hi (drop (Suc i) seps) (drop (Suc i) ts)"
      using tiled_cut_at(2) [OF t, of i] i by simp
    then have "ranged (seps ! i) hi (concat (map entries (drop (Suc i) ts)))"
      by (rule tiled_ranged) (rule P [OF in_set_dropD])
    then have le: "seps ! i \<le> fst kv" if "kv \<in> set (concat (map entries (drop (Suc i) ts)))" for kv
      using that unfolding ranged_def by blast
    show ?thesis
    proof (intro ballI allI impI)
      fix kv k
      assume "kv \<in> set (concat (map entries (drop (Suc i) ts)))" "below k (if i = length seps then hi else Some (seps ! i))"
      then show "k < fst kv"
        using le order_less_le_trans [of k "seps ! i" "fst kv"] False by simp
    qed
  qed
qed

lemma gwf_neighbours:
  assumes "tiled (gwf kl vl h) lo hi seps ts" "i \<le> length seps"
  shows "kv \<in> set (concat (map entries (take i ts))) \<Longrightarrow> fst kv < (if i = 0 then lo else seps ! (i - 1))"
    "kv \<in> set (concat (map entries (drop (Suc i) ts))) \<Longrightarrow> below k (if i = length seps then hi else Some (seps ! i)) \<Longrightarrow> k < fst kv"
proof -
  have P: "\<And>lo hi t. t \<in> set ts \<Longrightarrow> gwf kl vl h lo hi t \<Longrightarrow> ranged lo hi (entries t)"
    by (rule gwf_ranged)
  show "kv \<in> set (concat (map entries (take i ts))) \<Longrightarrow> fst kv < (if i = 0 then lo else seps ! (i - 1))"
    by (rule tiled_neighbours(1) [OF assms P, rule_format])
  show "kv \<in> set (concat (map entries (drop (Suc i) ts))) \<Longrightarrow> below k (if i = length seps then hi else Some (seps ! i)) \<Longrightarrow> k < fst kv"
    by (rule tiled_neighbours(2) [OF assms P, rule_format])
qed

text \<open>The entries of a node around those of a child.\<close>

lemma entries_around: "i < length ts \<Longrightarrow> concat (map entries ts) =
    concat (map entries (take i ts)) @ entries (ts ! i) @ concat (map entries (drop (Suc i) ts))"
  by (subst id_take_nth_drop [of i ts]) simp_all

lemma entries_gleaves: "entries t = concat (map (leaf_kvs) (gleaves t))"
proof (induction t)
  case (GNode pid seps ts)
  then have "map entries ts = map (\<lambda>t. concat (map (leaf_kvs) (gleaves t))) ts"
    by (simp cong: map_cong)
  moreover have "concat (map (\<lambda>t. concat (map (leaf_kvs) (gleaves t))) us) = concat (map (leaf_kvs) (concat (map gleaves us)))" for us
    by (induction us) auto
  ultimately show ?case
    by (simp only: entries.simps gleaves.simps)
qed simp

lemma gleaves_around: "i < length ts \<Longrightarrow> concat (map gleaves ts) =
    concat (map gleaves (take i ts)) @ gleaves (ts ! i) @ concat (map gleaves (drop (Suc i) ts))"
  by (subst id_take_nth_drop [of i ts]) simp_all

lemma leaf_entries_in:
  assumes "l \<in> set (concat (map gleaves ts))" "kv \<in> set (leaf_kvs l)"
  shows "kv \<in> set (concat (map entries ts))"
proof -
  obtain t where "t \<in> set ts" "l \<in> set (gleaves t)"
    using assms(1) by auto
  then have "kv \<in> set (entries t)"
    using assms(2) unfolding entries_gleaves by auto
  then show ?thesis
    using \<open>t \<in> set ts\<close> by auto
qed

lemma leaf_for_split:
  assumes "gwf kl vl h lo hi t" "lo \<le> key" "below key hi"
  shows "\<exists>pid nxt kvs A D. leaf_for h key t = GLeaf pid nxt kvs \<and> sorted_kvs kvs \<and> gleaves t = A @ (pid, nxt, kvs) # D \<and>
    (\<forall>l \<in> set A. \<forall>kv \<in> set (leaf_kvs l). fst kv < key) \<and> (\<forall>l \<in> set D. \<forall>kv \<in> set (leaf_kvs l). key < fst kv)"
  using assms
proof (induction h arbitrary: lo hi t)
  case 0
  obtain pid nxt kvs where "t = GLeaf pid nxt kvs" "sorted_kvs kvs"
    by (rule gwf_leafE [OF 0(1)])
  then show ?case
    by (intro exI [of _ pid] exI [of _ nxt] exI [of _ kvs] exI [of _ "[]"]) simp
next
  case (Suc h)
  obtain pid seps ts where t: "t = GNode pid seps ts" "tiled (gwf kl vl h) lo hi seps ts"
    by (rule gwf_nodeE [OF Suc.prems(1)])
  define i where "i = child_index key seps"
  note ib = child_index_bounds [OF t(2) Suc.prems(2,3), folded i_def]
  have le: "i \<le> length seps" by (simp add: i_def)
  obtain lo' hi' where f: "gwf kl vl h lo' hi' (ts ! i)"
    "lo' = (if i = 0 then lo else seps ! (i - 1))" "hi' = (if i = length seps then hi else Some (seps ! i))"
    by (rule tiled_focus [OF t(2) le])
  note nb = gwf_neighbours [OF t(2) le]
  let ?A = "concat (map gleaves (take i ts))" and ?D = "concat (map gleaves (drop (Suc i) ts))"
  have A: "\<forall>l \<in> set ?A. \<forall>kv \<in> set (leaf_kvs l). fst kv < key"
    by (intro ballI order_less_le_trans [OF _ ib(1)]) (rule nb(1), erule (1) leaf_entries_in)
  have D: "\<forall>l \<in> set ?D. \<forall>kv \<in> set (leaf_kvs l). key < fst kv"
    by (intro ballI) (rule nb(2) [OF _ ib(2)], erule (1) leaf_entries_in)
  obtain pid' nxt kvs A' D' where r: "leaf_for h key (ts ! i) = GLeaf pid' nxt kvs" "sorted_kvs kvs"
    "gleaves (ts ! i) = A' @ (pid', nxt, kvs) # D'"
    "\<forall>l \<in> set A'. \<forall>kv \<in> set (leaf_kvs l). fst kv < key" "\<forall>l \<in> set D'. \<forall>kv \<in> set (leaf_kvs l). key < fst kv"
    using Suc.IH [OF f(1) ib(1) [folded f(2)] ib(2) [folded f(3)]] by blast
  have "gleaves t = (?A @ A') @ (pid', nxt, kvs) # (D' @ ?D)"
    using gleaves_around [OF ib(3)] r(3) by (simp add: t(1))
  moreover have "\<forall>l \<in> set (?A @ A'). \<forall>kv \<in> set (leaf_kvs l). fst kv < key"
    "\<forall>l \<in> set (D' @ ?D). \<forall>kv \<in> set (leaf_kvs l). key < fst kv"
    using A D r(4,5) unfolding set_append ball_Un by blast+
  moreover have "leaf_for (Suc h) key t = GLeaf pid' nxt kvs"
    using r(1) by (simp add: t(1) i_def)
  ultimately show ?case
    using r(2) by blast
qed

lemma map_of_middle:
  assumes "\<forall>l \<in> set A. \<forall>kv \<in> set (leaf_kvs l). fst kv < key" "\<forall>l \<in> set D. \<forall>kv \<in> set (leaf_kvs l). key < fst kv"
  shows "map_of (concat (map (leaf_kvs) (A @ (pid, nxt, kvs) # D))) key = map_of kvs (key :: bytes)"
proof -
  have "map_of (concat (map (leaf_kvs) A)) key = None" "map_of (concat (map (leaf_kvs) D)) key = None"
    using assms by (auto simp: map_of_eq_None_iff)
  then show ?thesis
    by (simp add: map_add_def split: option.split)
qed

section \<open>Descent over the pages\<close>

lemma rep_nodeD:
  assumes "rep P (GNode pid seps ts)"
  shows "\<exists>b. P pid = Some b \<and> branch_view b pid seps (map gid ts)" "t \<in> set ts \<Longrightarrow> rep P t"
  using assms by (auto simp: list_all_iff)

lemma rep_page: "rep P t \<Longrightarrow> \<exists>b. P (gid t) = Some b"
  by (cases t) auto

lemma find_leaf_loop_eq:
  assumes "gwf kl vl h lo hi g" "rep (bt_pages t) g" "bt_pages t (gid g) = Some b" "fst (last path) = gid g"
  shows "\<exists>path'. find_leaf_loop t key b path = Some (Some (gid (leaf_for h key g), path'))"
  using assms
proof (induction h arbitrary: lo hi g b path)
  case 0
  obtain pid nxt kvs where g: "g = GLeaf pid nxt kvs"
    by (rule gwf_leafE [OF 0(1)])
  then have "\<not> is_branch b"
    using 0(2,3) leaf_view_reads(3) by auto
  then show ?case
    using 0(4) g by (subst find_leaf_loop.simps) simp
next
  case (Suc h)
  obtain pid seps ts where g: "g = GNode pid seps ts" "tiled (gwf kl vl h) lo hi seps ts"
    by (rule gwf_nodeE [OF Suc.prems(1)])
  have v: "branch_view b pid seps (map gid ts)"
    using rep_nodeD(1) [OF Suc.prems(2) [unfolded g(1)]] Suc.prems(3) g(1) by auto
  let ?i = "child_index key seps"
  have i: "?i \<le> length seps" "?i < length ts"
    using child_index_le [of key seps] tiled_length [OF g(2)] by (auto simp del: child_index_le)
  have slot: "branch_child b key = Some (gid (ts ! ?i))"
    using branch_slot_eq [OF v] tiled_sorted [OF g(2)] i(2) by (simp add: branch_child_def)
  have r: "rep (bt_pages t) (ts ! ?i)"
    using rep_nodeD(2) [OF Suc.prems(2) [unfolded g(1)]] i(2) by simp
  obtain c where c: "bt_pages t (gid (ts ! ?i)) = Some c"
    using rep_page [OF r] by blast
  obtain lo' hi' where w: "gwf kl vl h lo' hi' (ts ! ?i)"
    by (rule tiled_focus [OF g(2) i(1)])
  have "\<exists>path'. find_leaf_loop t key c (path @ [(gid (ts ! ?i), page_lsn (page_header_of c))])
      = Some (Some (gid (leaf_for h key (ts ! ?i)), path'))"
    by (rule Suc.IH [OF w r c]) simp
  then show ?case
    using branch_view_reads(4) [OF v] slot c g(1)
    by (subst find_leaf_loop.simps) (simp add: get_page_def)
qed

section \<open>Trees in memory\<close>

text \<open>The pages of the tree represent \<open>g\<close>: a B+ tree whose pages are distinct, none is page 0, all
  have been allocated, and whose leaves are chained from left to right.\<close>

definition btree_ok :: "nat \<Rightarrow> nat \<Rightarrow> nat \<Rightarrow> gtree \<Rightarrow> btree \<Rightarrow> bool" where
  "btree_ok kl vl h g t \<longleftrightarrow> gwf kl vl h [] None g \<and> rep (bt_pages t) g \<and> root_page_id t = gid g \<and>
     distinct (gpids g) \<and> (\<forall>p \<in> set (gpids g). p \<noteq> 0 \<and> p < next_page_id t) \<and> chained (gleaves g) 0"

lemma btree_ok_new: "sizes_ok kl vl \<Longrightarrow> btree_ok kl vl 0 (GLeaf 1 0 []) btree_new"
  using leaf_view_new [of 1] by (simp add: btree_ok_def btree_new_def)

lemma rep_leaf:
  "rep P g \<Longrightarrow> (pid, nxt, kvs) \<in> set (gleaves g) \<Longrightarrow> \<exists>b. P pid = Some b \<and> leaf_view b pid nxt kvs"
  by (induction g) (auto simp: list_all_iff)

lemma leaf_pids: "l \<in> set (gleaves g) \<Longrightarrow> fst l \<in> set (gpids g)"
  by (induction g) auto

text \<open>A search finds the leaf entry of a key that is there, and nothing for any other key.\<close>

lemma search_spec:
  assumes "btree_ok kl vl h g t"
  shows "\<exists>r. search t key = Some r \<and>
    (case r of
       None \<Rightarrow> map_of (entries g) key = None
     | Some (pid, slot) \<Rightarrow> \<exists>b v. get_page t pid = Some b \<and> leaf_key b slot = Some key \<and> leaf_value b slot = Some v \<and>
         map_of (entries g) key = Some v)"
proof -
  have w: "gwf kl vl h [] None g" "rep (bt_pages t) g" "root_page_id t = gid g"
    using assms by (simp_all add: btree_ok_def)
  obtain root where root: "bt_pages t (gid g) = Some root"
    using rep_page [OF w(2)] by blast
  obtain pid nxt kvs A D where l: "leaf_for h key g = GLeaf pid nxt kvs" "sorted_kvs kvs" "gleaves g = A @ (pid, nxt, kvs) # D"
    "\<forall>l \<in> set A. \<forall>kv \<in> set (leaf_kvs l). fst kv < key" "\<forall>l \<in> set D. \<forall>kv \<in> set (leaf_kvs l). key < fst kv"
    using leaf_for_split [OF w(1), of key] by auto
  have m: "map_of (entries g) key = map_of kvs key"
    unfolding entries_gleaves l(3) by (rule map_of_middle [OF l(4,5)])
  have "page_id (page_header_of root) = gid g"
    using w(2) root leaf_view_reads(1) branch_view_reads(2) by (cases g) auto
  then obtain path where f: "find_leaf t root key = Some (Some (pid, path))"
    using find_leaf_loop_eq [OF w(1,2) root, of _ key] l(1) by (fastforce simp: find_leaf_def)
  obtain b where b: "bt_pages t pid = Some b" "leaf_view b pid nxt kvs"
    using rep_leaf [OF w(2), of pid nxt kvs] l(3) by auto
  define slot where "slot = leaf_lower_bound b key"
  have s: "search t key = Some (if leaf_key b slot = Some key then Some (pid, slot) else None)"
    using root f b(1) w(3) by (simp add: search_def search_unlatched_def get_page_def slot_def Let_def)
  show ?thesis
  proof (cases "key \<in> fst ` set kvs")
    case True
    then obtain v where v: "map_of kvs key = Some v"
      by (metis not_None_eq map_of_eq_None_iff)
    then show ?thesis
      using s m leaf_search [OF b(2) l(2), of key] True b(1) by (simp add: slot_def get_page_def)
  next
    case False
    then have "map_of kvs key = None"
      by (simp add: map_of_eq_None_iff)
    then show ?thesis
      using s m leaf_search(1) [OF b(2) l(2), of key] False by (simp add: slot_def)
  qed
qed

section \<open>Range scans\<close>

definition in_range :: "bytes \<Rightarrow> bytes \<Rightarrow> (bytes \<times> bytes) \<Rightarrow> bool" where
  "in_range start end_key kv \<longleftrightarrow> start \<le> fst kv \<and> fst kv < end_key"

lemma filter_none: "(\<And>x. x \<in> set xs \<Longrightarrow> \<not> P x) \<Longrightarrow> filter P xs = []"
  by (induction xs) auto

lemma scan_slots_eq:
  assumes "leaf_view leaf pid nxt kvs" "sorted_kvs kvs" "i \<le> length kvs"
  shows "scan_slots leaf start end_key [i..<length kvs] =
    (filter (in_range start end_key) (drop i kvs), \<exists>kv \<in> set (drop i kvs). start \<le> fst kv \<and> end_key \<le> fst kv)"
  using assms(3)
proof (induction "length kvs - i" arbitrary: i)
  case (Suc d)
  then have i: "i < length kvs" by simp
  have IH: "scan_slots leaf start end_key [Suc i..<length kvs] =
    (filter (in_range start end_key) (drop (Suc i) kvs), \<exists>kv \<in> set (drop (Suc i) kvs). start \<le> fst kv \<and> end_key \<le> fst kv)"
    using Suc by simp
  have d: "drop i kvs = kvs ! i # drop (Suc i) kvs"
    using i by (simp add: Cons_nth_drop_Suc)
  note r = leaf_view_reads(9,10) [OF assms(1), of i]
  let ?k = "fst (kvs ! i)"
  have "sorted_kvs (drop i kvs)"
    using sorted_wrt_drop [OF assms(2), of i] by (simp add: drop_map)
  then have later: "?k < fst kv" if "kv \<in> set (drop (Suc i) kvs)" for kv
    using that unfolding d by simp
  consider (low) "?k < start" | (stop) "start \<le> ?k" "end_key \<le> ?k" | (hit) "start \<le> ?k" "?k < end_key"
    by fastforce
  then show ?case
  proof cases
    case low
    then have "\<not> start \<le> ?k" by simp
    then show ?thesis
      using low IH r i by (simp add: upt_conv_Cons d in_range_def)
  next
    case stop
    have "\<not> in_range start end_key kv" if "kv \<in> set (drop (Suc i) kvs)" for kv
      using order_trans [OF stop(2) less_imp_le [OF later [OF that]]] by (simp add: in_range_def leD)
    then have "filter (in_range start end_key) (drop i kvs) = []"
      unfolding d using stop(2) by (simp add: in_range_def filter_none leD)
    then show ?thesis
      using r i stop by (simp add: upt_conv_Cons d leD)
  next
    case hit
    then show ?thesis
      using IH r i by (simp add: upt_conv_Cons d in_range_def leD Let_def)
  qed
qed simp

text \<open>The scan follows the chain of leaves and collects the entries in range.\<close>

lemma range_loop_eq:
  assumes "\<forall>l \<in> set ls. \<exists>b. bt_pages t (fst l) = Some b \<and> leaf_view b (fst l) (fst (snd l)) (leaf_kvs l)"
    and "chained ls 0" "\<forall>l \<in> set ls. fst l \<noteq> 0" "sorted_kvs (concat (map (leaf_kvs) ls))" "ls \<noteq> []"
  shows "range_loop t start end_key (fst (hd ls)) results =
    Some (results @ filter (in_range start end_key) (concat (map (leaf_kvs) ls)))"
  using assms
proof (induction ls arbitrary: results)
  case (Cons l ls)
  obtain pid nxt kvs where l: "l = (pid, nxt, kvs)" by (cases l)
  obtain b where b: "bt_pages t pid = Some b" "leaf_view b pid nxt kvs"
    using Cons.prems(1) by (auto simp: l)
  note r = leaf_view_reads [OF b(2)]
  let ?es = "concat (map (leaf_kvs) ls)"
  have lt: "fst x < fst y" if "x \<in> set kvs" "y \<in> set ?es" for x y
    using Cons.prems(4) that by (auto simp: l sorted_wrt_append)
  define stop where "stop \<longleftrightarrow> (\<exists>kv \<in> set kvs. start \<le> fst kv \<and> end_key \<le> fst kv)"
  have sc: "scan_slots b start end_key [0..<length kvs] = (filter (in_range start end_key) kvs, stop)"
    using scan_slots_eq [OF b(2), of 0] Cons.prems(4) by (simp add: l sorted_wrt_append stop_def)
  show ?case
  proof (cases "stop \<or> nxt = 0")
    case True
    have "filter (in_range start end_key) ?es = []"
    proof (cases ls)
      case (Cons l' ls')
      have "nxt \<noteq> 0"
        using Cons.prems(2,3) by (simp add: l Cons)
      then obtain x where x: "x \<in> set kvs" "end_key \<le> fst x"
        using True by (auto simp: stop_def)
      show ?thesis
      proof (rule filter_none)
        fix y assume "y \<in> set ?es"
        then have "end_key \<le> fst y"
          using lt [OF x(1)] x(2) by (meson less_imp_le order_trans)
        then show "\<not> in_range start end_key y"
          by (simp add: in_range_def leD)
      qed
    qed simp
    then show ?thesis
      using b(1) sc True r by (subst range_loop.simps) (simp add: l get_page_def Let_def)
  next
    case False
    then obtain l' ls' where ls: "ls = l' # ls'"
      using Cons.prems(2) by (cases ls) (auto simp: l)
    then have "nxt = fst (hd ls)"
      using Cons.prems(2) by (simp add: l)
    moreover have "range_loop t start end_key (fst (hd ls)) (results @ filter (in_range start end_key) kvs) =
      Some ((results @ filter (in_range start end_key) kvs) @ filter (in_range start end_key) ?es)"
      by (rule Cons.IH) (use Cons.prems ls in \<open>auto simp: l sorted_wrt_append\<close>)
    ultimately show ?thesis
      using b(1) sc False r by (subst range_loop.simps) (simp add: l get_page_def Let_def)
  qed
qed simp

lemma chained_suffix: "chained (xs @ ys) z \<Longrightarrow> chained ys z"
  by (simp add: chained_append)

lemma range_search_spec:
  assumes "btree_ok kl vl h g t"
  shows "range_search t start end_key = Some (filter (in_range start end_key) (entries g))"
proof -
  have w: "gwf kl vl h [] None g" "rep (bt_pages t) g" "root_page_id t = gid g" "chained (gleaves g) 0"
    and nz: "\<forall>p \<in> set (gpids g). p \<noteq> 0"
    using assms by (simp_all add: btree_ok_def)
  obtain root where root: "bt_pages t (gid g) = Some root"
    using rep_page [OF w(2)] by blast
  obtain pid nxt kvs A D where l: "leaf_for h start g = GLeaf pid nxt kvs" "gleaves g = A @ (pid, nxt, kvs) # D"
    "\<forall>l \<in> set A. \<forall>kv \<in> set (leaf_kvs l). fst kv < start"
    using leaf_for_split [OF w(1), of start] by auto
  have "page_id (page_header_of root) = gid g"
    using w(2) root leaf_view_reads(1) branch_view_reads(2) by (cases g) auto
  then obtain path where f: "find_leaf t root start = Some (Some (pid, path))"
    using find_leaf_loop_eq [OF w(1,2) root, of _ start] l(1) by (fastforce simp: find_leaf_def)
  let ?ls = "(pid, nxt, kvs) # D"
  have e: "entries g = concat (map (leaf_kvs) A) @ concat (map (leaf_kvs) ?ls)"
    by (simp add: entries_gleaves l(2))
  have "sorted_kvs (entries g)"
    using gwf_ranged [OF w(1)] by (simp add: ranged_def)
  then have so: "sorted_kvs (concat (map (leaf_kvs) ?ls))"
    by (simp add: e sorted_wrt_append)
  have "range_loop t start end_key (fst (hd ?ls)) [] =
    Some ([] @ filter (in_range start end_key) (concat (map (leaf_kvs) ?ls)))"
  proof (rule range_loop_eq [OF _ _ _ so])
    show "\<forall>l \<in> set ?ls. \<exists>b. bt_pages t (fst l) = Some b \<and> leaf_view b (fst l) (fst (snd l)) (leaf_kvs l)"
      using rep_leaf [OF w(2)] by (auto simp: l(2))
    show "chained ?ls 0"
      using w(4) unfolding l(2) by (rule chained_suffix)
    show "\<forall>l \<in> set ?ls. fst l \<noteq> 0"
    proof
      fix x assume "x \<in> set ?ls"
      then have "x \<in> set (gleaves g)" by (auto simp: l(2))
      then show "fst x \<noteq> 0" using nz leaf_pids by blast
    qed
  qed simp
  moreover have "filter (in_range start end_key) (concat (map (leaf_kvs) A)) = []"
  proof (rule filter_none)
    fix kv assume "kv \<in> set (concat (map leaf_kvs A))"
    then have "fst kv < start" using l(3) by auto
    then show "\<not> in_range start end_key kv" by (simp add: in_range_def leD)
  qed
  ultimately show ?thesis
    using root f w(3) by (simp add: range_search_def get_page_def e)
qed

end
