(* ===== verification/BTreeInsert.thy ===== *)
theory BTreeInsert
  imports BTreeShape
begin

text \<open>
  Insertion into the B+ tree. The pages an insertion leaves behind represent a B+ tree with the
  same entries and the new one, whatever splits: the leaf, the branches above it, or the root.
  The proof goes down the descent; at each level the code either is done or continues with
  \<open>insert_into_parent\<close> for the two halves of the node.
\<close>

section \<open>The pieces of the operations\<close>

named_theorems bt_monad \<open>running the pieces of an operation on a state\<close>

lemma bt_bind_simps [bt_monad]:
  "bt_bind (bt_return x) f = f x"
  "bt_bind (bt_lift (Some y)) g = g y"
  "bt_bind bt_alloc h t = h (next_page_id t) (t\<lparr>next_page_id := next_page_id t + 1\<rparr>)"
  "bt_bind (bt_put p b) k t = k () (put_page_with_lsn t p b)"
  by (auto simp: bt_bind_def bt_return_def bt_lift_def bt_alloc_def alloc_page_def bt_put_def)

lemma bt_bind_get [bt_monad]: "bt_pages t p = Some b \<Longrightarrow> bt_bind (bt_get p e) f t = f b t"
  by (simp add: bt_bind_def bt_get_def get_page_def)

lemma put_page_fields [simp]:
  "bt_pages (put_page_with_lsn t p b) = (bt_pages t)(p \<mapsto> set_page_lsn b (next_lsn t))"
  "root_page_id (put_page_with_lsn t p b) = root_page_id t"
  "next_page_id (put_page_with_lsn t p b) = next_page_id t"
  by (simp_all add: put_page_with_lsn_def bump_lsn_def)

section \<open>What an insertion below a node leaves behind\<close>

text \<open>No branch on the way is full.\<close>

fun roomy :: "nat \<Rightarrow> nat \<Rightarrow> gtree \<Rightarrow> bool" where
  "roomy kl (Suc h) (GNode pid seps ts) = (length seps < branch_cap kl \<and> (\<forall>t \<in> set ts. roomy kl h t))"
| "roomy kl h t = True"

text \<open>The part \<open>g\<close> of the tree has become the trees \<open>gs\<close> of height \<open>h\<close> with the separators \<open>ss\<close>
  between them, which cover the keys from \<open>lo\<close> up to \<open>hi\<close>. The pages elsewhere are the same. A
  leaf is half full, or not smaller than one that was there.\<close>

definition half_full :: "nat \<Rightarrow> nat \<Rightarrow> nat" where
  "half_full kl vl = (leaf_cap kl vl + 1) div 2"

definition evolved :: "nat \<Rightarrow> nat \<Rightarrow> nat \<Rightarrow> bytes \<Rightarrow> bytes option \<Rightarrow> (bytes \<times> bytes) list \<Rightarrow> gtree \<Rightarrow> btree \<Rightarrow> bytes list \<Rightarrow> gtree list \<Rightarrow> btree \<Rightarrow> bool" where
  "evolved kl vl h lo hi es g t ss gs t' \<longleftrightarrow>
     tiled (gwf kl vl h) lo hi ss gs \<and> (\<forall>s \<in> set ss. length s = kl) \<and>
     (\<forall>g' \<in> set gs. rep (bt_pages t') g') \<and> distinct (concat (map gpids gs)) \<and>
     (\<forall>p \<in> set (concat (map gpids gs)). p \<in> set (gpids g) \<or> next_page_id t \<le> p \<and> p < next_page_id t') \<and>
     concat (map entries gs) = es \<and>
     (\<forall>z. chained (gleaves g) z \<longrightarrow> chained (concat (map gleaves gs)) z) \<and>
     (\<forall>z. first_leaf (concat (map gleaves gs)) z = first_leaf (gleaves g) z) \<and>
     (\<forall>p. p \<notin> set (gpids g) \<longrightarrow> p < next_page_id t \<longrightarrow> bt_pages t' p = bt_pages t p) \<and>
     root_page_id t' = root_page_id t \<and> next_page_id t \<le> next_page_id t' \<and>
     (\<forall>l \<in> set (concat (map gleaves gs)). half_full kl vl \<le> length (leaf_kvs l) \<or>
       (\<exists>l' \<in> set (gleaves g). length (leaf_kvs l') \<le> length (leaf_kvs l)))"

lemma evolvedI:
  assumes "tiled (gwf kl vl h) lo hi ss gs" "\<And>s. s \<in> set ss \<Longrightarrow> length s = kl"
    "\<And>g'. g' \<in> set gs \<Longrightarrow> rep (bt_pages t') g'" "distinct (concat (map gpids gs))"
    "\<And>p. p \<in> set (concat (map gpids gs)) \<Longrightarrow> p \<in> set (gpids g) \<or> next_page_id t \<le> p \<and> p < next_page_id t'"
    "concat (map entries gs) = es" "\<And>z. chained (gleaves g) z \<Longrightarrow> chained (concat (map gleaves gs)) z"
    "\<And>z. first_leaf (concat (map gleaves gs)) z = first_leaf (gleaves g) z"
    "\<And>p. p \<notin> set (gpids g) \<Longrightarrow> p < next_page_id t \<Longrightarrow> bt_pages t' p = bt_pages t p"
    "root_page_id t' = root_page_id t" "next_page_id t \<le> next_page_id t'"
    "\<And>l. l \<in> set (concat (map gleaves gs)) \<Longrightarrow> half_full kl vl \<le> length (leaf_kvs l) \<or>
       (\<exists>l' \<in> set (gleaves g). length (leaf_kvs l') \<le> length (leaf_kvs l))"
  shows "evolved kl vl h lo hi es g t ss gs t'"
  unfolding evolved_def using assms by blast

lemma evolvedD:
  assumes "evolved kl vl h lo hi es g t ss gs t'"
  shows "tiled (gwf kl vl h) lo hi ss gs" "s \<in> set ss \<Longrightarrow> length s = kl"
    "g' \<in> set gs \<Longrightarrow> rep (bt_pages t') g'" "distinct (concat (map gpids gs))"
    "p \<in> set (concat (map gpids gs)) \<Longrightarrow> p \<in> set (gpids g) \<or> next_page_id t \<le> p \<and> p < next_page_id t'"
    "concat (map entries gs) = es" "chained (gleaves g) z \<Longrightarrow> chained (concat (map gleaves gs)) z"
    "first_leaf (concat (map gleaves gs)) z = first_leaf (gleaves g) z"
    "p \<notin> set (gpids g) \<Longrightarrow> p < next_page_id t \<Longrightarrow> bt_pages t' p = bt_pages t p"
    "root_page_id t' = root_page_id t" "next_page_id t \<le> next_page_id t'"
    "l \<in> set (concat (map gleaves gs)) \<Longrightarrow> half_full kl vl \<le> length (leaf_kvs l) \<or>
       (\<exists>l' \<in> set (gleaves g). length (leaf_kvs l') \<le> length (leaf_kvs l))"
  using assms unfolding evolved_def by blast+

text \<open>A subtree of height \<open>h\<close> has become one tree, or two when its node was split.\<close>

definition grown :: "nat \<Rightarrow> nat \<Rightarrow> nat \<Rightarrow> bytes \<Rightarrow> bytes option \<Rightarrow> (bytes \<times> bytes) list \<Rightarrow> gtree \<Rightarrow> btree \<Rightarrow> bytes list \<Rightarrow> gtree list \<Rightarrow> btree \<Rightarrow> bool" where
  "grown kl vl h lo hi es g t ss gs t' \<longleftrightarrow> evolved kl vl h lo hi es g t ss gs t' \<and>
     length ss \<le> 1 \<and> gid (hd gs) = gid g \<and> unat (next_page_id t') \<le> unat (next_page_id t) + h + 1 \<and>
     (h = 0 \<longrightarrow> ss \<noteq> [] \<longrightarrow> (\<forall>l \<in> set (concat (map gleaves gs)). half_full kl vl \<le> length (leaf_kvs l)))"

definition insert_from :: "btree \<Rightarrow> bytes \<Rightarrow> descend_path \<Rightarrow> bytes \<Rightarrow> bytes \<Rightarrow> ((btree_error + unit) \<times> btree) option" where
  "insert_from t page path k v =
     (case descend_loop t k page path of
        None \<Rightarrow> None
      | Some None \<Rightarrow> Some (Inl MissingLeaf, t)
      | Some (Some (leaf_id, leaf, path)) \<Rightarrow> insert_at_leaf leaf_id leaf path k v t)"

text \<open>How the code goes on when the subtree has become \<open>gs\<close>.\<close>

definition proceed :: "bytes list \<Rightarrow> gtree list \<Rightarrow> descend_path \<Rightarrow> unit bt" where
  "proceed ss gs path =
     (case (ss, gs) of
        ([s], [l, r]) \<Rightarrow> insert_into_parent (gid l) (gid r) s path
      | _ \<Rightarrow> bt_return ())"

lemma proceed_simps [simp]:
  "proceed [] gs path t = Some (Inr (), t)" "proceed [s] [l, r] path t = insert_into_parent (gid l) (gid r) s path t"
  by (simp_all add: proceed_def bt_return_def)

lemma alloc_fresh:
  assumes "unat (n :: u64) + 1 < 2 ^ 64"
  shows "n < n + 1" "unat (n + 1) = unat n + 1"
proof -
  show "unat (n + 1) = unat n + 1"
    using assms by (simp add: unat_word_ariths)
  then show "n < n + 1"
    by (simp add: word_less_nat_alt)
qed

section \<open>Leaves\<close>

lemma insert_from_leaf: "leaf_view b pid nxt kvs \<Longrightarrow> insert_from t b path k v = insert_at_leaf pid b path k v t"
  using leaf_view_reads(1,3) [of b pid nxt kvs] by (subst insert_from_def, subst descend_loop.simps) simp

lemma upto_of_key: "lo \<le> (k :: bytes) \<Longrightarrow> below k hi \<Longrightarrow> upto lo hi"
  by (cases hi) auto

lemma set_upsert_fst: "sorted_kvs kvs \<Longrightarrow> kv \<in> set (upsert k v kvs) \<Longrightarrow> kv \<in> set kvs \<or> kv = (k, v)"
  by (auto simp: set_upsert)

text \<open>The leaf stays one leaf: the key is there, or there is room.\<close>

lemma gwf_upsert:
  assumes w: "gwf kl vl 0 lo hi (GLeaf pid nxt kvs)" and k: "lo \<le> k" "below k hi" "length k = kl" "length v = vl"
  shows "sorted_kvs (upsert k v kvs)" "uniform kl vl (upsert k v kvs)"
    "\<forall>kv \<in> set (upsert k v kvs). lo \<le> fst kv \<and> below (fst kv) hi"
proof -
  have s: "sorted_kvs kvs" using w by simp
  show "sorted_kvs (upsert k v kvs)" by (rule sorted_upsert [OF s])
  show "uniform kl vl (upsert k v kvs)"
    using w k s by (auto simp: uniform_def set_upsert)
  show "\<forall>kv \<in> set (upsert k v kvs). lo \<le> fst kv \<and> below (fst kv) hi"
    using set_upsert_fst [OF s] w k by (intro ballI) force
qed

lemma grown_leaf_one:
  assumes w: "gwf kl vl 0 lo hi (GLeaf pid nxt kvs)" and k: "lo \<le> k" "below k hi" "length k = kl" "length v = vl"
    and len: "length (upsert k v kvs) \<le> leaf_cap kl vl" and b: "leaf_view b pid nxt (upsert k v kvs)"
  shows "grown kl vl 0 lo hi (upsert k v kvs) (GLeaf pid nxt kvs) t [] [GLeaf pid nxt (upsert k v kvs)] (put_page_with_lsn t pid b)"
proof -
  have "length kvs \<le> length (upsert k v kvs)" using w length_upsert [of kvs k v] by simp
  then show ?thesis
    using gwf_upsert [OF w k] leaf_view_lsn [OF b] upto_of_key [OF k(1,2)] len
    by (simp add: grown_def evolved_def)
qed

text \<open>The leaf is split in the middle.\<close>

lemma sorted_kvs_split:
  assumes "sorted_kvs es" "mid < length es"
  shows "\<forall>kv \<in> set (take mid es). fst kv < fst (es ! mid)" "\<forall>kv \<in> set (drop mid es). fst (es ! mid) \<le> fst kv"
    "sorted_kvs (take mid es)" "sorted_kvs (drop mid es)"
proof -
  have "sorted_kvs (take mid es @ es ! mid # drop (Suc mid) es)"
    using assms by (simp add: id_take_nth_drop [symmetric])
  then show "\<forall>kv \<in> set (take mid es). fst kv < fst (es ! mid)" "sorted_kvs (take mid es)"
    "\<forall>kv \<in> set (drop mid es). fst (es ! mid) \<le> fst kv" "sorted_kvs (drop mid es)"
    using assms(2) by (auto simp: sorted_wrt_append Cons_nth_drop_Suc [symmetric])
qed

lemma tiled_leaf_split:
  assumes s: "sorted_kvs es" and u: "uniform kl vl es" and r: "\<forall>kv \<in> set es. lo \<le> fst kv \<and> below (fst kv) hi"
    and m: "mid < length es" "mid \<le> leaf_cap kl vl" "length es - mid \<le> leaf_cap kl vl"
  shows "tiled (gwf kl vl 0) lo hi [fst (es ! mid)] [GLeaf pid n (take mid es), GLeaf n nxt (drop mid es)]"
    "length (fst (es ! mid)) = kl"
proof -
  have mem: "es ! mid \<in> set es" using m(1) by simp
  have "lo \<le> fst (es ! mid)" "below (fst (es ! mid)) hi"
    using r mem by blast+
  moreover have "upto (fst (es ! mid)) hi"
    using calculation(2) by (cases hi) auto
  moreover have "uniform kl vl (take mid es)" "uniform kl vl (drop mid es)"
    by (rule uniform_subset [OF u set_take_subset], rule uniform_subset [OF u set_drop_subset])
  moreover have "\<forall>kv \<in> set (take mid es). lo \<le> fst kv" "\<forall>kv \<in> set (drop mid es). below (fst kv) hi"
    using r by (meson in_set_takeD in_set_dropD)+
  ultimately show "tiled (gwf kl vl 0) lo hi [fst (es ! mid)] [GLeaf pid n (take mid es), GLeaf n nxt (drop mid es)]"
    using sorted_kvs_split [OF s m(1)] m by simp
  show "length (fst (es ! mid)) = kl"
    using u mem by (simp add: uniform_def)
qed

lemma grown_leaf_two:
  assumes w: "gwf kl vl 0 lo hi (GLeaf pid nxt kvs)" and k: "lo \<le> k" "below k hi" "length k = kl" "length v = vl"
    and len: "length (upsert k v kvs) = leaf_cap kl vl + 1" "sizes_ok kl vl"
    and pid: "pid < next_page_id t" "unat (next_page_id t) + 1 < 2 ^ 64"
  defines "es \<equiv> upsert k v kvs" and "n \<equiv> next_page_id t"
  assumes l: "leaf_view lb pid n (take (length es div 2) es)" and r: "leaf_view rb n nxt (drop (length es div 2) es)"
  shows "grown kl vl 0 lo hi es (GLeaf pid nxt kvs) t [fst (es ! (length es div 2))]
    [GLeaf pid n (take (length es div 2) es), GLeaf n nxt (drop (length es div 2) es)]
    (put_page_with_lsn (put_page_with_lsn (t\<lparr>next_page_id := n + 1\<rparr>) pid lb) n rb)"
proof -
  let ?m = "length es div 2"
  have "3 \<le> leaf_cap kl vl" by (rule caps_ge_3(1) [OF len(2)])
  then have m: "?m < length es" "?m \<le> leaf_cap kl vl" "length es - ?m \<le> leaf_cap kl vl"
    using len(1) by (simp_all add: es_def)
  note g = gwf_upsert [OF w k, folded es_def]
  note a = alloc_fresh [OF pid(2), folded n_def]
  have "pid \<noteq> n" using pid(1) by (auto simp: n_def)
  moreover have "half_full kl vl \<le> ?m" "half_full kl vl \<le> length es - ?m"
    using len(1) by (simp_all add: half_full_def es_def)
  ultimately show ?thesis
    using tiled_leaf_split(1) [OF g m, of pid n nxt] tiled_leaf_split(2) [OF g m] leaf_view_lsn [OF l] leaf_view_lsn [OF r] a
    unfolding grown_def evolved_def by (auto simp: n_def [symmetric])
qed

lemma split_leaf_proceeds:
  assumes w: "gwf kl vl 0 lo hi (GLeaf pid nxt kvs)" and k: "lo \<le> k" "below k hi" "length k = kl" "length v = vl"
    and b: "leaf_view b pid nxt kvs" and sz: "sizes_ok kl vl" and len: "length (upsert k v kvs) = leaf_cap kl vl + 1"
    and pid: "pid < next_page_id t" "unat (next_page_id t) + 1 < 2 ^ 64"
  shows "\<exists>ss gs t'. split_leaf pid b k v path t = proceed ss gs path t' \<and>
    grown kl vl 0 lo hi (upsert k v kvs) (GLeaf pid nxt kvs) t ss gs t'"
proof -
  define es where "es = upsert k v kvs"
  define n where "n = next_page_id t"
  let ?m = "length es div 2"
  have "3 \<le> leaf_cap kl vl" by (rule caps_ge_3(1) [OF sz])
  then have m: "?m \<le> leaf_cap kl vl" "length es - ?m \<le> leaf_cap kl vl"
    using len by (simp_all add: es_def)
  have s: "sorted_kvs kvs" using w by simp
  have u: "uniform kl vl es" using gwf_upsert(2) [OF w k] by (simp add: es_def)
  have e: "sort_key fst (split_entries b k @ [(k, v)]) = es"
    unfolding split_entries_eq [OF b] es_def by (rule split_sorted [OF s])
  obtain lb where lb: "insert_all (new_leaf pid) (map kv_record (take ?m es)) = Some lb" "leaf_view lb pid 0 (take ?m es)"
    using insert_all_leaf [OF uniform_subset [OF u set_take_subset] _ sz, of ?m pid] m by auto
  obtain rb where rb: "insert_all (new_leaf n) (map kv_record (drop ?m es)) = Some rb" "leaf_view rb n 0 (drop ?m es)"
    using insert_all_leaf [OF uniform_subset [OF u set_drop_subset] _ sz, of ?m n] m by auto
  have r: "map (\<lambda>(k, v). encode_kv k v) es = map kv_record es"
    by (simp add: case_prod_beta')
  note sib = leaf_view_siblings [OF lb(2), of "sibling_prev (btree_header_of b)" n] leaf_view_siblings [OF rb(2), of pid nxt]
  let ?t' = "put_page_with_lsn (put_page_with_lsn (t\<lparr>next_page_id := n + 1\<rparr>) pid
      (set_siblings lb (sibling_prev (btree_header_of b)) n)) n (set_siblings rb pid nxt)"
  have "split_leaf pid b k v path t = proceed [fst (es ! ?m)] [GLeaf pid n (take ?m es), GLeaf n nxt (drop ?m es)] path ?t'"
    using lb(1) rb(1) leaf_view_reads(4) [OF b]
    by (simp add: split_leaf_def bt_monad e r n_def Let_def flip: take_map drop_map)
  moreover have "grown kl vl 0 lo hi es (GLeaf pid nxt kvs) t [fst (es ! ?m)]
      [GLeaf pid n (take ?m es), GLeaf n nxt (drop ?m es)] ?t'"
    using grown_leaf_two [OF w k len sz pid, folded es_def n_def, OF sib] .
  ultimately show ?thesis
    unfolding es_def by blast
qed

lemma insert_leaf:
  assumes w: "gwf kl vl 0 lo hi (GLeaf pid nxt kvs)" and k: "lo \<le> k" "below k hi" "length k = kl" "length v = vl"
    and b: "leaf_view b pid nxt kvs" and sz: "sizes_ok kl vl"
    and pid: "pid < next_page_id t" "unat (next_page_id t) + 1 < 2 ^ 64"
  shows "\<exists>ss gs t'. insert_at_leaf pid b path k v t = proceed ss gs path t' \<and>
    grown kl vl 0 lo hi (upsert k v kvs) (GLeaf pid nxt kvs) t ss gs t'"
proof -
  have s: "sorted_kvs kvs" and u: "uniform kl vl ((k, v) # kvs)" "uniform kl vl kvs" and cap: "length kvs \<le> leaf_cap kl vl"
    using w k by simp_all
  note lb = leaf_lower_bound_eq [OF b s, of k]
  note one = grown_leaf_one [OF w k]
  consider (hit) "k \<in> fst ` set kvs" | (room) "k \<notin> fst ` set kvs" "length kvs < leaf_cap kl vl"
    | (full) "k \<notin> fst ` set kvs" "length kvs = leaf_cap kl vl"
    using cap by linarith
  then show ?thesis
  proof cases
    case hit
    obtain b' where b': "rebuild_leaf_replacing b (keys_below k kvs) (encode_kv k v) = Some (Some b')"
      "leaf_view b' pid nxt (upsert k v kvs)"
      using rebuild_leaf_replacing_view [OF b u(1) sz _ cap] keys_below_hit [OF s hit] upsert_replace [OF s hit, of v] by auto
    have "insert_at_leaf pid b path k v t = proceed [] [GLeaf pid nxt (upsert k v kvs)] path (put_page_with_lsn t pid b')"
      using leaf_search(1) [OF b s, of k] hit b'(1) lb by (simp add: insert_at_leaf_def bt_monad bt_put_def)
    then show ?thesis
      using one [OF _ b'(2)] length_upsert [OF s, of k v] hit cap by (metis if_P)
  next
    case room
    obtain b' where b': "insert_raw_at b (keys_below k kvs) (encode_kv k v) = Some (Some (keys_below k kvs), b')"
      "leaf_view b' pid nxt (upsert k v kvs)"
      using leaf_insert_at [OF b u(1) sz room(2) keys_below_le] upsert_insert [OF s room(1), of v] by auto
    have "insert_at_leaf pid b path k v t = proceed [] [GLeaf pid nxt (upsert k v kvs)] path (put_page_with_lsn t pid b')"
      using leaf_search(1) [OF b s, of k] room b'(1) lb leaf_has_room [OF b u(2) k(3,4)]
      by (simp add: insert_at_leaf_def bt_monad bt_put_def Let_def)
    moreover have "length (upsert k v kvs) \<le> leaf_cap kl vl"
      using length_upsert [OF s, of k v] room by simp
    ultimately show ?thesis
      using one [OF _ b'(2)] by blast
  next
    case full
    have "insert_at_leaf pid b path k v t = split_leaf pid b k v path t"
      using leaf_search(1) [OF b s, of k] full leaf_has_room [OF b u(2) k(3,4)] by (simp add: insert_at_leaf_def Let_def)
    then show ?thesis
      using split_leaf_proceeds [OF w k b sz _ pid] length_upsert [OF s, of k v] full by simp
  qed
qed

section \<open>Nodes\<close>

text \<open>When a child of a node has become several trees, so has the list of its children.\<close>

lemma distinct_split3:
  assumes "distinct (xs @ ys @ zs)" "distinct ys'" "\<forall>y \<in> set ys'. y \<in> set ys \<or> (\<forall>x \<in> set (xs @ zs). y \<noteq> x)"
  shows "distinct (xs @ ys' @ zs)"
  using assms by auto

lemma around: "i < length ts \<Longrightarrow> concat (map f ts) = concat (map f (take i ts)) @ f (ts ! i) @ concat (map f (drop (Suc i) ts))"
  by (subst id_take_nth_drop [of i ts]) simp_all

lemma chained_replace:
  assumes "chained (A @ B @ D) z" "\<And>z. chained B z \<Longrightarrow> chained B' z" "\<And>z. first_leaf B' z = first_leaf B z"
  shows "chained (A @ B' @ D) z" "first_leaf (A @ B' @ D) z = first_leaf (A @ B @ D) z"
  using assms by (auto simp: chained_append first_leaf_append)

lemma evolve_child:
  assumes t: "tiled (gwf kl vl h) lo hi seps ts" "\<forall>s \<in> set seps. length s = kl" and i: "i \<le> length seps"
    and d: "distinct (gpids (GNode pid seps ts))" "\<forall>p \<in> set (gpids (GNode pid seps ts)). p < next_page_id t"
    and r: "\<forall>g \<in> set ts. rep (bt_pages t) g"
    and E: "evolved kl vl h (if i = 0 then lo else seps ! (i - 1)) (if i = length seps then hi else Some (seps ! i)) es (ts ! i) t ss gs t'"
  shows "evolved kl vl h lo hi (concat (map entries (take i ts)) @ es @ concat (map entries (drop (Suc i) ts))) (GNode pid seps ts) t
      (take i seps @ ss @ drop i seps) (take i ts @ gs @ drop (Suc i) ts) t'"
    "pid \<notin> set (concat (map gpids (take i ts @ gs @ drop (Suc i) ts)))"
proof -
  let ?ts = "take i ts @ gs @ drop (Suc i) ts" and ?o = "take i ts @ drop (Suc i) ts"
  have il: "i < length ts" using tiled_length [OF t(1)] i by simp
  note E = evolvedD [OF E]
  have dd: "distinct (concat (map gpids (take i ts)) @ gpids (ts ! i) @ concat (map gpids (drop (Suc i) ts)))"
    using d(1) around [OF il, of gpids] by simp
  have o: "g \<in> set ts" "\<forall>p \<in> set (gpids g). p \<notin> set (gpids (ts ! i)) \<and> p < next_page_id t" if "g \<in> set ?o" for g
  proof -
    show m: "g \<in> set ts" using that by (auto dest: in_set_takeD in_set_dropD)
    show "\<forall>p \<in> set (gpids g). p \<notin> set (gpids (ts ! i)) \<and> p < next_page_id t"
      using dd d(2) m that by auto
  qed
  have ro: "rep (bt_pages t') g" if "g \<in> set ?o" for g
  proof -
    have "rep (bt_pages t') g = rep (bt_pages t) g"
      by (rule rep_cong) (use E(9) o(2) [OF that] in blast)
    then show ?thesis using r o(1) [OF that] by simp
  qed
  have sub: "set (gpids (ts ! i)) \<subseteq> set (concat (map gpids ts))" using nth_mem [OF il] by auto
  have P: "p \<in> set (concat (map gpids ts)) \<or> next_page_id t \<le> p \<and> p < next_page_id t'" if "p \<in> set (concat (map gpids ?ts))" for p
    using that E(5) [of p] sub by (auto dest: in_set_takeD in_set_dropD)
  have np: "pid \<notin> set (concat (map gpids ts))" "\<not> next_page_id t \<le> pid"
    using d by (simp_all add: not_le)
  show "pid \<notin> set (concat (map gpids ?ts))"
    using P [of pid] np by blast
  have gl: "gleaves (GNode pid seps ts) = concat (map gleaves (take i ts)) @ gleaves (ts ! i) @ concat (map gleaves (drop (Suc i) ts))"
    "concat (map gleaves ?ts) = concat (map gleaves (take i ts)) @ concat (map gleaves gs) @ concat (map gleaves (drop (Suc i) ts))"
    using around [OF il, of gleaves] by simp_all
  show "evolved kl vl h lo hi (concat (map entries (take i ts)) @ es @ concat (map entries (drop (Suc i) ts))) (GNode pid seps ts) t
      (take i seps @ ss @ drop i seps) ?ts t'"
  proof (rule evolvedI)
    show "tiled (gwf kl vl h) lo hi (take i seps @ ss @ drop i seps) ?ts"
      by (rule tiled_focus [OF t(1) i]) (use E(1) in blast)
    show "distinct (concat (map gpids ?ts))"
      unfolding map_append concat_append
    proof (rule distinct_split3 [OF dd E(4)], intro ballI disjCI)
      fix y assume y: "y \<in> set (concat (map gpids gs))" "\<not> (\<forall>x \<in> set (concat (map gpids (take i ts)) @ concat (map gpids (drop (Suc i) ts))). y \<noteq> x)"
      then obtain g where "g \<in> set ?o" "y \<in> set (gpids g)" by auto
      then have "y < next_page_id t" using o(2) by blast
      then show "y \<in> set (gpids (ts ! i))" using E(5) [OF y(1)] by (simp add: not_le [symmetric])
    qed
    show "chained (concat (map gleaves ?ts)) z" if "chained (gleaves (GNode pid seps ts)) z" for z
      using that unfolding gl by (rule chained_replace(1)) (rule E(7), assumption, rule E(8))
    show "first_leaf (concat (map gleaves ?ts)) z = first_leaf (gleaves (GNode pid seps ts)) z" for z
      unfolding gl by (simp add: first_leaf_append E(8))
    show "length s = kl" if "s \<in> set (take i seps @ ss @ drop i seps)" for s
      using that t(2) E(2) by (auto dest: in_set_takeD in_set_dropD)
    show "rep (bt_pages t') g" if "g \<in> set ?ts" for g
      using that ro [of g] E(3) [of g] by auto
    show "p \<in> set (gpids (GNode pid seps ts)) \<or> next_page_id t \<le> p \<and> p < next_page_id t'" if "p \<in> set (concat (map gpids ?ts))" for p
      using P [OF that] by auto
    show "bt_pages t' p = bt_pages t p" if "p \<notin> set (gpids (GNode pid seps ts))" "p < next_page_id t" for p
      by (rule E(9) [OF _ that(2)]) (use that(1) sub in auto)
    show "half_full kl vl \<le> length (leaf_kvs l) \<or> (\<exists>l' \<in> set (gleaves (GNode pid seps ts)). length (leaf_kvs l') \<le> length (leaf_kvs l))"
      if "l \<in> set (concat (map gleaves ?ts))" for l
      using that E(12) [of l] unfolding gl set_append by blast
  qed (simp_all add: E)
qed

text \<open>The node is rewritten in its page.\<close>

lemma rep_elsewhere: "rep P g \<Longrightarrow> (\<And>p. p \<in> set (gpids g) \<Longrightarrow> Q p = P p) \<Longrightarrow> rep Q g"
  using rep_cong [of g Q P] by blast

lemma grown_node_one:
  assumes E: "evolved kl vl h lo hi es (GNode pid seps ts) t seps' ts' t1" and n: "pid \<notin> set (concat (map gpids ts'))"
    and l: "seps' \<noteq> []" "length seps' \<le> branch_cap kl" and b: "branch_view b pid seps' (map gid ts')"
    and t2: "bt_pages t2 = (bt_pages t1)(pid \<mapsto> b)" "root_page_id t2 = root_page_id t1" "next_page_id t2 = next_page_id t1"
    and u: "unat (next_page_id t1) \<le> unat (next_page_id t) + h + 1"
  shows "grown kl vl (Suc h) lo hi es (GNode pid seps ts) t [] [GNode pid seps' ts'] t2"
proof -
  note D = evolvedD [OF E]
  have r: "rep (bt_pages t2) g" if "g \<in> set ts'" for g
    by (rule rep_elsewhere [OF D(3) [OF that]]) (use n that in \<open>auto simp: t2(1)\<close>)
  have "evolved kl vl (Suc h) lo hi es (GNode pid seps ts) t [] [GNode pid seps' ts'] t2"
  proof (rule evolvedI)
    show "tiled (gwf kl vl (Suc h)) lo hi [] [GNode pid seps' ts']"
      using tiled_sorted [OF D(1)] D(1,2) l by simp
    show "rep (bt_pages t2) g'" if "g' \<in> set [GNode pid seps' ts']" for g'
      using that b r by (simp add: t2(1) list_all_iff)
    show "p \<in> set (gpids (GNode pid seps ts)) \<or> next_page_id t \<le> p \<and> p < next_page_id t2"
      if "p \<in> set (concat (map gpids [GNode pid seps' ts']))" for p
      using that D(5) [of p] by (auto simp: t2(3))
    show "bt_pages t2 p = bt_pages t p" if "p \<notin> set (gpids (GNode pid seps ts))" "p < next_page_id t" for p
      using D(9) [OF that] that(1) by (simp add: t2(1))
  qed (use D n t2 in simp_all)
  then show ?thesis
    using u by (simp add: grown_def t2(3))
qed

text \<open>The node is split around its middle separator.\<close>

lemma grown_node_two:
  assumes E: "evolved kl vl h lo hi es (GNode pid seps ts) t seps' ts' t1" and n: "pid \<notin> set (concat (map gpids ts'))"
    and l: "length seps' = branch_cap kl + 1" "sizes_ok kl vl"
    and d: "\<forall>p \<in> set (gpids (GNode pid seps ts)). p < next_page_id t"
    and u: "unat (next_page_id t1) \<le> unat (next_page_id t) + h + 1" "unat (next_page_id t) + h + 2 < 2 ^ 64"
  defines "m \<equiv> length seps' div 2" and "q \<equiv> next_page_id t1"
  assumes lb: "branch_view lb pid (take m seps') (map gid (take (m + 1) ts'))"
    and rb: "branch_view rb q (drop (m + 1) seps') (map gid (drop (m + 1) ts'))"
    and t2: "bt_pages t2 = (bt_pages t1)(pid \<mapsto> lb, q \<mapsto> rb)" "root_page_id t2 = root_page_id t1" "next_page_id t2 = q + 1"
  shows "grown kl vl (Suc h) lo hi es (GNode pid seps ts) t [seps' ! m]
    [GNode pid (take m seps') (take (m + 1) ts'), GNode q (drop (m + 1) seps') (drop (m + 1) ts')] t2"
proof -
  note D = evolvedD [OF E]
  have "3 \<le> branch_cap kl" by (rule caps_ge_3(2) [OF l(2)])
  then have m: "m < length seps'" "m \<le> branch_cap kl" "0 < m" "length seps' - (m + 1) \<le> branch_cap kl" "m + 1 < length seps'"
    using l(1) by (auto simp: m_def)
  have al: "q < q + 1" "unat (q + 1) = unat q + 1"
    by (rule alloc_fresh, use u in \<open>simp add: q_def\<close>)+
  have pl: "p < q" if "p \<in> set (concat (map gpids ts'))" for p
    using D(5) [OF that] d D(11) unfolding q_def by (auto intro: order_less_le_trans)
  have pq: "pid < q" using d D(11) by (auto simp: q_def intro: order_less_le_trans)
  have r: "rep (bt_pages t2) g" if "g \<in> set ts'" for g
  proof (rule rep_elsewhere [OF D(3) [OF that]])
    fix p assume "p \<in> set (gpids g)"
    then have "p \<in> set (concat (map gpids ts'))" using that by auto
    then show "bt_pages t2 p = bt_pages t1 p" using pl [of p] n by (auto simp: t2(1))
  qed
  let ?L = "GNode pid (take m seps') (take (m + 1) ts')" and ?R = "GNode q (drop (m + 1) seps') (drop (m + 1) ts')"
  have cat: "concat (map f (take (m + 1) ts')) @ concat (map f (drop (m + 1) ts')) = concat (map f ts')" for f :: "gtree \<Rightarrow> 'x list"
    by (metis append_take_drop_id concat_append map_append)
  have tl: "tiled (gwf kl vl h) lo (Some (seps' ! m)) (take m seps') (take (m + 1) ts')"
    "tiled (gwf kl vl h) (seps' ! m) hi (drop (m + 1) seps') (drop (m + 1) ts')"
    using tiled_cut_at [OF D(1) m(1)] by simp_all
  have "evolved kl vl (Suc h) lo hi es (GNode pid seps ts) t [seps' ! m] [?L, ?R] t2"
  proof (rule evolvedI)
    have "lo \<le> seps' ! m" "upto (seps' ! m) hi"
      using tiled_sorted [OF D(1)] nth_mem [OF m(1)] by blast+
    then show "tiled (gwf kl vl (Suc h)) lo hi [seps' ! m] [?L, ?R]"
      using tl m D(2) by (auto dest: in_set_takeD in_set_dropD)
    show "length s = kl" if "s \<in> set [seps' ! m]" for s
      using that D(2) nth_mem [OF m(1)] by simp
    show "rep (bt_pages t2) g'" if "g' \<in> set [?L, ?R]" for g'
    proof -
      have "list_all (rep (bt_pages t2)) (take (m + 1) ts')" "list_all (rep (bt_pages t2)) (drop (m + 1) ts')"
        using r by (auto simp: list_all_iff dest: in_set_takeD in_set_dropD)
      moreover have "bt_pages t2 pid = Some lb" "bt_pages t2 q = Some rb"
        using pq by (auto simp: t2(1))
      ultimately show ?thesis
        using that lb rb by auto
    qed
    have "distinct (concat (map gpids (take (m + 1) ts')) @ concat (map gpids (drop (m + 1) ts')))"
      unfolding cat by (rule D(4))
    moreover have "set (concat (map gpids (take (m + 1) ts'))) \<union> set (concat (map gpids (drop (m + 1) ts'))) = set (concat (map gpids ts'))"
      using cat [of gpids] by (metis set_append)
    ultimately show "distinct (concat (map gpids [?L, ?R]))"
      using n pl pq by (auto simp del: set_concat)
    show "p \<in> set (gpids (GNode pid seps ts)) \<or> next_page_id t \<le> p \<and> p < next_page_id t2"
      if "p \<in> set (concat (map gpids [?L, ?R]))" for p
    proof -
      have "p = pid \<or> p = q \<or> p \<in> set (concat (map gpids ts'))"
        using that by (auto dest: in_set_takeD in_set_dropD)
      then show ?thesis
        using D(5) [of p] D(11) al by (auto simp: t2(3) q_def [symmetric] simp del: set_concat)
    qed
    show "concat (map entries [?L, ?R]) = es" using cat [of entries] D(6) by simp
    show "chained (concat (map gleaves [?L, ?R])) z" if "chained (gleaves (GNode pid seps ts)) z" for z
      using cat [of gleaves] D(7) [OF that] by simp
    show "first_leaf (concat (map gleaves [?L, ?R])) z = first_leaf (gleaves (GNode pid seps ts)) z" for z
      using cat [of gleaves] D(8) [of z] by simp
    show "bt_pages t2 p = bt_pages t p" if "p \<notin> set (gpids (GNode pid seps ts))" "p < next_page_id t" for p
      using D(9) [OF that] that D(11) by (auto simp: t2(1) q_def)
    show "root_page_id t2 = root_page_id t" "next_page_id t \<le> next_page_id t2"
      using D(10,11) al by (auto simp: t2 q_def)
    show "half_full kl vl \<le> length (leaf_kvs l) \<or> (\<exists>l' \<in> set (gleaves (GNode pid seps ts)). length (leaf_kvs l') \<le> length (leaf_kvs l))"
      if "l \<in> set (concat (map gleaves [?L, ?R]))" for l
      using that by (intro D(12)) (auto dest: in_set_takeD in_set_dropD)
  qed
  then show ?thesis
    using u(1) al(2) by (simp add: grown_def t2(3) q_def)
qed

text \<open>What \<open>insert_into_parent\<close> does with the two halves of a child.\<close>

lemma split_branch_pages_eq:
  assumes l: "length seps = branch_cap kl + 1" "sizes_ok kl vl" "\<forall>s \<in> set seps. length s = kl" "length cs = length seps + 1"
  defines "m \<equiv> length seps div 2"
  shows "\<exists>lb rb. split_branch_pages pid lev seps cs t = Some (Inr (next_page_id t, seps ! m),
      put_page_with_lsn (put_page_with_lsn (t\<lparr>next_page_id := next_page_id t + 1\<rparr>) pid lb) (next_page_id t) rb) \<and>
    branch_view lb pid (take m seps) (take (m + 1) cs) \<and> branch_view rb (next_page_id t) (drop (m + 1) seps) (drop (m + 1) cs)"
proof -
  have kl: "kl + 8 \<le> 2048" using l(2) by (simp add: sizes_ok_def)
  have "3 \<le> branch_cap kl" by (rule caps_ge_3(2) [OF l(2)])
  then have m: "m < length seps" "m < length cs" "m \<le> branch_cap kl"
    using l(1,4) by (auto simp: m_def)
  obtain lb where lb: "build_branch pid lev (take m seps) (take (m + 1) cs) = Some lb" "branch_view lb pid (take m seps) (take (m + 1) cs)"
    using try_build_branch_fits [of "take m seps" kl "take (m + 1) cs" pid lev] kl m l by (auto dest: in_set_takeD)
  obtain rb where rb: "build_branch (next_page_id t) lev (drop (m + 1) seps) (drop (m + 1) cs) = Some rb"
    "branch_view rb (next_page_id t) (drop (m + 1) seps) (drop (m + 1) cs)"
    using try_build_branch_fits [of "drop (m + 1) seps" kl "drop (m + 1) cs" "next_page_id t" lev] kl m l by (auto simp: Suc_diff_le dest: in_set_dropD)
  have "split_branch_pages pid lev seps cs t = Some (Inr (next_page_id t, seps ! m),
      put_page_with_lsn (put_page_with_lsn (t\<lparr>next_page_id := next_page_id t + 1\<rparr>) pid lb) (next_page_id t) rb)"
    using lb(1) rb(1) m unfolding split_branch_pages_def m_def [symmetric] by (simp add: bt_monad Let_def bt_return_def)
  then show ?thesis using lb(2) rb(2) by blast
qed

lemma list_insert_children:
  assumes "i < length xs"
  shows "list_insert (xs[i := a]) (i + 1) b = take i xs @ [a, b] @ drop (Suc i) xs"
  using assms by (simp add: list_insert_def take_Suc_conv_app_nth)

lemma parent_step:
  assumes seps'_def: "seps' = take i seps @ [s] @ drop i seps" and ts'_def: "ts' = take i ts @ [l, r] @ drop (Suc i) ts"
    and E: "evolved kl vl h lo hi es (GNode pid seps ts) t seps' ts' t1" and n: "pid \<notin> set (concat (map gpids ts'))"
    and i: "i \<le> length seps" "length ts = length seps + 1"
    and b: "bt_pages t1 pid = Some b" "branch_view b pid seps (map gid ts)"
    and l: "length seps \<le> branch_cap kl" "branch_safe kl \<or> length seps < branch_cap kl" "sizes_ok kl vl"
    and d: "\<forall>p \<in> set (gpids (GNode pid seps ts)). p < next_page_id t"
    and u: "unat (next_page_id t1) \<le> unat (next_page_id t) + h + 1" "unat (next_page_id t) + h + 2 < 2 ^ 64"
  shows "\<exists>ss gs t2. insert_into_parent (gid l) (gid r) s ((pid, i) # path) t1 = proceed ss gs path t2 \<and>
    grown kl vl (Suc h) lo hi es (GNode pid seps ts) t ss gs t2"
proof -
  have kl: "kl + 8 \<le> 2048" using l(3) by (simp add: sizes_ok_def)
  note D = evolvedD [OF E]
  have sl: "\<forall>s \<in> set seps'. length s = kl" and ls: "length seps' = length seps + 1" "length (map gid ts') = length seps' + 1" "seps' \<noteq> []"
    using D(2) i by (auto simp: seps'_def ts'_def)
  define lev where "lev = bh_level (btree_header_of b)"
  have ins: "list_insert seps i s = seps'" "list_insert ((map gid ts)[i := gid l]) (i + 1) (gid r) = map gid ts'"
    using list_insert_children [of i "map gid ts"] i by (simp_all add: seps'_def ts'_def list_insert_def take_map drop_map)
  have run: "insert_into_parent (gid l) (gid r) s ((pid, i) # path) t1 =
    bt_bind (bt_lift (try_build_branch pid lev seps' (map gid ts'))) (\<lambda>built.
        case built of
          Some branch \<Rightarrow> bt_put pid branch
        | None \<Rightarrow> bt_bind (split_branch_pages pid lev seps' (map gid ts')) (\<lambda>(q, promoted). insert_into_parent pid q promoted path)) t1"
    using decode_branch_eq [OF b(2)] b(1) i ins by (simp add: bt_monad lev_def [symmetric] Let_def)
  show ?thesis
  proof (cases "length seps < branch_cap kl")
    case True
    then obtain b' where b': "try_build_branch pid lev seps' (map gid ts') = Some (Some b')" "branch_view b' pid seps' (map gid ts')"
      using try_build_branch_fits [OF sl kl _ ls(2), of pid lev] ls(1) by auto
    have "insert_into_parent (gid l) (gid r) s ((pid, i) # path) t1 = proceed [] [GNode pid seps' ts'] path (put_page_with_lsn t1 pid b')"
      unfolding run b'(1) by (simp add: bt_monad bt_put_def)
    moreover have "grown kl vl (Suc h) lo hi es (GNode pid seps ts) t [] [GNode pid seps' ts'] (put_page_with_lsn t1 pid b')"
      by (rule grown_node_one [OF E n ls(3) _ branch_view_lsn [OF b'(2)] _ _ _ u(1)]) (use ls(1) True in simp_all)
    ultimately show ?thesis by blast
  next
    case False
    then have full: "length seps' = branch_cap kl + 1" "branch_safe kl"
      using l(1,2) ls(1) by auto
    define m where "m = length seps' div 2"
    define q where "q = next_page_id t1"
    obtain lb rb where sp: "split_branch_pages pid lev seps' (map gid ts') t1 = Some (Inr (q, seps' ! m),
        put_page_with_lsn (put_page_with_lsn (t1\<lparr>next_page_id := q + 1\<rparr>) pid lb) q rb)"
      "branch_view lb pid (take m seps') (map gid (take (m + 1) ts'))" "branch_view rb q (drop (m + 1) seps') (map gid (drop (m + 1) ts'))"
      using split_branch_pages_eq [OF full(1) l(3) sl ls(2), of pid lev t1] by (auto simp: m_def q_def take_map drop_map)
    let ?t2 = "put_page_with_lsn (put_page_with_lsn (t1\<lparr>next_page_id := q + 1\<rparr>) pid lb) q rb"
    let ?gs = "[GNode pid (take m seps') (take (m + 1) ts'), GNode q (drop (m + 1) seps') (drop (m + 1) ts')]"
    have "insert_into_parent (gid l) (gid r) s ((pid, i) # path) t1 = proceed [seps' ! m] ?gs path ?t2"
      unfolding run try_build_branch_splits [OF sl kl full(1) ls(2) full(2)] by (simp add: bt_monad) (simp add: bt_bind_def sp(1))
    moreover have "grown kl vl (Suc h) lo hi es (GNode pid seps ts) t [seps' ! m] ?gs ?t2"
      by (rule grown_node_two [OF E n full(1) l(3) d u, folded m_def q_def, OF branch_view_lsn [OF sp(2)] branch_view_lsn [OF sp(3)]])
        (simp_all add: q_def)
    ultimately show ?thesis by blast
  qed
qed

section \<open>The descent\<close>

lemma insert_from_node:
  assumes b: "branch_view b pid seps (map gid ts)" and s: "sorted seps" and i: "child_index k seps < length ts"
    and c: "bt_pages t (gid (ts ! child_index k seps)) = Some c"
  shows "insert_from t b path k v = insert_from t c ((pid, child_index k seps) # path) k v"
  using branch_slot_eq [OF b s, of k] branch_view_reads(2,4) [OF b] c i
  by (subst insert_from_def, subst descend_loop.simps) (simp add: get_page_def insert_from_def)

lemma upsert_around:
  assumes "tiled (gwf kl vl h) lo hi seps ts" "lo \<le> k" "below k hi"
  defines "i \<equiv> child_index k seps"
  shows "concat (map entries (take i ts)) @ upsert k v (entries (ts ! i)) @ concat (map entries (drop (Suc i) ts)) =
    upsert k v (concat (map entries ts))"
proof -
  note ib = child_index_bounds [OF assms(1-3), folded i_def]
  have le: "i \<le> length seps" by (simp add: i_def)
  note nb = gwf_neighbours [OF assms(1) le]
  have "\<forall>kv \<in> set (concat (map entries (take i ts))). fst kv < k"
    by (intro ballI order_less_le_trans [OF _ ib(1)]) (rule nb(1))
  moreover have "\<forall>kv \<in> set (concat (map entries (drop (Suc i) ts))). k < fst kv"
    by (intro ballI nb(2) [OF _ ib(2)])
  ultimately show ?thesis
    unfolding entries_around [OF ib(3)] by (simp only: upsert_append_left upsert_append_right)
qed

lemma tiled_seps_sorted: "tiled P lo hi ss ts \<Longrightarrow> sorted ss"
  using tiled_sorted by blast

lemma grown_cases:
  assumes "grown kl vl h lo hi es g t ss gs t'"
  obtains (one) g' where "ss = []" "gs = [g']" "gid g' = gid g"
  | (two) s l r where "ss = [s]" "gs = [l, r]" "gid l = gid g"
proof (cases ss)
  case Nil
  then show ?thesis
    using assms one by (auto simp: grown_def evolved_def tiled_Nil_iff)
next
  case (Cons s ss')
  then have "ss' = []" using assms by (simp add: grown_def)
  then show ?thesis
    using assms two Cons by (auto simp: grown_def evolved_def tiled_Nil_iff tiled_Cons_iff)
qed

lemma insert_below:
  assumes "gwf kl vl h lo hi g" "rep (bt_pages t) g" "distinct (gpids g)" "\<forall>p \<in> set (gpids g). p < next_page_id t"
    "lo \<le> k" "below k hi" "length k = kl" "length v = vl" "sizes_ok kl vl" "branch_safe kl \<or> roomy kl h g"
    "unat (next_page_id t) + h + 1 < 2 ^ 64" "bt_pages t (gid g) = Some b"
  shows "\<exists>ss gs t'. insert_from t b path k v = proceed ss gs path t' \<and> grown kl vl h lo hi (upsert k v (entries g)) g t ss gs t'"
  using assms
proof (induction h arbitrary: lo hi g b path)
  case 0
  obtain pid nxt kvs where g: "g = GLeaf pid nxt kvs" by (rule gwf_leafE [OF 0(1)])
  then have b: "leaf_view b pid nxt kvs" using 0(2,12) by simp
  have "\<exists>ss gs t'. insert_at_leaf pid b path k v t = proceed ss gs path t' \<and>
    grown kl vl 0 lo hi (upsert k v kvs) (GLeaf pid nxt kvs) t ss gs t'"
    by (rule insert_leaf [OF _ 0(5-8) b 0(9)]) (use 0 g in simp_all)
  then show ?case
    using insert_from_leaf [OF b] by (simp add: g)
next
  case (Suc h)
  obtain pid seps ts where g: "g = GNode pid seps ts" and w: "tiled (gwf kl vl h) lo hi seps ts" "seps \<noteq> []"
    "length seps \<le> branch_cap kl" "\<forall>s \<in> set seps. length s = kl"
    by (rule gwf_nodeE [OF Suc.prems(1)])
  have b: "branch_view b pid seps (map gid ts)" and R: "\<forall>g \<in> set ts. rep (bt_pages t) g"
    using Suc.prems(2,12) g by (auto simp: list_all_iff)
  define i where "i = child_index k seps"
  note ib = child_index_bounds [OF w(1) Suc.prems(5,6), folded i_def]
  have le: "i \<le> length seps" by (simp add: i_def)
  have mem: "ts ! i \<in> set ts" by (rule nth_mem [OF ib(3)])
  obtain c where c: "bt_pages t (gid (ts ! i)) = Some c"
    using rep_page R mem by blast
  obtain lo' hi' where f: "gwf kl vl h lo' hi' (ts ! i)"
    "lo' = (if i = 0 then lo else seps ! (i - 1))" "hi' = (if i = length seps then hi else Some (seps ! i))"
    by (rule tiled_focus [OF w(1) le])
  have di: "distinct (gpids (ts ! i))" "\<forall>p \<in> set (gpids (ts ! i)). p < next_page_id t" "pid \<notin> set (gpids (ts ! i))" "pid < next_page_id t"
    using Suc.prems(3,4) mem around [OF ib(3), of gpids] unfolding g by auto
  have safe: "branch_safe kl \<or> roomy kl h (ts ! i)" "branch_safe kl \<or> length seps < branch_cap kl"
    using Suc.prems(10) mem unfolding g by auto
  obtain ss gs t1 where r: "insert_from t c ((pid, i) # path) k v = proceed ss gs ((pid, i) # path) t1"
    and G: "grown kl vl h lo' hi' (upsert k v (entries (ts ! i))) (ts ! i) t ss gs t1"
    using Suc.IH [OF f(1) _ di(1,2) ib(1) [folded f(2)] ib(2) [folded f(3)] Suc.prems(7-9) safe(1) _ c, of "(pid, i) # path"] R mem Suc.prems(11) by auto
  have E0: "evolved kl vl h lo' hi' (upsert k v (entries (ts ! i))) (ts ! i) t ss gs t1"
    and u: "unat (next_page_id t1) \<le> unat (next_page_id t) + h + 1"
    using G by (simp_all add: grown_def)
  note E = evolve_child [OF w(1,4) le Suc.prems(3,4) [unfolded g] R E0 [unfolded f(2,3)],
    unfolded upsert_around [OF w(1) Suc.prems(5,6), folded i_def]]
  have b1: "bt_pages t1 pid = Some b"
    using evolvedD(9) [OF E0 di(3,4)] Suc.prems(12) by (simp add: g)
  have run: "insert_from t b path k v = proceed ss gs ((pid, i) # path) t1"
    using insert_from_node [OF b tiled_seps_sorted [OF w(1)], of k t c path v] ib(3) c r by (simp add: i_def)
  show ?case
    using G
  proof (cases rule: grown_cases)
    case (one g')
    have "map gid (take i ts @ [g'] @ drop (Suc i) ts) = map gid ts"
      by (subst (3) id_take_nth_drop [OF ib(3)]) (simp add: one)
    then have "grown kl vl (Suc h) lo hi (upsert k v (concat (map entries ts))) (GNode pid seps ts) t [] [GNode pid seps (take i ts @ [g'] @ drop (Suc i) ts)] t1"
      by (intro grown_node_one [OF E(1) [unfolded one, simplified append_Nil append_take_drop_id] E(2) [unfolded one] w(2,3), of b] ) (use b b1 u in \<open>auto simp: map_upd_triv\<close>)
    moreover have "insert_from t b path k v = proceed [] [GNode pid seps (take i ts @ [g'] @ drop (Suc i) ts)] path t1"
      using run by (simp add: one)
    ultimately show ?thesis
      unfolding g entries.simps by blast
  next
    case (two s l r)
    have "\<exists>ss gs t2. insert_into_parent (gid l) (gid r) s ((pid, i) # path) t1 = proceed ss gs path t2 \<and>
      grown kl vl (Suc h) lo hi (upsert k v (concat (map entries ts))) (GNode pid seps ts) t ss gs t2"
      by (rule parent_step [OF refl refl E [unfolded two] le tiled_length [OF w(1)] b1 b w(3) safe(2) Suc.prems(9) Suc.prems(4) [unfolded g] u])
        (use Suc.prems(11) in simp)
    then show ?thesis
      using run by (simp add: two g)
  qed
qed

section \<open>The whole tree\<close>

lemma new_root_page:
  assumes "length s = kl" "kl + 8 \<le> 2048" "0 < branch_cap kl"
  shows "\<exists>slot b. insert_raw (new_branch q lev) (encode_branch_entry s c1) = Some (slot, b) \<and>
    branch_view (set_rightmost_child b c2) q [s] [c1, c2]"
proof -
  obtain b where b: "try_build_branch q lev [s] [c1, c2] = Some (Some b)" "branch_view b q [s] [c1, c2]"
    using try_build_branch_fits [of "[s]" kl "[c1, c2]" q lev] assms by auto
  from b(1) obtain slot b0 where "insert_raw (new_branch q lev) (encode_branch_entry s c1) = Some (Some slot, b0)"
    "b = set_rightmost_child b0 c2"
    by (auto simp: try_build_branch_def split: option.splits prod.splits)
  then show ?thesis
    using b(2) by blast
qed

text \<open>Every leaf has at least \<open>m\<close> entries, unless the root is a leaf.\<close>

definition occupied :: "nat \<Rightarrow> nat \<Rightarrow> gtree \<Rightarrow> bool" where
  "occupied m h g \<longleftrightarrow> h = 0 \<or> (\<forall>l \<in> set (gleaves g). m \<le> length (leaf_kvs l))"

lemma insert_root:
  assumes ok: "btree_ok kl vl h g t" and G: "grown kl vl h [] None es g t ss gs t1" and sz: "sizes_ok kl vl"
    and u: "unat (next_page_id t) + h + 2 < 2 ^ 64"
  shows "\<exists>g' h' t'. proceed ss gs [] t1 = Some (Inr (), t') \<and> btree_ok kl vl h' g' t' \<and> entries g' = es \<and> h' \<le> h + 1 \<and>
    unat (next_page_id t') \<le> unat (next_page_id t) + h + 2 \<and>
    (\<forall>m. m \<le> half_full kl vl \<longrightarrow> occupied m h g \<longrightarrow> occupied m h' g')"
proof -
  have E: "evolved kl vl h [] None es g t ss gs t1" and u1: "unat (next_page_id t1) \<le> unat (next_page_id t) + h + 1"
    using G by (simp_all add: grown_def)
  note D = evolvedD [OF E]
  have o: "root_page_id t = gid g" "\<forall>p \<in> set (gpids g). p \<noteq> 0 \<and> p < next_page_id t" "chained (gleaves g) 0"
    using ok by (simp_all add: btree_ok_def)
  have "0 < next_page_id t"
    using o(2) [rule_format, of "gid g"] word_coorder.not_eq_extremum by fastforce
  then have P: "p \<noteq> 0 \<and> p < next_page_id t1" if "p \<in> set (concat (map gpids gs))" for p
    using D(5) [OF that] o(2) D(11) by (auto intro: order_less_le_trans simp: word_gt_0)
  show ?thesis
    using G
  proof (cases rule: grown_cases)
    case (one g')
    have "btree_ok kl vl h g' t1"
      using D(1,3,4,7,10) P o by (auto simp: btree_ok_def one tiled_Nil_iff)
    moreover have "occupied m h g'" if "m \<le> half_full kl vl" "occupied m h g" for m
      using D(12) that by (fastforce simp: one occupied_def)
    ultimately show ?thesis
      using u1 D(6) by (auto simp: one intro!: exI [of _ g'] exI [of _ h])
  next
    case (two s l r)
    define q where "q = next_page_id t1"
    have al: "q < q + 1" "unat (q + 1) = unat q + 1"
      by (rule alloc_fresh, use u u1 in \<open>simp add: q_def\<close>)+
    define lev where "lev = (case bt_pages t1 (gid l) of Some p \<Rightarrow> bh_level (btree_header_of p) | None \<Rightarrow> 0)"
    have sl: "length s = kl" using D(2) by (simp add: two)
    have cap: "kl + 8 \<le> 2048" "3 \<le> branch_cap kl"
      using sz caps_ge_3(2) [OF sz] by (simp_all add: sizes_ok_def)
    obtain slot b where b: "insert_raw (new_branch q (lev + 1)) (encode_branch_entry s (gid l)) = Some (slot, b)"
      "branch_view (set_rightmost_child b (gid r)) q [s] [gid l, gid r]"
      using new_root_page [OF sl cap(1), of q "lev + 1" "gid l" "gid r"] cap(2) by auto
    let ?t = "(put_page_with_lsn (t1\<lparr>next_page_id := q + 1\<rparr>) q (set_rightmost_child b (gid r)))\<lparr>root_page_id := q\<rparr>"
    have run: "proceed ss gs [] t1 = Some (Inr (), ?t)"
      using b(1) by (simp add: two bt_monad get_page_def lev_def q_def Let_def)
    have lr: "rep (bt_pages ?t) l" "rep (bt_pages ?t) r"
      by (rule rep_elsewhere [OF D(3)]; use P in \<open>fastforce simp: two q_def\<close>)+
    have "btree_ok kl vl (Suc h) (GNode q [s] [l, r]) ?t"
      unfolding btree_ok_def
    proof (intro conjI)
      show "gwf kl vl (Suc h) [] None (GNode q [s] [l, r])"
        using D(1) sl cap by (simp add: two)
      show "rep (bt_pages ?t) (GNode q [s] [l, r])"
        using lr branch_view_lsn [OF b(2)] by simp
      have "q \<notin> set (concat (map gpids gs))" using P [of q] by (auto simp: q_def simp del: set_concat)
      then show "distinct (gpids (GNode q [s] [l, r]))" using D(4) by (simp add: two)
      have "q \<noteq> 0" using \<open>0 < next_page_id t\<close> D(11) by (auto simp: q_def)
      moreover have "p < q + 1" if "p \<in> set (concat (map gpids gs))" for p
        using P [OF that] al(1) by (auto simp: q_def)
      ultimately show "\<forall>p \<in> set (gpids (GNode q [s] [l, r])). p \<noteq> 0 \<and> p < next_page_id ?t"
        using P al(1) by (auto simp: two)
      show "chained (gleaves (GNode q [s] [l, r])) 0" using D(7) [OF o(3)] by (simp add: two)
    qed simp
    moreover have "occupied m (Suc h) (GNode q [s] [l, r])" if "m \<le> half_full kl vl" "occupied m h g" for m
    proof (cases "h = 0")
      case True
      then have "half_full kl vl \<le> length (leaf_kvs x)" if "x \<in> set (gleaves (GNode q [s] [l, r]))" for x
        using G that by (simp add: grown_def two)
      then show ?thesis using that(1) unfolding occupied_def by (meson order_trans)
    next
      case False
      then show ?thesis using D(12) that by (fastforce simp: two occupied_def)
    qed
    moreover have "entries (GNode q [s] [l, r]) = es" using D(6) by (simp add: two)
    ultimately show ?thesis
      using run u1 al(2) by (intro exI [of _ "GNode q [s] [l, r]"] exI [of _ "Suc h"] exI [of _ ?t]) (simp add: q_def)
  qed
qed

lemma insert_locked_eq:
  assumes ok: "btree_ok kl vl h g t" and k: "length k = kl" "length v = vl" and sz: "sizes_ok kl vl" 
    and safe: "branch_safe kl \<or> roomy kl h g" and u: "unat (next_page_id t) + h + 2 < 2 ^ 64"
  shows "\<exists>ss gs t1. insert_locked k v t = proceed ss gs [] t1 \<and> grown kl vl h [] None (upsert k v (entries g)) g t ss gs t1"
proof -
  have o: "gwf kl vl h [] None g" "rep (bt_pages t) g" "root_page_id t = gid g" "distinct (gpids g)" "\<forall>p \<in> set (gpids g). p < next_page_id t"
    using ok by (simp_all add: btree_ok_def)
  obtain b where b: "bt_pages t (gid g) = Some b" using rep_page [OF o(2)] by blast
  have desc: "insert_descend b k v t = insert_from t b [] k v"
    by (simp add: insert_descend_def insert_from_def descend_to_leaf_with_path_def)
  have below: "\<exists>ss gs t1. insert_from t b [] k v = proceed ss gs [] t1 \<and> grown kl vl h [] None (upsert k v (entries g)) g t ss gs t1"
    by (rule insert_below [OF o(1,2,4,5) _ _ k sz safe _ b]) (use u in simp_all)
  show ?thesis
  proof (cases "is_leaf b \<and> bt_key_count b = 0")
    case False
    then have "insert_locked k v t = insert_from t b [] k v"
      using b o(3) desc by (auto simp: insert_locked_def bt_monad)
    then show ?thesis using below by simp
  next
    case True
    then obtain nxt where g: "g = GLeaf (gid g) nxt []" "leaf_view b (gid g) nxt []" "h = 0"
    proof (cases g)
      case (GLeaf pid nxt kvs)
      then have l: "leaf_view b pid nxt kvs" using o(2) b by simp
      have "h = 0" using o(1) by (cases h) (simp_all add: GLeaf)
      then show ?thesis using that [of nxt] leaf_view_reads(5) [OF l] True l by (simp add: GLeaf)
    next
      case (GNode pid seps ts)
      then show ?thesis using o(2) b True branch_view_reads(3) by auto
    qed
    have cap: "0 < leaf_cap kl vl" using caps_ge_3(1) [OF sz] by simp
    obtain b' where b': "insert_raw b (encode_kv k v) = Some (Some 0, b')" "leaf_view b' (gid g) nxt [(k, v)]"
      using leaf_insert_end [OF g(2), of kl vl "(k, v)"] k sz cap by auto
    have "insert_locked k v t = proceed [] [GLeaf (gid g) nxt [(k, v)]] [] (put_page_with_lsn t (gid g) b')"
      using b o(3) True b'(1) leaf_has_room [OF g(2) _ k] cap by (simp add: insert_locked_def bt_monad bt_put_def Let_def)
    moreover have "grown kl vl 0 [] None (upsert k v []) (GLeaf (gid g) nxt []) t [] [GLeaf (gid g) nxt (upsert k v [])] (put_page_with_lsn t (gid g) b')"
      by (rule grown_leaf_one [OF _ _ _ k]) (use b'(2) cap in simp_all)
    moreover have "GLeaf (gid g) nxt [] = g" "entries g = []"
      by (rule g(1) [symmetric], subst g(1), simp)
    ultimately show ?thesis
      unfolding g(3) upsert_Nil by (metis upsert_Nil)
  qed
qed

text \<open>An insertion returns, and leaves a B+ tree with the entry added.\<close>

lemma bt_insert_spec:
  assumes ok: "btree_ok kl vl h g t" and k: "length k = kl" "length v = vl" and sz: "sizes_ok kl vl" 
    and safe: "branch_safe kl \<or> roomy kl h g" and u: "unat (next_page_id t) + h + 2 < 2 ^ 64"
  shows "\<exists>g' h' t'. bt_insert k v t = Some (Inr (), t') \<and> btree_ok kl vl h' g' t' \<and> entries g' = upsert k v (entries g) \<and>
    h' \<le> h + 1 \<and> unat (next_page_id t') \<le> unat (next_page_id t) + h + 2 \<and>
    (\<forall>m. m \<le> half_full kl vl \<longrightarrow> occupied m h g \<longrightarrow> occupied m h' g')"
proof -
  obtain ss gs t1 where r: "insert_locked k v t = proceed ss gs [] t1" "grown kl vl h [] None (upsert k v (entries g)) g t ss gs t1"
    using insert_locked_eq [OF assms] by blast
  show ?thesis
    unfolding bt_insert_def r(1) by (rule insert_root [OF ok r(2) sz u])
qed

section \<open>Trees with few leaves are roomy\<close>

lemma gleaves_nonempty: "gwf kl vl h lo hi g \<Longrightarrow> 0 < length (gleaves g)"
proof (induction h arbitrary: lo hi g)
  case 0
  show ?case by (rule gwf_leafE [OF 0]) simp
next
  case (Suc h)
  obtain pid seps ts where g: "g = GNode pid seps ts" "tiled (gwf kl vl h) lo hi seps ts"
    by (rule gwf_nodeE [OF Suc.prems])
  then obtain t ts' where ts: "ts = t # ts'" using tiled_length [OF g(2)] by (cases ts) auto
  obtain lo' hi' where "gwf kl vl h lo' hi' t" using tiled_set [OF g(2), of t] ts by auto
  then show ?case using Suc.IH by (simp add: g(1) ts)
qed

lemma length_concat_ge: "(\<And>t. t \<in> set ts \<Longrightarrow> 0 < length (f t)) \<Longrightarrow> length ts \<le> length (concat (map f ts))"
proof (induction ts)
  case (Cons t ts)
  then have "0 < length (f t)" "length ts \<le> length (concat (map f ts))" by auto
  then show ?case by (simp del: length_greater_0_conv)
qed simp

lemma length_concat_mem: "t \<in> set ts \<Longrightarrow> length (f t) \<le> length (concat (map f ts))"
  by (induction ts) auto

lemma roomy_few: "gwf kl vl h lo hi g \<Longrightarrow> length (gleaves g) \<le> branch_cap kl \<Longrightarrow> roomy kl h g"
proof (induction h arbitrary: lo hi g)
  case (Suc h)
  obtain pid seps ts where g: "g = GNode pid seps ts" "tiled (gwf kl vl h) lo hi seps ts"
    by (rule gwf_nodeE [OF Suc.prems(1)])
  have "roomy kl h t" if "t \<in> set ts" for t
    using tiled_set [OF g(2) that] Suc.IH [of _ _ t] length_concat_mem [OF that, of gleaves] Suc.prems(2) by (auto simp: g(1))
  moreover have "0 < length (gleaves t)" if "t \<in> set ts" for t
    using tiled_set [OF g(2) that] gleaves_nonempty by blast
  then have "length ts \<le> length (concat (map gleaves ts))" by (rule length_concat_ge)
  ultimately show ?case
    using Suc.prems(2) tiled_length [OF g(2)] by (simp add: g(1))
qed simp

lemma leaves_bounded: "(\<And>l. l \<in> set ls \<Longrightarrow> m \<le> length (leaf_kvs l)) \<Longrightarrow> length ls * m \<le> length (concat (map leaf_kvs ls))"
proof (induction ls)
  case (Cons l ls)
  then have "m \<le> length (leaf_kvs l)" "length ls * m \<le> length (concat (map leaf_kvs ls))" by auto
  then show ?case by simp
qed simp

text \<open>A tree of leaves that are not too empty has room in its branches as long as its entries would
  fit below one branch.\<close>

lemma roomy_occupied:
  assumes w: "gwf kl vl h lo hi g" and o: "occupied m h g" and m: "0 < m" and n: "length (entries g) \<le> m * branch_cap kl"
  shows "roomy kl h g"
proof (cases "h = 0")
  case False
  then have "length (gleaves g) * m \<le> length (entries g)"
    unfolding entries_gleaves using o by (intro leaves_bounded) (auto simp: occupied_def)
  then have "length (gleaves g) * m \<le> branch_cap kl * m"
    using n by (metis mult.commute order_trans)
  then show ?thesis
    using m by (intro roomy_few [OF w]) simp
qed (cases g, auto)

end
