(* ===== verification/BTreeRebalance.thy ===== *)
theory BTreeRebalance
  imports BTreeInsert
begin

text \<open>
  Rebalancing two neighbours of the B+ tree: moving an entry from one to the other, and merging
  them. Both keep the entries, and change no page outside the two nodes but the backward link of
  the next leaf.
\<close>

section \<open>Fill of a node\<close>

text \<open>The number of records of \<open>r\<close> bytes up to which a page counts as underfull.\<close>

definition min_fill :: "nat \<Rightarrow> nat" where
  "min_fill r = 2428 div r"

text \<open>Record sizes for which two neighbours that cannot lend fit into one page.\<close>

definition merge_ok :: "nat \<Rightarrow> nat \<Rightarrow> bool" where
  "merge_ok kl vl \<longleftrightarrow>
     2 * min_fill (kl + vl + 2) + 1 \<le> leaf_cap kl vl \<and> 2 * min_fill (kl + 8) + 2 \<le> branch_cap kl"

lemma below_min_fill_iff: "0 < r \<Longrightarrow> below_min_fill (n * r) \<longleftrightarrow> n \<le> min_fill r"
proof -
  assume "0 < r"
  have "below_min_fill (n * r) \<longleftrightarrow> n * r \<le> 2428"
    by (simp add: below_min_fill_def PAGE_SIZE_def HEADER_SIZE_def BTREE_HEADER_SIZE_def) linarith
  then show ?thesis
    using \<open>0 < r\<close> by (simp add: min_fill_def less_eq_div_iff_mult_less_eq)
qed

lemma record_sizes_view:
  assumes "bt_view buf pid pt bh recs"
  shows "record_sizes buf = map length recs"
proof -
  have "record_sizes buf = map (\<lambda>i. length (recs ! i)) [0..<length recs]"
    unfolding record_sizes_def bt_view_reads(3) [OF assms]
    by (rule map_filter_some) (simp add: bt_view_reads(2) [OF assms])
  also have "\<dots> = map length recs"
    by (rule nth_equalityI) simp_all
  finally show ?thesis .
qed

lemma fold_max_replicate: "fold max (replicate n r) (m :: nat) = (if n = 0 then m else max m r)"
  by (induction n arbitrary: m) auto

lemma fill_view:
  assumes v: "bt_view buf pid pt bh recs" and u: "\<forall>rec \<in> set recs. length rec = r" and r: "0 < r"
  shows "is_underfull buf \<longleftrightarrow> length recs \<le> min_fill r" "can_lend buf \<longleftrightarrow> min_fill r + 2 \<le> length recs"
proof -
  have c: "unat (bt_key_count buf) = length recs" by (rule bt_view_reads(4) [OF v])
  have s: "record_sizes buf = replicate (length recs) r"
    unfolding record_sizes_view [OF v] using u by (simp add: map_replicate_const [symmetric] cong: map_cong)
  have z: "bt_key_count buf = 0 \<longleftrightarrow> length recs = 0"
    using c by (metis unat_eq_zero)
  have o: "bt_key_count buf \<le> 1 \<longleftrightarrow> length recs \<le> 1"
    using c by (simp add: word_le_nat_alt)
  show "is_underfull buf \<longleftrightarrow> length recs \<le> min_fill r"
    unfolding is_underfull_def s z by (auto simp: sum_list_replicate below_min_fill_iff [OF r])
  have "length recs * r - r = (length recs - 1) * r"
    by (simp add: diff_mult_distrib)
  then show "can_lend buf \<longleftrightarrow> min_fill r + 2 \<le> length recs"
    unfolding can_lend_def s o Let_def fold_max_replicate using below_min_fill_iff [OF r, of "length recs - 1"]
    by (auto simp: sum_list_replicate)
qed

text \<open>How full a node of the tree is.\<close>

fun count :: "gtree \<Rightarrow> nat" where
  "count (GLeaf pid nxt kvs) = length kvs"
| "count (GNode pid seps ts) = length seps"

definition fill :: "nat \<Rightarrow> nat \<Rightarrow> nat \<Rightarrow> nat" where
  "fill kl vl h = (if h = 0 then min_fill (kl + vl + 2) else min_fill (kl + 8))"

lemma fill_leaf:
  assumes "leaf_view b pid nxt kvs" "uniform kl vl kvs"
  shows "is_underfull b \<longleftrightarrow> length kvs \<le> min_fill (kl + vl + 2)" "can_lend b \<longleftrightarrow> min_fill (kl + vl + 2) + 2 \<le> length kvs"
proof -
  obtain bh where v: "bt_view b pid BTreeLeaf bh (map kv_record kvs)" using assms(1) by (auto simp: leaf_view_def)
  have "\<forall>rec \<in> set (map kv_record kvs). length rec = kl + vl + 2"
    using assms(2) by (auto simp: uniform_def)
  from fill_view [OF v this] show "is_underfull b \<longleftrightarrow> length kvs \<le> min_fill (kl + vl + 2)"
    "can_lend b \<longleftrightarrow> min_fill (kl + vl + 2) + 2 \<le> length kvs" by simp_all
qed

lemma fill_branch:
  assumes "branch_view b pid seps cs" "\<forall>s \<in> set seps. length s = kl"
  shows "is_underfull b \<longleftrightarrow> length seps \<le> min_fill (kl + 8)" "can_lend b \<longleftrightarrow> min_fill (kl + 8) + 2 \<le> length seps"
proof -
  obtain bh where v: "bt_view b pid BTreeInterior bh (map2 encode_branch_entry seps (butlast cs))" and l: "length cs = length seps + 1"
    using assms(1) by (auto simp: branch_view_def)
  have "\<forall>rec \<in> set (map2 encode_branch_entry seps (butlast cs)). length rec = kl + 8"
    using assms(2) by (auto dest: set_zip_leftD)
  from fill_view [OF v this] show "is_underfull b \<longleftrightarrow> length seps \<le> min_fill (kl + 8)"
    "can_lend b \<longleftrightarrow> min_fill (kl + 8) + 2 \<le> length seps" using l by simp_all
qed

section \<open>Nodes that lost their last separator\<close>

text \<open>A node in the course of rebalancing may have a single child.\<close>

fun gwf0 :: "nat \<Rightarrow> nat \<Rightarrow> nat \<Rightarrow> bytes \<Rightarrow> bytes option \<Rightarrow> gtree \<Rightarrow> bool" where
  "gwf0 kl vl (Suc h) lo hi (GNode pid seps ts) =
     (tiled (gwf kl vl h) lo hi seps ts \<and> length seps \<le> branch_cap kl \<and> (\<forall>s \<in> set seps. length s = kl))"
| "gwf0 kl vl h lo hi g = gwf kl vl h lo hi g"

fun sound :: "gtree \<Rightarrow> bool" where
  "sound (GLeaf pid nxt kvs) = True"
| "sound (GNode pid seps ts) = (seps \<noteq> [])"

lemma gwf_iff: "gwf kl vl h lo hi g \<longleftrightarrow> gwf0 kl vl h lo hi g \<and> sound g"
  by (cases h; cases g) auto

lemma gwf0_ranged: "gwf0 kl vl h lo hi g \<Longrightarrow> ranged lo hi (entries g)"
proof (cases h)
  case (Suc h')
  assume w: "gwf0 kl vl h lo hi g"
  then obtain pid seps ts where g: "g = GNode pid seps ts" "tiled (gwf kl vl h') lo hi seps ts"
    using Suc by (cases g) auto
  show ?thesis
    unfolding g(1) entries.simps by (rule tiled_ranged [OF g(2)]) (rule gwf_ranged)
qed (use gwf_ranged in simp)

lemma fill_page:
  assumes "gwf0 kl vl h lo hi g" "rep P g" "P (gid g) = Some b"
  shows "is_leaf b \<longleftrightarrow> h = 0" "is_underfull b \<longleftrightarrow> count g \<le> fill kl vl h" "can_lend b \<longleftrightarrow> fill kl vl h + 2 \<le> count g"
proof -
  have "(is_leaf b \<longleftrightarrow> h = 0) \<and> (is_underfull b \<longleftrightarrow> count g \<le> fill kl vl h) \<and> (can_lend b \<longleftrightarrow> fill kl vl h + 2 \<le> count g)"
  proof (cases h)
    case 0
    then obtain pid nxt kvs where g: "g = GLeaf pid nxt kvs" "uniform kl vl kvs"
      using assms(1) by (cases g) auto
    then have "leaf_view b pid nxt kvs" using assms(2,3) by simp
    then show ?thesis using fill_leaf g leaf_view_reads(2) by (simp add: fill_def 0)
  next
    case (Suc h')
    then obtain pid seps ts where g: "g = GNode pid seps ts" "\<forall>s \<in> set seps. length s = kl"
      using assms(1) by (cases g) auto
    then have "branch_view b pid seps (map gid ts)" using assms(2,3) by simp
    then show ?thesis using fill_branch g branch_view_reads(3) by (simp add: fill_def Suc)
  qed
  then show "is_leaf b \<longleftrightarrow> h = 0" "is_underfull b \<longleftrightarrow> count g \<le> fill kl vl h" "can_lend b \<longleftrightarrow> fill kl vl h + 2 \<le> count g"
    by blast+
qed

section \<open>Trees that were rearranged\<close>

text \<open>The page at \<open>p\<close> is the same, but for a leaf that may have got another backward link.\<close>

definition keeps_view :: "(u64 \<Rightarrow> bytes option) \<Rightarrow> (u64 \<Rightarrow> bytes option) \<Rightarrow> u64 \<Rightarrow> bool" where
  "keeps_view P Q p \<longleftrightarrow>
     (\<forall>b nxt kvs. P p = Some b \<longrightarrow> leaf_view b p nxt kvs \<longrightarrow> (\<exists>b'. Q p = Some b' \<and> leaf_view b' p nxt kvs)) \<and>
     (\<forall>b. P p = Some b \<longrightarrow> \<not> is_leaf b \<longrightarrow> Q p = Some b)"

lemma keeps_view_refl [simp]: "Q p = P p \<Longrightarrow> keeps_view P Q p"
  by (auto simp: keeps_view_def)

lemma keeps_view_trans: "keeps_view P Q p \<Longrightarrow> keeps_view Q R p \<Longrightarrow> keeps_view P R p"
  unfolding keeps_view_def by metis

lemma keeps_view_relink:
  assumes "P p = Some b" "is_leaf b" "Q p = Some (set_page_lsn (set_siblings b x (sibling_next (btree_header_of b))) l)"
  shows "keeps_view P Q p"
  unfolding keeps_view_def
proof (intro conjI allI impI)
  fix b' nxt kvs assume "P p = Some b'" "leaf_view b' p nxt kvs"
  then have v: "leaf_view b p nxt kvs" using assms(1) by simp
  then show "\<exists>b'. Q p = Some b' \<and> leaf_view b' p nxt kvs"
    using assms(3) leaf_view_lsn [OF leaf_view_siblings [OF v, of x nxt], of l] leaf_view_reads(4) [OF v] by simp
qed (use assms in simp)

lemma rep_keeps_views:
  assumes "rep P g" "\<And>p. p \<in> set (gpids g) \<Longrightarrow> keeps_view P Q p"
  shows "rep Q g"
  using assms
proof (induction g)
  case (GLeaf pid nxt kvs)
  then show ?case by (fastforce simp: keeps_view_def)
next
  case (GNode pid seps ts)
  have "rep Q t" if "t \<in> set ts" for t
    using GNode that by (auto simp: list_all_iff)
  moreover obtain b where b: "P pid = Some b" "branch_view b pid seps (map gid ts)"
    using GNode.prems(1) by auto
  then have "Q pid = Some b"
    using GNode.prems(2) [of pid] branch_view_reads(3) [OF b(2)] by (simp add: keeps_view_def)
  ultimately show ?case
    using b(2) by (simp add: list_all_iff)
qed

text \<open>The trees \<open>gs\<close> have become \<open>gs'\<close>, with the same entries and no new pages.\<close>

definition moved :: "gtree list \<Rightarrow> btree \<Rightarrow> gtree list \<Rightarrow> btree \<Rightarrow> bool" where
  "moved gs t gs' t' \<longleftrightarrow> (\<forall>g \<in> set gs'. rep (bt_pages t') g) \<and> distinct (concat (map gpids gs')) \<and>
     set (concat (map gpids gs')) \<subseteq> set (concat (map gpids gs)) \<and>
     concat (map entries gs') = concat (map entries gs) \<and>
     (\<forall>z. chained (concat (map gleaves gs)) z \<longrightarrow> chained (concat (map gleaves gs')) z) \<and>
     (\<forall>z. first_leaf (concat (map gleaves gs')) z = first_leaf (concat (map gleaves gs)) z) \<and>
     (\<forall>p. p \<notin> set (concat (map gpids gs)) \<longrightarrow> keeps_view (bt_pages t) (bt_pages t') p) \<and>
     next_page_id t' = next_page_id t"

lemma movedI:
  assumes "\<And>g. g \<in> set gs' \<Longrightarrow> rep (bt_pages t') g" "distinct (concat (map gpids gs'))"
    "set (concat (map gpids gs')) \<subseteq> set (concat (map gpids gs))" "concat (map entries gs') = concat (map entries gs)"
    "\<And>z. chained (concat (map gleaves gs)) z \<Longrightarrow> chained (concat (map gleaves gs')) z"
    "\<And>z. first_leaf (concat (map gleaves gs')) z = first_leaf (concat (map gleaves gs)) z"
    "\<And>p. p \<notin> set (concat (map gpids gs)) \<Longrightarrow> keeps_view (bt_pages t) (bt_pages t') p" "next_page_id t' = next_page_id t"
  shows "moved gs t gs' t'"
  unfolding moved_def using assms by blast

lemma movedD:
  assumes "moved gs t gs' t'"
  shows "g \<in> set gs' \<Longrightarrow> rep (bt_pages t') g" "distinct (concat (map gpids gs'))"
    "set (concat (map gpids gs')) \<subseteq> set (concat (map gpids gs))" "concat (map entries gs') = concat (map entries gs)"
    "chained (concat (map gleaves gs)) z \<Longrightarrow> chained (concat (map gleaves gs')) z"
    "first_leaf (concat (map gleaves gs')) z = first_leaf (concat (map gleaves gs)) z"
    "p \<notin> set (concat (map gpids gs)) \<Longrightarrow> keeps_view (bt_pages t) (bt_pages t') p" "next_page_id t' = next_page_id t"
  using assms unfolding moved_def by blast+

lemma moved_refl: "\<forall>g \<in> set gs. rep (bt_pages t) g \<Longrightarrow> distinct (concat (map gpids gs)) \<Longrightarrow> moved gs t gs t"
  by (simp add: moved_def)

lemma moved_trans: "moved gs t gs' t' \<Longrightarrow> moved gs' t' gs'' t'' \<Longrightarrow> moved gs t gs'' t''"
  unfolding moved_def by (auto simp del: set_concat) (meson keeps_view_trans subsetD)

text \<open>Trees beside them are still there.\<close>

lemma moved_context:
  assumes M: "moved gs t gs' t'" and r: "\<forall>g \<in> set (A @ B). rep (bt_pages t) g" and d: "distinct (concat (map gpids (A @ gs @ B)))"
  shows "moved (A @ gs @ B) t (A @ gs' @ B) t'"
proof (rule movedI)
  note D = movedD [OF M]
  have dd: "distinct (concat (map gpids A) @ concat (map gpids gs) @ concat (map gpids B))" using d by simp
  have o: "rep (bt_pages t') g" if "g \<in> set (A @ B)" for g
  proof (rule rep_keeps_views)
    show "rep (bt_pages t) g" using r that by blast
    fix p assume "p \<in> set (gpids g)"
    then show "keeps_view (bt_pages t) (bt_pages t') p"
      using that dd by (intro D(7)) auto
  qed
  show "rep (bt_pages t') g" if "g \<in> set (A @ gs' @ B)" for g
    using that o [of g] D(1) [of g] by auto
  show "distinct (concat (map gpids (A @ gs' @ B)))"
    unfolding map_append concat_append by (rule distinct_split3 [OF dd D(2)]) (use D(3) in blast)
  show "set (concat (map gpids (A @ gs' @ B))) \<subseteq> set (concat (map gpids (A @ gs @ B)))"
    using D(3) by auto
  show "concat (map entries (A @ gs' @ B)) = concat (map entries (A @ gs @ B))" using D(4) by simp
  show "chained (concat (map gleaves (A @ gs' @ B))) z" if "chained (concat (map gleaves (A @ gs @ B))) z" for z
    using that unfolding map_append concat_append by (rule chained_replace(1)) (rule D(5), assumption, rule D(6))
  show "first_leaf (concat (map gleaves (A @ gs' @ B))) z = first_leaf (concat (map gleaves (A @ gs @ B))) z" for z
    by (simp add: first_leaf_append D(6))
  show "keeps_view (bt_pages t) (bt_pages t') p" if "p \<notin> set (concat (map gpids (A @ gs @ B)))" for p
    by (rule D(7)) (use that in auto)
  show "next_page_id t' = next_page_id t" by (rule D(8))
qed

section \<open>Two neighbouring leaves\<close>

lemma moved_leaves:
  assumes e: "xs' @ ys' = xs @ ys" and d: "xid \<noteq> yid"
    and t1: "bt_pages t1 = (bt_pages t)(xid \<mapsto> bx, yid \<mapsto> by)" "next_page_id t1 = next_page_id t"
    and v: "leaf_view bx xid xn xs'" "leaf_view by yid yn ys'"
  shows "moved [GLeaf xid xn xs, GLeaf yid yn ys] t [GLeaf xid xn xs', GLeaf yid yn ys'] t1"
  by (rule movedI) (use assms in auto)

lemma leaf_pair:
  assumes "tiled (gwf kl vl 0) lo hi [s] [GLeaf xid xn xs, GLeaf yid yn ys]"
  shows "sorted_kvs (xs @ ys)" "uniform kl vl (xs @ ys)" "\<forall>kv \<in> set (xs @ ys). lo \<le> fst kv \<and> below (fst kv) hi"
proof -
  have "ranged lo hi (concat (map entries [GLeaf xid xn xs, GLeaf yid yn ys]))"
    by (rule tiled_ranged [OF assms]) (rule gwf_ranged)
  then show "sorted_kvs (xs @ ys)" "\<forall>kv \<in> set (xs @ ys). lo \<le> fst kv \<and> below (fst kv) hi"
    by (simp_all add: ranged_def)
  show "uniform kl vl (xs @ ys)" using assms by (simp add: tiled_Cons_iff)
qed

lemma rep_leaf_page: "rep P (GLeaf pid nxt kvs) \<Longrightarrow> \<exists>b. P pid = Some b \<and> leaf_view b pid nxt kvs"
  by simp

lemma borrow_leaf_left:
  assumes t: "tiled (gwf kl vl 0) lo hi [s] [GLeaf xid xn (xs @ [kv]), GLeaf yid yn ys]" and sz: "sizes_ok kl vl"
    and r: "rep (bt_pages t) (GLeaf xid xn (xs @ [kv]))" "rep (bt_pages t) (GLeaf yid yn ys)" and d: "xid \<noteq> yid"
    and l: "length ys < leaf_cap kl vl"
  shows "\<exists>t1. borrow_leaf_from_left xid yid t = Some (Inr (fst kv), t1) \<and> length (fst kv) = kl \<and>
    tiled (gwf kl vl 0) lo hi [fst kv] [GLeaf xid xn xs, GLeaf yid yn (kv # ys)] \<and>
    moved [GLeaf xid xn (xs @ [kv]), GLeaf yid yn ys] t [GLeaf xid xn xs, GLeaf yid yn (kv # ys)] t1 \<and> root_page_id t1 = root_page_id t"
proof -
  obtain bx bz where b: "bt_pages t xid = Some bx" "leaf_view bx xid xn (xs @ [kv])" "bt_pages t yid = Some bz" "leaf_view bz yid yn ys"
    using r by auto
  note P = leaf_pair [OF t]
  have cap: "length xs < leaf_cap kl vl" using t by (simp add: tiled_Cons_iff)
  have u: "uniform kl vl (xs @ [kv])" "uniform kl vl (kv # ys)" using P(2) by simp_all
  note cx = leaf_view_reads [OF b(2)]
  have "bt_key_count bx \<noteq> 0" using cx(5) by auto
  then have c: "unat (bt_key_count bx - 1) = length xs" using cx(5) by (simp add: unat_minus_one)
  obtain bx' where bx': "bt_delete bx (length xs) = Some (True, bx')" "leaf_view bx' xid xn xs"
    using leaf_delete [OF b(2) _ u(1) sz, of "length xs"] by auto
  obtain bz' where bz': "insert_raw_at bz 0 (kv_record kv) = Some (Some 0, bz')" "leaf_view bz' yid yn (kv # ys)"
    using leaf_insert_at [OF b(4) u(2) sz l, of 0] by (auto simp: list_insert_def)
  let ?t1 = "put_page_with_lsn (put_page_with_lsn t xid bx') yid bz'"
  have kv: "length (fst kv) = kl" "length (fst kv) < 65536"
    using u(2) sz by (auto simp: sizes_ok_def)
  have "borrow_leaf_from_left xid yid t = Some (Inr (fst kv), ?t1)"
    using b(1,3) c cx(8) [of "length xs"] bx'(1) bz'(1) kv(2)
    by (simp add: borrow_leaf_from_left_def bt_monad Let_def bt_key_or_def) (simp add: bt_return_def)
  moreover have "tiled (gwf kl vl 0) lo hi [fst kv] [GLeaf xid xn xs, GLeaf yid yn (kv # ys)]"
    using tiled_leaf_split(1) [OF P, of "length xs"] cap l by simp
  moreover have "moved [GLeaf xid xn (xs @ [kv]), GLeaf yid yn ys] t [GLeaf xid xn xs, GLeaf yid yn (kv # ys)] ?t1"
    by (rule moved_leaves [OF _ d _ _ leaf_view_lsn [OF bx'(2)] leaf_view_lsn [OF bz'(2)]]) simp_all
  ultimately show ?thesis
    using kv(1) by auto
qed

lemma borrow_leaf_right:
  assumes t: "tiled (gwf kl vl 0) lo hi [s] [GLeaf xid xn xs, GLeaf yid yn (kv # kv' # ys)]" and sz: "sizes_ok kl vl"
    and r: "rep (bt_pages t) (GLeaf xid xn xs)" "rep (bt_pages t) (GLeaf yid yn (kv # kv' # ys))" and d: "xid \<noteq> yid"
    and l: "length xs < leaf_cap kl vl"
  shows "\<exists>t1. borrow_leaf_from_right xid yid t = Some (Inr (fst kv'), t1) \<and> length (fst kv') = kl \<and>
    tiled (gwf kl vl 0) lo hi [fst kv'] [GLeaf xid xn (xs @ [kv]), GLeaf yid yn (kv' # ys)] \<and>
    moved [GLeaf xid xn xs, GLeaf yid yn (kv # kv' # ys)] t [GLeaf xid xn (xs @ [kv]), GLeaf yid yn (kv' # ys)] t1 \<and>
    root_page_id t1 = root_page_id t"
proof -
  obtain bx bz where b: "bt_pages t xid = Some bx" "leaf_view bx xid xn xs" "bt_pages t yid = Some bz" "leaf_view bz yid yn (kv # kv' # ys)"
    using r by auto
  note P = leaf_pair [OF t]
  have cap: "length (kv # kv' # ys) \<le> leaf_cap kl vl" using t by (simp add: tiled_Cons_iff)
  have u: "uniform kl vl (kv # xs)" "uniform kl vl (kv # kv' # ys)" using P(2) by simp_all
  obtain bz' where bz': "bt_delete bz 0 = Some (True, bz')" "leaf_view bz' yid yn (kv' # ys)"
    using leaf_delete [OF b(4) _ u(2) sz, of 0] by auto
  obtain bx' where bx': "insert_raw bx (kv_record kv) = Some (Some (length xs), bx')" "leaf_view bx' xid xn (xs @ [kv])"
    using leaf_insert_end [OF b(2) u(1) sz l] by auto
  let ?t1 = "put_page_with_lsn (put_page_with_lsn t xid bx') yid bz'"
  have kv: "length (fst kv') = kl" "length (fst kv') < 65536"
    using u(2) sz by (auto simp: sizes_ok_def)
  have "borrow_leaf_from_right xid yid t = Some (Inr (fst kv'), ?t1)"
    using b(1,3) bx'(1) bz'(1) kv(2) leaf_view_reads(8) [OF b(4), of 0] leaf_view_reads(8) [OF bz'(2), of 0]
    by (simp add: borrow_leaf_from_right_def bt_monad Let_def bt_key_or_def) (simp add: bt_return_def)
  moreover have "tiled (gwf kl vl 0) lo hi [fst kv'] [GLeaf xid xn (xs @ [kv]), GLeaf yid yn (kv' # ys)]"
    using tiled_leaf_split(1) [OF P, of "length xs + 1"] cap l by (simp add: nth_append)
  moreover have "moved [GLeaf xid xn xs, GLeaf yid yn (kv # kv' # ys)] t [GLeaf xid xn (xs @ [kv]), GLeaf yid yn (kv' # ys)] ?t1"
    by (rule moved_leaves [OF _ d _ _ leaf_view_lsn [OF bx'(2)] leaf_view_lsn [OF bz'(2)]]) simp_all
  ultimately show ?thesis
    using kv(1) by auto
qed

text \<open>Merging takes the records of the right leaf over one by one, and relinks the leaf behind it.\<close>

lemma merge_loop_eq:
  assumes "leaf_view right yid yn ys" "uniform kl vl (xs @ ys)" "sizes_ok kl vl" "length (xs @ ys) \<le> leaf_cap kl vl"
    "leaf_view left xid xn (xs @ take i ys)" "i \<le> length ys"
  shows "\<exists>left'. merge_loop right [i..<length ys] left t = Some (Inr left', t) \<and> leaf_view left' xid xn (xs @ ys)"
  using assms(5,6)
proof (induction "length ys - i" arbitrary: i left)
  case 0
  then show ?case by (simp add: bt_return_def)
next
  case (Suc n)
  then have i: "i < length ys" by simp
  have u: "uniform kl vl (ys ! i # xs @ take i ys)"
    using assms(2) nth_mem [OF i] by (auto simp: uniform_def dest: in_set_takeD)
  have "length (xs @ take i ys) < leaf_cap kl vl" using assms(4) i by simp
  then obtain left' where l: "insert_raw left (kv_record (ys ! i)) = Some (Some (length (xs @ take i ys)), left')"
    "leaf_view left' xid xn ((xs @ take i ys) @ [ys ! i])"
    using leaf_insert_end [OF Suc.prems(1) u assms(3)] by blast
  have "leaf_view left' xid xn (xs @ take (Suc i) ys)" using l(2) i by (simp add: take_Suc_conv_app_nth)
  moreover have "n = length ys - Suc i" using Suc.hyps(2) by linarith
  ultimately obtain left'' where "merge_loop right [Suc i..<length ys] left' t = Some (Inr left'', t)" "leaf_view left'' xid xn (xs @ ys)"
    using Suc.hyps(1) [of "Suc i" left'] i by auto
  then show ?case
    using l(1) i leaf_view_reads(8) [OF assms(1), of i] by (simp add: upt_conv_Cons bt_monad)
qed

text \<open>The leaf that follows: there is none, or it is a leaf page elsewhere.\<close>

definition next_ok :: "(u64 \<Rightarrow> bytes option) \<Rightarrow> u64 set \<Rightarrow> u64 \<Rightarrow> bool" where
  "next_ok P ps z \<longleftrightarrow> z = 0 \<or> z \<notin> ps \<and> (\<exists>b n kvs. P z = Some b \<and> leaf_view b z n kvs)"

lemma merge_leaves_pair:
  assumes t: "tiled (gwf kl vl 0) lo hi [s] [GLeaf xid xn xs, GLeaf yid yn ys]" and sz: "sizes_ok kl vl"
    and r: "rep (bt_pages t) (GLeaf xid xn xs)" "rep (bt_pages t) (GLeaf yid yn ys)" and d: "xid \<noteq> yid"
    and l: "length xs + length ys \<le> leaf_cap kl vl" and z: "next_ok (bt_pages t) {xid, yid} yn"
  shows "\<exists>t1. merge_leaves xid yid t = Some (Inr (), t1) \<and> gwf kl vl 0 lo hi (GLeaf xid yn (xs @ ys)) \<and>
    moved [GLeaf xid xn xs, GLeaf yid yn ys] t [GLeaf xid yn (xs @ ys)] t1 \<and> root_page_id t1 = root_page_id t"
proof -
  obtain bx bz where b: "bt_pages t xid = Some bx" "leaf_view bx xid xn xs" "bt_pages t yid = Some bz" "leaf_view bz yid yn ys"
    using r by auto
  note P = leaf_pair [OF t]
  obtain left where left: "merge_loop bz [0..<length ys] bx t = Some (Inr left, t)" "leaf_view left xid xn (xs @ ys)"
    using merge_loop_eq [OF b(4) P(2) sz _ _, of bx xid xn 0 t] b(2) l by auto
  let ?left = "set_siblings left (sibling_prev (btree_header_of left)) yn"
  have lv: "leaf_view ?left xid yn (xs @ ys)" by (rule leaf_view_siblings [OF left(2)])
  let ?t1 = "put_page_with_lsn t xid ?left"
  have run: "merge_leaves xid yid t = (if yn \<noteq> 0 then case bt_pages ?t1 yn of None \<Rightarrow> Some (Inr (), ?t1)
      | Some nxt \<Rightarrow> bt_put yn (set_siblings nxt xid (sibling_next (btree_header_of nxt))) ?t1 else Some (Inr (), ?t1))"
    using b(1,3) leaf_view_reads(4,5) [OF b(4)] left(1)
    by (simp add: merge_leaves_def bt_monad get_page_def) (simp add: bt_bind_def get_page_def bt_put_def)
  have w: "gwf kl vl 0 lo hi (GLeaf xid yn (xs @ ys))" using P l by simp
  show ?thesis
  proof (cases "yn = 0")
    case True
    have "moved [GLeaf xid xn xs, GLeaf yid yn ys] t [GLeaf xid yn (xs @ ys)] ?t1"
      by (rule movedI) (use leaf_view_lsn [OF lv] in auto)
    then show ?thesis using run w True by simp
  next
    case False
    then obtain bn n kvs where n: "bt_pages t yn = Some bn" "leaf_view bn yn n kvs" "yn \<noteq> xid" "yn \<noteq> yid"
      using z by (auto simp: next_ok_def)
    let ?t2 = "put_page_with_lsn ?t1 yn (set_siblings bn xid (sibling_next (btree_header_of bn)))"
    have "moved [GLeaf xid xn xs, GLeaf yid yn ys] t [GLeaf xid yn (xs @ ys)] ?t2"
    proof (rule movedI)
      show "keeps_view (bt_pages t) (bt_pages ?t2) p" if "p \<notin> set (concat (map gpids [GLeaf xid xn xs, GLeaf yid yn ys]))" for p
      proof (cases "p = yn")
        case True
        have "bt_pages ?t2 yn = Some (set_page_lsn (set_siblings bn xid (sibling_next (btree_header_of bn))) (next_lsn ?t1))" by simp
        then show ?thesis unfolding True by (rule keeps_view_relink [where P = "bt_pages t", OF n(1) leaf_view_reads(2) [OF n(2)]])
      qed (use that in simp)
    qed (use leaf_view_lsn [OF lv] n in auto)
    then show ?thesis using run w False n by (simp add: bt_put_def)
  qed
qed

section \<open>Two neighbouring branches\<close>

lemma moved_branches:
  assumes e: "xts' @ yts' = xts @ yts" and d: "distinct (concat (map gpids [GNode xid xss xts, GNode yid yss yts]))"
    and r: "\<forall>g \<in> set (xts @ yts). rep (bt_pages t) g"
    and t1: "bt_pages t1 = (bt_pages t)(xid \<mapsto> bx, yid \<mapsto> bz)" "next_page_id t1 = next_page_id t"
    and v: "branch_view bx xid xss' (map gid xts')" "branch_view bz yid yss' (map gid yts')"
  shows "moved [GNode xid xss xts, GNode yid yss yts] t [GNode xid xss' xts', GNode yid yss' yts'] t1"
proof -
  have c: "concat (map f xts') @ concat (map f yts') = concat (map f xts) @ concat (map f yts)" for f :: "gtree \<Rightarrow> 'x list"
    using arg_cong [OF e, of "\<lambda>ts. concat (map f ts)"] by simp
  have s: "set xts' \<union> set yts' = set xts \<union> set yts" using arg_cong [OF e, of set] by simp
  have n: "xid \<noteq> yid" using d by auto
  have "rep (bt_pages t1) g" if "g \<in> set (xts @ yts)" for g
  proof (rule rep_elsewhere)
    show "rep (bt_pages t) g" using r that by blast
    show "bt_pages t1 p = bt_pages t p" if "p \<in> set (gpids g)" for p
      using that \<open>g \<in> set (xts @ yts)\<close> d by (auto simp: t1(1))
  qed
  then have ch: "list_all (rep (bt_pages t1)) xts'" "list_all (rep (bt_pages t1)) yts'"
    using s by (auto simp: list_all_iff)
  show ?thesis
  proof (rule movedI)
    show "rep (bt_pages t1) g" if "g \<in> set [GNode xid xss' xts', GNode yid yss' yts']" for g
      using that ch v n by (auto simp: t1(1))
    have "distinct (concat (map gpids xts') @ concat (map gpids yts'))" unfolding c using d by simp
    moreover have "set (concat (map gpids xts')) \<union> set (concat (map gpids yts')) = set (concat (map gpids xts)) \<union> set (concat (map gpids yts))"
      using arg_cong [OF c [of gpids], of set] by (simp only: set_append)
    ultimately show "distinct (concat (map gpids [GNode xid xss' xts', GNode yid yss' yts']))"
      "set (concat (map gpids [GNode xid xss' xts', GNode yid yss' yts'])) \<subseteq> set (concat (map gpids [GNode xid xss xts, GNode yid yss yts]))"
      using d by (auto simp del: set_concat)
  qed (use c [of entries] c [of gleaves] t1 in auto)
qed

lemma branch_pair:
  assumes "tiled (gwf0 kl vl (Suc h)) lo hi [s] [GNode xid xss xts, GNode yid yss yts]" "length s = kl"
  shows "tiled (gwf kl vl h) lo hi (xss @ s # yss) (xts @ yts)" "\<forall>s \<in> set (xss @ s # yss). length s = kl"
    "length xts = length xss + 1" "length yts = length yss + 1"
proof -
  have t: "tiled (gwf kl vl h) lo (Some s) xss xts" "tiled (gwf kl vl h) s hi yss yts"
    using assms(1) by simp_all
  show "tiled (gwf kl vl h) lo hi (xss @ s # yss) (xts @ yts)" by (rule tiled_glue [OF t])
  show "length xts = length xss + 1" "length yts = length yss + 1" using tiled_length t by blast+
  show "\<forall>s \<in> set (xss @ s # yss). length s = kl" using assms by auto
qed

text \<open>The separators and children of both, divided anew.\<close>

lemma tiled_branch_split:
  assumes t: "tiled (gwf kl vl h) lo hi seps ts" "\<forall>s \<in> set seps. length s = kl"
    and m: "0 < m" "m + 1 < length seps" "m \<le> branch_cap kl" "length seps - (m + 1) \<le> branch_cap kl"
  shows "tiled (gwf kl vl (Suc h)) lo hi [seps ! m] [GNode xid (take m seps) (take (Suc m) ts), GNode yid (drop (Suc m) seps) (drop (Suc m) ts)]"
proof -
  have "m < length seps" using m(2) by simp
  then have "lo \<le> seps ! m" "upto (seps ! m) hi"
    using tiled_sorted [OF t(1)] nth_mem [of m seps] by blast+
  then show ?thesis
    using tiled_cut_at [OF t(1) \<open>m < length seps\<close>] t(2) m by (auto dest: in_set_takeD in_set_dropD)
qed

lemma borrow_branch_left:
  assumes t: "tiled (gwf0 kl vl (Suc h)) lo hi [s] [GNode xid (xss @ [s0]) (xts @ [c]), GNode yid yss yts]" and s: "length s = kl"
    and sz: "sizes_ok kl vl" and r: "rep (bt_pages t) (GNode xid (xss @ [s0]) (xts @ [c]))" "rep (bt_pages t) (GNode yid yss yts)"
    and d: "distinct (concat (map gpids [GNode xid (xss @ [s0]) (xts @ [c]), GNode yid yss yts]))"
    and l: "xss \<noteq> []" "length yss < branch_cap kl"
  shows "\<exists>t1. borrow_branch_from_left xid yid s t = Some (Inr s0, t1) \<and> length s0 = kl \<and>
    tiled (gwf kl vl (Suc h)) lo hi [s0] [GNode xid xss xts, GNode yid (s # yss) (c # yts)] \<and>
    moved [GNode xid (xss @ [s0]) (xts @ [c]), GNode yid yss yts] t [GNode xid xss xts, GNode yid (s # yss) (c # yts)] t1 \<and>
    root_page_id t1 = root_page_id t"
proof -
  obtain bx bz where b: "bt_pages t xid = Some bx" "branch_view bx xid (xss @ [s0]) (map gid (xts @ [c]))"
    "bt_pages t yid = Some bz" "branch_view bz yid yss (map gid yts)"
    using r by auto
  note P = branch_pair [OF t s]
  have cap: "length (xss @ [s0]) \<le> branch_cap kl" using t by simp
  have kl: "kl + 8 \<le> 2048" using sz by (simp add: sizes_ok_def)
  let ?lev = "bh_level (btree_header_of bx)"
  obtain lb where lb: "build_branch xid ?lev xss (map gid xts) = Some lb" "branch_view lb xid xss (map gid xts)"
    using try_build_branch_fits [of xss kl "map gid xts" xid ?lev] P(2,3) kl cap by auto
  obtain rb where rb: "build_branch yid ?lev (s # yss) (map gid (c # yts)) = Some rb" "branch_view rb yid (s # yss) (map gid (c # yts))"
    using try_build_branch_fits [of "s # yss" kl "map gid (c # yts)" yid ?lev] P(2,4) kl l s by auto
  let ?t1 = "put_page_with_lsn (put_page_with_lsn t xid lb) yid rb"
  have "borrow_branch_from_left xid yid s t = Some (Inr s0, ?t1)"
    using b(1,3) decode_branch_eq [OF b(2)] decode_branch_eq [OF b(4)] lb(1) rb(1)
    by (simp add: borrow_branch_from_left_def bt_monad Let_def) (simp add: bt_return_def)
  moreover have "tiled (gwf kl vl (Suc h)) lo hi [s0] [GNode xid xss xts, GNode yid (s # yss) (c # yts)]"
    using tiled_branch_split [OF P(1,2), of "length xss" xid yid] P(3) l cap by (simp add: nth_append)
  moreover have "moved [GNode xid (xss @ [s0]) (xts @ [c]), GNode yid yss yts] t [GNode xid xss xts, GNode yid (s # yss) (c # yts)] ?t1"
    by (rule moved_branches [OF _ d _ _ _ branch_view_lsn [OF lb(2)] branch_view_lsn [OF rb(2)]]) (use r in \<open>auto simp: list_all_iff\<close>)
  ultimately show ?thesis
    using P(2) by auto
qed

lemma borrow_branch_right:
  assumes t: "tiled (gwf0 kl vl (Suc h)) lo hi [s] [GNode xid xss xts, GNode yid (s0 # yss) (c # yts)]" and s: "length s = kl"
    and sz: "sizes_ok kl vl" and r: "rep (bt_pages t) (GNode xid xss xts)" "rep (bt_pages t) (GNode yid (s0 # yss) (c # yts))"
    and d: "distinct (concat (map gpids [GNode xid xss xts, GNode yid (s0 # yss) (c # yts)]))"
    and l: "yss \<noteq> []" "length xss < branch_cap kl"
  shows "\<exists>t1. borrow_branch_from_right xid yid s t = Some (Inr s0, t1) \<and> length s0 = kl \<and>
    tiled (gwf kl vl (Suc h)) lo hi [s0] [GNode xid (xss @ [s]) (xts @ [c]), GNode yid yss yts] \<and>
    moved [GNode xid xss xts, GNode yid (s0 # yss) (c # yts)] t [GNode xid (xss @ [s]) (xts @ [c]), GNode yid yss yts] t1 \<and>
    root_page_id t1 = root_page_id t"
proof -
  obtain bx bz where b: "bt_pages t xid = Some bx" "branch_view bx xid xss (map gid xts)"
    "bt_pages t yid = Some bz" "branch_view bz yid (s0 # yss) (map gid (c # yts))"
    using r by auto
  note P = branch_pair [OF t s]
  have cap: "length (s0 # yss) \<le> branch_cap kl" using t by simp
  have kl: "kl + 8 \<le> 2048" using sz by (simp add: sizes_ok_def)
  let ?lev = "bh_level (btree_header_of bx)"
  obtain lb where lb: "build_branch xid ?lev (xss @ [s]) (map gid (xts @ [c])) = Some lb" "branch_view lb xid (xss @ [s]) (map gid (xts @ [c]))"
    using try_build_branch_fits [of "xss @ [s]" kl "map gid (xts @ [c])" xid ?lev] P(2,3) kl l s by auto
  obtain rb where rb: "build_branch yid ?lev yss (map gid yts) = Some rb" "branch_view rb yid yss (map gid yts)"
    using try_build_branch_fits [of yss kl "map gid yts" yid ?lev] P(2,4) kl cap by auto
  let ?t1 = "put_page_with_lsn (put_page_with_lsn t xid lb) yid rb"
  have "borrow_branch_from_right xid yid s t = Some (Inr s0, ?t1)"
    using b(1,3) decode_branch_eq [OF b(2)] decode_branch_eq [OF b(4)] lb(1) rb(1)
    by (simp add: borrow_branch_from_right_def bt_monad Let_def) (simp add: bt_return_def)
  moreover have "tiled (gwf kl vl (Suc h)) lo hi [s0] [GNode xid (xss @ [s]) (xts @ [c]), GNode yid yss yts]"
    using tiled_branch_split [OF P(1,2), of "length xss + 1" xid yid] P(3) l cap by (auto simp: nth_append Suc_lessI)
  moreover have "moved [GNode xid xss xts, GNode yid (s0 # yss) (c # yts)] t [GNode xid (xss @ [s]) (xts @ [c]), GNode yid yss yts] ?t1"
    by (rule moved_branches [OF _ d _ _ _ branch_view_lsn [OF lb(2)] branch_view_lsn [OF rb(2)]]) (use r in \<open>auto simp: list_all_iff\<close>)
  ultimately show ?thesis
    using P(2) by auto
qed

lemma merge_branches_pair:
  assumes t: "tiled (gwf0 kl vl (Suc h)) lo hi [s] [GNode xid xss xts, GNode yid yss yts]" and s: "length s = kl"
    and sz: "sizes_ok kl vl" and r: "rep (bt_pages t) (GNode xid xss xts)" "rep (bt_pages t) (GNode yid yss yts)"
    and d: "distinct (concat (map gpids [GNode xid xss xts, GNode yid yss yts]))"
    and l: "length xss + length yss + 1 \<le> branch_cap kl"
  shows "\<exists>t1. merge_branches xid yid s t = Some (Inr (), t1) \<and> gwf kl vl (Suc h) lo hi (GNode xid (xss @ s # yss) (xts @ yts)) \<and>
    moved [GNode xid xss xts, GNode yid yss yts] t [GNode xid (xss @ s # yss) (xts @ yts)] t1 \<and> root_page_id t1 = root_page_id t"
proof -
  obtain bx bz where b: "bt_pages t xid = Some bx" "branch_view bx xid xss (map gid xts)"
    "bt_pages t yid = Some bz" "branch_view bz yid yss (map gid yts)"
    using r by auto
  note P = branch_pair [OF t s]
  have kl: "kl + 8 \<le> 2048" using sz by (simp add: sizes_ok_def)
  let ?lev = "bh_level (btree_header_of bx)"
  obtain lb where lb: "try_build_branch xid ?lev (xss @ s # yss) (map gid (xts @ yts)) = Some (Some lb)"
    "branch_view lb xid (xss @ s # yss) (map gid (xts @ yts))"
    using try_build_branch_fits [OF P(2) kl, of "map gid (xts @ yts)" xid ?lev] P(3,4) l by auto
  let ?t1 = "put_page_with_lsn t xid lb"
  have "merge_branches xid yid s t = Some (Inr (), ?t1)"
    using b(1,3) decode_branch_eq [OF b(2)] decode_branch_eq [OF b(4)] lb(1)
    by (simp add: merge_branches_def bt_monad) (simp add: bt_put_def)
  moreover have "gwf kl vl (Suc h) lo hi (GNode xid (xss @ s # yss) (xts @ yts))"
    using P l by simp
  moreover have "moved [GNode xid xss xts, GNode yid yss yts] t [GNode xid (xss @ s # yss) (xts @ yts)] ?t1"
  proof (rule movedI)
    have "rep (bt_pages ?t1) g" if "g \<in> set (xts @ yts)" for g
    proof (rule rep_elsewhere)
      show "rep (bt_pages t) g" using r that by (auto simp: list_all_iff)
      show "bt_pages ?t1 p = bt_pages t p" if "p \<in> set (gpids g)" for p
        using that \<open>g \<in> set (xts @ yts)\<close> d by auto
    qed
    then show "rep (bt_pages ?t1) g" if "g \<in> set [GNode xid (xss @ s # yss) (xts @ yts)]" for g
      using that branch_view_lsn [OF lb(2)] by (simp add: list_all_iff)
  qed (use d in auto)
  ultimately show ?thesis by auto
qed

end
