(* ===== verification/BTreeDelete.thy ===== *)
theory BTreeDelete
  imports BTreeRebalance
begin

text \<open>
  Deletion from the B+ tree: the entry leaves its leaf, and the rebalancing that follows keeps
  the entries, from the leaf up to the root, which may lose a level.
\<close>

section \<open>Two neighbours of any height\<close>

definition borrow_op :: "bool \<Rightarrow> bool \<Rightarrow> u64 \<Rightarrow> u64 \<Rightarrow> bytes \<Rightarrow> bytes bt" where
  "borrow_op leaf from_left x y s =
     (if leaf then (if from_left then borrow_leaf_from_left x y else borrow_leaf_from_right x y)
      else (if from_left then borrow_branch_from_left x y s else borrow_branch_from_right x y s))"

lemma gwf0_leafE:
  assumes "gwf0 kl vl 0 lo hi g" obtains pid nxt kvs where "g = GLeaf pid nxt kvs"
  using assms by (cases g) auto

lemma gwf0_nodeE:
  assumes "gwf0 kl vl (Suc h) lo hi g"
  obtains pid seps ts where "g = GNode pid seps ts" "tiled (gwf kl vl h) lo hi seps ts" "length ts = length seps + 1"
proof (cases g)
  case (GNode pid seps ts)
  then have "tiled (gwf kl vl h) lo hi seps ts" using assms by simp
  then show ?thesis using that GNode tiled_length by blast
qed (use assms in simp)

lemma tiled_gwf0_0: "tiled (gwf0 kl vl 0) lo hi ss gs \<longleftrightarrow> tiled (gwf kl vl 0) lo hi ss gs"
  by (auto elim!: tiled_mono)

lemma snoc_cases: "Suc n \<le> length xs \<Longrightarrow> \<exists>ys y. xs = ys @ [y] \<and> n \<le> length ys"
  by (cases xs rule: rev_cases) auto

lemma cons_cases: "Suc n \<le> length xs \<Longrightarrow> \<exists>y ys. xs = y # ys \<and> n \<le> length ys"
  by (cases xs) auto

lemma tiled_pairD: "tiled P lo hi [s] [x, y] \<Longrightarrow> P lo (Some s) x \<and> P s hi y"
  by simp

text \<open>Neighbouring leaves of which one has just become underfull are above the minimum again; above the
  leaves, only branches have changed.\<close>

definition refilled :: "nat \<Rightarrow> nat \<Rightarrow> nat \<Rightarrow> gtree list \<Rightarrow> gtree list \<Rightarrow> bool" where
  "refilled kl vl h gs gs' =
     (if h = 0 then (\<forall>g \<in> set gs. fill kl vl 0 \<le> count g) \<and> (\<exists>g \<in> set gs. fill kl vl 0 < count g) \<longrightarrow> (\<forall>g \<in> set gs'. fill kl vl 0 < count g)
      else concat (map gleaves gs') = concat (map gleaves gs))"

lemma borrow_pairI:
  fixes t1 :: btree
  assumes "borrow_op leaf fl xid yid s t = Some (Inr s', t1) \<and> length s' = kl \<and> tiled P lo hi [s'] [x', y'] \<and>
    moved [x, y] t [x', y'] t1 \<and> root_page_id t1 = root_page_id t" "gid x' = xid" "gid y' = yid" "refilled kl vl h [x, y] [x', y']"
  shows "\<exists>s' x' y' t1. borrow_op leaf fl xid yid s t = Some (Inr s', t1) \<and> length s' = kl \<and>
    tiled P lo hi [s'] [x', y'] \<and> gid x' = xid \<and> gid y' = yid \<and> moved [x, y] t [x', y'] t1 \<and> root_page_id t1 = root_page_id t \<and>
    refilled kl vl h [x, y] [x', y']"
  using assms by blast

lemma borrow_pair:
  assumes t: "tiled (gwf0 kl vl h) lo hi [s] [x, y]" and s: "length s = kl" and sz: "sizes_ok kl vl" "merge_ok kl vl"
    and r: "rep (bt_pages t) x" "rep (bt_pages t) y" and d: "distinct (concat (map gpids [x, y]))"
    and l: "if fl then fill kl vl h + 2 \<le> count x \<and> count y \<le> fill kl vl h
      else count x \<le> fill kl vl h \<and> fill kl vl h + 2 \<le> count y"
  shows "\<exists>s' x' y' t1. borrow_op (h = 0) fl (gid x) (gid y) s t = Some (Inr s', t1) \<and> length s' = kl \<and>
    tiled (gwf kl vl h) lo hi [s'] [x', y'] \<and> gid x' = gid x \<and> gid y' = gid y \<and> moved [x, y] t [x', y'] t1 \<and>
    root_page_id t1 = root_page_id t \<and> refilled kl vl h [x, y] [x', y']"
proof (cases h)
  case 0
  obtain xid xn xs where x: "x = GLeaf xid xn xs"
    by (rule gwf0_leafE [of kl vl lo "Some s" x]) (use tiled_pairD [OF t] 0 in auto)
  obtain yid yn ys where y: "y = GLeaf yid yn ys"
    by (rule gwf0_leafE [of kl vl s hi y]) (use tiled_pairD [OF t] 0 in auto)
  have t0: "tiled (gwf kl vl 0) lo hi [s] [GLeaf xid xn xs, GLeaf yid yn ys]"
    using t unfolding 0 x y tiled_gwf0_0 .
  have n: "xid \<noteq> yid" using d by (simp add: x y)
  have c: "min_fill (kl + vl + 2) < leaf_cap kl vl" using sz(2) by (auto simp: merge_ok_def)
  show ?thesis
  proof (cases fl)
    case True
    then obtain xs' kv where xs: "xs = xs' @ [kv]"
      using l snoc_cases [of 0 xs] by (auto simp: x)
    have ys: "length ys < leaf_cap kl vl" using l c True by (simp add: x y fill_def 0)
    obtain t1 where "borrow_leaf_from_left xid yid t = Some (Inr (fst kv), t1) \<and> length (fst kv) = kl \<and>
      tiled (gwf kl vl 0) lo hi [fst kv] [GLeaf xid xn xs', GLeaf yid yn (kv # ys)] \<and>
      moved [GLeaf xid xn (xs' @ [kv]), GLeaf yid yn ys] t [GLeaf xid xn xs', GLeaf yid yn (kv # ys)] t1 \<and> root_page_id t1 = root_page_id t"
      using borrow_leaf_left [OF t0 [unfolded xs] sz(1) r(1) [unfolded x xs] r(2) [unfolded y] n ys] by blast
    moreover have rf: "refilled kl vl 0 [GLeaf xid xn (xs' @ [kv]), GLeaf yid yn ys] [GLeaf xid xn xs', GLeaf yid yn (kv # ys)]"
      using l True by (auto simp: refilled_def x y xs 0)
    ultimately show ?thesis
      unfolding x y xs 0 gtree.sel using True 
      by (intro borrow_pairI [where s' = "fst kv" and ?t1.0 = t1 and x' = "GLeaf xid xn xs'" and y' = "GLeaf yid yn (kv # ys)"])
        (simp_all add: borrow_op_def rf del: tiled.simps)
  next
    case False
    then obtain kv kv' ys' where ys: "ys = kv # kv' # ys'"
      using l cons_cases [of "Suc 0" ys] cons_cases [of 0 "tl ys"] by (auto simp: y)
    have xs: "length xs < leaf_cap kl vl" using l c False by (simp add: x y fill_def 0)
    obtain t1 where "borrow_leaf_from_right xid yid t = Some (Inr (fst kv'), t1) \<and> length (fst kv') = kl \<and>
      tiled (gwf kl vl 0) lo hi [fst kv'] [GLeaf xid xn (xs @ [kv]), GLeaf yid yn (kv' # ys')] \<and>
      moved [GLeaf xid xn xs, GLeaf yid yn (kv # kv' # ys')] t [GLeaf xid xn (xs @ [kv]), GLeaf yid yn (kv' # ys')] t1 \<and>
      root_page_id t1 = root_page_id t"
      using borrow_leaf_right [OF t0 [unfolded ys] sz(1) r(1) [unfolded x] r(2) [unfolded y ys] n xs] by blast
    moreover have rf: "refilled kl vl 0 [GLeaf xid xn xs, GLeaf yid yn (kv # kv' # ys')] [GLeaf xid xn (xs @ [kv]), GLeaf yid yn (kv' # ys')]"
      using l False by (auto simp: refilled_def x y ys 0)
    ultimately show ?thesis
      unfolding x y ys 0 gtree.sel using False 
      by (intro borrow_pairI [where s' = "fst kv'" and ?t1.0 = t1 and x' = "GLeaf xid xn (xs @ [kv])" and y' = "GLeaf yid yn (kv' # ys')"])
        (simp_all add: borrow_op_def rf del: tiled.simps)
  qed
next
  case (Suc h')
  obtain xid xss xts where x: "x = GNode xid xss xts" "length xts = length xss + 1"
    by (rule gwf0_nodeE [of kl vl h' lo "Some s" x]) (use tiled_pairD [OF t] Suc in auto)
  obtain yid yss yts where y: "y = GNode yid yss yts" "length yts = length yss + 1"
    by (rule gwf0_nodeE [of kl vl h' s hi y]) (use tiled_pairD [OF t] Suc in auto)
  have c: "min_fill (kl + 8) < branch_cap kl" using sz(2) by (auto simp: merge_ok_def)
  show ?thesis
  proof (cases fl)
    case True
    then obtain xss' s0 where xs: "xss = xss' @ [s0]" "Suc 0 \<le> length xss'"
      using l snoc_cases [of "Suc 0" xss] by (auto simp: x)
    then obtain xts' c0 where xt: "xts = xts' @ [c0]"
      using snoc_cases [of 0 xts] x(2) by auto
    have ys: "length yss < branch_cap kl" "xss' \<noteq> []" using l c True xs by (auto simp: x y fill_def Suc)
    obtain t1 where "borrow_branch_from_left xid yid s t = Some (Inr s0, t1) \<and> length s0 = kl \<and>
      tiled (gwf kl vl (Suc h')) lo hi [s0] [GNode xid xss' xts', GNode yid (s # yss) (c0 # yts)] \<and>
      moved [GNode xid (xss' @ [s0]) (xts' @ [c0]), GNode yid yss yts] t [GNode xid xss' xts', GNode yid (s # yss) (c0 # yts)] t1 \<and>
      root_page_id t1 = root_page_id t"
      using borrow_branch_left [OF t [unfolded x(1) y(1) xs(1) xt Suc] s sz(1) r(1) [unfolded x(1) xs(1) xt] r(2) [unfolded y(1)]
        d [unfolded x(1) y(1) xs(1) xt] ys(2,1)] by blast
    moreover have rf: "refilled kl vl (Suc h') [GNode xid (xss' @ [s0]) (xts' @ [c0]), GNode yid yss yts] [GNode xid xss' xts', GNode yid (s # yss) (c0 # yts)]"
      by (simp add: refilled_def)
    ultimately show ?thesis
      unfolding x(1) y(1) xs(1) xt Suc gtree.sel using True 
      by (intro borrow_pairI [where s' = "s0" and ?t1.0 = t1 and x' = "GNode xid xss' xts'" and y' = "GNode yid (s # yss) (c0 # yts)"])
        (simp_all add: borrow_op_def rf del: tiled.simps)
  next
    case False
    then obtain s0 yss' where ys: "yss = s0 # yss'" "Suc 0 \<le> length yss'"
      using l cons_cases [of "Suc 0" yss] by (auto simp: y)
    then obtain c0 yts' where yt: "yts = c0 # yts'"
      using cons_cases [of 0 yts] y(2) by auto
    have xs: "length xss < branch_cap kl" "yss' \<noteq> []" using l c False ys by (auto simp: x y fill_def Suc)
    obtain t1 where "borrow_branch_from_right xid yid s t = Some (Inr s0, t1) \<and> length s0 = kl \<and>
      tiled (gwf kl vl (Suc h')) lo hi [s0] [GNode xid (xss @ [s]) (xts @ [c0]), GNode yid yss' yts'] \<and>
      moved [GNode xid xss xts, GNode yid (s0 # yss') (c0 # yts')] t [GNode xid (xss @ [s]) (xts @ [c0]), GNode yid yss' yts'] t1 \<and>
      root_page_id t1 = root_page_id t"
      using borrow_branch_right [OF t [unfolded x(1) y(1) ys(1) yt Suc] s sz(1) r(1) [unfolded x(1)] r(2) [unfolded y(1) ys(1) yt]
        d [unfolded x(1) y(1) ys(1) yt] xs(2,1)] by blast
    moreover have rf: "refilled kl vl (Suc h') [GNode xid xss xts, GNode yid (s0 # yss') (c0 # yts')] [GNode xid (xss @ [s]) (xts @ [c0]), GNode yid yss' yts']"
      by (simp add: refilled_def)
    ultimately show ?thesis
      unfolding x(1) y(1) ys(1) yt Suc gtree.sel using False 
      by (intro borrow_pairI [where s' = "s0" and ?t1.0 = t1 and x' = "GNode xid (xss @ [s]) (xts @ [c0])" and y' = "GNode yid yss' yts'"])
        (simp_all add: borrow_op_def rf del: tiled.simps)
  qed
qed

lemma merge_pair:
  assumes t: "tiled (gwf0 kl vl h) lo hi [s] [x, y]" and s: "length s = kl" and sz: "sizes_ok kl vl" "merge_ok kl vl"
    and r: "rep (bt_pages t) x" "rep (bt_pages t) y" and d: "distinct (concat (map gpids [x, y]))"
    and l: "count x + count y \<le> 2 * fill kl vl h + 1"
    and z: "chained (concat (map gleaves [x, y])) z" "next_ok (bt_pages t) (set (concat (map gpids [x, y]))) z"
  shows "\<exists>x' t1. merge_nodes (h = 0) (gid x) (gid y) s t = Some (Inr (), t1) \<and> gwf kl vl h lo hi x' \<and> gid x' = gid x \<and>
    gid y \<notin> set (gpids x') \<and> moved [x, y] t [x'] t1 \<and> root_page_id t1 = root_page_id t \<and> refilled kl vl h [x, y] [x']"
proof (cases h)
  case 0
  obtain xid xn xs where x: "x = GLeaf xid xn xs"
    by (rule gwf0_leafE [of kl vl lo "Some s" x]) (use tiled_pairD [OF t] 0 in auto)
  obtain yid yn ys where y: "y = GLeaf yid yn ys"
    by (rule gwf0_leafE [of kl vl s hi y]) (use tiled_pairD [OF t] 0 in auto)
  have t0: "tiled (gwf kl vl 0) lo hi [s] [GLeaf xid xn xs, GLeaf yid yn ys]"
    using t unfolding 0 x y tiled_gwf0_0 .
  have n: "xid \<noteq> yid" using d by (simp add: x y)
  have c: "length xs + length ys \<le> leaf_cap kl vl" using sz(2) l by (simp add: merge_ok_def fill_def 0 x y)
  have z0: "next_ok (bt_pages t) {xid, yid} yn" using z by (simp add: x y)
  show ?thesis
    using merge_leaves_pair [OF t0 sz(1) r(1) [unfolded x] r(2) [unfolded y] n c z0] n
    unfolding x y 0 merge_nodes_def by (intro exI [of _ "GLeaf xid yn (xs @ ys)"]) (auto simp: refilled_def simp del: gwf.simps)
next
  case (Suc h')
  obtain xid xss xts where x: "x = GNode xid xss xts"
    by (rule gwf0_nodeE [of kl vl h' lo "Some s" x]) (use tiled_pairD [OF t] Suc in auto)
  obtain yid yss yts where y: "y = GNode yid yss yts"
    by (rule gwf0_nodeE [of kl vl h' s hi y]) (use tiled_pairD [OF t] Suc in auto)
  have c: "length xss + length yss + 1 \<le> branch_cap kl" using sz(2) l by (simp add: merge_ok_def fill_def Suc x y)
  have "gid y \<notin> set (gpids (GNode xid (xss @ s # yss) (xts @ yts)))" using d by (auto simp: x y)
  then show ?thesis
    using merge_branches_pair [OF t [unfolded x y Suc] s sz(1) r(1) [unfolded x] r(2) [unfolded y] d [unfolded x y] c]
    unfolding x y Suc merge_nodes_def by (intro exI [of _ "GNode xid (xss @ s # yss) (xts @ yts)"]) (simp add: refilled_def del: gwf.simps)
qed

section \<open>The parent of the two\<close>

lemma tiled_pair:
  assumes t: "tiled P lo hi seps ts" and j: "j < length seps"
  defines "lo' \<equiv> if j = 0 then lo else seps ! (j - 1)" and "hi' \<equiv> if Suc j = length seps then hi else Some (seps ! Suc j)"
  shows "tiled P lo' hi' [seps ! j] [ts ! j, ts ! Suc j]"
    "tiled P lo' hi' ss gs \<Longrightarrow> tiled P lo hi (take j seps @ ss @ drop (Suc j) seps) (take j ts @ gs @ drop (Suc (Suc j)) ts)"
proof -
  have len: "length ts = length seps + 1" by (rule tiled_length [OF t])
  have "tiled P lo' hi' [seps ! j] [ts ! j, ts ! Suc j] \<and>
    (tiled P lo' hi' ss gs \<longrightarrow> tiled P lo hi (take j seps @ ss @ drop (Suc j) seps) (take j ts @ gs @ drop (Suc (Suc j)) ts))"
    using t j len unfolding lo'_def hi'_def
  proof (induction j arbitrary: lo seps ts)
    case 0
    then obtain s seps' t0 t1 ts' where e: "seps = s # seps'" "ts = t0 # t1 # ts'"
      by (cases seps; cases ts rule: remdups_adj.cases) auto
    show ?case
    proof (cases seps')
      case Nil
      then show ?thesis using 0 e by (cases ts') (auto simp: tiled_Nil_iff)
    next
      case (Cons s1 seps'')
      then have w: "lo \<le> s" "P lo (Some s) t0" "s \<le> s1" "P s (Some s1) t1" "tiled P s1 hi seps'' ts'"
        using 0 e by auto
      then show ?thesis
        using tiled_glue [of P lo s1 ss gs hi seps'' ts'] by (simp add: e Cons)
    qed
  next
    case (Suc j)
    then obtain s seps' t0 ts' where e: "seps = s # seps'" "ts = t0 # ts'"
      by (cases seps; cases ts) auto
    have w: "lo \<le> s" "P lo (Some s) t0" "tiled P s hi seps' ts'"
      using Suc.prems(1) e by auto
    show ?case
      using Suc.IH [OF w(3)] Suc.prems(2,3) w e by (cases j) auto
  qed
  then show "tiled P lo' hi' [seps ! j] [ts ! j, ts ! Suc j]"
    "tiled P lo' hi' ss gs \<Longrightarrow> tiled P lo hi (take j seps @ ss @ drop (Suc j) seps) (take j ts @ gs @ drop (Suc (Suc j)) ts)"
    by blast+
qed

lemma tiled_child:
  assumes "tiled P lo hi seps ts" "i \<le> length seps"
  defines "lo' \<equiv> if i = 0 then lo else seps ! (i - 1)" and "hi' \<equiv> if i = length seps then hi else Some (seps ! i)"
  shows "P lo' hi' (ts ! i)" "tiled P lo' hi' ss gs \<Longrightarrow> tiled P lo hi (take i seps @ ss @ drop i seps) (take i ts @ gs @ drop (Suc i) ts)"
  unfolding lo'_def hi'_def by (rule tiled_focus [OF assms(1,2)], blast)+

lemma tiled_all_sound: "tiled (gwf0 kl vl h) lo hi ss gs \<Longrightarrow> \<forall>g \<in> set gs. sound g \<Longrightarrow> tiled (gwf kl vl h) lo hi ss gs"
  by (erule tiled_mono) (simp add: gwf_iff)

lemma tiled_gwf_gwf0: "tiled (gwf kl vl h) lo hi ss gs \<Longrightarrow> tiled (gwf0 kl vl h) lo hi ss gs \<and> (\<forall>g \<in> set gs. sound g)"
proof
  assume t: "tiled (gwf kl vl h) lo hi ss gs"
  then show "tiled (gwf0 kl vl h) lo hi ss gs" by (rule tiled_mono) (simp add: gwf_iff)
  show "\<forall>g \<in> set gs. sound g" using tiled_set [OF t] by (auto simp: gwf_iff)
qed

lemma moved_node:
  assumes M: "moved ts t ts' t1" and d: "pid \<notin> set (concat (map gpids ts))"
    and t2: "bt_pages t2 = (bt_pages t1)(pid \<mapsto> b)" "next_page_id t2 = next_page_id t1" and b: "branch_view b pid seps' (map gid ts')"
  shows "moved [GNode pid seps ts] t [GNode pid seps' ts'] t2"
proof -
  note D = movedD [OF M]
  have n: "pid \<notin> set (concat (map gpids ts'))" using d D(3) by blast
  have "rep (bt_pages t2) g" if "g \<in> set ts'" for g
    by (rule rep_elsewhere [OF D(1) [OF that]]) (use n that in \<open>auto simp: t2(1)\<close>)
  then have r: "rep (bt_pages t2) (GNode pid seps' ts')" using b by (simp add: t2(1) list_all_iff)
  show ?thesis
  proof (rule movedI)
    show "keeps_view (bt_pages t) (bt_pages t2) p" if "p \<notin> set (concat (map gpids [GNode pid seps ts]))" for p
      using that D(7) [of p] by (auto simp: keeps_view_def t2(1))
  qed (use D n r t2(2) in \<open>auto simp del: set_concat rep.simps\<close>)
qed

lemma moved_free:
  assumes M: "moved gs t gs' t1" and p: "p \<in> set (concat (map gpids gs))" "p \<notin> set (concat (map gpids gs'))"
    and t2: "bt_pages t2 = (bt_pages t1)(p := None)" "next_page_id t2 = next_page_id t1"
  shows "moved gs t gs' t2"
proof -
  note D = movedD [OF M]
  have r: "rep (bt_pages t2) g" if "g \<in> set gs'" for g
    by (rule rep_elsewhere [OF D(1) [OF that]]) (use p(2) that in \<open>auto simp: t2(1)\<close>)
  show ?thesis
  proof (rule movedI)
    show "keeps_view (bt_pages t) (bt_pages t2) q" if "q \<notin> set (concat (map gpids gs))" for q
      using that p(1) D(7) [OF that] by (auto simp: keeps_view_def t2(1) simp del: set_concat)
  qed (use D r t2(2) in \<open>auto simp del: set_concat\<close>)
qed

text \<open>Two children in a row, and the trees beside them.\<close>

lemma take_two_drop: "Suc j < length ts \<Longrightarrow> ts = take j ts @ [ts ! j, ts ! Suc j] @ drop (Suc (Suc j)) ts"
  by (simp add: Cons_nth_drop_Suc)

lemma moved_pair:
  assumes M: "moved [ts ! j, ts ! Suc j] t gs t1" and j: "Suc j < length ts"
    and r: "\<forall>g \<in> set ts. rep (bt_pages t) g" and d: "distinct (concat (map gpids ts))"
  shows "moved ts t (take j ts @ gs @ drop (Suc (Suc j)) ts) t1"
proof -
  have "\<forall>g \<in> set (take j ts @ drop (Suc (Suc j)) ts). rep (bt_pages t) g"
    using r by (auto dest: in_set_takeD in_set_dropD)
  moreover have "distinct (concat (map gpids (take j ts @ [ts ! j, ts ! Suc j] @ drop (Suc (Suc j)) ts)))"
    unfolding take_two_drop [OF j, symmetric] by (rule d)
  ultimately have "moved (take j ts @ [ts ! j, ts ! Suc j] @ drop (Suc (Suc j)) ts) t (take j ts @ gs @ drop (Suc (Suc j)) ts) t1"
    by (rule moved_context [OF M])
  then show ?thesis
    unfolding take_two_drop [OF j, symmetric] .
qed

lemma pair_distinct:
  assumes "distinct (concat (map gpids ts))" "Suc j < length ts"
  shows "distinct (concat (map gpids [ts ! j, ts ! Suc j]))"
  using assms by (subst (asm) take_two_drop [OF assms(2)]) auto

text \<open>What is left to do after a node was rebalanced: nothing, the same for the node itself when it
  is underfull, or nothing with a new root when the node was the root and lost its last separator.\<close>

definition outcome :: "nat \<Rightarrow> nat \<Rightarrow> nat \<Rightarrow> bytes \<Rightarrow> bytes option \<Rightarrow> u64 \<Rightarrow> descend_path \<Rightarrow> btree \<Rightarrow> ((btree_error + unit) \<times> btree) option \<Rightarrow> gtree \<Rightarrow> btree \<Rightarrow> bool" where
  "outcome kl vl h lo hi pid anc t run g' t' \<longleftrightarrow>
     0 < h \<and> run = Some (Inr (), t') \<and> gwf kl vl h lo hi g' \<and> gid g' = pid \<and> root_page_id t' = root_page_id t \<or>
     run = rebalance_node pid anc t' \<and> gwf0 kl vl h lo hi g' \<and> count g' \<le> fill kl vl h \<and> gid g' = pid \<and>
       (anc \<noteq> [] \<or> sound g') \<and> root_page_id t' = root_page_id t \<or>
     anc = [] \<and> run = Some (Inr (), t') \<and> (\<exists>h'. h = Suc h' \<and> gwf kl vl h' lo hi g') \<and> root_page_id t' = gid g'"

lemma outcomeI:
  "run = Some (Inr (), t') \<Longrightarrow> gwf kl vl (Suc h) lo hi g' \<Longrightarrow> gid g' = pid \<Longrightarrow> root_page_id t' = root_page_id t \<Longrightarrow>
    outcome kl vl (Suc h) lo hi pid anc t run g' t'"
  "run = rebalance_node pid anc t' \<Longrightarrow> gwf0 kl vl h lo hi g' \<Longrightarrow> count g' \<le> fill kl vl h \<Longrightarrow> gid g' = pid \<Longrightarrow>
    anc \<noteq> [] \<or> sound g' \<Longrightarrow> root_page_id t' = root_page_id t \<Longrightarrow> outcome kl vl h lo hi pid anc t run g' t'"
  "anc = [] \<Longrightarrow> run = Some (Inr (), t') \<Longrightarrow> gwf kl vl h lo hi g' \<Longrightarrow> root_page_id t' = gid g' \<Longrightarrow>
    outcome kl vl (Suc h) lo hi pid anc t run g' t'"
  by (auto simp: outcome_def)

lemma nth_beside:
  assumes "g \<in> set (take j ts @ drop (Suc (Suc j)) ts)" "Suc j < length ts"
  shows "\<exists>k < length ts. k \<noteq> j \<and> k \<noteq> Suc j \<and> g = ts ! k"
proof -
  consider i where "i < j" "g = ts ! i" | i where "i < length ts - Suc (Suc j)" "g = ts ! (Suc (Suc j) + i)"
    using assms by (auto simp: in_set_conv_nth)
  then show ?thesis
  proof cases
    case 1
    then show ?thesis using assms(2) by (intro exI [of _ i]) simp
  next
    case 2
    then have "Suc (Suc j) + i < length ts" by linarith
    then show ?thesis using 2(2) by (intro exI [of _ "Suc (Suc j) + i"]) simp
  qed
qed

text \<open>The same for a node and its child \<open>i\<close>: every leaf is above the minimum again.\<close>

definition settled :: "nat \<Rightarrow> nat \<Rightarrow> nat \<Rightarrow> gtree list \<Rightarrow> nat \<Rightarrow> gtree \<Rightarrow> bool" where
  "settled kl vl h ts i g' =
     (if h = 0 then (\<forall>k < length ts. k \<noteq> i \<longrightarrow> fill kl vl 0 < count (ts ! k)) \<and> fill kl vl 0 \<le> count (ts ! i) \<longrightarrow>
        (\<forall>l \<in> set (gleaves g'). fill kl vl 0 < length (leaf_kvs l))
      else gleaves g' = concat (map gleaves ts))"

lemma count_leaf: "gwf0 kl vl 0 lo hi g \<Longrightarrow> l \<in> set (gleaves g) \<Longrightarrow> length (leaf_kvs l) = count g"
  by (cases g) auto

lemma settledI:
  assumes r: "refilled kl vl h [ts ! j, ts ! Suc j] gs" and j: "Suc j < length ts" and i: "i = j \<or> i = Suc j"
    and T: "tiled (gwf0 kl vl h) lo hi ss (take j ts @ gs @ drop (Suc (Suc j)) ts)"
    and g': "gleaves g' = concat (map gleaves (take j ts @ gs @ drop (Suc (Suc j)) ts))"
  shows "settled kl vl h ts i g'"
proof (cases "h = 0")
  case False
  then have "concat (map gleaves gs) = concat (map gleaves [ts ! j, ts ! Suc j])" using r by (simp add: refilled_def)
  then have "gleaves g' = concat (map gleaves (take j ts @ [ts ! j, ts ! Suc j] @ drop (Suc (Suc j)) ts))"
    using g' by simp
  then show ?thesis
    unfolding take_two_drop [OF j, symmetric] using False by (simp add: settled_def)
next
  case True
  have "fill kl vl 0 < length (leaf_kvs l)"
    if a: "\<forall>k < length ts. k \<noteq> i \<longrightarrow> fill kl vl 0 < count (ts ! k)" "fill kl vl 0 \<le> count (ts ! i)" and l: "l \<in> set (gleaves g')" for l
  proof -
    obtain g where g: "g \<in> set (take j ts @ gs @ drop (Suc (Suc j)) ts)" "l \<in> set (gleaves g)" using l g' by auto
    obtain lo' hi' where "gwf0 kl vl 0 lo' hi' g" using tiled_set [OF T g(1)] True by auto
    then have c: "length (leaf_kvs l) = count g" by (rule count_leaf [OF _ g(2)])
    have "fill kl vl 0 < count g"
    proof (cases "g \<in> set gs")
      case True
      have "fill kl vl 0 \<le> count (ts ! j)" "fill kl vl 0 \<le> count (ts ! Suc j)" "fill kl vl 0 < count (ts ! j) \<or> fill kl vl 0 < count (ts ! Suc j)"
        using a i j by (auto intro: less_imp_le)
      then show ?thesis using r True \<open>h = 0\<close> by (auto simp: refilled_def)
    next
      case False
      then have "g \<in> set (take j ts @ drop (Suc (Suc j)) ts)" using g(1) by auto
      from nth_beside [OF this j] show ?thesis using a(1) i by auto
    qed
    then show ?thesis using c by simp
  qed
  then show ?thesis using True by (simp add: settled_def)
qed

text \<open>A sibling is asked for an entry: it lends one, or nothing happens.\<close>

lemma try_borrow_refused:
  assumes "gwf0 kl vl h lo hi g" "rep (bt_pages t) g" "\<not> fill kl vl h + 2 \<le> count g"
  shows "try_borrow fl (gid g) n leaf pid b seps cs j t = Some (Inr False, t)"
proof -
  obtain c where c: "bt_pages t (gid g) = Some c" using rep_page [OF assms(2)] by blast
  then show ?thesis
    using fill_page(3) [OF assms(1,2) c] assms(3) by (simp add: try_borrow_def bt_monad) (simp add: bt_return_def)
qed

lemma try_borrow_lends:
  assumes T: "tiled (gwf0 kl vl h) lo hi seps ts" and S: "\<forall>k < length ts. k \<noteq> (if fl then Suc j else j) \<longrightarrow> sound (ts ! k)"
    and k: "\<forall>s \<in> set seps. length s = kl" "length seps \<le> branch_cap kl" "j < length seps" and sz: "sizes_ok kl vl" "merge_ok kl vl"
    and r: "\<forall>g \<in> set ts. rep (bt_pages t) g" and d: "distinct (gpids (GNode pid seps ts))"
    and l: "if fl then fill kl vl h + 2 \<le> count (ts ! j) \<and> count (ts ! Suc j) \<le> fill kl vl h
      else count (ts ! j) \<le> fill kl vl h \<and> fill kl vl h + 2 \<le> count (ts ! Suc j)"
  shows "\<exists>g' t'. try_borrow fl (gid (ts ! (if fl then j else Suc j))) (gid (ts ! (if fl then Suc j else j))) (h = 0) pid b seps (map gid ts) j t
      = Some (Inr True, t') \<and> moved [GNode pid seps ts] t [g'] t' \<and> gwf kl vl (Suc h) lo hi g' \<and> gid g' = pid \<and> root_page_id t' = root_page_id t \<and>
      settled kl vl h ts (if fl then Suc j else j) g'"
proof -
  let ?x = "ts ! j" and ?y = "ts ! Suc j"
  have len: "length ts = length seps + 1" by (rule tiled_length [OF T])
  have j: "Suc j < length ts" using k(3) len by simp
  have mem: "?x \<in> set ts" "?y \<in> set ts" using j by simp_all
  have rxy: "rep (bt_pages t) ?x" "rep (bt_pages t) ?y" using r mem by blast+
  have dd: "distinct (concat (map gpids ts))" "pid \<notin> set (concat (map gpids ts))" using d by simp_all
  note tp = tiled_pair [OF T k(3)]
  obtain s' x' y' t1 where B: "borrow_op (h = 0) fl (gid ?x) (gid ?y) (seps ! j) t = Some (Inr s', t1)" "length s' = kl"
    "tiled (gwf kl vl h) (if j = 0 then lo else seps ! (j - 1)) (if Suc j = length seps then hi else Some (seps ! Suc j)) [s'] [x', y']"
    "gid x' = gid ?x" "gid y' = gid ?y" "moved [?x, ?y] t [x', y'] t1" "root_page_id t1 = root_page_id t"
    "refilled kl vl h [?x, ?y] [x', y']"
    using borrow_pair [OF tp(1) _ sz _ _ pair_distinct [OF dd(1) j] l, of t] k(1,3) r mem by auto
  let ?ts = "take j ts @ [x', y'] @ drop (Suc (Suc j)) ts" and ?seps = "seps[j := s']"
  have up: "?seps = take j seps @ [s'] @ drop (Suc j) seps" using k(3) by (simp add: upd_conv_take_nth_drop)
  have ids: "map gid ?ts = map gid ts"
    by (rule trans [OF _ arg_cong [OF take_two_drop [OF j, symmetric], of "map gid"]]) (simp add: B(4,5))
  have ks: "\<forall>s \<in> set ?seps. length s = kl" using k(1) B(2) set_update_subset_insert [of seps j s'] by blast
  define lev where "lev = bh_level (btree_header_of b)"
  obtain nb where nb: "build_branch pid lev ?seps (map gid ts) = Some nb" "branch_view nb pid ?seps (map gid ts)"
    using try_build_branch_fits [OF ks, of "map gid ts" pid lev] k(2) len sz(1) by (auto simp: sizes_ok_def)
  let ?t2 = "put_page_with_lsn t1 pid nb"
  obtain c where c: "bt_pages t (gid (ts ! (if fl then j else Suc j))) = Some c"
    using rep_page [OF rxy(1)] rep_page [OF rxy(2)] by (cases fl) auto
  have "can_lend c"
    using fill_page(3) [OF conjunct1 [OF tiled_pairD [OF tp(1)]] rxy(1), of c]
      fill_page(3) [OF conjunct2 [OF tiled_pairD [OF tp(1)]] rxy(2), of c] l c by (cases fl) auto
  then have "try_borrow fl (gid (ts ! (if fl then j else Suc j))) (gid (ts ! (if fl then Suc j else j))) (h = 0) pid b seps (map gid ts) j t
      = Some (Inr True, ?t2)"
    using c B(1) k(3) nb(1) unfolding try_borrow_def replace_separator_def borrow_op_def
    by (cases fl; cases "h = 0") (auto simp: bt_monad lev_def [symmetric] bt_bind_def bt_lift_def bt_return_def bt_get_def get_page_def bt_put_def)
  moreover have "moved [GNode pid seps ts] t [GNode pid ?seps ?ts] ?t2"
    by (rule moved_node [OF moved_pair [OF B(6) j r dd(1)] dd(2)]) (use branch_view_lsn [OF nb(2)] ids in simp_all)
  moreover have snd: "sound g" if g: "g \<in> set ?ts" for g
  proof -
    show ?thesis
    proof (cases "g = x' \<or> g = y'")
      case True
      then show ?thesis using tiled_gwf_gwf0 [OF B(3)] by auto
    next
      case False
      then have "g \<in> set (take j ts @ drop (Suc (Suc j)) ts)" using g by auto
      from nth_beside [OF this j] obtain k where "k < length ts" "k \<noteq> j" "k \<noteq> Suc j" "g = ts ! k" by blast
      then show ?thesis using S [rule_format, of k] by (cases fl) simp_all
    qed
  qed
  then have "tiled (gwf kl vl h) lo hi ?seps ?ts"
    unfolding up by (intro tiled_all_sound [OF tp(2) [OF conjunct1 [OF tiled_gwf_gwf0 [OF B(3)]]]] ballI) (rule snd)
  then have "gwf kl vl (Suc h) lo hi (GNode pid ?seps ?ts)" using ks k(2,3) by auto
  moreover have "settled kl vl h ts (if fl then Suc j else j) (GNode pid ?seps ?ts)"
    by (rule settledI [OF B(8) j _ tp(2) [OF conjunct1 [OF tiled_gwf_gwf0 [OF B(3)]]]]) simp_all
  ultimately show ?thesis
    using B(7) by (intro exI [of _ "GNode pid ?seps ?ts"] exI [of _ ?t2]) (simp del: gwf.simps)
qed

text \<open>Merging two children, and what the parent does then.\<close>

lemma segment_chain:
  assumes c: "chained (concat (map gleaves (A @ S @ B))) z" and n: "next_ok P (set (concat (map gpids (A @ S @ B)))) z"
    and r: "\<forall>g \<in> set B. rep P g" and d: "distinct (concat (map gpids (A @ S @ B)))"
  defines "z' \<equiv> first_leaf (concat (map gleaves B)) z"
  shows "chained (concat (map gleaves S)) z'" "next_ok P (set (concat (map gpids S))) z'"
proof -
  show "chained (concat (map gleaves S)) z'"
    using c by (simp add: chained_append z'_def)
  show "next_ok P (set (concat (map gpids S))) z'"
  proof (cases "concat (map gleaves B)")
    case Nil
    have "z' = z" unfolding z'_def Nil by simp
    then show ?thesis using n unfolding next_ok_def by auto
  next
    case (Cons l ls)
    then have "l \<in> set (concat (map gleaves B))" by simp
    then obtain g where g: "g \<in> set B" "l \<in> set (gleaves g)" by auto
    obtain q nx kvs where l: "l = (q, nx, kvs)" by (cases l)
    obtain b where b: "P q = Some b" "leaf_view b q nx kvs"
      using rep_leaf [of P g q nx kvs] r g by (auto simp: l)
    have "q \<in> set (concat (map gpids B))" using leaf_pids [OF g(2)] g(1) by (auto simp: l)
    then have "q \<notin> set (concat (map gpids S))" using d by (auto simp del: set_concat)
    moreover have "z' = q" using Cons by (simp add: z'_def l)
    ultimately show ?thesis using b unfolding next_ok_def by blast
  qed
qed

lemma pair_chain:
  assumes "chained (concat (map gleaves ts)) z" "next_ok P (set (concat (map gpids ts))) z" and j: "Suc j < length ts"
    and r: "\<forall>g \<in> set ts. rep P g" and "distinct (concat (map gpids ts))"
  defines "z' \<equiv> first_leaf (concat (map gleaves (drop (Suc (Suc j)) ts))) z"
  shows "chained (concat (map gleaves [ts ! j, ts ! Suc j])) z'" "next_ok P (set (concat (map gpids [ts ! j, ts ! Suc j]))) z'"
proof -
  have "\<forall>g \<in> set (drop (Suc (Suc j)) ts). rep P g" using r by (auto dest: in_set_dropD)
  from segment_chain [of "take j ts" "[ts ! j, ts ! Suc j]", OF _ _ this, folded take_two_drop [OF j]] assms(1,2,5)
  show "chained (concat (map gleaves [ts ! j, ts ! Suc j])) z'" "next_ok P (set (concat (map gpids [ts ! j, ts ! Suc j]))) z'"
    unfolding z'_def by blast+
qed

definition merge_rest :: "u64 \<Rightarrow> bytes \<Rightarrow> bytes list \<Rightarrow> u64 list \<Rightarrow> nat \<Rightarrow> descend_path \<Rightarrow> unit bt" where
  "merge_rest pid b seps cs j anc =
     bt_bind (bt_free_page (cs ! (j + 1))) (\<lambda>_ t.
       if anc = [] \<and> pid = root_page_id t \<and> remove_at seps j = [] then
         (if remove_at cs (j + 1) = [] then None else bt_free_page pid (t\<lparr>root_page_id := hd (remove_at cs (j + 1))\<rparr>))
       else
         bt_bind (bt_lift (build_branch pid (bh_level (btree_header_of b)) (remove_at seps j) (remove_at cs (j + 1)))) (\<lambda>pb.
         bt_bind (bt_put pid pb) (\<lambda>_. if is_underfull pb \<and> anc \<noteq> [] then rebalance_node pid anc else bt_return ())) t)"

lemma merge_rest_eq:
  fixes t :: btree
  assumes k: "\<forall>s \<in> set seps'. length s = kl" "length seps' \<le> branch_cap kl" "length cs' = length seps' + 1" and sz: "sizes_ok kl vl"
    and rm: "remove_at seps j = seps'" "remove_at cs (j + 1) = cs'"
  defines "t1 \<equiv> t\<lparr>bt_pages := (bt_pages t)(cs ! (j + 1) := None)\<rparr>"
  shows "anc = [] \<and> pid = root_page_id t \<and> seps' = [] \<Longrightarrow> merge_rest pid b seps cs j anc t =
      Some (Inr (), t1\<lparr>root_page_id := hd cs', bt_pages := (bt_pages t1)(pid := None)\<rparr>)"
    "\<not> (anc = [] \<and> pid = root_page_id t \<and> seps' = []) \<Longrightarrow> \<exists>pb. branch_view pb pid seps' cs' \<and>
      merge_rest pid b seps cs j anc t =
        (if length seps' \<le> min_fill (kl + 8) \<and> anc \<noteq> [] then rebalance_node pid anc (put_page_with_lsn t1 pid pb)
         else Some (Inr (), put_page_with_lsn t1 pid pb))"
proof -
  show "merge_rest pid b seps cs j anc t = Some (Inr (), t1\<lparr>root_page_id := hd cs', bt_pages := (bt_pages t1)(pid := None)\<rparr>)"
    if "anc = [] \<and> pid = root_page_id t \<and> seps' = []"
    using that k(3) by (auto simp: merge_rest_def rm [simplified] t1_def bt_bind_def bt_free_page_def)
  define lev where "lev = bh_level (btree_header_of b)"
  obtain pb where pb: "build_branch pid lev seps' cs' = Some pb" "branch_view pb pid seps' cs'"
    using try_build_branch_fits [OF k(1) _ k(2,3), of pid lev] sz by (auto simp: sizes_ok_def)
  show "\<exists>pb. branch_view pb pid seps' cs' \<and> merge_rest pid b seps cs j anc t =
      (if length seps' \<le> min_fill (kl + 8) \<and> anc \<noteq> [] then rebalance_node pid anc (put_page_with_lsn t1 pid pb)
       else Some (Inr (), put_page_with_lsn t1 pid pb))"
    if "\<not> (anc = [] \<and> pid = root_page_id t \<and> seps' = [])"
  proof (intro exI conjI)
    show "branch_view pb pid seps' cs'" by (rule pb(2))
    show "merge_rest pid b seps cs j anc t =
      (if length seps' \<le> min_fill (kl + 8) \<and> anc \<noteq> [] then rebalance_node pid anc (put_page_with_lsn t1 pid pb)
       else Some (Inr (), put_page_with_lsn t1 pid pb))"
      using that pb(1) fill_branch(1) [OF pb(2) k(1)]
      by (auto simp: merge_rest_def rm [simplified] t1_def lev_def [symmetric] bt_bind_def bt_free_page_def bt_lift_def bt_put_def bt_return_def)
  qed
qed

lemma remove_at_seps: "remove_at seps j = take j seps @ [] @ drop (Suc j) seps"
  by (simp add: remove_at_def)

lemma remove_at_children:
  assumes "Suc j < length ts" "gid x' = gid (ts ! j)"
  shows "remove_at (map gid ts) (j + 1) = map gid (take j ts @ [x'] @ drop (Suc (Suc j)) ts)"
  using assms by (simp add: remove_at_def take_Suc_conv_app_nth take_map drop_map)

lemma moved_collapse:
  assumes M: "moved ts t gs t1" and d: "pid \<notin> set (concat (map gpids ts))"
    and t2: "bt_pages t2 = (bt_pages t1)(pid := None)" "next_page_id t2 = next_page_id t1"
  shows "moved [GNode pid seps ts] t gs t2"
proof (rule moved_free [OF _ _ _ t2])
  show "moved [GNode pid seps ts] t gs t1"
    using M unfolding moved_def by (auto simp del: set_concat)
  show "pid \<notin> set (concat (map gpids gs))" using d movedD(3) [OF M] by blast
qed simp

lemma merge_step:
  fixes t :: btree
  assumes T: "tiled (gwf0 kl vl h) lo hi seps ts" and S: "\<forall>k < length ts. k \<noteq> j \<longrightarrow> k \<noteq> Suc j \<longrightarrow> sound (ts ! k)"
    and k: "\<forall>s \<in> set seps. length s = kl" "length seps \<le> branch_cap kl" "j < length seps" and sz: "sizes_ok kl vl" "merge_ok kl vl"
    and r: "\<forall>g \<in> set ts. rep (bt_pages t) g" and d: "distinct (gpids (GNode pid seps ts))"
    and l: "count (ts ! j) + count (ts ! Suc j) \<le> 2 * fill kl vl h + 1"
    and z: "chained (concat (map gleaves ts)) z" "next_ok (bt_pages t) (set (concat (map gpids ts))) z"
    and root: "anc = [] \<Longrightarrow> root_page_id t = pid"
  shows "\<exists>g' t'. moved [GNode pid seps ts] t [g'] t' \<and> outcome kl vl (Suc h) lo hi pid anc t
    (bt_bind (merge_nodes (h = 0) (gid (ts ! j)) (gid (ts ! Suc j)) (seps ! j)) (\<lambda>_. merge_rest pid b seps (map gid ts) j anc) t) g' t' \<and>
    (i = j \<or> i = Suc j \<longrightarrow> settled kl vl h ts i g')"
    (is "\<exists>g' t'. _ \<and> outcome _ _ _ _ _ _ _ _ ?run _ _ \<and> _")
proof -
  let ?x = "ts ! j" and ?y = "ts ! Suc j"
  have len: "length ts = length seps + 1" by (rule tiled_length [OF T])
  have j: "Suc j < length ts" using k(3) len by simp
  have rxy: "rep (bt_pages t) ?x" "rep (bt_pages t) ?y" and mem: "?y \<in> set ts" using r j by simp_all
  have dd: "distinct (concat (map gpids ts))" "pid \<notin> set (concat (map gpids ts))" using d by simp_all
  note tp = tiled_pair [OF T k(3)] and pc = pair_chain [OF z j r dd(1)]
  obtain x' t1 where M: "merge_nodes (h = 0) (gid ?x) (gid ?y) (seps ! j) t = Some (Inr (), t1)" "gid x' = gid ?x"
    "gwf kl vl h (if j = 0 then lo else seps ! (j - 1)) (if Suc j = length seps then hi else Some (seps ! Suc j)) x'"
    "gid ?y \<notin> set (gpids x')" "moved [?x, ?y] t [x'] t1" "root_page_id t1 = root_page_id t" "refilled kl vl h [?x, ?y] [x']"
    using merge_pair [OF tp(1) _ sz rxy pair_distinct [OF dd(1) j] l pc] k(1,3) by auto
  let ?ts = "take j ts @ [x'] @ drop (Suc (Suc j)) ts" and ?seps = "remove_at seps j"
  let ?t1 = "t1\<lparr>bt_pages := (bt_pages t1)(gid ?y := None)\<rparr>"
  have up: "upto (if j = 0 then lo else seps ! (j - 1)) (if Suc j = length seps then hi else Some (seps ! Suc j))"
    using tiled_sorted [OF tp(1)] by blast
  have sound: "sound g" if g: "g \<in> set ?ts" for g
  proof (cases "g = x'")
    case True
    then show ?thesis using M(3) by (simp add: gwf_iff)
  next
    case False
    then have "g \<in> set (take j ts @ drop (Suc (Suc j)) ts)" using g by auto
    from nth_beside [OF this j] S show ?thesis by blast
  qed
  have T0: "tiled (gwf0 kl vl h) lo hi ?seps ?ts"
    unfolding remove_at_seps by (rule tp(2)) (use M(3) up in \<open>simp add: gwf_iff\<close>)
  then have T': "tiled (gwf kl vl h) lo hi ?seps ?ts"
    by (rule tiled_all_sound) (use sound in blast)
  note st = settledI [OF M(7) j _ T0]
  have ks: "\<forall>s \<in> set ?seps. length s = kl" "length ?seps \<le> branch_cap kl" "length (map gid ?ts) = length ?seps + 1"
    using k tiled_length [OF T'] by (auto simp: remove_at_def dest: in_set_takeD in_set_dropD)
  have ny: "gid ?y \<notin> set (concat (map gpids ?ts))"
  proof -
    have "gid ?y \<notin> set (concat (map gpids (take j ts @ drop (Suc (Suc j)) ts)))"
      using dd(1) gid_in_gpids [of ?y] by (subst (asm) take_two_drop [OF j]) (auto simp del: gid_in_gpids)
    then show ?thesis using M(4) by auto
  qed
  have M1: "moved ts t ?ts ?t1"
    by (rule moved_free [OF moved_pair [OF M(5) j r dd(1)] _ ny]) (auto intro!: bexI [OF _ mem])
  have run: "?run = merge_rest pid b seps (map gid ts) j anc t1"
    using M(1) by (simp add: bt_bind_def)
  note me = merge_rest_eq [OF ks sz(1) refl remove_at_children [OF j M(2)], where pid = pid and t = t1 and b = b and anc = anc, unfolded M(6)]
  have yid: "map gid ts ! (j + 1) = gid ?y" using j by simp
  show ?thesis
  proof (cases "anc = [] \<and> pid = root_page_id t \<and> ?seps = []")
    case True
    then have x': "?ts = [x']" "gwf kl vl h lo hi x'" using T' by (auto simp: tiled_Nil_iff append_eq_Cons_conv)
    let ?t2 = "?t1\<lparr>root_page_id := gid x', bt_pages := (bt_pages ?t1)(pid := None)\<rparr>"
    have e: "?run = Some (Inr (), ?t2)"
      unfolding run me(1) [OF True] yid x'(1) by simp
    have "moved [GNode pid seps ts] t [x'] ?t2"
      by (rule moved_collapse [OF M1 [unfolded x'(1)] dd(2)]) simp_all
    moreover have "i = j \<or> i = Suc j \<longrightarrow> settled kl vl h ts i x'"
    proof
      have "gleaves x' = concat (map gleaves ?ts)" unfolding x'(1) by simp
      then show "settled kl vl h ts i x'" if "i = j \<or> i = Suc j" using that by (intro st)
    qed
    moreover have "outcome kl vl (Suc h) lo hi pid anc t ?run x' ?t2"
      by (rule outcomeI(3) [OF _ e x'(2)]) (use True in simp_all)
    ultimately show ?thesis by blast
  next
    case False
    obtain pb where pb: "branch_view pb pid ?seps (map gid ?ts)"
      "?run = (if length ?seps \<le> min_fill (kl + 8) \<and> anc \<noteq> [] then rebalance_node pid anc (put_page_with_lsn ?t1 pid pb)
         else Some (Inr (), put_page_with_lsn ?t1 pid pb))"
      using me(2) [OF False] unfolding run yid by blast
    let ?t2 = "put_page_with_lsn ?t1 pid pb" and ?g = "GNode pid ?seps ?ts"
    have Mv: "moved [GNode pid seps ts] t [?g] ?t2"
      by (rule moved_node [OF M1 dd(2) _ _ branch_view_lsn [OF pb(1)]]) simp_all
    have w: "gwf0 kl vl (Suc h) lo hi ?g" using T' ks(1,2) by simp
    have "outcome kl vl (Suc h) lo hi pid anc t ?run ?g ?t2"
    proof (cases "length ?seps \<le> min_fill (kl + 8) \<and> anc \<noteq> []")
      case True
      then show ?thesis using pb(2) w M(6) by (intro outcomeI(2)) (simp_all add: fill_def del: gwf0.simps)
    next
      case False
      have "?seps \<noteq> []" using False \<open>\<not> (anc = [] \<and> pid = root_page_id t \<and> ?seps = [])\<close> root by auto
      moreover have "?run = Some (Inr (), ?t2)" unfolding pb(2) by (rule if_not_P [OF False])
      ultimately show ?thesis using w M(6) by (intro outcomeI(1)) (simp_all add: gwf_iff del: gwf0.simps)
    qed
    moreover have "i = j \<or> i = Suc j \<longrightarrow> settled kl vl h ts i ?g"
      using st [of i ?g] by simp
    ultimately show ?thesis using Mv by blast
  qed
qed

section \<open>One level\<close>

lemma tiled_nth: "tiled P lo hi ss ts \<Longrightarrow> k < length ts \<Longrightarrow> \<exists>lo' hi'. P lo' hi' (ts ! k)"
  using tiled_set [of P lo hi ss ts "ts ! k"] by simp

lemma bt_bind_ret: "m t = Some (Inr x, t') \<Longrightarrow> bt_bind m f t = f x t'"
  by (simp add: bt_bind_def)

text \<open>The stages of \<open>rebalance_node\<close> on the pages of a node.\<close>

lemma rebalance_node_run:
  assumes b: "bt_pages t pid = Some b" "branch_view b pid seps (map gid ts)" and i: "i < length ts" "seps \<noteq> []"
    and c: "bt_pages t (gid (ts ! i)) = Some c" "is_leaf c \<longleftrightarrow> h = 0" and len: "length ts = length seps + 1"
  defines "left \<equiv> if 0 < i then try_borrow True (gid (ts ! (i - 1))) (gid (ts ! i)) (h = 0) pid b seps (map gid ts) (i - 1) else bt_return False"
    and "right \<equiv> if Suc i < length ts then try_borrow False (gid (ts ! Suc i)) (gid (ts ! i)) (h = 0) pid b seps (map gid ts) i else bt_return False"
    and "j \<equiv> if 0 < i then i - 1 else i"
  shows "left t = Some (Inr True, t1) \<Longrightarrow> rebalance_node (gid (ts ! i)) ((pid, i) # anc) t = Some (Inr (), t1)"
    "left t = Some (Inr False, t) \<Longrightarrow> right t = Some (Inr True, t1) \<Longrightarrow> rebalance_node (gid (ts ! i)) ((pid, i) # anc) t = Some (Inr (), t1)"
    "left t = Some (Inr False, t) \<Longrightarrow> right t = Some (Inr False, t) \<Longrightarrow> rebalance_node (gid (ts ! i)) ((pid, i) # anc) t =
      bt_bind (merge_nodes (h = 0) (gid (ts ! j)) (gid (ts ! Suc j)) (seps ! j)) (\<lambda>_. merge_rest pid b seps (map gid ts) j anc) t"
proof -
  have jl: "Suc j < length ts" "j < length seps"
    using i len by (auto simp: j_def neq_Nil_conv)
  have run: "rebalance_node (gid (ts ! i)) ((pid, i) # anc) t =
    bt_bind left (\<lambda>borrowed. if borrowed then bt_return () else bt_bind right (\<lambda>borrowed. if borrowed then bt_return ()
      else bt_bind (merge_nodes (h = 0) (gid (ts ! j)) (gid (ts ! Suc j)) (seps ! j)) (\<lambda>_. merge_rest pid b seps (map gid ts) j anc))) t"
  proof (cases i)
    case 0
    then show ?thesis
      using b(1) c i jl len decode_branch_eq [OF b(2)] unfolding left_def right_def j_def
      by (simp add: bt_monad Let_def merge_rest_def cong: if_cong)
  next
    case (Suc n)
    then show ?thesis
      using b(1) c i jl len decode_branch_eq [OF b(2)] unfolding left_def right_def j_def
      by (simp add: bt_monad Let_def merge_rest_def cong: if_cong)
  qed
  show "rebalance_node (gid (ts ! i)) ((pid, i) # anc) t = Some (Inr (), t1)" if "left t = Some (Inr True, t1)"
    unfolding run using that by (simp add: bt_bind_def bt_return_def)
  show "rebalance_node (gid (ts ! i)) ((pid, i) # anc) t = Some (Inr (), t1)" if "left t = Some (Inr False, t)" "right t = Some (Inr True, t1)"
    unfolding run using that by (simp add: bt_bind_def bt_return_def)
  show "rebalance_node (gid (ts ! i)) ((pid, i) # anc) t =
      bt_bind (merge_nodes (h = 0) (gid (ts ! j)) (gid (ts ! Suc j)) (seps ! j)) (\<lambda>_. merge_rest pid b seps (map gid ts) j anc) t"
    if "left t = Some (Inr False, t)" "right t = Some (Inr False, t)"
    unfolding run by (simp add: bt_bind_ret [where m = left, OF that(1)] bt_bind_ret [where m = right, OF that(2)])
qed

declare rebalance_node.simps(2) [simp del]

lemma rebalance_step:
  fixes t :: btree
  assumes T: "tiled (gwf0 kl vl h) lo hi seps ts" and S: "\<forall>k < length ts. k \<noteq> i \<longrightarrow> sound (ts ! k)"
    and k: "\<forall>s \<in> set seps. length s = kl" "length seps \<le> branch_cap kl" "seps \<noteq> []" and i: "i < length ts"
    and few: "count (ts ! i) \<le> fill kl vl h" and sz: "sizes_ok kl vl" "merge_ok kl vl"
    and r: "\<forall>g \<in> set ts. rep (bt_pages t) g" and b: "bt_pages t pid = Some b" "branch_view b pid seps (map gid ts)"
    and d: "distinct (gpids (GNode pid seps ts))"
    and z: "chained (concat (map gleaves ts)) z" "next_ok (bt_pages t) (set (concat (map gpids ts))) z"
    and root: "anc = [] \<Longrightarrow> root_page_id t = pid"
  shows "\<exists>g' t'. moved [GNode pid seps ts] t [g'] t' \<and> outcome kl vl (Suc h) lo hi pid anc t (rebalance_node (gid (ts ! i)) ((pid, i) # anc) t) g' t' \<and>
    settled kl vl h ts i g'"
proof -
  have len: "length ts = length seps + 1" by (rule tiled_length [OF T])
  have ri: "rep (bt_pages t) (ts ! k)" if "k < length ts" for k using r that by simp
  obtain c where c: "bt_pages t (gid (ts ! i)) = Some c" using rep_page [OF ri [OF i]] by blast
  have lf: "is_leaf c \<longleftrightarrow> h = 0" using tiled_nth [OF T i] fill_page(1) [OF _ ri [OF i] c] by blast
  note run = rebalance_node_run [OF b i k(3) c lf len]
  have refused: "try_borrow fl (gid (ts ! k)) n leaf pid b seps cs j t = Some (Inr False, t)"
    if "k < length ts" "\<not> fill kl vl h + 2 \<le> count (ts ! k)" for fl k n leaf cs j
    using tiled_nth [OF T that(1)] try_borrow_refused [OF _ ri [OF that(1)] that(2)] by blast
  define ll where "ll \<longleftrightarrow> 0 < i \<and> fill kl vl h + 2 \<le> count (ts ! (i - 1))"
  define lr where "lr \<longleftrightarrow> Suc i < length ts \<and> fill kl vl h + 2 \<le> count (ts ! Suc i)"
  have left: "(if 0 < i then try_borrow True (gid (ts ! (i - 1))) (gid (ts ! i)) (h = 0) pid b seps (map gid ts) (i - 1) else bt_return False) t = Some (Inr False, t)"
    if "\<not> ll"
    using that refused [of "i - 1"] i by (auto simp: ll_def bt_return_def)
  have right: "(if Suc i < length ts then try_borrow False (gid (ts ! Suc i)) (gid (ts ! i)) (h = 0) pid b seps (map gid ts) i else bt_return False) t = Some (Inr False, t)"
    if "\<not> lr"
    using that refused [of "Suc i"] by (auto simp: lr_def bt_return_def)
  consider (l) ll | (r) "\<not> ll" lr | (m) "\<not> ll" "\<not> lr" by blast
  then show ?thesis
  proof cases
    case l
    then obtain j where j: "i = Suc j" "fill kl vl h + 2 \<le> count (ts ! j)" by (cases i) (auto simp: ll_def)
    obtain g' t' where B: "try_borrow True (gid (ts ! j)) (gid (ts ! i)) (h = 0) pid b seps (map gid ts) j t = Some (Inr True, t')"
      "moved [GNode pid seps ts] t [g'] t'" "gwf kl vl (Suc h) lo hi g'" "gid g' = pid" "root_page_id t' = root_page_id t"
      "settled kl vl h ts i g'"
      using try_borrow_lends [OF T _ k(1,2) _ sz r d, of True j b] S j few i len by auto
    have "rebalance_node (gid (ts ! i)) ((pid, i) # anc) t = Some (Inr (), t')"
      by (rule run(1)) (use B(1) j(1) in simp)
    then show ?thesis
      using B outcomeI(1) by blast
  next
    case r
    then have j: "i < length seps" "fill kl vl h + 2 \<le> count (ts ! Suc i)" using len by (auto simp: lr_def)
    obtain g' t' where B: "try_borrow False (gid (ts ! Suc i)) (gid (ts ! i)) (h = 0) pid b seps (map gid ts) i t = Some (Inr True, t')"
      "moved [GNode pid seps ts] t [g'] t'" "gwf kl vl (Suc h) lo hi g'" "gid g' = pid" "root_page_id t' = root_page_id t"
      "settled kl vl h ts i g'"
      using try_borrow_lends [OF T _ k(1,2) j(1) sz \<open>\<forall>g \<in> set ts. rep (bt_pages t) g\<close> d, of False b] S j few by auto
    have "rebalance_node (gid (ts ! i)) ((pid, i) # anc) t = Some (Inr (), t')"
      by (rule run(2) [OF left [OF r(1)]]) (use B(1) r(2) in \<open>simp add: lr_def\<close>)
    then show ?thesis
      using B outcomeI(1) by blast
  next
    case m
    define j where "j = (if 0 < i then i - 1 else i)"
    have j: "j < length seps" using i len k(3) by (cases seps) (auto simp: j_def)
    have "count (ts ! j) + count (ts ! Suc j) \<le> 2 * fill kl vl h + 1"
      using m few j len by (cases i) (auto simp: ll_def lr_def j_def)
    then have "\<exists>g' t'. moved [GNode pid seps ts] t [g'] t' \<and> outcome kl vl (Suc h) lo hi pid anc t
      (bt_bind (merge_nodes (h = 0) (gid (ts ! j)) (gid (ts ! Suc j)) (seps ! j)) (\<lambda>_. merge_rest pid b seps (map gid ts) j anc) t) g' t' \<and>
      (i = j \<or> i = Suc j \<longrightarrow> settled kl vl h ts i g')"
      using S by (intro merge_step [OF T _ k(1,2) j sz r d _ z root]) (auto simp: j_def)
    moreover have "i = j \<or> i = Suc j" by (simp add: j_def)
    ultimately show ?thesis
      unfolding run(3) [OF left [OF m(1)] right [OF m(2)], folded j_def] by blast
  qed
qed

section \<open>The path of a key\<close>

fun gpath :: "nat \<Rightarrow> bytes \<Rightarrow> gtree \<Rightarrow> descend_path \<Rightarrow> descend_path" where
  "gpath (Suc h) key (GNode pid seps ts) path = gpath h key (ts ! child_index key seps) ((pid, child_index key seps) # path)"
| "gpath h key g path = path"

lemma descend_loop_eq:
  assumes "gwf kl vl h lo hi g" "rep (bt_pages t) g" "bt_pages t (gid g) = Some b"
  shows "\<exists>leaf. descend_loop t key b path = Some (Some (gid (leaf_for h key g), leaf, gpath h key g path)) \<and>
    bt_pages t (gid (leaf_for h key g)) = Some leaf"
  using assms
proof (induction h arbitrary: lo hi g b path)
  case 0
  obtain pid nxt kvs where g: "g = GLeaf pid nxt kvs"
    by (rule gwf_leafE [OF 0(1)])
  then have "\<not> is_branch b" "page_id (page_header_of b) = pid"
    using 0(2,3) leaf_view_reads(1,3) by auto
  then show ?case
    using 0(3) g by (subst descend_loop.simps) simp
next
  case (Suc h)
  obtain pid seps ts where g: "g = GNode pid seps ts" "tiled (gwf kl vl h) lo hi seps ts"
    by (rule gwf_nodeE [OF Suc.prems(1)])
  have v: "branch_view b pid seps (map gid ts)"
    using rep_nodeD(1) [OF Suc.prems(2) [unfolded g(1)]] Suc.prems(3) g(1) by auto
  let ?i = "child_index key seps"
  have i: "?i \<le> length seps" "?i < length ts"
    using child_index_le [of key seps] tiled_length [OF g(2)] by (auto simp del: child_index_le)
  have slot: "branch_slot b key = Some (gid (ts ! ?i), ?i)"
    using branch_slot_eq [OF v] tiled_sorted [OF g(2)] i(2) by simp
  have r: "rep (bt_pages t) (ts ! ?i)"
    using rep_nodeD(2) [OF Suc.prems(2) [unfolded g(1)]] i(2) by simp
  obtain c where c: "bt_pages t (gid (ts ! ?i)) = Some c"
    using rep_page [OF r] by blast
  obtain lo' hi' where w: "gwf kl vl h lo' hi' (ts ! ?i)"
    by (rule tiled_focus [OF g(2) i(1)])
  show ?case
    using Suc.IH [OF w r c, of "(pid, ?i) # path"] branch_view_reads(2,4) [OF v] slot c g(1)
    by (subst descend_loop.simps) (simp add: get_page_def)
qed

text \<open>One child was rearranged.\<close>

lemma moved_child:
  assumes M: "moved [ts ! i] t [g1] t1" and i: "i < length ts" and r: "\<forall>g \<in> set ts. rep (bt_pages t) g"
    and d: "distinct (gpids (GNode pid seps ts))" and b: "bt_pages t pid = Some b" "branch_view b pid seps (map gid ts)"
    and id: "gid g1 = gid (ts ! i)"
  defines "ts' \<equiv> take i ts @ [g1] @ drop (Suc i) ts"
  shows "moved ts t ts' t1" "moved [GNode pid seps ts] t [GNode pid seps ts'] t1" "bt_pages t1 pid = Some b"
    "branch_view b pid seps (map gid ts')"
proof -
  have e: "ts = take i ts @ [ts ! i] @ drop (Suc i) ts" using id_take_nth_drop [OF i] by simp
  have dd: "distinct (concat (map gpids ts))" "pid \<notin> set (concat (map gpids ts))" using d by simp_all
  have "\<forall>g \<in> set (take i ts @ drop (Suc i) ts). rep (bt_pages t) g"
    using r by (auto dest: in_set_takeD in_set_dropD)
  moreover have "distinct (concat (map gpids (take i ts @ [ts ! i] @ drop (Suc i) ts)))"
    unfolding e [symmetric] by (rule dd(1))
  ultimately have "moved (take i ts @ [ts ! i] @ drop (Suc i) ts) t ts' t1"
    unfolding ts'_def by (rule moved_context [OF M])
  then show m: "moved ts t ts' t1" unfolding e [symmetric] .
  have "map gid ts' = map gid ts"
    unfolding ts'_def by (rule trans [OF _ arg_cong [OF e [symmetric], of "map gid"]]) (simp add: id)
  then show v: "branch_view b pid seps (map gid ts')" using b(2) by simp
  have "keeps_view (bt_pages t) (bt_pages t1) pid" using movedD(7) [OF m dd(2)] .
  then show p: "bt_pages t1 pid = Some b" using b branch_view_reads(3) [OF b(2)] by (simp add: keeps_view_def)
  show "moved [GNode pid seps ts] t [GNode pid seps ts'] t1"
    by (rule moved_node [OF m dd(2) _ _ v]) (use p in \<open>simp_all add: fun_upd_idem\<close>)
qed

lemma next_ok_moved:
  assumes "moved gs t gs' t'" "next_ok (bt_pages t) (set (concat (map gpids gs))) z"
  shows "next_ok (bt_pages t') (set (concat (map gpids gs'))) z"
proof (cases "z = 0")
  case False
  then have "z \<notin> set (concat (map gpids gs))" using assms(2) unfolding next_ok_def by blast
  then show ?thesis
    using movedD(7) [OF assms(1), of z] movedD(3) [OF assms(1)] assms(2) unfolding next_ok_def keeps_view_def by blast
qed (simp add: next_ok_def)

text \<open>The leaf of the key may have one entry less than the minimum for the others.\<close>

fun lacking :: "nat \<Rightarrow> nat \<Rightarrow> bytes \<Rightarrow> gtree \<Rightarrow> bool" where
  "lacking m (Suc h) key (GNode pid seps ts) =
     ((\<forall>k < length ts. k \<noteq> child_index key seps \<longrightarrow> (\<forall>l \<in> set (gleaves (ts ! k)). m < length (leaf_kvs l))) \<and>
      lacking m h key (ts ! child_index key seps))"
| "lacking m h key g = (\<forall>l \<in> set (gleaves g). m \<le> length (leaf_kvs l))"

abbreviation filled :: "nat \<Rightarrow> gtree \<Rightarrow> bool" where
  "filled m g \<equiv> \<forall>l \<in> set (gleaves g). m < length (leaf_kvs l)"

lemma leaf_count: "gwf0 kl vl 0 lo hi g \<Longrightarrow> (filled m g \<longleftrightarrow> m < count g) \<and> (lacking m 0 key g \<longleftrightarrow> m \<le> count g)"
  by (cases g) auto

lemma outcome_root: "root_page_id t1 = root_page_id t \<Longrightarrow> outcome kl vl h lo hi pid anc t1 run g' t' = outcome kl vl h lo hi pid anc t run g' t'"
  by (simp add: outcome_def)

lemma rebalance_below:
  assumes "gwf kl vl h lo hi g" "rep (bt_pages t) g" "distinct (gpids g)" "chained (gleaves g) z"
    "next_ok (bt_pages t) (set (gpids g)) z" "count (leaf_for h key g) \<le> fill kl vl 0" "sizes_ok kl vl" "merge_ok kl vl"
    "lo \<le> key" "below key hi" "path = [] \<Longrightarrow> root_page_id t = gid g"
  shows "\<exists>g' t'. moved [g] t [g'] t' \<and>
    outcome kl vl h lo hi (gid g) path t (rebalance_node (gid (leaf_for h key g)) (gpath h key g path) t) g' t' \<and>
    (lacking (fill kl vl 0) h key g \<longrightarrow> h = 0 \<and> g' = g \<or> filled (fill kl vl 0) g')"
  using assms
proof (induction h arbitrary: lo hi g path z)
  case 0
  obtain pid nxt kvs where g: "g = GLeaf pid nxt kvs"
    by (rule gwf_leafE [OF 0(1)])
  have "moved [g] t [g] t" by (rule moved_refl) (use 0(2,3) in simp_all)
  moreover have "outcome kl vl 0 lo hi (gid g) path t (rebalance_node (gid g) path t) g t"
    by (rule outcomeI(2)) (use 0 g in simp_all)
  ultimately show ?case unfolding g by auto
next
  case (Suc h)
  obtain pid seps ts where g: "g = GNode pid seps ts" and w: "tiled (gwf kl vl h) lo hi seps ts" "seps \<noteq> []"
    "length seps \<le> branch_cap kl" "\<forall>s \<in> set seps. length s = kl"
    by (rule gwf_nodeE [OF Suc.prems(1)])
  define i where "i = child_index key seps"
  have i: "i \<le> length seps" "i < length ts"
    using child_index_le [of key seps] tiled_length [OF w(1)] by (auto simp: i_def simp del: child_index_le)
  have R: "\<forall>g \<in> set ts. rep (bt_pages t) g" and d: "distinct (gpids (GNode pid seps ts))" "distinct (concat (map gpids ts))"
    using Suc.prems(2,3) g by (auto simp: list_all_iff)
  obtain b where b: "bt_pages t pid = Some b" "branch_view b pid seps (map gid ts)"
    using Suc.prems(2) g by auto
  have e: "ts = take i ts @ [ts ! i] @ drop (Suc i) ts" using id_take_nth_drop [OF i(2)] by simp
  have n: "chained (concat (map gleaves ts)) z" "next_ok (bt_pages t) (set (concat (map gpids ts))) z"
    using Suc.prems(4,5) unfolding g next_ok_def by auto
  define z' where "z' = first_leaf (concat (map gleaves (drop (Suc i) ts))) z"
  have zc: "chained (gleaves (ts ! i)) z'" "next_ok (bt_pages t) (set (gpids (ts ! i))) z'"
    using segment_chain [of "take i ts" "[ts ! i]" "drop (Suc i) ts" z "bt_pages t", folded e] n d(2) R
    by (auto simp: z'_def dest: in_set_dropD)
  note nu = tiled_gwf_gwf0 [OF w(1)]
  note ib = child_index_bounds [OF w(1) Suc.prems(9,10), folded i_def]
  define lo' where "lo' = (if i = 0 then lo else seps ! (i - 1))"
  define hi' where "hi' = (if i = length seps then hi else Some (seps ! i))"
  note f = tiled_child(1) [OF conjunct1 [OF nu] i(1), folded lo'_def hi'_def]
    and put = tiled_child(2) [OF conjunct1 [OF nu] i(1), folded lo'_def hi'_def]
  note k = ib(1,2) [folded lo'_def hi'_def]
  have si: "sound (ts ! i)" using nu i(2) by simp
  have di: "distinct (gpids (ts ! i))" using d(2) around [OF i(2), of gpids] by simp
  have "\<exists>g1 t1. moved [ts ! i] t [g1] t1 \<and> outcome kl vl h lo' hi' (gid (ts ! i)) ((pid, i) # path) t
      (rebalance_node (gid (leaf_for h key (ts ! i))) (gpath h key (ts ! i) ((pid, i) # path)) t) g1 t1 \<and>
      (lacking (fill kl vl 0) h key (ts ! i) \<longrightarrow> h = 0 \<and> g1 = ts ! i \<or> filled (fill kl vl 0) g1)"
  proof (rule Suc.IH [OF _ _ di zc _ Suc.prems(7,8) k])
    show "gwf kl vl h lo' hi' (ts ! i)" using f si by (simp add: gwf_iff)
    show "rep (bt_pages t) (ts ! i)" using R i(2) by simp
    show "count (leaf_for h key (ts ! i)) \<le> fill kl vl 0" using Suc.prems(6) by (simp add: g i_def)
  qed simp
  then obtain g1 t1 where M: "moved [ts ! i] t [g1] t1" and O: "outcome kl vl h lo' hi' (gid (ts ! i)) ((pid, i) # path) t
      (rebalance_node (gid (leaf_for h key (ts ! i))) (gpath h key (ts ! i) ((pid, i) # path)) t) g1 t1"
    and F: "lacking (fill kl vl 0) h key (ts ! i) \<longrightarrow> h = 0 \<and> g1 = ts ! i \<or> filled (fill kl vl 0) g1" by blast
  define run where "run = rebalance_node (gid (leaf_for h key (ts ! i))) (gpath h key (ts ! i) ((pid, i) # path)) t"
  have O': "gid g1 = gid (ts ! i)" "root_page_id t1 = root_page_id t" "gwf0 kl vl h lo' hi' g1"
    using O by (auto simp: outcome_def gwf_iff)
  let ?ts = "ts[i := g1]"
  have e': "take i ts @ [g1] @ drop (Suc i) ts = ?ts" using i(2) by (simp add: upd_conv_take_nth_drop)
  note mc = moved_child [OF M i(2) R d(1) b O'(1), unfolded e']
  have T: "tiled (gwf0 kl vl h) lo hi seps ?ts"
    using put [of "[]" "[g1]"] O'(3) upto_of_key [OF k] by (simp add: e' [simplified])
  have S: "\<forall>k < length ?ts. k \<noteq> i \<longrightarrow> sound (?ts ! k)"
    using nu by simp
  have L: "(\<forall>k < length ts. k \<noteq> i \<longrightarrow> filled (fill kl vl 0) (ts ! k)) \<and> lacking (fill kl vl 0) h key (ts ! i)"
    if "lacking (fill kl vl 0) (Suc h) key g" using that by (simp add: g i_def)
  have fi: "filled (fill kl vl 0) g'" if a: "lacking (fill kl vl 0) (Suc h) key g" "filled (fill kl vl 0) g1" "g' \<in> set ?ts" for g'
  proof -
    obtain k where "k < length ts" "g' = ?ts ! k" using a(3) by (auto simp: in_set_conv_nth)
    then show ?thesis using L [OF a(1)] a(2) by (cases "k = i") simp_all
  qed
  consider (ready) "0 < h" "run = Some (Inr (), t1)" "gwf kl vl h lo' hi' g1"
    | (more) "run = rebalance_node (gid (?ts ! i)) ((pid, i) # path) t1" "count (?ts ! i) \<le> fill kl vl h"
    using O i(2) O'(1) by (auto simp: outcome_def run_def)
  then have "\<exists>g' t'. moved [GNode pid seps ts] t [g'] t' \<and> outcome kl vl (Suc h) lo hi pid path t run g' t' \<and>
    (lacking (fill kl vl 0) (Suc h) key g \<longrightarrow> filled (fill kl vl 0) g')"
  proof cases
    case ready
    have "\<forall>g \<in> set ?ts. sound g" using nu ready(3) set_update_subset_insert [of ts i g1] by (auto simp: gwf_iff)
    then have "gwf kl vl (Suc h) lo hi (GNode pid seps ?ts)"
      using tiled_all_sound [OF T] w(2-4) by simp
    then have "outcome kl vl (Suc h) lo hi pid path t run (GNode pid seps ?ts) t1"
      by (rule outcomeI(1) [OF ready(2)]) (simp_all add: O'(2))
    moreover have "filled (fill kl vl 0) (GNode pid seps ?ts)" if "lacking (fill kl vl 0) (Suc h) key g"
      using fi [OF that] F L [OF that] ready(1) by auto
    ultimately show ?thesis using mc(2) by blast
  next
    case more
    have "\<exists>g' t'. moved [GNode pid seps ?ts] t1 [g'] t' \<and> outcome kl vl (Suc h) lo hi pid path t1 run g' t' \<and> settled kl vl h ?ts i g'"
      unfolding more(1)
    proof (rule rebalance_step [OF T S w(4,3,2) _ more(2) Suc.prems(7,8) _ mc(3,4)])
      show "\<forall>g \<in> set ?ts. rep (bt_pages t1) g" using movedD(1) [OF mc(1)] by blast
      show "distinct (gpids (GNode pid seps ?ts))" using movedD(2) [OF mc(2)] by simp
      show "chained (concat (map gleaves ?ts)) z" by (rule movedD(5) [OF mc(1) n(1)])
      show "next_ok (bt_pages t1) (set (concat (map gpids ?ts))) z" by (rule next_ok_moved [OF mc(1) n(2)])
      show "root_page_id t1 = pid" if "path = []" using Suc.prems(11) [OF that] O'(2) by (simp add: g)
    qed (use i(2) in simp)
    then obtain g' t' where G: "moved [GNode pid seps ?ts] t1 [g'] t'" "outcome kl vl (Suc h) lo hi pid path t1 run g' t'" "settled kl vl h ?ts i g'"
      by blast
    have "filled (fill kl vl 0) g'" if a: "lacking (fill kl vl 0) (Suc h) key g"
    proof (cases "h = 0")
      case True
      have c: "(filled m (?ts ! k) \<longleftrightarrow> m < count (?ts ! k)) \<and> (lacking m 0 key (?ts ! k) \<longleftrightarrow> m \<le> count (?ts ! k))" if "k < length ts" for k m
        using tiled_nth [OF T, of k] that True leaf_count by fastforce
      have "fill kl vl 0 < count (?ts ! k)" if "k < length ?ts" "k \<noteq> i" for k
        using L [OF a] c [of k "fill kl vl 0"] that by simp
      moreover have "fill kl vl 0 \<le> count (?ts ! i)"
        using L [OF a] F c [of i "fill kl vl 0"] i(2) True by auto
      ultimately show ?thesis using G(3) True by (simp add: settled_def)
    next
      case False
      then have "filled (fill kl vl 0) g1" using F L [OF a] by blast
      then show ?thesis using fi [OF a] G(3) False by (auto simp: settled_def)
    qed
    then show ?thesis
      using moved_trans [OF mc(2) G(1)] G(2) outcome_root [OF O'(2)] by blast
  qed
  then show ?case
    by (auto simp: g i_def run_def)
qed

end
