(* ===== verification/BTreeMap.thy ===== *)
theory BTreeMap
  imports BTreeDelete
begin

text \<open>
  The B+ tree as a map: what a sequence of insertions and deletions leaves behind is a map from
  keys to values, which searches and range scans read.
\<close>

section \<open>Removing an entry from its leaf\<close>

fun set_leaf :: "nat \<Rightarrow> bytes \<Rightarrow> (bytes \<times> bytes) list \<Rightarrow> gtree \<Rightarrow> gtree" where
  "set_leaf (Suc h) key kvs (GNode pid seps ts) =
     GNode pid seps (ts[child_index key seps := set_leaf h key kvs (ts ! child_index key seps)])"
| "set_leaf h key kvs (GLeaf pid nxt kvs') = GLeaf pid nxt kvs"
| "set_leaf h key kvs g = g"

definition leaf_shape :: "u64 \<times> u64 \<times> 'a \<Rightarrow> u64 \<times> u64" where
  "leaf_shape l = (fst l, fst (snd l))"

lemma leaf_shape_simp [simp]: "leaf_shape (p, n, x) = (p, n)"
  by (simp add: leaf_shape_def)

lemma chained_shape: "map leaf_shape xs = map leaf_shape ys \<Longrightarrow> chained xs z = chained ys z"
proof (induction xs arbitrary: ys)
  case (Cons x xs)
  then obtain y ys' where ys: "ys = y # ys'" by (cases ys) auto
  obtain p n k p' n' k' where xy: "x = (p, n, k)" "y = (p', n', k')" by (cases x; cases y) auto
  have f: "first_leaf xs z = first_leaf ys' z" using Cons.prems by (cases xs; cases ys') (auto simp: ys leaf_shape_def)
  show ?case using Cons.IH [of ys'] Cons.prems f by (simp add: ys xy)
qed simp

lemma list_update_map_concat:
  assumes "i < length ts" "f x = f (ts ! i)"
  shows "concat (map f (ts[i := x])) = concat (map f ts)"
  using assms by (metis list_update_id map_update)

abbreviation without :: "bytes \<Rightarrow> (bytes \<times> bytes) list \<Rightarrow> (bytes \<times> bytes) list" where
  "without key \<equiv> filter (\<lambda>kv. fst kv \<noteq> key)"

lemma without_below: "(\<And>kv. kv \<in> set kvs \<Longrightarrow> fst kv < key) \<Longrightarrow> without key kvs = kvs"
  by (rule filter_True) force

lemma without_above: "(\<And>kv. kv \<in> set kvs \<Longrightarrow> key < fst kv) \<Longrightarrow> without key kvs = kvs"
  by (rule filter_True) force

lemma sorted_without: "sorted_kvs kvs \<Longrightarrow> sorted_kvs (without key kvs)"
  by (simp add: sorted_wrt_map sorted_wrt_filter)

lemma set_leaf_facts:
  assumes "gwf kl vl h lo hi g" "lo \<le> key" "below key hi" "leaf_for h key g = GLeaf pid nxt kvs"
  defines "g1 \<equiv> set_leaf h key (without key kvs) g"
  shows "gid g1 = gid g \<and> gpids g1 = gpids g \<and> map leaf_shape (gleaves g1) = map leaf_shape (gleaves g) \<and> gwf kl vl h lo hi g1 \<and>
    entries g1 = without key (entries g) \<and> leaf_for h key g1 = GLeaf pid nxt (without key kvs) \<and>
    (\<forall>path. gpath h key g1 path = gpath h key g path)"
  using assms(1-4) unfolding g1_def
proof (induction h arbitrary: lo hi g)
  case 0
  obtain pid' nxt' kvs' where g: "g = GLeaf pid' nxt' kvs'" by (rule gwf_leafE [OF 0(1)])
  then have e: "pid' = pid" "nxt' = nxt" "kvs' = kvs" using 0(4) by simp_all
  have w: "sorted_kvs kvs" "\<forall>kv \<in> set kvs. lo \<le> fst kv \<and> below (fst kv) hi" "uniform kl vl kvs" "length kvs \<le> leaf_cap kl vl"
    using 0(1) by (simp_all add: g e)
  have "length (without key kvs) \<le> leaf_cap kl vl" using w(4) length_filter_le [of _ kvs] by (rule order_trans [rotated])
  moreover have "uniform kl vl (without key kvs)" by (rule uniform_subset [OF w(3)]) auto
  ultimately show ?case using sorted_without [OF w(1)] w(2) by (simp add: g e)
next
  case (Suc h)
  obtain p seps ts where g: "g = GNode p seps ts" and w: "tiled (gwf kl vl h) lo hi seps ts" "seps \<noteq> []"
    "length seps \<le> branch_cap kl" "\<forall>s \<in> set seps. length s = kl"
    by (rule gwf_nodeE [OF Suc.prems(1)])
  define i where "i = child_index key seps"
  note ib = child_index_bounds [OF w(1) Suc.prems(2,3), folded i_def]
  have i: "i \<le> length seps" "i < length ts" using ib(3) by (simp_all add: i_def)
  define lo' where "lo' = (if i = 0 then lo else seps ! (i - 1))"
  define hi' where "hi' = (if i = length seps then hi else Some (seps ! i))"
  note f = tiled_child [OF w(1) i(1), folded lo'_def hi'_def] and k = ib(1,2) [folded lo'_def hi'_def]
  define c where "c = set_leaf h key (without key kvs) (ts ! i)"
  have IH: "gid c = gid (ts ! i)" "gpids c = gpids (ts ! i)" "map leaf_shape (gleaves c) = map leaf_shape (gleaves (ts ! i))" "gwf kl vl h lo' hi' c"
    "entries c = without key (entries (ts ! i))" "leaf_for h key c = GLeaf pid nxt (without key kvs)"
    "\<And>path. gpath h key c path = gpath h key (ts ! i) path"
    using Suc.IH [OF f(1) k] Suc.prems(4) unfolding c_def by (simp_all add: g i_def)
  have e': "take i ts @ [c] @ drop (Suc i) ts = ts[i := c]" using i(2) by (simp add: upd_conv_take_nth_drop)
  have T: "tiled (gwf kl vl h) lo hi seps (ts[i := c])"
    using f(2) [of "[]" "[c]"] IH(4) upto_of_key [OF k] by (simp add: e' [simplified])
  note nb = gwf_neighbours [OF w(1) i(1), folded lo'_def hi'_def]
  have "without key (concat (map entries (take i ts))) = concat (map entries (take i ts))"
    by (rule without_below, rule order_less_le_trans [OF nb(1) k(1)])
  moreover have "without key (concat (map entries (drop (Suc i) ts))) = concat (map entries (drop (Suc i) ts))"
    by (rule without_above, rule nb(2) [OF _ k(2)])
  ultimately have E: "concat (map entries (ts[i := c])) = without key (concat (map entries ts))"
    unfolding entries_around [OF i(2)] by (simp add: e' [symmetric] IH(5))
  have L: "map leaf_shape (concat (map gleaves (ts[i := c]))) = map leaf_shape (concat (map gleaves ts))"
    unfolding gleaves_around [OF i(2)] by (simp add: e' [symmetric] IH(3))
  show ?case
    using T E L w(2-4) list_update_map_concat [OF i(2) IH(2)] i(2) IH(6,7)
    by (simp add: g i_def [symmetric] c_def [symmetric])
qed

lemma set_leaf_rep:
  assumes "gwf kl vl h lo hi g" "rep P g" "distinct (gpids g)" "leaf_for h key g = GLeaf pid nxt kvs" "leaf_view b pid nxt kvs'"
    and Q: "Q pid = Some b" "\<And>q. q \<noteq> pid \<Longrightarrow> Q q = P q"
  shows "rep Q (set_leaf h key kvs' g) \<and> pid \<in> set (gpids g)"
  using assms(1-4)
proof (induction h arbitrary: lo hi g)
  case 0
  obtain pid' nxt' kvs'' where g: "g = GLeaf pid' nxt' kvs''" by (rule gwf_leafE [OF 0(1)])
  then show ?case using 0(4) assms(5) Q(1) by simp
next
  case (Suc h)
  obtain p seps ts where g: "g = GNode p seps ts" and w: "tiled (gwf kl vl h) lo hi seps ts"
    by (rule gwf_nodeE [OF Suc.prems(1)])
  define i where "i = child_index key seps"
  have i: "i \<le> length seps" "i < length ts"
    using child_index_le [of key seps] tiled_length [OF w] by (auto simp: i_def simp del: child_index_le)
  define c where "c = set_leaf h key kvs' (ts ! i)"
  have d: "distinct (p # concat (map gpids (take i ts)) @ gpids (ts ! i) @ concat (map gpids (drop (Suc i) ts)))"
    using Suc.prems(3) around [OF i(2), of gpids] by (simp add: g)
  have "rep P (ts ! i)" "distinct (gpids (ts ! i))" "leaf_for h key (ts ! i) = GLeaf pid nxt kvs"
    using Suc.prems(2,4) d i(2) by (simp_all add: g i_def list_all_iff)
  note IH' = Suc.IH [OF tiled_child(1) [OF w i(1)] this, folded c_def]
  note IH = conjunct1 [OF IH'] conjunct2 [OF IH']
  have id: "gid c = gid (ts ! i)" by (cases h; cases "ts ! i") (simp_all add: c_def)
  have e': "take i ts @ [c] @ drop (Suc i) ts = ts[i := c]" using i(2) by (simp add: upd_conv_take_nth_drop)
  have "rep Q g'" if "g' \<in> set (take i ts @ drop (Suc i) ts)" for g'
  proof (rule rep_elsewhere)
    show "rep P g'" using Suc.prems(2) that by (auto simp: g list_all_iff dest: in_set_takeD in_set_dropD)
    fix q assume "q \<in> set (gpids g')"
    then have "q \<noteq> pid" using that d IH(2) by auto
    then show "Q q = P q" by (rule Q(2))
  qed
  then have "list_all (rep Q) (ts[i := c])"
    using IH(1) by (auto simp: e' [symmetric] list_all_iff)
  moreover have "map gid (ts[i := c]) = map gid ts" by (metis id list_update_id map_update)
  moreover have "p \<noteq> pid" using d IH(2) by auto
  ultimately show ?case
    using Suc.prems(2) IH(2) nth_mem [OF i(2)] Q(2) [of p] by (auto simp: g i_def [symmetric] c_def [symmetric])
qed

text \<open>The leaves after the removal.\<close>

lemma length_without: "sorted_kvs kvs \<Longrightarrow> length kvs \<le> Suc (length (without key kvs))"
proof (induction kvs)
  case (Cons kv kvs)
  then have s: "sorted_kvs kvs" "\<And>x. x \<in> set kvs \<Longrightarrow> fst kv < fst x" by auto
  show ?case
  proof (cases "fst kv = key")
    case True
    then have "without key kvs = kvs" using s(2) by (intro without_above) simp
    then show ?thesis using True by simp
  next
    case False
    then show ?thesis using Cons.IH [OF s(1)] by simp
  qed
qed simp

lemma set_leaf_lacking:
  assumes "gwf kl vl h lo hi g" "leaf_for h key g = GLeaf pid nxt kvs" "filled m g"
  shows "lacking m h key (set_leaf h key (without key kvs) g)"
  using assms
proof (induction h arbitrary: lo hi g)
  case 0
  obtain p n kvs' where g: "g = GLeaf p n kvs'" "sorted_kvs kvs'" by (rule gwf_leafE [OF 0(1)])
  then show ?case using 0(2,3) length_without [OF g(2), of key] by simp
next
  case (Suc h)
  obtain p seps ts where g: "g = GNode p seps ts" and w: "tiled (gwf kl vl h) lo hi seps ts"
    by (rule gwf_nodeE [OF Suc.prems(1)])
  define i where "i = child_index key seps"
  have i: "i \<le> length seps" "i < length ts"
    using child_index_le [of key seps] tiled_length [OF w] by (auto simp: i_def simp del: child_index_le)
  have f: "filled m (ts ! k)" if "k < length ts" for k
    using Suc.prems(3) nth_mem [OF that] by (auto simp: g)
  have "lacking m h key (set_leaf h key (without key kvs) (ts ! i))"
    using Suc.IH [OF tiled_child(1) [OF w i(1)] _ f [OF i(2)]] Suc.prems(2) by (simp add: g i_def)
  then show ?case using f i(2) by (simp add: g i_def [symmetric])
qed

lemma lacking_filled:
  assumes "gwf kl vl h lo hi g" "leaf_for h key g = GLeaf pid nxt kvs" "lacking m h key g" "m < length kvs"
  shows "filled m g"
  using assms(1-3)
proof (induction h arbitrary: lo hi g)
  case 0
  obtain p n kvs' where g: "g = GLeaf p n kvs'" by (rule gwf_leafE [OF 0(1)])
  then show ?case using 0(2) assms(4) by simp
next
  case (Suc h)
  obtain p seps ts where g: "g = GNode p seps ts" and w: "tiled (gwf kl vl h) lo hi seps ts"
    by (rule gwf_nodeE [OF Suc.prems(1)])
  define i where "i = child_index key seps"
  have i: "i \<le> length seps" "i < length ts"
    using child_index_le [of key seps] tiled_length [OF w] by (auto simp: i_def simp del: child_index_le)
  have "filled m (ts ! i)"
    using Suc.IH [OF tiled_child(1) [OF w i(1)]] Suc.prems(2,3) by (simp add: g i_def)
  then have "filled m t" if "t \<in> set ts" for t
    using that Suc.prems(3) by (cases "t = ts ! i") (auto simp: g i_def in_set_conv_nth)
  then show ?case by (auto simp: g)
qed

lemma length_gpath: "gwf kl vl h lo hi g \<Longrightarrow> length (gpath h key g path) = h + length path"
proof (induction h arbitrary: lo hi g path)
  case (Suc h)
  obtain p seps ts where g: "g = GNode p seps ts" and w: "tiled (gwf kl vl h) lo hi seps ts"
    by (rule gwf_nodeE [OF Suc.prems])
  show ?case
    using Suc.IH [OF tiled_child(1) [OF w child_index_le [of key seps]]] by (simp add: g)
qed simp

section \<open>Deletion\<close>

lemma take_drop_without:
  assumes "sorted_kvs kvs" "key \<in> fst ` set kvs"
  shows "take (keys_below key kvs) kvs @ drop (keys_below key kvs + 1) kvs = without key kvs"
  using assms
proof (induction kvs)
  case (Cons kv kvs)
  obtain a b where kv: "kv = (a, b)" by (cases kv)
  show ?case
  proof (cases "a < key")
    case True
    then show ?thesis using Cons by (auto simp: kv keys_below_Cons)
  next
    case False
    then have "a = key" using Cons.prems by (force simp: kv)
    moreover have "without a kvs = kvs" using Cons.prems(1) by (intro without_above) (auto simp: kv)
    ultimately show ?thesis by (simp add: kv keys_below_Cons)
  qed
qed simp

lemma btree_ok_moved:
  assumes ok: "btree_ok kl vl h g t" and M: "moved [g] t [g'] t'" and w: "gwf kl vl h' [] None g'" "root_page_id t' = gid g'"
  shows "btree_ok kl vl h' g' t'"
  using ok w movedD [OF M] unfolding btree_ok_def by (auto simp del: set_concat)

lemma delete_leaf_ok:
  assumes ok: "btree_ok kl vl h g t" and l: "leaf_for h key g = GLeaf pid nxt kvs" and b: "leaf_view b pid nxt (without key kvs)"
  defines "g1 \<equiv> set_leaf h key (without key kvs) g"
  shows "btree_ok kl vl h g1 (put_page_with_lsn t pid b)" "entries g1 = without key (entries g)"
    "leaf_for h key g1 = GLeaf pid nxt (without key kvs)" "gpath h key g1 [] = gpath h key g []"
proof -
  have o: "gwf kl vl h [] None g" "rep (bt_pages t) g" "root_page_id t = gid g" "distinct (gpids g)"
    "\<forall>p \<in> set (gpids g). p \<noteq> 0 \<and> p < next_page_id t" "chained (gleaves g) 0"
    using ok by (simp_all add: btree_ok_def)
  have F: "gid g1 = gid g" "gpids g1 = gpids g" "map leaf_shape (gleaves g1) = map leaf_shape (gleaves g)" "gwf kl vl h [] None g1"
    using set_leaf_facts [OF o(1) _ _ l] unfolding g1_def by simp_all
  show "entries g1 = without key (entries g)" "leaf_for h key g1 = GLeaf pid nxt (without key kvs)" "gpath h key g1 [] = gpath h key g []"
    using set_leaf_facts [OF o(1) _ _ l] unfolding g1_def by simp_all
  have "rep (bt_pages (put_page_with_lsn t pid b)) g1"
    using set_leaf_rep [OF o(1,2,4) l leaf_view_lsn [OF b], of "bt_pages (put_page_with_lsn t pid b)"] unfolding g1_def by simp
  moreover have "chained (gleaves g1) 0" using o(6) chained_shape [OF F(3)] by simp
  ultimately show "btree_ok kl vl h g1 (put_page_with_lsn t pid b)"
    using o F by (simp add: btree_ok_def)
qed

lemma outcome_top:
  assumes "outcome kl vl h lo hi pid [] t run g' t'" "root_page_id t = pid"
  shows "run = Some (Inr (), t') \<and> root_page_id t' = gid g' \<and> (\<exists>h' \<le> h. gwf kl vl h' lo hi g')"
proof -
  consider "run = Some (Inr (), t')" "gwf kl vl h lo hi g'" "root_page_id t' = gid g'"
    | "run = rebalance_node pid [] t'" "gwf0 kl vl h lo hi g'" "sound g'" "root_page_id t' = gid g'"
    | h' where "run = Some (Inr (), t')" "h = Suc h'" "gwf kl vl h' lo hi g'" "root_page_id t' = gid g'"
    using assms unfolding outcome_def by force
  then show ?thesis
  proof cases
    case 2
    then have "gwf kl vl h lo hi g'" by (simp add: gwf_iff)
    then show ?thesis using 2 by (auto simp: bt_return_def)
  next
    case 3
    then show ?thesis by (intro conjI exI [of _ h']) simp_all
  qed blast
qed

lemma rebalance_whole:
  assumes ok: "btree_ok kl vl h g t" and sz: "sizes_ok kl vl" "merge_ok kl vl"
    and l: "leaf_for h key g = GLeaf pid nxt kvs"
  shows "\<exists>g' h' t'. rebalance_after_delete pid (gpath h key g []) t = Some (Inr (), t') \<and> btree_ok kl vl h' g' t' \<and>
    entries g' = entries g \<and> h' \<le> h \<and> next_page_id t' = next_page_id t \<and>
    (lacking (fill kl vl 0) h key g \<longrightarrow> occupied (fill kl vl 0 + 1) h' g')"
proof -
  have o: "gwf kl vl h [] None g" "rep (bt_pages t) g" "root_page_id t = gid g" "distinct (gpids g)" "chained (gleaves g) 0"
    using ok by (simp_all add: btree_ok_def)
  obtain root where root: "bt_pages t (gid g) = Some root" using rep_page [OF o(2)] by blast
  obtain leaf where leaf: "bt_pages t pid = Some leaf"
    using descend_loop_eq [OF o(1,2) root, of key "[]"] by (auto simp: l)
  obtain A D where gl: "gleaves g = A @ (pid, nxt, kvs) # D" using leaf_for_split [OF o(1), of key] l by auto
  then have v: "leaf_view leaf pid nxt kvs" using rep_leaf [OF o(2), of pid nxt kvs] leaf by auto
  have u: "uniform kl vl kvs"
    by (rule uniform_subset [OF gwf_uniform [OF o(1)]]) (auto simp: entries_gleaves gl)
  show ?thesis
  proof (cases "gpath h key g [] = [] \<or> \<not> is_underfull leaf")
    case True
    then have "rebalance_after_delete pid (gpath h key g []) t = Some (Inr (), t)"
      using leaf by (auto simp: rebalance_after_delete_def bt_monad) (simp_all add: bt_return_def)
    moreover have "occupied (fill kl vl 0 + 1) h g" if "lacking (fill kl vl 0) h key g"
    proof (cases "h = 0")
      case False
      then have "fill kl vl 0 < length kvs"
        using True fill_leaf(1) [OF v u] length_gpath [OF o(1), of key "[]"] by (auto simp: fill_def)
      then show ?thesis using lacking_filled [OF o(1) l that] by (auto simp: occupied_def Suc_le_eq)
    qed (simp add: occupied_def)
    ultimately show ?thesis using ok by blast
  next
    case False
    then have few: "count (leaf_for h key g) \<le> fill kl vl 0"
      using fill_leaf(1) [OF v u] by (simp add: l fill_def)
    obtain g' t' where M: "moved [g] t [g'] t'" and O: "outcome kl vl h [] None (gid g) [] t (rebalance_node pid (gpath h key g []) t) g' t'"
      and F: "lacking (fill kl vl 0) h key g \<longrightarrow> h = 0 \<and> g' = g \<or> filled (fill kl vl 0) g'"
      using rebalance_below [OF o(1,2,4,5) _ few sz, of "[]"] o(3) by (auto simp: l next_ok_def)
    have run: "rebalance_after_delete pid (gpath h key g []) t = rebalance_node pid (gpath h key g []) t"
      using False leaf by (simp add: rebalance_after_delete_def bt_monad)
    have "rebalance_node pid (gpath h key g []) t = Some (Inr (), t') \<and> root_page_id t' = gid g' \<and> (\<exists>h' \<le> h. gwf kl vl h' [] None g')"
      by (rule outcome_top [OF O o(3)])
    then obtain h' where h: "rebalance_node pid (gpath h key g []) t = Some (Inr (), t')" "root_page_id t' = gid g'" "h' \<le> h" "gwf kl vl h' [] None g'"
      by blast
    have "h \<noteq> 0" using False length_gpath [OF o(1), of key "[]"] by (metis add.right_neutral length_0_conv)
    then have "lacking (fill kl vl 0) h key g \<longrightarrow> occupied (fill kl vl 0 + 1) h' g'"
      using F by (auto simp: occupied_def Suc_le_eq)
    then show ?thesis
      using run h btree_ok_moved [OF ok M h(4,2)] movedD(4,8) [OF M] by auto
  qed
qed

lemma delete_key_spec:
  assumes ok: "btree_ok kl vl h g t" and sz: "sizes_ok kl vl" "merge_ok kl vl"
  shows "\<exists>g' h' t'. delete_key key t = Some (Inr (key \<in> fst ` set (entries g)), t') \<and> btree_ok kl vl h' g' t' \<and>
    entries g' = without key (entries g) \<and> h' \<le> h \<and> next_page_id t' = next_page_id t \<and>
    (occupied (fill kl vl 0 + 1) h g \<longrightarrow> occupied (fill kl vl 0 + 1) h' g')"
proof -
  have o: "gwf kl vl h [] None g" "rep (bt_pages t) g" "root_page_id t = gid g" using ok by (simp_all add: btree_ok_def)
  obtain root where root: "bt_pages t (gid g) = Some root" using rep_page [OF o(2)] by blast
  obtain pid nxt kvs A D where l: "leaf_for h key g = GLeaf pid nxt kvs" "sorted_kvs kvs" "gleaves g = A @ (pid, nxt, kvs) # D"
    "\<forall>l \<in> set A. \<forall>kv \<in> set (leaf_kvs l). fst kv < key" "\<forall>l \<in> set D. \<forall>kv \<in> set (leaf_kvs l). key < fst kv"
    using leaf_for_split [OF o(1), of key] by auto
  obtain leaf where leaf: "descend_loop t key root [] = Some (Some (pid, leaf, gpath h key g []))" "bt_pages t pid = Some leaf"
    using descend_loop_eq [OF o(1,2) root, of key "[]"] by (auto simp: l(1))
  have v: "leaf_view leaf pid nxt kvs" using rep_leaf [OF o(2), of pid nxt kvs] leaf(2) l(3) by auto
  have u: "uniform kl vl kvs"
    by (rule uniform_subset [OF gwf_uniform [OF o(1)]]) (auto simp: entries_gleaves l(3))
  have m: "map_of (entries g) key = map_of kvs key"
    unfolding entries_gleaves l(3) by (rule map_of_middle [OF l(4,5)])
  then have mem: "key \<in> fst ` set (entries g) \<longleftrightarrow> key \<in> fst ` set kvs"
    using map_of_eq_None_iff [of "entries g" key] map_of_eq_None_iff [of kvs key] by simp
  note hit = leaf_search(1) [OF v l(2), of key]
  have run: "delete_key key t =
    (if leaf_key leaf (leaf_lower_bound leaf key) = Some key then
       bt_bind (bt_lift (bt_delete leaf (leaf_lower_bound leaf key))) (\<lambda>(_, leaf).
         bt_bind (bt_put pid leaf) (\<lambda>_. bt_bind (rebalance_after_delete pid (gpath h key g [])) (\<lambda>_. bt_return True))) t
     else Some (Inr False, t))"
    using root leaf(1) by (simp add: delete_key_def o(3) bt_monad descend_to_leaf_with_path_def Let_def) (simp add: bt_bind_def bt_return_def)
  show ?thesis
  proof (cases "key \<in> fst ` set kvs")
    case False
    moreover have "without key (entries g) = entries g"
      using False mem by (intro filter_True) (auto simp: image_iff)
    ultimately show ?thesis using run hit ok mem by auto
  next
    case True
    obtain b where b: "bt_delete leaf (keys_below key kvs) = Some (True, b)" "leaf_view b pid nxt (without key kvs)"
      using leaf_delete [OF v _ u sz(1), of "keys_below key kvs"] keys_below_hit [OF l(2) True] take_drop_without [OF l(2) True] by auto
    note d = delete_leaf_ok [OF ok l(1) b(2)]
    define g1 where "g1 = set_leaf h key (without key kvs) g"
    obtain g' h' t' where r: "rebalance_after_delete pid (gpath h key g []) (put_page_with_lsn t pid b) = Some (Inr (), t')"
      "btree_ok kl vl h' g' t'" "entries g' = entries g1" "h' \<le> h" "next_page_id t' = next_page_id t"
      "lacking (fill kl vl 0) h key g1 \<longrightarrow> occupied (fill kl vl 0 + 1) h' g'"
      using rebalance_whole [OF d(1) sz d(3)] unfolding d(4) g1_def by auto
    have "delete_key key t = Some (Inr True, t')"
      using run hit True b(1) r(1) leaf_lower_bound_eq [OF v l(2), of key] by (simp add: bt_monad) (simp add: bt_bind_def bt_return_def)
    moreover have "occupied (fill kl vl 0 + 1) h' g'" if "occupied (fill kl vl 0 + 1) h g"
    proof (cases "h = 0")
      case True
      then show ?thesis using r(4) by (simp add: occupied_def)
    next
      case False
      then have "filled (fill kl vl 0) g" using that by (auto simp: occupied_def Suc_le_eq)
      then show ?thesis using r(6) set_leaf_lacking [OF o(1) l(1)] by (simp add: g1_def)
    qed
    ultimately show ?thesis
      using r d(2) True mem unfolding g1_def by auto
  qed
qed

section \<open>The tree as an ordered store\<close>

text \<open>Record sizes for which every page operation of the tree succeeds.\<close>

definition layout_ok :: "nat \<Rightarrow> nat \<Rightarrow> bool" where
  "layout_ok kl vl \<longleftrightarrow> sizes_ok kl vl \<and> merge_ok kl vl"

text \<open>Every leaf but a root holds more than the minimum fill, so this many entries keep one level of
  branches from overflowing.\<close>

definition capacity :: "nat \<Rightarrow> nat \<Rightarrow> nat" where
  "capacity kl vl = (min_fill (kl + vl + 2) + 1) * branch_cap kl"

definition admits :: "nat \<Rightarrow> nat \<Rightarrow> (bytes \<times> bytes) list \<Rightarrow> bool" where
  "admits kl vl es \<longleftrightarrow> branch_safe kl \<or> length es \<le> capacity kl vl"

text \<open>The tree stores the entries \<open>es\<close>, and \<open>n\<close> further insertions cannot exhaust the page ids.\<close>

definition stores :: "nat \<Rightarrow> nat \<Rightarrow> nat \<Rightarrow> (bytes \<times> bytes) list \<Rightarrow> btree \<Rightarrow> bool" where
  "stores kl vl n es t \<longleftrightarrow> (\<exists>h g. btree_ok kl vl h g t \<and> occupied (fill kl vl 0 + 1) h g \<and> entries g = es \<and>
     unat (next_page_id t) + n * (h + n + 2) < 2 ^ 64)"

lemma storesI:
  "btree_ok kl vl h g t \<Longrightarrow> occupied (fill kl vl 0 + 1) h g \<Longrightarrow> unat (next_page_id t) + n * (h + n + 2) < 2 ^ 64 \<Longrightarrow>
    stores kl vl n (entries g) t"
  by (auto simp: stores_def)

lemma fill_half: "merge_ok kl vl \<Longrightarrow> fill kl vl 0 + 1 \<le> half_full kl vl"
  by (simp add: merge_ok_def fill_def half_full_def) linarith

lemma budget_step:
  assumes "next + Suc n * (h + Suc n + 2) < (b :: nat)" "next' \<le> next + h + 2" "h' \<le> h + 1"
  shows "next' + n * (h' + n + 2) < b" "next + h + 2 < b"
proof -
  have "n * (h' + n + 2) \<le> n * (h + Suc n + 2)"
    using assms(3) by (intro mult_le_mono2) simp
  moreover have "Suc n * (h + Suc n + 2) = (h + Suc n + 2) + n * (h + Suc n + 2)" by simp
  ultimately show "next' + n * (h' + n + 2) < b" "next + h + 2 < b"
    using assms by linarith+
qed

lemma stores_new: "sizes_ok kl vl \<Longrightarrow> n < 2 ^ 31 \<Longrightarrow> stores kl vl n [] btree_new"
proof -
  assume a: "sizes_ok kl vl" "n < 2 ^ 31"
  have "n * (n + 2) \<le> 2 ^ 31 * (2 ^ 31 + 2)"
    using a(2) by (intro mult_le_mono) auto
  moreover have "unat (next_page_id btree_new) = 2"
    by (simp add: btree_new_def)
  ultimately have "unat (next_page_id btree_new) + n * (0 + n + 2) < 2 ^ 64"
    by simp
  then have "stores kl vl n (entries (GLeaf 1 0 [])) btree_new"
    by (intro storesI [OF btree_ok_new [OF a(1)]]) (simp_all add: occupied_def)
  then show ?thesis by simp
qed

lemma stores_mono: "stores kl vl n es t \<Longrightarrow> m \<le> n \<Longrightarrow> stores kl vl m es t"
proof -
  assume "stores kl vl n es t" and m: "m \<le> n"
  then obtain h g where g: "btree_ok kl vl h g t" "occupied (fill kl vl 0 + 1) h g" "entries g = es"
    "unat (next_page_id t) + n * (h + n + 2) < 2 ^ 64"
    by (auto simp: stores_def)
  have "m * (h + m + 2) \<le> n * (h + n + 2)" using m by (intro mult_le_mono) simp_all
  then have "unat (next_page_id t) + m * (h + m + 2) < 2 ^ 64" using g(4) by linarith
  then show ?thesis using storesI [OF g(1,2)] g(3) by blast
qed

lemma stores_sorted: "stores kl vl n es t \<Longrightarrow> sorted_kvs es \<and> uniform kl vl es"
proof -
  assume "stores kl vl n es t"
  then obtain h g where g: "gwf kl vl h [] None g" "entries g = es" by (auto simp: stores_def btree_ok_def)
  then show ?thesis using gwf_ranged [OF g(1)] gwf_uniform [OF g(1)] by (simp add: ranged_def)
qed

lemma stores_put:
  assumes "stores kl vl (Suc n) es t" "layout_ok kl vl" "admits kl vl es" "length k = kl" "length v = vl"
  shows "\<exists>t'. bt_insert k v t = Some (Inr (), t') \<and> stores kl vl n (upsert k v es) t'"
proof -
  have sz: "sizes_ok kl vl" "merge_ok kl vl" using assms(2) by (simp_all add: layout_ok_def)
  obtain h g where g: "btree_ok kl vl h g t" "occupied (fill kl vl 0 + 1) h g" "entries g = es"
    "unat (next_page_id t) + Suc n * (h + Suc n + 2) < 2 ^ 64"
    using assms(1) unfolding stores_def by blast
  have "branch_safe kl \<or> roomy kl h g"
    using assms(3) roomy_occupied [OF _ g(2)] g(1,3) by (auto simp: admits_def capacity_def btree_ok_def fill_def)
  then obtain g' h' t' where r: "bt_insert k v t = Some (Inr (), t')" "btree_ok kl vl h' g' t'" "entries g' = upsert k v es"
    "h' \<le> h + 1" "unat (next_page_id t') \<le> unat (next_page_id t) + h + 2" "occupied (fill kl vl 0 + 1) h' g'"
    using bt_insert_spec [OF g(1) assms(4,5) sz(1) _ budget_step(2) [OF g(4) order_refl order_refl]] g(2,3) fill_half [OF sz(2)]
    by auto
  show ?thesis
    using r(1) storesI [OF r(2,6) budget_step(1) [OF g(4) r(5,4)]] unfolding r(3) by blast
qed

lemma stores_remove:
  assumes "stores kl vl n es t" "layout_ok kl vl"
  shows "\<exists>t'. delete_key k t = Some (Inr (k \<in> fst ` set es), t') \<and> stores kl vl n (without k es) t'"
proof -
  have sz: "sizes_ok kl vl" "merge_ok kl vl" using assms(2) by (simp_all add: layout_ok_def)
  obtain h g where g: "btree_ok kl vl h g t" "occupied (fill kl vl 0 + 1) h g" "entries g = es"
    "unat (next_page_id t) + n * (h + n + 2) < 2 ^ 64"
    using assms(1) unfolding stores_def by blast
  obtain g' h' t' where r: "delete_key k t = Some (Inr (k \<in> fst ` set es), t')" "btree_ok kl vl h' g' t'" "entries g' = without k es"
    "h' \<le> h" "next_page_id t' = next_page_id t" "occupied (fill kl vl 0 + 1) h' g'"
    using delete_key_spec [OF g(1) sz, of k] g(2,3) by auto
  have "n * (h' + n + 2) \<le> n * (h + n + 2)" using r(4) by (intro mult_le_mono2) simp
  then have "unat (next_page_id t') + n * (h' + n + 2) < 2 ^ 64" using g(4) unfolding r(5) by linarith
  then show ?thesis using r(1) storesI [OF r(2,6)] unfolding r(3) by blast
qed

text \<open>The value a search points at.\<close>

definition stored_value :: "btree \<Rightarrow> bytes \<Rightarrow> bytes option option" where
  "stored_value t key =
     (case search t key of
        None \<Rightarrow> None
      | Some None \<Rightarrow> Some None
      | Some (Some (pid, slot)) \<Rightarrow> Some (case get_page t pid of None \<Rightarrow> None | Some page \<Rightarrow> leaf_value page slot))"

lemma stores_find: "stores kl vl n es t \<Longrightarrow> stored_value t key = Some (map_of es key)"
proof -
  assume "stores kl vl n es t"
  then obtain h g where g: "btree_ok kl vl h g t" "entries g = es" by (auto simp: stores_def)
  obtain r where r: "search t key = Some r" "case r of
       None \<Rightarrow> map_of (entries g) key = None
     | Some (pid, slot) \<Rightarrow> \<exists>b v. get_page t pid = Some b \<and> leaf_key b slot = Some key \<and> leaf_value b slot = Some v \<and>
         map_of (entries g) key = Some v"
    using search_spec [OF g(1), of key] by blast
  then show ?thesis
    using g(2) by (cases r) (auto simp: stored_value_def)
qed

lemma stores_range: "stores kl vl n es t \<Longrightarrow> range_search t start end_key = Some (filter (in_range start end_key) es)"
  unfolding stores_def using range_search_spec by blast

section \<open>Sequences of operations\<close>

datatype ('k, 'v) store_op = Put 'k 'v | Remove 'k

primrec op_map :: "('k, 'v) store_op \<Rightarrow> ('k \<rightharpoonup> 'v) \<Rightarrow> 'k \<rightharpoonup> 'v" where
  "op_map (Put k v) m = m(k \<mapsto> v)"
| "op_map (Remove k) m = m(k := None)"

primrec op_reply :: "('k, 'v) store_op \<Rightarrow> ('k \<rightharpoonup> 'v) \<Rightarrow> bool" where
  "op_reply (Put k v) m = True"
| "op_reply (Remove k) m = (k \<in> dom m)"

fun op_replies :: "('k, 'v) store_op list \<Rightarrow> ('k \<rightharpoonup> 'v) \<Rightarrow> bool list" where
  "op_replies [] m = []"
| "op_replies (x # xs) m = op_reply x m # op_replies xs (op_map x m)"

text \<open>Every operation fits the contents it meets.\<close>

fun ops_fit :: "(('k, 'v) store_op \<Rightarrow> ('k \<rightharpoonup> 'v) \<Rightarrow> bool) \<Rightarrow> ('k, 'v) store_op list \<Rightarrow> ('k \<rightharpoonup> 'v) \<Rightarrow> bool" where
  "ops_fit fit [] m = True"
| "ops_fit fit (x # xs) m = (fit x m \<and> ops_fit fit xs (op_map x m))"

primrec run_op :: "('k \<Rightarrow> 'v \<Rightarrow> 't \<Rightarrow> (('e + unit) \<times> 't) option) \<Rightarrow> ('k \<Rightarrow> 't \<Rightarrow> (('e + bool) \<times> 't) option) \<Rightarrow>
    ('k, 'v) store_op \<Rightarrow> 't \<Rightarrow> (('e + bool) \<times> 't) option" where
  "run_op put remove (Put k v) t = map_option (apfst (map_sum id (\<lambda>_. True))) (put k v t)"
| "run_op put remove (Remove k) t = remove k t"

text \<open>A sequence stops at its first panic or error.\<close>

fun run_ops :: "('k \<Rightarrow> 'v \<Rightarrow> 't \<Rightarrow> (('e + unit) \<times> 't) option) \<Rightarrow> ('k \<Rightarrow> 't \<Rightarrow> (('e + bool) \<times> 't) option) \<Rightarrow>
    ('k, 'v) store_op list \<Rightarrow> 't \<Rightarrow> (('e + bool list) \<times> 't) option" where
  "run_ops put remove [] t = Some (Inr [], t)"
| "run_ops put remove (x # xs) t =
     (case run_op put remove x t of
        None \<Rightarrow> None
      | Some (Inl e, t) \<Rightarrow> Some (Inl e, t)
      | Some (Inr r, t) \<Rightarrow> map_option (apfst (map_sum id ((#) r))) (run_ops put remove xs t))"

text \<open>What a client of a store relies on: an insertion that fits succeeds, a removal always does and
  says whether the key was there; \<open>n\<close> further operations are possible.\<close>

locale map_store =
  fixes fit :: "('k, 'v) store_op \<Rightarrow> ('k \<rightharpoonup> 'v) \<Rightarrow> bool"
    and holds :: "nat \<Rightarrow> ('k \<rightharpoonup> 'v) \<Rightarrow> 't \<Rightarrow> bool"
    and put :: "'k \<Rightarrow> 'v \<Rightarrow> 't \<Rightarrow> (('e + unit) \<times> 't) option"
    and remove :: "'k \<Rightarrow> 't \<Rightarrow> (('e + bool) \<times> 't) option"
  assumes fewer: "holds n m t \<Longrightarrow> n' \<le> n \<Longrightarrow> holds n' m t"
    and put_law: "holds (Suc n) m t \<Longrightarrow> fit (Put k v) m \<Longrightarrow> \<exists>t'. put k v t = Some (Inr (), t') \<and> holds n (m(k \<mapsto> v)) t'"
    and remove_law: "holds n m t \<Longrightarrow> \<exists>t'. remove k t = Some (Inr (k \<in> dom m), t') \<and> holds n (m(k := None)) t'"
begin

lemma run_op_law:
  assumes "holds (Suc n) m t" "fit x m"
  shows "\<exists>t'. run_op put remove x t = Some (Inr (op_reply x m), t') \<and> holds n (op_map x m) t'"
proof (cases x)
  case (Put k v)
  then show ?thesis using put_law [OF assms(1), of k v] assms(2) by auto
next
  case (Remove k)
  then show ?thesis using remove_law [OF fewer [OF assms(1)], of n k] by simp
qed

lemma run_ops_law:
  assumes "holds n m t" "length ops \<le> n" "ops_fit fit ops m"
  shows "\<exists>t'. run_ops put remove ops t = Some (Inr (op_replies ops m), t') \<and> holds 0 (fold op_map ops m) t'"
  using assms
proof (induction ops arbitrary: n m t)
  case Nil
  then show ?case using fewer [of n m t 0] by simp
next
  case (Cons x xs)
  then obtain n' where n: "n = Suc n'" by (cases n) auto
  obtain t1 where t1: "run_op put remove x t = Some (Inr (op_reply x m), t1)" "holds n' (op_map x m) t1"
    using run_op_law [of n' m t x] Cons.prems n by auto
  then show ?case using Cons.IH [OF t1(2)] Cons.prems n by auto
qed

end

text \<open>A store over byte strings that also reads: single values, and ranges in key order.\<close>

locale ordered_store = map_store fit holds put remove
  for fit :: "(bytes, bytes) store_op \<Rightarrow> (bytes \<rightharpoonup> bytes) \<Rightarrow> bool"
    and holds :: "nat \<Rightarrow> (bytes \<rightharpoonup> bytes) \<Rightarrow> 't \<Rightarrow> bool"
    and put :: "bytes \<Rightarrow> bytes \<Rightarrow> 't \<Rightarrow> (('e + unit) \<times> 't) option"
    and remove :: "bytes \<Rightarrow> 't \<Rightarrow> (('e + bool) \<times> 't) option" +
  fixes find :: "'t \<Rightarrow> bytes \<Rightarrow> bytes option option"
    and range :: "'t \<Rightarrow> bytes \<Rightarrow> bytes \<Rightarrow> (bytes \<times> bytes) list option"
  assumes find_law: "holds n m t \<Longrightarrow> find t k = Some (m k)"
    and range_law: "holds n m t \<Longrightarrow> \<exists>xs. range t a b = Some xs \<and> sorted_kvs xs \<and> map_of xs = m |` {k. a \<le> k \<and> k < b}"
begin

lemma refines_map:
  assumes "holds n m t" "length ops \<le> n" "ops_fit fit ops m"
  shows "\<exists>t'. run_ops put remove ops t = Some (Inr (op_replies ops m), t') \<and>
    (\<forall>key. find t' key = Some (fold op_map ops m key)) \<and>
    (\<forall>a b. \<exists>xs. range t' a b = Some xs \<and> sorted_kvs xs \<and> map_of xs = fold op_map ops m |` {k. a \<le> k \<and> k < b})"
  using run_ops_law [OF assms] find_law range_law by blast

end

text \<open>The B+ tree is such a store.\<close>

definition room :: "nat \<Rightarrow> nat \<Rightarrow> ('k \<rightharpoonup> 'v) \<Rightarrow> bool" where
  "room kl vl m \<longleftrightarrow> branch_safe kl \<or> card (dom m) \<le> capacity kl vl"

primrec tree_fit :: "nat \<Rightarrow> nat \<Rightarrow> (bytes, bytes) store_op \<Rightarrow> (bytes \<rightharpoonup> bytes) \<Rightarrow> bool" where
  "tree_fit kl vl (Put k v) m = (length k = kl \<and> length v = vl \<and> room kl vl m)"
| "tree_fit kl vl (Remove k) m = True"

definition tree_holds :: "nat \<Rightarrow> nat \<Rightarrow> nat \<Rightarrow> (bytes \<rightharpoonup> bytes) \<Rightarrow> btree \<Rightarrow> bool" where
  "tree_holds kl vl n m t \<longleftrightarrow> layout_ok kl vl \<and> (\<exists>es. stores kl vl n es t \<and> map_of es = m)"

lemma map_of_without: "map_of (without k es) = (map_of es)(k := None)"
  by (induction es) auto

lemma map_of_filter_sorted:
  "sorted_kvs es \<Longrightarrow> map_of (filter (in_range a b) es) = map_of es |` {k. a \<le> k \<and> k < b}"
  by (induction es) (auto simp: in_range_def restrict_map_def fun_eq_iff map_of_eq_None_iff split: if_splits)

lemma room_admits: "sorted_kvs es \<Longrightarrow> room kl vl (map_of es) \<longleftrightarrow> admits kl vl es"
  using distinct_card [OF sorted_kvs_distinct, of es] by (simp add: room_def admits_def dom_map_of_conv_image_fst)

lemma tree_holdsE:
  assumes "tree_holds kl vl n m t"
  obtains es where "layout_ok kl vl" "stores kl vl n es t" "map_of es = m" "sorted_kvs es"
  using assms stores_sorted [of kl vl n _ t] unfolding tree_holds_def by blast

interpretation bplus: ordered_store "tree_fit kl vl" "tree_holds kl vl" bt_insert delete_key stored_value range_search
  for kl vl
proof (unfold_locales, goal_cases)
  case (1 n m t n')
  then show ?case using stores_mono [of kl vl n _ t n'] unfolding tree_holds_def by blast
next
  case (2 n m t k v)
  then obtain es where es: "layout_ok kl vl" "stores kl vl (Suc n) es t" "map_of es = m" "sorted_kvs es"
    by (elim tree_holdsE)
  then show ?case
    using stores_put [OF es(2,1), of k v] 2(2) map_of_upsert [OF es(4), of k v] room_admits [OF es(4), of kl vl]
    by (auto simp: tree_holds_def)
next
  case (3 n m t k)
  then obtain es where es: "layout_ok kl vl" "stores kl vl n es t" "map_of es = m" by (elim tree_holdsE)
  then show ?case
    using stores_remove [OF es(2,1), of k] map_of_without [of k es] by (auto simp: tree_holds_def dom_map_of_conv_image_fst)
next
  case (4 n m t k)
  then show ?case using stores_find by (auto elim: tree_holdsE)
next
  case (5 n m t a b)
  then obtain es where es: "stores kl vl n es t" "map_of es = m" "sorted_kvs es" by (elim tree_holdsE)
  have "sorted_kvs (filter (in_range a b) es)"
    using es(3) by (simp add: sorted_wrt_map sorted_wrt_filter)
  then show ?case using stores_range [OF es(1), of a b] map_of_filter_sorted [OF es(3), of a b] es(2) by simp
qed

lemma tree_holds_new: "layout_ok kl vl \<Longrightarrow> n < 2 ^ 31 \<Longrightarrow> tree_holds kl vl n Map.empty btree_new"
  using stores_new [of kl vl n] by (auto simp: tree_holds_def layout_ok_def)

lemma insert_batch_ops:
  "insert_batch kvs t = map_option (apfst (map_sum id (\<lambda>_. ()))) (run_ops bt_insert delete_key (map (\<lambda>(k, v). Put k v) kvs) t)"
proof (induction kvs arbitrary: t)
  case (Cons kv kvs)
  obtain k v where kv: "kv = (k, v)" by (cases kv)
  show ?case
  proof (cases "bt_insert k v t")
    case (Some r)
    obtain x t' where r: "r = (x, t')" by (cases r)
    show ?thesis
      using Some r by (cases x) (simp_all add: kv bt_bind_def bt_insert_def [symmetric] Cons.IH option.map_comp o_def apfst_def
        map_prod_def split_def sum.map_comp sum.map_id0)
  qed (simp add: kv bt_bind_def bt_insert_def [symmetric])
qed (simp add: bt_return_def)

text \<open>C2. The B+ tree refines a map: from an empty tree, any sequence of fewer than 2^31 insertions
  and deletions returns without a panic or an error, each deletion reports whether the key was
  there, a search then finds exactly the value of the map's entry, and a range search returns the
  entries of the map in that range in key order. The records have one size for which pages can be
  merged, and the tree holds at most its capacity whenever it grows (or keys have a length for which
  branches cannot overflow).\<close>

theorem btree_refines_map:
  assumes "layout_ok kl vl" "length ops < 2 ^ 31" "ops_fit (tree_fit kl vl) ops Map.empty"
  shows "\<exists>t. run_ops bt_insert delete_key ops btree_new = Some (Inr (op_replies ops Map.empty), t) \<and>
    (\<forall>key. stored_value t key = Some (fold op_map ops Map.empty key)) \<and>
    (\<forall>a b. \<exists>xs. range_search t a b = Some xs \<and> sorted_kvs xs \<and>
       map_of xs = fold op_map ops Map.empty |` {k. a \<le> k \<and> k < b})"
  by (rule bplus.refines_map [OF tree_holds_new [OF assms(1,2)] order_refl assms(3)])

theorem btree_refines_map_witness:
  "\<exists>t. run_ops bt_insert delete_key [Put (replicate 24 1) [1, 2, 3, 4], Put (replicate 24 2) [5, 6, 7, 8], Remove (replicate 24 1)] btree_new
      = Some (Inr [True, True, True], t) \<and>
    stored_value t (replicate 24 1) = Some None \<and> stored_value t (replicate 24 2) = Some (Some [5, 6, 7, 8])"
proof -
  define k1 k2 :: bytes where "k1 = replicate 24 1" and "k2 = replicate 24 2"
  have k: "length k1 = 24" "length k2 = 24" "k1 \<noteq> k2"
    unfolding k1_def k2_def by (code_simp, code_simp, code_simp)
  let ?ops = "[Put k1 [1, 2, 3, 4], Put k2 [5, 6, 7, 8], Remove k1]"
  have l: "layout_ok 24 4"
    by (simp add: layout_ok_def sizes_ok_def merge_ok_def min_fill_def leaf_cap_def branch_cap_def)
  have f: "ops_fit (tree_fit 24 4) ?ops Map.empty"
    using k by (simp add: room_def capacity_def min_fill_def branch_cap_def)
  have r: "op_replies ?ops Map.empty = [True, True, True]"
    using k by simp
  have m: "fold op_map ?ops Map.empty = [k2 \<mapsto> [5, 6, 7, 8]]"
    using k by (auto simp: fun_eq_iff)
  show ?thesis
    using btree_refines_map [OF l _ f] k(3) unfolding r m k1_def [symmetric] k2_def [symmetric] by fastforce
qed

text \<open>C22. Occupancy: after any such sequence the pages form a B+ tree in which the leaves, unless the
  root is the only page, hold more than the minimum fill of the code's own test, so that no leaf
  reads as underfull.\<close>

theorem btree_leaves_filled:
  assumes "layout_ok kl vl" "length ops < 2 ^ 31" "ops_fit (tree_fit kl vl) ops Map.empty"
  shows "\<exists>t h g. run_ops bt_insert delete_key ops btree_new = Some (Inr (op_replies ops Map.empty), t) \<and> btree_ok kl vl h g t \<and>
    (h \<noteq> 0 \<longrightarrow> (\<forall>l \<in> set (gleaves g). \<exists>page. get_page t (fst l) = Some page \<and> \<not> is_underfull page))"
proof -
  obtain t where t: "run_ops bt_insert delete_key ops btree_new = Some (Inr (op_replies ops Map.empty), t)"
    "tree_holds kl vl 0 (fold op_map ops Map.empty) t"
    using bplus.run_ops_law [OF tree_holds_new [OF assms(1,2)] order_refl assms(3)] by blast
  then obtain h g where g: "btree_ok kl vl h g t" "occupied (fill kl vl 0 + 1) h g"
    by (auto simp: stores_def tree_holds_def)
  have "\<exists>page. get_page t (fst l) = Some page \<and> \<not> is_underfull page" if a: "h \<noteq> 0" "l \<in> set (gleaves g)" for l
  proof -
    obtain pid nxt kvs where l: "l = (pid, nxt, kvs)" by (cases l)
    obtain page where page: "bt_pages t pid = Some page" "leaf_view page pid nxt kvs"
      using rep_leaf [of "bt_pages t" g pid nxt kvs] g(1) a(2) by (auto simp: l btree_ok_def)
    have "gwf kl vl h [] None g" using g(1) by (simp add: btree_ok_def)
    then have u: "uniform kl vl kvs"
      by (rule uniform_subset [OF gwf_uniform]) (use a(2) in \<open>auto simp: l entries_gleaves\<close>)
    have "min_fill (kl + vl + 2) + 1 \<le> length kvs"
      using g(2) a by (auto simp: l occupied_def fill_def)
    then have "\<not> is_underfull page"
      using fill_leaf(1) [OF page(2) u] by simp
    then show ?thesis using page(1) by (simp add: l get_page_def)
  qed
  then show ?thesis using t(1) g(1) by blast
qed

theorem btree_leaves_filled_witness:
  "\<exists>t h g. run_ops bt_insert delete_key [Put (replicate 24 1) [1, 2, 3, 4], Remove (replicate 24 1)] btree_new
      = Some (Inr [True, True], t) \<and> btree_ok 24 4 h g t"
proof -
  define k1 :: bytes where "k1 = replicate 24 1"
  have k: "length k1 = 24" unfolding k1_def by code_simp
  have l: "layout_ok 24 4"
    by (simp add: layout_ok_def sizes_ok_def merge_ok_def min_fill_def leaf_cap_def branch_cap_def)
  have f: "ops_fit (tree_fit 24 4) [Put k1 [1, 2, 3, 4], Remove k1] Map.empty"
    using k by (simp add: room_def)
  show ?thesis
    using btree_leaves_filled [OF l _ f] unfolding k1_def [symmetric] by fastforce
qed

end
