(* ===== verification/GraphRecord.thy ===== *)
theory GraphRecord
  imports IndexKey
begin

text \<open>
  The record formats of \<open>src/src/graph/record.rs\<close>: packed slot references, the version header in
  front of versioned records, the fixed-size node and edge records, and the variable-length property
  records with their header and the handle of an overflow chain. The \<open>#[repr(C)]\<close> structs are their
  fields in order, little-endian, without padding bytes of the compiler; a \<open>String\<close> is its UTF-8
  bytes. The locale \<open>struct_image\<close> is what the fixed-size formats promise: a bijection between the
  values and the byte strings of one length.
\<close>

section \<open>Definitions\<close>

subsection \<open>Slot references\<close>

datatype slot_ref = SlotRef (slot_raw: u32)

definition slot_null :: slot_ref where
  "slot_null = SlotRef 0"

definition MAX_PAGE_ID :: u32 where
  "MAX_PAGE_ID = 0x00FFFFFF"

definition slot_new :: "u32 \<Rightarrow> u8 \<Rightarrow> slot_ref" where
  "slot_new page_id slot_index = SlotRef (push_bit 8 page_id OR ucast slot_index)"

definition slot_page_id :: "slot_ref \<Rightarrow> u32" where
  "slot_page_id s = drop_bit 8 (slot_raw s)"

definition slot_index_of :: "slot_ref \<Rightarrow> u8" where
  "slot_index_of s = ucast (slot_raw s AND 0xFF)"

definition slot_is_null :: "slot_ref \<Rightarrow> bool" where
  "slot_is_null s \<longleftrightarrow> slot_raw s = 0"

subsection \<open>Version headers\<close>

record version_header =
  vh_xmin :: u64
  vh_xmax :: u64
  vh_next_version :: slot_ref
  vh_flags :: u16
  vh_pad :: u16

definition VERSION_HEADER_SIZE :: nat where
  "VERSION_HEADER_SIZE = 24"

definition vh_live :: "u64 \<Rightarrow> version_header" where
  "vh_live xmin = \<lparr>vh_xmin = xmin, vh_xmax = 0, vh_next_version = slot_null, vh_flags = 0, vh_pad = 0\<rparr>"

definition vh_is_deleted :: "version_header \<Rightarrow> bool" where
  "vh_is_deleted h \<longleftrightarrow> vh_xmax h \<noteq> 0"

definition vh_bytes :: "version_header \<Rightarrow> bytes" where
  "vh_bytes h = to_le_bytes (vh_xmin h) @ to_le_bytes (vh_xmax h) @ to_le_bytes (slot_raw (vh_next_version h)) @
     to_le_bytes (vh_flags h) @ to_le_bytes (vh_pad h)"

text \<open>\<open>encode\<close> panics (\<open>None\<close>) unless the output buffer has the size of the struct.\<close>

definition vh_encode :: "version_header \<Rightarrow> bytes \<Rightarrow> bytes option" where
  "vh_encode h out = (if length out \<noteq> VERSION_HEADER_SIZE then None else Some (vh_bytes h))"

definition vh_decode :: "bytes \<Rightarrow> version_header option" where
  "vh_decode bs =
     (if length bs < VERSION_HEADER_SIZE then None
      else Some \<lparr>vh_xmin = from_le_bytes (slice bs 0 8), vh_xmax = from_le_bytes (slice bs 8 8),
                 vh_next_version = SlotRef (from_le_bytes (slice bs 16 4)), vh_flags = from_le_bytes (slice bs 20 2),
                 vh_pad = from_le_bytes (slice bs 22 2)\<rparr>)"

definition encode_versioned :: "version_header \<Rightarrow> bytes \<Rightarrow> bytes option" where
  "encode_versioned header entity =
     (let out = replicate (VERSION_HEADER_SIZE + length entity) 0 in
      map_option (\<lambda>h. splice (splice out 0 h) VERSION_HEADER_SIZE entity)
        (vh_encode header (slice out 0 VERSION_HEADER_SIZE)))"

definition split_versioned :: "bytes \<Rightarrow> (version_header \<times> bytes) option" where
  "split_versioned slot = map_option (\<lambda>header. (header, drop VERSION_HEADER_SIZE slot)) (vh_decode slot)"

subsection \<open>Node records\<close>

record node_record =
  nr_node_id :: u64
  nr_label_id :: u32
  first_outgoing_edge :: slot_ref
  first_incoming_edge :: slot_ref
  nr_first_property :: slot_ref
  nr_flags :: u16
  nr_generation :: u16
  nr_pad :: u32

definition node_new :: "u64 \<Rightarrow> u32 \<Rightarrow> node_record" where
  "node_new node_id label_id =
     \<lparr>nr_node_id = node_id, nr_label_id = label_id, first_outgoing_edge = slot_null, first_incoming_edge = slot_null,
      nr_first_property = slot_null, nr_flags = 0, nr_generation = 0, nr_pad = 0\<rparr>"

definition NODE_RECORD_SIZE :: nat where
  "NODE_RECORD_SIZE = 32"

definition node_bytes :: "node_record \<Rightarrow> bytes" where
  "node_bytes r = to_le_bytes (nr_node_id r) @ to_le_bytes (nr_label_id r) @ to_le_bytes (slot_raw (first_outgoing_edge r)) @
     to_le_bytes (slot_raw (first_incoming_edge r)) @ to_le_bytes (slot_raw (nr_first_property r)) @
     to_le_bytes (nr_flags r) @ to_le_bytes (nr_generation r) @ to_le_bytes (nr_pad r)"

definition node_encode :: "node_record \<Rightarrow> bytes \<Rightarrow> bytes option" where
  "node_encode r out = (if length out \<noteq> NODE_RECORD_SIZE then None else Some (node_bytes r))"

definition node_decode :: "bytes \<Rightarrow> node_record option" where
  "node_decode bs =
     (if length bs \<noteq> NODE_RECORD_SIZE then None
      else Some \<lparr>nr_node_id = from_le_bytes (slice bs 0 8), nr_label_id = from_le_bytes (slice bs 8 4),
                 first_outgoing_edge = SlotRef (from_le_bytes (slice bs 12 4)),
                 first_incoming_edge = SlotRef (from_le_bytes (slice bs 16 4)),
                 nr_first_property = SlotRef (from_le_bytes (slice bs 20 4)), nr_flags = from_le_bytes (slice bs 24 2),
                 nr_generation = from_le_bytes (slice bs 26 2), nr_pad = from_le_bytes (slice bs 28 4)\<rparr>)"

definition NODE_DELETED :: u16 where
  "NODE_DELETED = 0x0001"

definition NODE_HAS_OVERFLOW :: u16 where
  "NODE_HAS_OVERFLOW = 0x0002"

subsection \<open>Edge records\<close>

record edge_record =
  er_edge_id :: u64
  er_source_id :: u64
  er_target_id :: u64
  er_type_id :: u32
  source_node :: slot_ref
  target_node :: slot_ref
  prev_source_edge :: slot_ref
  next_source_edge :: slot_ref
  prev_target_edge :: slot_ref
  next_target_edge :: slot_ref
  er_first_property :: slot_ref
  er_flags :: u16
  er_generation :: u16
  er_pad :: u32

definition edge_new :: "u64 \<Rightarrow> u32 \<Rightarrow> u64 \<Rightarrow> u64 \<Rightarrow> slot_ref \<Rightarrow> slot_ref \<Rightarrow> edge_record" where
  "edge_new edge_id type_id source_id target_id source target =
     \<lparr>er_edge_id = edge_id, er_source_id = source_id, er_target_id = target_id, er_type_id = type_id,
      source_node = source, target_node = target, prev_source_edge = slot_null, next_source_edge = slot_null,
      prev_target_edge = slot_null, next_target_edge = slot_null, er_first_property = slot_null,
      er_flags = 0, er_generation = 0, er_pad = 0\<rparr>"

definition EDGE_RECORD_SIZE :: nat where
  "EDGE_RECORD_SIZE = 64"

definition edge_bytes :: "edge_record \<Rightarrow> bytes" where
  "edge_bytes r = to_le_bytes (er_edge_id r) @ to_le_bytes (er_source_id r) @ to_le_bytes (er_target_id r) @
     to_le_bytes (er_type_id r) @ to_le_bytes (slot_raw (source_node r)) @ to_le_bytes (slot_raw (target_node r)) @
     to_le_bytes (slot_raw (prev_source_edge r)) @ to_le_bytes (slot_raw (next_source_edge r)) @
     to_le_bytes (slot_raw (prev_target_edge r)) @ to_le_bytes (slot_raw (next_target_edge r)) @
     to_le_bytes (slot_raw (er_first_property r)) @ to_le_bytes (er_flags r) @ to_le_bytes (er_generation r) @
     to_le_bytes (er_pad r)"

definition edge_encode :: "edge_record \<Rightarrow> bytes \<Rightarrow> bytes option" where
  "edge_encode r out = (if length out \<noteq> EDGE_RECORD_SIZE then None else Some (edge_bytes r))"

definition edge_decode :: "bytes \<Rightarrow> edge_record option" where
  "edge_decode bs =
     (if length bs \<noteq> EDGE_RECORD_SIZE then None
      else Some \<lparr>er_edge_id = from_le_bytes (slice bs 0 8), er_source_id = from_le_bytes (slice bs 8 8),
                 er_target_id = from_le_bytes (slice bs 16 8), er_type_id = from_le_bytes (slice bs 24 4),
                 source_node = SlotRef (from_le_bytes (slice bs 28 4)), target_node = SlotRef (from_le_bytes (slice bs 32 4)),
                 prev_source_edge = SlotRef (from_le_bytes (slice bs 36 4)), next_source_edge = SlotRef (from_le_bytes (slice bs 40 4)),
                 prev_target_edge = SlotRef (from_le_bytes (slice bs 44 4)), next_target_edge = SlotRef (from_le_bytes (slice bs 48 4)),
                 er_first_property = SlotRef (from_le_bytes (slice bs 52 4)), er_flags = from_le_bytes (slice bs 56 2),
                 er_generation = from_le_bytes (slice bs 58 2), er_pad = from_le_bytes (slice bs 60 4)\<rparr>)"

definition EDGE_DELETED :: u16 where
  "EDGE_DELETED = 0x0001"

definition EDGE_HAS_OVERFLOW :: u16 where
  "EDGE_HAS_OVERFLOW = 0x0002"

subsection \<open>Property records\<close>

fun value_type_byte :: "value_type \<Rightarrow> u8" where
  "value_type_byte TNull = 0x00"
| "value_type_byte TBool = 0x01"
| "value_type_byte TInt64 = 0x02"
| "value_type_byte TFloat64 = 0x03"
| "value_type_byte TString = 0x04"
| "value_type_byte TList = 0x05"
| "value_type_byte TMap = 0x06"

definition value_type_from_u8 :: "u8 \<Rightarrow> value_type option" where
  "value_type_from_u8 v =
     (if v = 0x00 then Some TNull
      else if v = 0x01 then Some TBool
      else if v = 0x02 then Some TInt64
      else if v = 0x03 then Some TFloat64
      else if v = 0x04 then Some TString
      else if v = 0x05 then Some TList
      else if v = 0x06 then Some TMap
      else None)"

definition MAX_INLINE_PROPERTY_LEN :: nat where
  "MAX_INLINE_PROPERTY_LEN = 256"

record property_header =
  property_key_id :: u32
  value_length :: u16
  ph_value_type :: u8
  ph_pad :: u8

definition PROPERTY_HEADER_SIZE :: nat where
  "PROPERTY_HEADER_SIZE = 8"

definition property_header_new :: "u32 \<Rightarrow> value_type \<Rightarrow> u16 \<Rightarrow> property_header" where
  "property_header_new key_id vt vl =
     \<lparr>property_key_id = key_id, value_length = vl, ph_value_type = value_type_byte vt, ph_pad = 0\<rparr>"

definition ph_bytes :: "property_header \<Rightarrow> bytes" where
  "ph_bytes h = to_le_bytes (property_key_id h) @ to_le_bytes (value_length h) @ [ph_value_type h, ph_pad h]"

definition ph_encode :: "property_header \<Rightarrow> bytes \<Rightarrow> bytes option" where
  "ph_encode h out = (if length out \<noteq> PROPERTY_HEADER_SIZE then None else Some (ph_bytes h))"

definition ph_decode :: "bytes \<Rightarrow> property_header option" where
  "ph_decode bs =
     (if length bs \<noteq> PROPERTY_HEADER_SIZE then None
      else Some \<lparr>property_key_id = from_le_bytes (slice bs 0 4), value_length = from_le_bytes (slice bs 4 2),
                 ph_value_type = bs ! 6, ph_pad = bs ! 7\<rparr>)"

record overflow_handle =
  oh_page_id :: u32
  oh_offset :: u16
  oh_pad :: u16

definition OVERFLOW_HANDLE_SIZE :: nat where
  "OVERFLOW_HANDLE_SIZE = 8"

definition overflow_handle_new :: "u32 \<Rightarrow> u16 \<Rightarrow> overflow_handle" where
  "overflow_handle_new pid off = \<lparr>oh_page_id = pid, oh_offset = off, oh_pad = 0\<rparr>"

definition oh_bytes :: "overflow_handle \<Rightarrow> bytes" where
  "oh_bytes h = to_le_bytes (oh_page_id h) @ to_le_bytes (oh_offset h) @ to_le_bytes (oh_pad h)"

definition oh_encode :: "overflow_handle \<Rightarrow> bytes \<Rightarrow> bytes option" where
  "oh_encode h out = (if length out \<noteq> OVERFLOW_HANDLE_SIZE then None else Some (oh_bytes h))"

definition oh_decode :: "bytes \<Rightarrow> overflow_handle option" where
  "oh_decode bs =
     (if length bs \<noteq> OVERFLOW_HANDLE_SIZE then None
      else Some \<lparr>oh_page_id = from_le_bytes (slice bs 0 4), oh_offset = from_le_bytes (slice bs 4 2),
                 oh_pad = from_le_bytes (slice bs 6 2)\<rparr>)"

record property_record =
  pr_header :: property_header
  next_property :: slot_ref
  property_name :: bytes
  pr_payload :: bytes

definition property_inline :: "bytes \<Rightarrow> u32 \<Rightarrow> value_type \<Rightarrow> bytes \<Rightarrow> property_record option" where
  "property_inline name key_id vt payload =
     (if length payload > MAX_INLINE_PROPERTY_LEN then None
      else Some \<lparr>pr_header = property_header_new key_id vt 0, next_property = slot_null,
                 property_name = name, pr_payload = payload\<rparr>)"

definition property_overflow :: "bytes \<Rightarrow> u32 \<Rightarrow> value_type \<Rightarrow> overflow_handle \<Rightarrow> property_record option" where
  "property_overflow name key_id vt handle =
     map_option (\<lambda>payload. \<lparr>pr_header = property_header_new key_id vt 0, next_property = slot_null,
                            property_name = name, pr_payload = payload\<rparr>)
       (oh_encode handle (replicate OVERFLOW_HANDLE_SIZE 0))"

definition property_disk_size :: "property_record \<Rightarrow> nat" where
  "property_disk_size r = PROPERTY_HEADER_SIZE + 4 + 2 + length (property_name r) + length (pr_payload r)"

definition property_encode :: "property_record \<Rightarrow> bytes option" where
  "property_encode r =
     (let name_bytes = property_name r;
          total_len = 4 + 2 + length name_bytes + length (pr_payload r);
          header = (pr_header r)\<lparr>value_length := of_nat total_len\<rparr>
      in map_option (\<lambda>header_bytes.
           header_bytes @ to_be_bytes (slot_raw (next_property r)) @ to_be_bytes (of_nat (length name_bytes) :: u16) @
           name_bytes @ pr_payload r)
         (ph_encode header (replicate PROPERTY_HEADER_SIZE 0)))"

text \<open>\<open>String::from_utf8\<close> accepts the well-formed byte sequences of the Unicode standard.\<close>

definition utf8_cont :: "u8 \<Rightarrow> bool" where
  "utf8_cont b \<longleftrightarrow> 0x80 \<le> b \<and> b \<le> 0xBF"

fun utf8_ok :: "bytes \<Rightarrow> bool" where
  "utf8_ok [] = True"
| "utf8_ok (b # bs) =
     (if b < 0x80 then utf8_ok bs
      else if 0xC2 \<le> b \<and> b \<le> 0xDF then
        (case bs of c1 # rest \<Rightarrow> utf8_cont c1 \<and> utf8_ok rest | _ \<Rightarrow> False)
      else if 0xE0 \<le> b \<and> b \<le> 0xEF then
        (case bs of c1 # c2 # rest \<Rightarrow>
           (if b = 0xE0 then 0xA0 \<le> c1 \<and> c1 \<le> 0xBF else if b = 0xED then 0x80 \<le> c1 \<and> c1 \<le> 0x9F else utf8_cont c1) \<and>
           utf8_cont c2 \<and> utf8_ok rest
         | _ \<Rightarrow> False)
      else if 0xF0 \<le> b \<and> b \<le> 0xF4 then
        (case bs of c1 # c2 # c3 # rest \<Rightarrow>
           (if b = 0xF0 then 0x90 \<le> c1 \<and> c1 \<le> 0xBF else if b = 0xF4 then 0x80 \<le> c1 \<and> c1 \<le> 0x8F else utf8_cont c1) \<and>
           utf8_cont c2 \<and> utf8_cont c3 \<and> utf8_ok rest
         | _ \<Rightarrow> False)
      else False)"

definition property_decode :: "bytes \<Rightarrow> property_record option" where
  "property_decode bs =
     (if length bs < PROPERTY_HEADER_SIZE then None
      else case ph_decode (slice bs 0 PROPERTY_HEADER_SIZE) of
        None \<Rightarrow> None
      | Some header \<Rightarrow>
          (let total_len = unat (value_length header) in
           if total_len < 6 \<or> length bs < PROPERTY_HEADER_SIZE + total_len then None
           else let next_raw = from_be_bytes (slice bs PROPERTY_HEADER_SIZE 4);
                    name_len = unat (from_be_bytes (slice bs (PROPERTY_HEADER_SIZE + 4) 2) :: u16);
                    off = PROPERTY_HEADER_SIZE + 6 in
             if total_len < 6 + name_len then None
             else let name = slice bs off name_len in
               if \<not> utf8_ok name then None
               else Some \<lparr>pr_header = header, next_property = SlotRef next_raw, property_name = name,
                          pr_payload = slice bs (off + name_len) (PROPERTY_HEADER_SIZE + total_len - (off + name_len))\<rparr>))"

definition is_inline :: "property_record \<Rightarrow> bool" where
  "is_inline r \<longleftrightarrow> length (pr_payload r) \<le> MAX_INLINE_PROPERTY_LEN \<and>
     unat (value_length (pr_header r)) \<le> MAX_INLINE_PROPERTY_LEN + 6 + length (property_name r)"

definition overflow_handle_of :: "property_record \<Rightarrow> overflow_handle option" where
  "overflow_handle_of r =
     (if length (pr_payload r) \<noteq> OVERFLOW_HANDLE_SIZE then None else oh_decode (pr_payload r))"

section \<open>Slot references\<close>

lemma mask_24: "MAX_PAGE_ID = mask 24"
  by (simp add: MAX_PAGE_ID_def mask_eq_exp_minus_1)

lemma mask_8: "(0xFF :: u32) = mask 8"
  by (simp add: mask_eq_exp_minus_1)

lemma u8_bit: "bit (i :: u8) n \<Longrightarrow> n < 8"
  using bit_imp_le_length [of i n] by simp

lemma slot_page_id_new: "slot_page_id (slot_new p i) = p AND MAX_PAGE_ID"
  by (auto simp: slot_page_id_def slot_new_def mask_24 bit_eq_iff bit_simps dest: u8_bit)

lemma slot_index_new: "slot_index_of (slot_new p i) = i"
  unfolding slot_index_of_def slot_new_def mask_8 by (auto simp: bit_eq_iff bit_simps)

lemma slot_new_parts: "slot_new (slot_page_id s) (slot_index_of s) = s"
  unfolding slot_index_of_def slot_new_def slot_page_id_def mask_8
  by (cases s) (auto simp: bit_eq_iff bit_simps, metis le_add_diff_inverse not_le)

lemma small_page_id: "p \<le> MAX_PAGE_ID \<Longrightarrow> p AND MAX_PAGE_ID = p"
proof -
  assume "p \<le> MAX_PAGE_ID"
  then have "unat p < 2 ^ 24" by (simp add: MAX_PAGE_ID_def word_le_nat_alt)
  then have "unat (take_bit 24 p) = unat p" by (simp add: unsigned_take_bit_eq take_bit_nat_eq_self)
  then show ?thesis
    unfolding mask_24 take_bit_eq_mask [symmetric] by (simp only: word_unat_eq_iff)
qed

section \<open>Fixed-size formats\<close>

locale struct_image =
  fixes size_of :: nat
    and image :: "'v \<Rightarrow> bytes"
    and enc :: "'v \<Rightarrow> bytes \<Rightarrow> bytes option"
    and dec :: "bytes \<Rightarrow> 'v option"
  assumes image_length: "length (image v) = size_of"
    and enc_image: "enc v out = (if length out \<noteq> size_of then None else Some (image v))"
    and dec_image: "dec (image v) = Some v"
    and image_dec: "length bs = size_of \<Longrightarrow> \<exists>v. dec bs = Some v \<and> image v = bs"
    and dec_size: "length bs \<noteq> size_of \<Longrightarrow> dec bs = None"
begin

lemma dec_iff: "dec bs = Some v \<longleftrightarrow> bs = image v"
  by (metis dec_image image_dec dec_size image_length option.distinct(1) option.inject)

lemma image_inj: "image v = image w \<longleftrightarrow> v = w"
  by (metis dec_image option.inject)

lemma enc_dec: "enc v out = Some bs \<Longrightarrow> dec bs = Some v"
  by (auto simp: enc_image dec_image split: if_splits)

end

lemma take_drop_slice: "slice bs a n @ slice bs (a + n) m = slice bs a (n + m)"
  by (simp add: slice_def take_add drop_drop add.commute [of a])

lemma to_from_le_slice:
  "a + 8 \<le> length bs \<Longrightarrow> to_le_bytes (from_le_bytes (slice bs a 8) :: u64) = slice bs a 8"
  "a + 4 \<le> length bs \<Longrightarrow> to_le_bytes (from_le_bytes (slice bs a 4) :: u32) = slice bs a 4"
  "a + 2 \<le> length bs \<Longrightarrow> to_le_bytes (from_le_bytes (slice bs a 2) :: u16) = slice bs a 2"
  by (simp_all add: to_from_le_bytes)

lemma slice_join: "slice bs a n @ slice bs b m = slice bs a (n + m)" if "b = a + n"
  using that take_drop_slice by blast

lemma slice_join_more: "slice bs a n @ slice bs b m @ xs = slice bs a (n + m) @ xs" if "b = a + n"
  using slice_join [OF that] by simp

lemma slice_all: "length bs = n \<Longrightarrow> slice bs 0 n = bs"
  by (simp add: slice_def)

lemmas image_simps = to_from_le_slice slice_join slice_join_more slice_all

interpretation node_format: struct_image NODE_RECORD_SIZE node_bytes node_encode node_decode
proof
  show "length (node_bytes r) = NODE_RECORD_SIZE" for r by (simp add: node_bytes_def NODE_RECORD_SIZE_def)
  show "node_decode (node_bytes r) = Some r" for r
    by (simp add: node_decode_def node_bytes_def NODE_RECORD_SIZE_def slice_def)
  show "\<exists>r. node_decode bs = Some r \<and> node_bytes r = bs" if "length bs = NODE_RECORD_SIZE" for bs
    using that by (simp add: node_decode_def node_bytes_def NODE_RECORD_SIZE_def image_simps)
qed (simp_all add: node_encode_def node_decode_def)

interpretation edge_format: struct_image EDGE_RECORD_SIZE edge_bytes edge_encode edge_decode
proof
  show "length (edge_bytes r) = EDGE_RECORD_SIZE" for r by (simp add: edge_bytes_def EDGE_RECORD_SIZE_def)
  show "edge_decode (edge_bytes r) = Some r" for r
    by (simp add: edge_decode_def edge_bytes_def EDGE_RECORD_SIZE_def slice_def)
  show "\<exists>r. edge_decode bs = Some r \<and> edge_bytes r = bs" if "length bs = EDGE_RECORD_SIZE" for bs
    using that by (simp add: edge_decode_def edge_bytes_def EDGE_RECORD_SIZE_def image_simps)
qed (simp_all add: edge_encode_def edge_decode_def)

interpretation handle_format: struct_image OVERFLOW_HANDLE_SIZE oh_bytes oh_encode oh_decode
proof
  show "length (oh_bytes h) = OVERFLOW_HANDLE_SIZE" for h by (simp add: oh_bytes_def OVERFLOW_HANDLE_SIZE_def)
  show "oh_decode (oh_bytes h) = Some h" for h
    by (simp add: oh_decode_def oh_bytes_def OVERFLOW_HANDLE_SIZE_def slice_def)
  show "\<exists>h. oh_decode bs = Some h \<and> oh_bytes h = bs" if "length bs = OVERFLOW_HANDLE_SIZE" for bs
    using that by (simp add: oh_decode_def oh_bytes_def OVERFLOW_HANDLE_SIZE_def image_simps)
qed (simp_all add: oh_encode_def oh_decode_def)

lemma slice_two: "length bs = 8 \<Longrightarrow> [bs ! 6, bs ! 7] = slice bs 6 2"
  by (rule nth_equalityI) (auto simp: slice_def less_Suc_eq numeral_eq_Suc)

interpretation property_header_format: struct_image PROPERTY_HEADER_SIZE ph_bytes ph_encode ph_decode
proof
  show "length (ph_bytes h) = PROPERTY_HEADER_SIZE" for h by (simp add: ph_bytes_def PROPERTY_HEADER_SIZE_def)
  show "ph_decode (ph_bytes h) = Some h" for h
    by (simp add: ph_decode_def ph_bytes_def PROPERTY_HEADER_SIZE_def slice_def nth_append)
  show "\<exists>h. ph_decode bs = Some h \<and> ph_bytes h = bs" if "length bs = PROPERTY_HEADER_SIZE" for bs
    using that slice_two [of bs] by (simp add: ph_decode_def ph_bytes_def PROPERTY_HEADER_SIZE_def image_simps)
qed (simp_all add: ph_encode_def ph_decode_def)

interpretation version_format: codec vh_bytes vh_decode "\<lambda>_. True"
  by unfold_locales (simp add: vh_decode_def vh_bytes_def VERSION_HEADER_SIZE_def slice_def)

lemma split_encode_versioned: "\<exists>bs. encode_versioned h entity = Some bs \<and> split_versioned bs = Some (h, entity)"
proof -
  have l: "length (vh_bytes h) = 24" by (simp add: vh_bytes_def)
  have "encode_versioned h entity = Some (vh_bytes h @ entity)"
    by (simp add: encode_versioned_def vh_encode_def VERSION_HEADER_SIZE_def slice_def splice_def l)
  then show ?thesis
    using version_format.dec_enc [of h entity] l by (simp add: split_versioned_def VERSION_HEADER_SIZE_def)
qed

text \<open>C23. The fixed-size records of the graph: a byte string decodes to a node record exactly when it
  is the image of that record, likewise for edges; every string of 32 (64) bytes is the image of one
  record, and a versioned slot splits into the header and the entity it was built from.\<close>

theorem graph_records_bijective:
  "(node_decode bs = Some r \<longleftrightarrow> bs = node_bytes r) \<and> (edge_decode bs = Some e \<longleftrightarrow> bs = edge_bytes e) \<and>
   (node_decode bs \<noteq> None \<longleftrightarrow> length bs = 32) \<and> (edge_decode bs \<noteq> None \<longleftrightarrow> length bs = 64) \<and>
   (\<exists>slot. encode_versioned h bs = Some slot \<and> split_versioned slot = Some (h, bs))"
  using node_format.dec_iff edge_format.dec_iff split_encode_versioned
    node_format.image_dec [of bs] node_format.dec_size [of bs] edge_format.image_dec [of bs] edge_format.dec_size [of bs]
  unfolding NODE_RECORD_SIZE_def EDGE_RECORD_SIZE_def by (metis option.distinct(1))

section \<open>Property records\<close>

lemma property_encode_eq:
  "property_encode r = Some (ph_bytes ((pr_header r)\<lparr>value_length := of_nat (property_disk_size r - 8)\<rparr>) @
     to_be_bytes (slot_raw (next_property r)) @ to_be_bytes (of_nat (length (property_name r)) :: u16) @
     property_name r @ pr_payload r)"
  by (simp add: property_encode_def ph_encode_def property_disk_size_def PROPERTY_HEADER_SIZE_def Let_def add_ac)

lemma length_ph_bytes [simp]: "length (ph_bytes h) = 8"
  using property_header_format.image_length [of h] by (simp add: PROPERTY_HEADER_SIZE_def)

text \<open>The name and the payload of a record that decodes fill the length its header gives.\<close>

lemma property_decode_length:
  assumes "property_decode bs = Some r"
  shows "length (property_name r) + length (pr_payload r) + 6 = unat (value_length (pr_header r))"
    "unat (value_length (pr_header r)) + 8 \<le> length bs"
  using assms by (auto simp: property_decode_def Let_def PROPERTY_HEADER_SIZE_def split: option.splits if_splits)

lemma property_decode_encoded:
  assumes "utf8_ok name" "6 + length name + length payload < 65536"
    "unat (value_length h) = 6 + length name + length payload"
  shows "property_decode (ph_bytes h @ to_be_bytes (raw :: u32) @ to_be_bytes (of_nat (length name) :: u16) @ name @ payload @ rest) =
    Some \<lparr>pr_header = h, next_property = SlotRef raw, property_name = name, pr_payload = payload\<rparr>"
proof -
  let ?bs = "ph_bytes h @ to_be_bytes (raw :: u32) @ to_be_bytes (of_nat (length name) :: u16) @ name @ payload @ rest"
  have s: "slice ?bs 0 8 = ph_bytes h" "slice ?bs 8 4 = to_be_bytes raw"
    "slice ?bs 12 2 = to_be_bytes (of_nat (length name) :: u16)" "slice ?bs 14 (length name) = name"
    "slice ?bs (14 + length name) (length payload) = payload"
    by (simp_all add: slice_def)
  have d: "ph_decode (ph_bytes h) = Some h" by (rule property_header_format.dec_image)
  have n: "unat (of_nat (length name) :: u16) = length name"
    using assms(2) by (simp add: unat_of_nat)
  show ?thesis
    unfolding property_decode_def using assms s d n by (simp add: PROPERTY_HEADER_SIZE_def Let_def)
qed

text \<open>C24. Property records: a record whose name is UTF-8 and whose body fits the 16-bit length reads
  back with its key, type, link, name and payload, whatever bytes follow it; a record that is too
  long is still written, and what is read from its bytes is never the record.\<close>

theorem property_round_trip:
  assumes "utf8_ok (property_name r)"
  shows "\<exists>bs. property_encode r = Some bs \<and> length bs = property_disk_size r \<and>
    (if property_disk_size r < 65544
     then property_decode (bs @ rest) = Some (r\<lparr>pr_header := (pr_header r)\<lparr>value_length := of_nat (property_disk_size r - 8)\<rparr>\<rparr>)
     else \<forall>r'. property_decode (bs @ rest) = Some r' \<longrightarrow> (property_name r', pr_payload r') \<noteq> (property_name r, pr_payload r))"
proof -
  have sz: "property_disk_size r - 8 = 6 + length (property_name r) + length (pr_payload r)" "8 \<le> property_disk_size r"
    by (simp_all add: property_disk_size_def PROPERTY_HEADER_SIZE_def)
  show ?thesis
  proof (cases "property_disk_size r < 65544")
    case True
    then have "unat (of_nat (property_disk_size r - 8) :: u16) = 6 + length (property_name r) + length (pr_payload r)"
      unfolding unat_of_nat sz(1) [symmetric] using sz(2) by simp
    then show ?thesis
      using property_decode_encoded [OF assms, of "pr_payload r" "(pr_header r)\<lparr>value_length := of_nat (property_disk_size r - 8)\<rparr>"
          "slot_raw (next_property r)" rest] True sz
      by (simp add: property_encode_eq property_disk_size_def PROPERTY_HEADER_SIZE_def)
  next
    case False
    have "length (property_name r') + length (pr_payload r') < length (property_name r) + length (pr_payload r)"
      if "property_decode bs = Some r'" for bs r'
      using property_decode_length(1) [OF that] unsigned_less [of "value_length (pr_header r')", where ?'a = nat] False sz
      by simp
    then show ?thesis
      using False by (fastforce simp: property_encode_eq property_disk_size_def PROPERTY_HEADER_SIZE_def)
  qed
qed

theorem property_round_trip_witness:
  "\<exists>bs r. property_inline [97, 98] 7 TBool [1] = Some r \<and> property_encode r = Some bs \<and> length bs = 17 \<and>
     property_decode bs = Some (r\<lparr>pr_header := (pr_header r)\<lparr>value_length := 9\<rparr>\<rparr>)"
proof -
  define r where "r = \<lparr>pr_header = property_header_new 7 TBool 0, next_property = slot_null, property_name = [97, 98], pr_payload = [1]\<rparr>"
  have "property_inline [97, 98] 7 TBool [1] = Some r" "property_disk_size r = 17"
    by (simp_all add: property_inline_def r_def MAX_INLINE_PROPERTY_LEN_def property_disk_size_def PROPERTY_HEADER_SIZE_def)
  moreover have "utf8_ok (property_name r)"
    by (simp add: r_def)
  ultimately show ?thesis
    using property_round_trip [of r "[]"] by fastforce
qed

end
