(* ===== verification/IndexScan.thy ===== *)
theory IndexScan
  imports BTreeMap GraphRecord
begin

text \<open>
  What the secondary indexes have in common. \<open>src/src/index/label.rs\<close>, \<open>type_index.rs\<close>,
  \<open>adjacency_index.rs\<close>, \<open>property.rs\<close> and \<open>rdf_store.rs\<close> each carry the same helpers:
  a descent of their own (\<open>branch_child\<close>, \<open>find_leaf\<close>), which goes left of a separator equal to the
  key where the tree goes right of it, the decoding of a leaf record, and the loop that scans a leaf
  and all its right siblings. They are defined once here, over the selection of the records. The
  locale \<open>typed_index\<close> is what an index promises: it refines a map from its ids to slots.
\<close>

section \<open>Definitions\<close>

definition index_branch_child :: "bytes \<Rightarrow> composite_key \<Rightarrow> u64 option" where
  "index_branch_child page key =
     (let count = unat (bt_key_count page);
          lo = halving (\<lambda>mid. case separator_key page mid of Some sep \<Rightarrow> sep < key | None \<Rightarrow> False) 0 count
      in if lo < count
         then map_option (\<lambda>child. case child of Some c \<Rightarrow> c | None \<Rightarrow> 0) (child_pointer page lo)
         else Some (rightmost_child (btree_header_of page)))"

partial_function (option) index_find_leaf :: "btree \<Rightarrow> u64 \<Rightarrow> composite_key \<Rightarrow> u64 option" where
  "index_find_leaf t pid key =
     (case get_page t pid of
        None \<Rightarrow> Some pid
      | Some page \<Rightarrow>
          (if is_leaf page then Some pid
           else case index_branch_child page key of
             None \<Rightarrow> None
           | Some child \<Rightarrow> index_find_leaf t child key))"

text \<open>The key and the value of a leaf record; slicing behind its end panics.\<close>

definition record_parts :: "bytes \<Rightarrow> (bytes \<times> bytes) option" where
  "record_parts kv =
     (if length kv < 2 \<or> length kv < 2 + record_key_len kv then None
      else Some (slice kv 2 (record_key_len kv), drop (2 + record_key_len kv) kv))"

definition slot_value :: "bytes \<Rightarrow> slot_ref option" where
  "slot_value value = (if length value < 4 then None else Some (SlotRef (from_be_bytes (slice value 0 4))))"

definition decode_value :: "bytes \<Rightarrow> nat \<Rightarrow> slot_ref option option" where
  "decode_value page slot =
     (case bt_key page slot of
        None \<Rightarrow> Some None
      | Some kv \<Rightarrow> map_option (\<lambda>(_, value). slot_value value) (record_parts kv))"

definition index_lookup :: "(bytes \<Rightarrow> nat \<Rightarrow> 'r option option) \<Rightarrow> btree \<Rightarrow> composite_key \<Rightarrow> 'r option option" where
  "index_lookup decode t key =
     (case search t key of
        None \<Rightarrow> None
      | Some None \<Rightarrow> Some None
      | Some (Some (pid, slot)) \<Rightarrow>
          (case get_page t pid of None \<Rightarrow> Some None | Some page \<Rightarrow> decode page slot))"

text \<open>The loop over the slots of a leaf; \<open>select\<close> is what the loop's body pushes for a record.\<close>

fun scan_records :: "(bytes \<Rightarrow> bytes \<Rightarrow> 'r option) \<Rightarrow> bytes \<Rightarrow> nat list \<Rightarrow> 'r list option" where
  "scan_records select page [] = Some []"
| "scan_records select page (i # is) =
     (case bt_key page i of
        None \<Rightarrow> scan_records select page is
      | Some kv \<Rightarrow>
          (case record_parts kv of
             None \<Rightarrow> None
           | Some (key, value) \<Rightarrow>
               map_option ((@) (case select key value of Some r \<Rightarrow> [r] | None \<Rightarrow> [])) (scan_records select page is)))"

definition scan_page :: "(bytes \<Rightarrow> bytes \<Rightarrow> 'r option) \<Rightarrow> bytes \<Rightarrow> 'r list option" where
  "scan_page select page = scan_records select page [0..<unat (bt_key_count page)]"

partial_function (option) scan_siblings ::
    "(bytes \<Rightarrow> 'r list option) \<Rightarrow> btree \<Rightarrow> bytes \<Rightarrow> 'r list \<Rightarrow> 'r list option" where
  "scan_siblings scan t leaf results =
     (case scan leaf of
        None \<Rightarrow> None
      | Some found \<Rightarrow>
          (let results = results @ found; nxt = sibling_next (btree_header_of leaf) in
           if nxt = 0 then Some results
           else case get_page t nxt of
             None \<Rightarrow> Some results
           | Some leaf \<Rightarrow> scan_siblings scan t leaf results))"

definition scan_from :: "(bytes \<Rightarrow> 'r list option) \<Rightarrow> btree \<Rightarrow> composite_key \<Rightarrow> 'r list option" where
  "scan_from scan t start =
     (case index_find_leaf t (root_page_id t) start of
        None \<Rightarrow> None
      | Some leaf_id \<Rightarrow>
          (case get_page t leaf_id of None \<Rightarrow> Some [] | Some leaf \<Rightarrow> scan_siblings scan t leaf []))"

section \<open>Reading leaves\<close>

lemma record_parts_kv: "length key < 65536 \<Longrightarrow> record_parts (encode_kv key value) = Some (key, value)"
  by (simp add: record_parts_def record_key_len_def encode_kv_def slice_def unat_of_nat)

abbreviation selected :: "(bytes \<Rightarrow> bytes \<Rightarrow> 'r option) \<Rightarrow> (bytes \<times> bytes) list \<Rightarrow> 'r list" where
  "selected select kvs \<equiv> List.map_filter (\<lambda>kv. select (fst kv) (snd kv)) kvs"

lemma selected_append: "selected select (xs @ ys) = selected select xs @ selected select ys"
  by (induction xs) (auto simp: List.map_filter_simps split: option.split)

lemma selected_none: "(\<And>kv. kv \<in> set xs \<Longrightarrow> select (fst kv) (snd kv) = None) \<Longrightarrow> selected select xs = []"
  by (induction xs) (auto simp: List.map_filter_simps)

lemma scan_page_eq:
  assumes "leaf_view leaf pid nxt kvs" "uniform kl vl kvs" "kl < 65536"
  shows "scan_page select leaf = Some (selected select kvs)"
proof -
  note r = leaf_view_reads [OF assms(1)]
  have "scan_records select leaf [i..<length kvs] = Some (selected select (drop i kvs))" if "i \<le> length kvs" for i
    using that
  proof (induction "length kvs - i" arbitrary: i)
    case (Suc d)
    then have i: "i < length kvs" by simp
    have IH: "scan_records select leaf [Suc i..<length kvs] = Some (selected select (drop (Suc i) kvs))"
      using Suc by simp
    have d: "drop i kvs = kvs ! i # drop (Suc i) kvs"
      using i by (simp add: Cons_nth_drop_Suc)
    have "length (fst (kvs ! i)) < 65536"
      using assms(2,3) nth_mem [OF i] by (auto simp: uniform_def)
    then have "record_parts (kv_record (kvs ! i)) = Some (kvs ! i)"
      by (simp add: record_parts_kv)
    then show ?case
      using i IH r(8) [of i] unfolding d
      by (simp add: upt_conv_Cons List.map_filter_simps split_def split: option.split)
  qed (simp add: List.map_filter_simps)
  from this [of 0] show ?thesis
    by (simp add: scan_page_def r(5))
qed

lemma index_child_eq:
  assumes "branch_view page pid seps cs" "sorted seps"
  shows "index_branch_child page key = Some (cs ! length (takeWhile (\<lambda>s. s < key) seps))"
proof -
  note r = branch_view_reads [OF assms(1)]
  let ?i = "length (takeWhile (\<lambda>s. s < key) seps)"
  have le: "?i \<le> length seps" by (rule length_takeWhile_le)
  have "halving (\<lambda>mid. case separator_key page mid of Some sep \<Rightarrow> sep < key | None \<Rightarrow> False) 0 (length seps) = ?i"
  proof (rule halving_eq)
    fix i assume i: "i < length seps"
    have "seps ! i < key \<longleftrightarrow> i < length (takeWhile (\<lambda>sep. sep < key) seps)"
    proof (rule sorted_prefix [OF _ i])
      fix i j assume "i < j" "j < length seps" "seps ! j < key"
      then show "seps ! i < key"
        using sorted_nth_mono [OF assms(2), of i j] by simp
    qed
    then show "(case separator_key page i of Some sep \<Rightarrow> sep < key | None \<Rightarrow> False) \<longleftrightarrow> i < ?i"
      using i r(7) [of i] by simp
  qed (simp_all add: le)
  moreover have "last cs = cs ! length seps"
    using r(1) by (simp add: last_conv_nth flip: length_greater_0_conv)
  moreover have "?i < length seps \<or> ?i = length seps" using le by linarith
  ultimately show ?thesis
    using r(5,6) r(8) [of ?i] by (auto simp: index_branch_child_def Let_def)
qed

text \<open>The descent ends at a leaf with only smaller entries in the leaves before it.\<close>

lemma index_find_leaf_eq:
  assumes "gwf kl vl h lo hi g" "rep (bt_pages t) g" "lo \<le> key"
  shows "\<exists>pid nxt kvs A D. index_find_leaf t (gid g) key = Some pid \<and> gleaves g = A @ (pid, nxt, kvs) # D \<and>
    (\<forall>l \<in> set A. \<forall>kv \<in> set (leaf_kvs l). fst kv < key)"
  using assms
proof (induction h arbitrary: lo hi g)
  case 0
  obtain pid nxt kvs where g: "g = GLeaf pid nxt kvs"
    by (rule gwf_leafE [OF 0(1)])
  then obtain b where "bt_pages t pid = Some b" "is_leaf b"
    using 0(2) leaf_view_reads(2) by auto
  then have "index_find_leaf t (gid g) key = Some pid"
    by (subst index_find_leaf.simps) (simp add: get_page_def g)
  then show ?case using g by (intro exI [of _ pid] exI [of _ nxt] exI [of _ kvs] exI [of _ "[]"]) simp
next
  case (Suc h)
  obtain pid seps ts where g: "g = GNode pid seps ts" "tiled (gwf kl vl h) lo hi seps ts"
    by (rule gwf_nodeE [OF Suc.prems(1)])
  obtain b where b: "bt_pages t pid = Some b" "branch_view b pid seps (map gid ts)"
    using rep_nodeD(1) [OF Suc.prems(2) [unfolded g(1)]] by blast
  define i where "i = length (takeWhile (\<lambda>s. s < key) seps)"
  have le: "i \<le> length seps" by (simp add: i_def length_takeWhile_le)
  then have lt: "i < length ts" using tiled_length [OF g(2)] by simp
  have lo: "(if i = 0 then lo else seps ! (i - 1)) \<le> key"
  proof (cases "i = 0")
    case False
    then have "i - 1 < length (takeWhile (\<lambda>s. s < key) seps)" by (simp add: i_def)
    then have "seps ! (i - 1) < key"
      using set_takeWhileD [OF nth_mem] takeWhile_nth by metis
    then show ?thesis using False by simp
  qed (use Suc.prems(3) in simp)
  obtain pid' nxt kvs A D where r: "index_find_leaf t (gid (ts ! i)) key = Some pid'" "gleaves (ts ! i) = A @ (pid', nxt, kvs) # D"
    "\<forall>l \<in> set A. \<forall>kv \<in> set (leaf_kvs l). fst kv < key"
    using Suc.IH [OF tiled_child(1) [OF g(2) le] _ lo] rep_nodeD(2) [OF Suc.prems(2) [unfolded g(1)] nth_mem [OF lt]] by blast
  let ?A = "concat (map gleaves (take i ts))" and ?D = "concat (map gleaves (drop (Suc i) ts))"
  have A: "\<forall>l \<in> set ?A. \<forall>kv \<in> set (leaf_kvs l). fst kv < key"
    by (intro ballI order_less_le_trans [OF _ lo]) (rule gwf_neighbours(1) [OF g(2) le], erule (1) leaf_entries_in)
  have "index_branch_child b key = Some (gid (ts ! i))"
    using index_child_eq [OF b(2), of key] tiled_sorted [OF g(2)] lt by (simp add: i_def)
  then have "index_find_leaf t (gid g) key = Some pid'"
    using b(1) branch_view_reads(3) [OF b(2)] r(1) by (subst index_find_leaf.simps) (simp add: get_page_def g(1))
  moreover have "gleaves g = (?A @ A) @ (pid', nxt, kvs) # (D @ ?D)"
    using gleaves_around [OF lt] r(2) by (simp add: g(1))
  moreover have "\<forall>l \<in> set (?A @ A). \<forall>kv \<in> set (leaf_kvs l). fst kv < key"
    using A r(3) unfolding set_append ball_Un by blast
  ultimately show ?case by blast
qed

lemma scan_siblings_eq:
  assumes "\<forall>l \<in> set (l # ls). \<exists>b. bt_pages t (fst l) = Some b \<and> leaf_view b (fst l) (fst (snd l)) (leaf_kvs l)"
    and "chained (l # ls) 0" "\<forall>l \<in> set (l # ls). fst l \<noteq> 0" "uniform kl vl (concat (map leaf_kvs (l # ls)))" "kl < 65536"
    and "bt_pages t (fst l) = Some leaf"
  shows "scan_siblings (scan_page select) t leaf results = Some (results @ selected select (concat (map leaf_kvs (l # ls))))"
  using assms(1-4,6)
proof (induction ls arbitrary: l leaf results)
  case Nil
  obtain pid nxt kvs where l: "l = (pid, nxt, kvs)" by (cases l)
  have v: "leaf_view leaf pid nxt kvs" "uniform kl vl kvs" "nxt = 0" using Nil by (auto simp: l)
  then show ?case
    using scan_page_eq [OF v(1,2) assms(5), of select] leaf_view_reads(4) [OF v(1)]
    by (subst scan_siblings.simps) (simp add: l)
next
  case (Cons l' ls)
  obtain pid nxt kvs where l: "l = (pid, nxt, kvs)" by (cases l)
  have v: "leaf_view leaf pid nxt kvs" "uniform kl vl kvs" "nxt = fst l'" "nxt \<noteq> 0"
    using Cons.prems by (auto simp: l)
  obtain leaf' where leaf': "bt_pages t nxt = Some leaf'" using Cons.prems(1) v(3) by auto
  have "scan_siblings (scan_page select) t leaf' (results @ selected select kvs) =
      Some ((results @ selected select kvs) @ selected select (concat (map leaf_kvs (l' # ls))))"
    by (rule Cons.IH) (use Cons.prems leaf' v(3) in \<open>auto simp: l\<close>)
  then show ?case
    using scan_page_eq [OF v(1,2) assms(5), of select] leaf_view_reads(4) [OF v(1)] leaf' v(4)
    by (subst scan_siblings.simps) (simp add: l get_page_def selected_append Let_def)
qed

lemma scan_from_eq:
  assumes st: "stores kl vl n es t" and kl: "kl < 65536"
    and low: "\<And>kv. kv \<in> set es \<Longrightarrow> fst kv < start \<Longrightarrow> select (fst kv) (snd kv) = None"
  shows "get_page t (root_page_id t) \<noteq> None" "scan_from (scan_page select) t start = Some (selected select es)"
proof -
  obtain h g where ok: "btree_ok kl vl h g t" and es: "entries g = es" using st by (auto simp: stores_def)
  have w: "gwf kl vl h [] None g" "rep (bt_pages t) g" "root_page_id t = gid g" "chained (gleaves g) 0"
    and nz: "\<forall>p \<in> set (gpids g). p \<noteq> 0"
    using ok by (simp_all add: btree_ok_def)
  show "get_page t (root_page_id t) \<noteq> None" using rep_page [OF w(2)] w(3) by (auto simp: get_page_def)
  obtain pid nxt kvs A D where f: "index_find_leaf t (gid g) start = Some pid" "gleaves g = A @ (pid, nxt, kvs) # D"
    "\<forall>l \<in> set A. \<forall>kv \<in> set (leaf_kvs l). fst kv < start"
    using index_find_leaf_eq [OF w(1,2), of start] by auto
  let ?ls = "(pid, nxt, kvs) # D"
  have e: "es = concat (map leaf_kvs A) @ concat (map leaf_kvs ?ls)"
    by (simp add: es [symmetric] entries_gleaves f(2))
  have L: "\<forall>l \<in> set ?ls. \<exists>b. bt_pages t (fst l) = Some b \<and> leaf_view b (fst l) (fst (snd l)) (leaf_kvs l)"
    using rep_leaf [OF w(2)] by (auto simp: f(2))
  obtain leaf where leaf: "bt_pages t pid = Some leaf" using L by auto
  have "scan_siblings (scan_page select) t leaf [] = Some ([] @ selected select (concat (map leaf_kvs ?ls)))"
  proof (rule scan_siblings_eq [OF L _ _ _ kl])
    show "chained ?ls 0"
      using w(4) unfolding f(2) by (rule chained_suffix)
    show "\<forall>l \<in> set ?ls. fst l \<noteq> 0"
    proof
      fix x assume "x \<in> set ?ls"
      then have "x \<in> set (gleaves g)" by (auto simp: f(2))
      then show "fst x \<noteq> 0" using nz leaf_pids by blast
    qed
    show "uniform kl vl (concat (map leaf_kvs ?ls))"
      using stores_sorted [OF st] unfolding e by simp
  qed (use leaf in simp)
  moreover have "selected select (concat (map leaf_kvs A)) = []"
  proof (rule selected_none)
    fix kv assume kv: "kv \<in> set (concat (map leaf_kvs A))"
    then have "fst kv < start" using f(3) by auto
    moreover have "kv \<in> set es" using kv unfolding e by simp
    ultimately show "select (fst kv) (snd kv) = None" using low by blast
  qed
  ultimately show "scan_from (scan_page select) t start = Some (selected select es)"
    using f(1) leaf w(3) by (simp add: scan_from_def get_page_def e selected_append)
qed

lemma leaf_record_parts:
  "leaf_key page slot = Some k \<Longrightarrow> leaf_value page slot = Some v \<Longrightarrow> \<exists>kv. bt_key page slot = Some kv \<and> record_parts kv = Some (k, v)"
  by (cases "bt_key page slot") (auto simp: leaf_key_def leaf_value_def record_parts_def Let_def split: if_splits)

lemma index_lookup_eq:
  assumes st: "stores kl vl n es t"
    and d: "\<And>page slot. decode page slot =
      (case bt_key page slot of None \<Rightarrow> Some None | Some kv \<Rightarrow> map_option (\<lambda>(_, value). dec value) (record_parts kv))"
  shows "index_lookup decode t key = Some (case map_of es key of None \<Rightarrow> None | Some v \<Rightarrow> dec v)"
proof -
  obtain h g where g: "btree_ok kl vl h g t" "entries g = es" using st by (auto simp: stores_def)
  obtain r where r: "search t key = Some r" "case r of
       None \<Rightarrow> map_of es key = None
     | Some (pid, slot) \<Rightarrow> \<exists>b v. get_page t pid = Some b \<and> leaf_key b slot = Some key \<and> leaf_value b slot = Some v \<and>
         map_of es key = Some v"
    using search_spec [OF g(1), of key] g(2) by blast
  show ?thesis
  proof (cases r)
    case (Some x)
    obtain pid slot where x: "x = (pid, slot)" by (cases x)
    obtain b v where b: "get_page t pid = Some b" "leaf_key b slot = Some key" "leaf_value b slot = Some v" "map_of es key = Some v"
      using r(2) by (auto simp: Some x)
    then show ?thesis
      using r(1) leaf_record_parts [OF b(2,3)] by (auto simp: index_lookup_def Some x d)
  qed (use r in \<open>simp add: index_lookup_def\<close>)
qed

section \<open>Indexes over typed keys\<close>

text \<open>The entries \<open>es\<close> represent the map \<open>m\<close>.\<close>

definition represents :: "('k \<Rightarrow> bytes) \<Rightarrow> ('v \<Rightarrow> bytes) \<Rightarrow> (bytes \<times> bytes) list \<Rightarrow> ('k \<rightharpoonup> 'v) \<Rightarrow> bool" where
  "represents key val es m \<longleftrightarrow> (\<forall>k. map_of es (key k) = map_option val (m k)) \<and> fst ` set es \<subseteq> range key"

lemma represents_empty: "represents key val [] Map.empty"
  by (simp add: represents_def)

lemma represents_put:
  assumes "represents key val es m" "sorted_kvs es" "inj key"
  shows "represents key val (upsert (key k) (val v) es) (m(k \<mapsto> v))"
  using assms by (auto simp: represents_def map_of_upsert set_upsert inj_eq image_subset_iff)

lemma represents_remove:
  assumes "represents key val es m" "inj key"
  shows "represents key val (without (key k) es) (m(k := None))"
  using assms by (auto simp: represents_def map_of_without inj_eq image_subset_iff)

lemma represents_mem:
  assumes "represents key val es m"
  shows "key k \<in> fst ` set es \<longleftrightarrow> k \<in> dom m"
  using assms map_of_eq_None_iff [of es "key k"] by (auto simp: represents_def)

lemma represents_keys:
  assumes "represents key val es m" "sorted_kvs es" "inj key"
  shows "\<exists>ks. es = map (\<lambda>k. (key k, val (the (m k)))) ks \<and> set ks = dom m \<and> sorted_wrt (\<lambda>a b. key a < key b) ks"
proof -
  define ks where "ks = map (\<lambda>kv. inv key (fst kv)) es"
  have k: "key (inv key (fst kv)) = fst kv" if "kv \<in> set es" for kv
    using assms(1) that f_inv_into_f [of "fst kv" key UNIV] by (auto simp: represents_def)
  have "snd kv = val (the (m (inv key (fst kv))))" if "kv \<in> set es" for kv
  proof -
    have "map_of es (fst kv) = Some (snd kv)"
      using that sorted_kvs_distinct [OF assms(2)] by simp
    moreover have "map_option val (m (inv key (fst kv))) = map_of es (key (inv key (fst kv)))"
      using assms(1) by (simp add: represents_def)
    ultimately show ?thesis using k [OF that] by auto
  qed
  then have "es = map (\<lambda>k. (key k, val (the (m k)))) ks"
    using k by (simp add: ks_def map_idI prod_eq_iff)
  moreover from this have "set ks = dom m"
    using represents_mem [OF assms(1)] assms(3) by (force simp: inj_eq)
  moreover have "sorted_wrt (\<lambda>a b. key a < key b) ks"
    using assms(2) k unfolding ks_def sorted_wrt_map by (auto elim: sorted_wrt_mono_rel [rotated])
  ultimately show ?thesis by blast
qed

text \<open>An index whose keys have a fixed-length, injective encoding and whose values have a
  fixed-length encoding that reads back.\<close>

definition typed_holds :: "('k \<Rightarrow> bytes) \<Rightarrow> nat \<Rightarrow> ('v \<Rightarrow> bytes) \<Rightarrow> nat \<Rightarrow> ('v \<Rightarrow> bool) \<Rightarrow> nat \<Rightarrow> ('k \<rightharpoonup> 'v) \<Rightarrow> btree \<Rightarrow> bool" where
  "typed_holds key kl val vl valid n m t \<longleftrightarrow> (\<exists>es. stores kl vl n es t \<and> represents key val es m) \<and> (\<forall>k v. m k = Some v \<longrightarrow> valid v)"

primrec typed_fit :: "nat \<Rightarrow> nat \<Rightarrow> ('v \<Rightarrow> bool) \<Rightarrow> ('k, 'v) store_op \<Rightarrow> ('k \<rightharpoonup> 'v) \<Rightarrow> bool" where
  "typed_fit kl vl valid (Put k v) m = (valid v \<and> room kl vl m)"
| "typed_fit kl vl valid (Remove k) m = True"

locale typed_index =
  fixes key :: "'k \<Rightarrow> bytes"
    and kl :: nat
    and val :: "'v \<Rightarrow> bytes"
    and vl :: nat
    and valid :: "'v \<Rightarrow> bool"
    and dec :: "bytes \<Rightarrow> 'v option"
  assumes key_inj: "inj key"
    and key_length: "length (key k) = kl"
    and val_length: "valid v \<Longrightarrow> length (val v) = vl"
    and dec_val: "valid v \<Longrightarrow> dec (val v) = Some v"
    and layout: "layout_ok kl vl"
begin

lemma short_key: "kl < 65536"
  using layout by (simp add: layout_ok_def sizes_ok_def)

lemma empty: "n < 2 ^ 31 \<Longrightarrow> typed_holds key kl val vl valid n Map.empty btree_new"
  using layout stores_new [of kl vl n] by (auto simp: typed_holds_def layout_ok_def represents_empty)

lemma mono: "typed_holds key kl val vl valid n m t \<Longrightarrow> n' \<le> n \<Longrightarrow> typed_holds key kl val vl valid n' m t"
  using stores_mono [of kl vl n _ t n'] unfolding typed_holds_def by blast

lemma insert:
  assumes h: "typed_holds key kl val vl valid (Suc n) m t" and v: "valid v" and r: "room kl vl m"
  shows "\<exists>t'. bt_insert (key k) (val v) t = Some (Inr (), t') \<and> typed_holds key kl val vl valid n (m(k \<mapsto> v)) t'"
proof -
  obtain es where es: "stores kl vl (Suc n) es t" "represents key val es m" and va: "\<forall>k v. m k = Some v \<longrightarrow> valid v"
    using h by (auto simp: typed_holds_def)
  have so: "sorted_kvs es" using stores_sorted [OF es(1)] by simp
  obtain ks where ks: "es = map (\<lambda>k. (key k, val (the (m k)))) ks" "set ks = dom m" "sorted_wrt (\<lambda>a b. key a < key b) ks"
    using represents_keys [OF es(2) so key_inj] by blast
  have "distinct ks" using ks(3) by (induction ks) auto
  then have "length es = card (dom m)" using ks(1,2) distinct_card by fastforce
  then have "admits kl vl es" using r by (simp add: admits_def room_def)
  then obtain t' where "bt_insert (key k) (val v) t = Some (Inr (), t')" "stores kl vl n (upsert (key k) (val v) es) t'"
    using stores_put [OF es(1) layout _ key_length val_length [OF v]] by blast
  then show ?thesis
    using represents_put [OF es(2) so key_inj, of k v] va v by (auto simp: typed_holds_def)
qed

lemma delete:
  assumes h: "typed_holds key kl val vl valid n m t"
  shows "\<exists>t'. delete_key (key k) t = Some (Inr (k \<in> dom m), t') \<and> typed_holds key kl val vl valid n (m(k := None)) t'"
proof -
  obtain es where es: "stores kl vl n es t" "represents key val es m" and va: "\<forall>k v. m k = Some v \<longrightarrow> valid v"
    using h by (auto simp: typed_holds_def)
  obtain t' where "delete_key (key k) t = Some (Inr (k \<in> dom m), t')" "stores kl vl n (without (key k) es) t'"
    using stores_remove [OF es(1) layout, of "key k"] represents_mem [OF es(2), of k] by auto
  then show ?thesis
    using represents_remove [OF es(2) key_inj, of k] va by (auto simp: typed_holds_def)
qed

lemma lookup:
  assumes h: "typed_holds key kl val vl valid n m t"
    and d: "\<And>page slot. decode page slot =
      (case bt_key page slot of None \<Rightarrow> Some None | Some kv \<Rightarrow> map_option (\<lambda>(_, value). dec value) (record_parts kv))"
  shows "index_lookup decode t (key k) = Some (m k)"
proof -
  obtain es where es: "stores kl vl n es t" "represents key val es m" and va: "\<forall>k v. m k = Some v \<longrightarrow> valid v"
    using h by (auto simp: typed_holds_def)
  show ?thesis
    using index_lookup_eq [OF es(1), of decode dec "key k"] d es(2) va dec_val by (auto simp: represents_def split: option.split)
qed

lemma scan:
  assumes h: "typed_holds key kl val vl valid n m t"
    and sel: "\<And>k v. valid v \<Longrightarrow> select (key k) (val v) = (if P k then Some (f k v) else None)"
    and low: "\<And>k. P k \<Longrightarrow> start \<le> key k"
  shows "\<exists>ks. scan_from (scan_page select) t start = Some (map (\<lambda>k. f k (the (m k))) ks) \<and> set ks = {k \<in> dom m. P k} \<and>
    sorted_wrt (\<lambda>a b. key a < key b) ks" "get_page t (root_page_id t) \<noteq> None"
proof -
  obtain es where es: "stores kl vl n es t" "represents key val es m" and va: "\<forall>k v. m k = Some v \<longrightarrow> valid v"
    using h by (auto simp: typed_holds_def)
  have so: "sorted_kvs es" using stores_sorted [OF es(1)] by simp
  obtain ks where ks: "es = map (\<lambda>k. (key k, val (the (m k)))) ks" "set ks = dom m" "sorted_wrt (\<lambda>a b. key a < key b) ks"
    using represents_keys [OF es(2) so key_inj] by blast
  have s: "select (key k) (val (the (m k))) = (if P k then Some (f k (the (m k))) else None)" if "k \<in> dom m" for k
    using that va by (intro sel) auto
  have "selected select (map (\<lambda>k. (key k, val (the (m k)))) xs) = map (\<lambda>k. f k (the (m k))) (filter P xs)" if "set xs \<subseteq> dom m" for xs
    using that s by (induction xs) (auto simp: List.map_filter_simps)
  then have e: "selected select es = map (\<lambda>k. f k (the (m k))) (filter P ks)"
    using ks(1,2) by simp
  have lo: "select (fst kv) (snd kv) = None" if a: "kv \<in> set es" "fst kv < start" for kv
  proof -
    obtain k where k: "k \<in> dom m" "kv = (key k, val (the (m k)))" using a(1) unfolding ks(1) ks(2) [symmetric] by auto
    then have "\<not> P k" using low [of k] a(2) by auto
    then show ?thesis using s [OF k(1)] k(2) by simp
  qed
  note sc = scan_from_eq [OF es(1) short_key, of start select, OF lo]
  show "get_page t (root_page_id t) \<noteq> None" by (rule sc(1))
  show "\<exists>ks. scan_from (scan_page select) t start = Some (map (\<lambda>k. f k (the (m k))) ks) \<and> set ks = {k \<in> dom m. P k} \<and>
    sorted_wrt (\<lambda>a b. key a < key b) ks"
    using sc(2) e ks(2,3) by (intro exI [of _ "filter P ks"]) (auto simp: sorted_wrt_filter)
qed

end

sublocale typed_index < store: map_store "typed_fit kl vl valid" "typed_holds key kl val vl valid"
    "\<lambda>k v. bt_insert (key k) (val v)" "\<lambda>k. delete_key (key k)"
proof (unfold_locales, goal_cases)
  case (1 n m t n')
  then show ?case by (rule mono)
next
  case (2 n m t k v)
  then show ?case using insert by simp
next
  case (3 n m t k)
  then show ?case by (rule delete)
qed

end
