(* ===== verification/SecondaryIndex.thy ===== *)
theory SecondaryIndex
  imports IndexScan
begin

text \<open>
  The secondary indexes of the property graph: nodes by label (\<open>src/src/index/label.rs\<close>), edges by
  type (\<open>type_index.rs\<close>), edges by endpoints (\<open>adjacency_index.rs\<close>) and entities by property value
  (\<open>property.rs\<close>). Each struct has the tree as its only field, so its operations act on the tree.
  Every index with keys of one length refines a map from ids to slots; its scans return the slots of
  the matching ids in the order of the ids.
\<close>

section \<open>Definitions\<close>

subsection \<open>Labels\<close>

definition label_insert :: "u64 \<Rightarrow> u128 \<Rightarrow> slot_ref \<Rightarrow> unit bt" where
  "label_insert label_id node_id slot =
     (let key = label_index_key label_id node_id; value = to_be_bytes (slot_raw slot) in bt_insert key value)"

definition label_delete :: "u64 \<Rightarrow> u128 \<Rightarrow> bool bt" where
  "label_delete label_id node_id = (let key = label_index_key label_id node_id in delete_key key)"

definition label_lookup :: "btree \<Rightarrow> u64 \<Rightarrow> u128 \<Rightarrow> slot_ref option option" where
  "label_lookup t label_id node_id = index_lookup decode_value t (label_index_key label_id node_id)"

definition label_scan_leaf :: "bytes \<Rightarrow> u64 \<Rightarrow> slot_ref list option" where
  "label_scan_leaf page label_id =
     (let prefix = to_be_bytes label_id in
      scan_page (\<lambda>key value. if length key \<ge> 8 \<and> take 8 key = prefix then slot_value value else None) page)"

definition label_scan :: "btree \<Rightarrow> u64 \<Rightarrow> slot_ref list option" where
  "label_scan t label_id =
     (let start_key = label_index_key label_id 0 in
      if get_page t (root_page_id t) = None then Some []
      else scan_from (\<lambda>leaf. label_scan_leaf leaf label_id) t start_key)"

subsection \<open>Edge types\<close>

definition type_insert :: "u64 \<Rightarrow> u128 \<Rightarrow> slot_ref \<Rightarrow> unit bt" where
  "type_insert type_id edge_id slot =
     (let key = type_index_key type_id edge_id; value = to_be_bytes (slot_raw slot) in bt_insert key value)"

definition type_delete :: "u64 \<Rightarrow> u128 \<Rightarrow> bool bt" where
  "type_delete type_id edge_id = (let key = type_index_key type_id edge_id in delete_key key)"

definition type_lookup :: "btree \<Rightarrow> u64 \<Rightarrow> u128 \<Rightarrow> slot_ref option option" where
  "type_lookup t type_id edge_id = index_lookup decode_value t (type_index_key type_id edge_id)"

definition type_scan_leaf :: "bytes \<Rightarrow> u64 \<Rightarrow> slot_ref list option" where
  "type_scan_leaf page type_id =
     (let prefix = to_be_bytes type_id in
      scan_page (\<lambda>key value. if length key \<ge> 8 \<and> take 8 key = prefix then slot_value value else None) page)"

definition type_scan :: "btree \<Rightarrow> u64 \<Rightarrow> slot_ref list option" where
  "type_scan t type_id =
     (let start_key = type_index_key type_id 0 in scan_from (\<lambda>leaf. type_scan_leaf leaf type_id) t start_key)"

subsection \<open>Adjacency\<close>

definition adjacency_insert :: "u128 \<Rightarrow> u64 \<Rightarrow> u128 \<Rightarrow> slot_ref \<Rightarrow> unit bt" where
  "adjacency_insert source_id type_id target_id slot =
     (let key = edge_adjacency_key source_id type_id target_id; value = to_be_bytes (slot_raw slot) in bt_insert key value)"

definition adjacency_delete :: "u128 \<Rightarrow> u64 \<Rightarrow> u128 \<Rightarrow> bool bt" where
  "adjacency_delete source_id type_id target_id =
     (let key = edge_adjacency_key source_id type_id target_id in delete_key key)"

definition adjacency_lookup :: "btree \<Rightarrow> u128 \<Rightarrow> u64 \<Rightarrow> u128 \<Rightarrow> slot_ref option option" where
  "adjacency_lookup t source_id type_id target_id =
     index_lookup decode_value t (edge_adjacency_key source_id type_id target_id)"

definition adjacency_scan_leaf :: "bytes \<Rightarrow> u128 \<Rightarrow> u64 \<Rightarrow> slot_ref list option" where
  "adjacency_scan_leaf page source_id type_id =
     (let prefix = take 24 (edge_adjacency_key source_id type_id 0) in
      scan_page (\<lambda>key value. if length key \<ge> 24 \<and> take 24 key = prefix then slot_value value else None) page)"

definition scan_outgoing :: "btree \<Rightarrow> u128 \<Rightarrow> u64 \<Rightarrow> slot_ref list option" where
  "scan_outgoing t source_id type_id =
     (let start_key = edge_adjacency_key source_id type_id 0 in
      if get_page t (root_page_id t) = None then Some []
      else scan_from (\<lambda>leaf. adjacency_scan_leaf leaf source_id type_id) t start_key)"

definition scan_incoming :: "btree \<Rightarrow> u128 \<Rightarrow> slot_ref list option" where
  "scan_incoming t target_id =
     (if get_page t (root_page_id t) = None then Some []
      else scan_from (scan_page (\<lambda>key value.
          if length key \<ge> 40 then
            let target = from_be_bytes (slice key 24 16) in if target = target_id then slot_value value else None
          else None)) t (edge_adjacency_key 0 0 0))"

subsection \<open>Property values\<close>

text \<open>A value that cannot be encoded is indexed like \<open>NULL\<close>.\<close>

definition serialize_value :: "value_type \<Rightarrow> bytes \<Rightarrow> bytes" where
  "serialize_value vt payload = (case encode_property_value vt payload of Some s \<Rightarrow> s | None \<Rightarrow> [0x00])"

definition property_insert :: "u64 \<Rightarrow> value_type \<Rightarrow> bytes \<Rightarrow> u128 \<Rightarrow> slot_ref \<Rightarrow> unit bt" where
  "property_insert property_id vt payload entity_id slot =
     (let serialized = serialize_value vt payload; key = property_index_key property_id serialized entity_id;
          value = to_be_bytes (slot_raw slot) in bt_insert key value)"

definition property_delete :: "u64 \<Rightarrow> value_type \<Rightarrow> bytes \<Rightarrow> u128 \<Rightarrow> bool bt" where
  "property_delete property_id vt payload entity_id =
     (let serialized = serialize_value vt payload; key = property_index_key property_id serialized entity_id in delete_key key)"

definition property_lookup :: "btree \<Rightarrow> u64 \<Rightarrow> value_type \<Rightarrow> bytes \<Rightarrow> u128 \<Rightarrow> slot_ref option option" where
  "property_lookup t property_id vt payload entity_id =
     (let serialized = serialize_value vt payload; key = property_index_key property_id serialized entity_id
      in index_lookup decode_value t key)"

definition property_scan_leaf :: "bytes \<Rightarrow> u64 \<Rightarrow> bytes \<Rightarrow> slot_ref list option" where
  "property_scan_leaf page property_id serialized_value =
     (let prefix_len = 8 + length serialized_value;
          expected_prefix = take prefix_len (property_index_key property_id serialized_value 0) in
      scan_page (\<lambda>key value. if length key \<ge> prefix_len \<and> take prefix_len key = expected_prefix then slot_value value else None) page)"

definition property_scan :: "btree \<Rightarrow> u64 \<Rightarrow> value_type \<Rightarrow> bytes \<Rightarrow> slot_ref list option" where
  "property_scan t property_id vt payload =
     (let serialized = serialize_value vt payload; start_key = property_index_key property_id serialized 0 in
      if get_page t (root_page_id t) = None then Some []
      else scan_from (\<lambda>leaf. property_scan_leaf leaf property_id serialized) t start_key)"

section \<open>Slots as values\<close>

abbreviation slot_bytes :: "slot_ref \<Rightarrow> bytes" where
  "slot_bytes slot \<equiv> to_be_bytes (slot_raw slot)"

lemma slot_value_bytes [simp]: "slot_value (slot_bytes slot) = Some slot"
  by (simp add: slot_value_def slice_def)

lemma layouts [simp]: "layout_ok 24 4" "layout_ok 40 4" "layout_ok 40 12"
  by (simp_all add: layout_ok_def sizes_ok_def merge_ok_def min_fill_def leaf_cap_def branch_cap_def)

lemma to_from_be_u128 [simp]: "from_be_bytes (to_be_bytes (v :: u128)) = v"
  by (rule from_to_be_u128)

lemma pair_key_inj: "inj (\<lambda>(a :: u64, b :: u128). to_be_bytes a @ to_be_bytes b)"
  by (auto simp: inj_def)

lemma pair_key_order: "to_be_bytes (a :: u64) @ to_be_bytes (b :: u128) < to_be_bytes a @ to_be_bytes b' \<longleftrightarrow> b < b'"
  by (subst lex_append) simp_all

lemma u128_zero_least: "to_be_bytes (a :: u64) @ to_be_bytes (0 :: u128) \<le> to_be_bytes a @ to_be_bytes (b :: u128)"
proof (cases "b = 0")
  case False
  then have "0 < b" by (simp add: word_gt_0)
  then show ?thesis using pair_key_order [of a 0 b] by simp
qed simp

lemma decode_value_parts:
  "decode_value page slot = (case bt_key page slot of None \<Rightarrow> Some None | Some kv \<Rightarrow> map_option (\<lambda>(_, value). slot_value value) (record_parts kv))"
  by (simp add: decode_value_def)

section \<open>Labels and types\<close>

interpretation labels: typed_index "\<lambda>(l, n). label_index_key l n" 24 slot_bytes 4 "\<lambda>_. True" slot_value
  using pair_key_inj by unfold_locales (auto simp: label_index_key_def)

interpretation types: typed_index "\<lambda>(l, n). type_index_key l n" 24 slot_bytes 4 "\<lambda>_. True" slot_value
  using pair_key_inj by unfold_locales (auto simp: type_index_key_def)

text \<open>The matching keys of a scan by the first component, as a list of second components.\<close>

lemma scan_seconds:
  fixes m :: "u64 \<times> u128 \<rightharpoonup> 'v"
  assumes "set ks = {k \<in> dom m. fst k = l}"
    "sorted_wrt (\<lambda>x y. (case x of (a, b) \<Rightarrow> to_be_bytes a @ to_be_bytes b) < (case y of (a, b) \<Rightarrow> to_be_bytes a @ to_be_bytes b)) ks"
  shows "\<exists>ns. map (\<lambda>k. the (m k)) ks = map (\<lambda>n. the (m (l, n))) ns \<and> set ns = {n. m (l, n) \<noteq> None} \<and> sorted_wrt (<) ns"
proof -
  have f: "x = (l, snd x)" if "x \<in> set ks" for x
  proof -
    have "x \<in> {k \<in> dom m. fst k = l}" using that unfolding assms(1) .
    then show ?thesis by auto
  qed
  have "sorted_wrt (<) (map snd ks)"
    unfolding sorted_wrt_map
  proof (rule sorted_wrt_mono_rel [OF _ assms(2)])
    fix x y assume a: "x \<in> set ks" "y \<in> set ks"
      "(case x of (a, b) \<Rightarrow> to_be_bytes a @ to_be_bytes b) < (case y of (a, b) \<Rightarrow> to_be_bytes a @ to_be_bytes b)"
    show "snd x < snd y"
      using a(3) f [OF a(1)] f [OF a(2)] pair_key_order [of l "snd x" "snd y"] by (metis case_prod_conv)
  qed
  moreover have "map (\<lambda>k. the (m k)) ks = map (\<lambda>n. the (m (l, n))) (map snd ks)"
    using f by (auto simp: comp_def)
  moreover have "set (map snd ks) = {n. m (l, n) \<noteq> None}"
    using assms(1) by force
  ultimately show ?thesis by blast
qed

lemma label_scan_eq:
  assumes "typed_holds (\<lambda>(l, n). label_index_key l n) 24 slot_bytes 4 (\<lambda>_. True) n m t"
  shows "\<exists>ns. label_scan t l = Some (map (\<lambda>n. the (m (l, n))) ns) \<and> set ns = {n. m (l, n) \<noteq> None} \<and> sorted_wrt (<) ns"
proof -
  let ?sel = "\<lambda>key value. if length key \<ge> 8 \<and> take 8 key = to_be_bytes l then slot_value value else None"
  have sel: "?sel (case k of (l, n) \<Rightarrow> label_index_key l n) (slot_bytes v) = (if fst k = l then Some v else None)" for k v
    by (cases k) (simp add: label_index_key_def)
  have low: "label_index_key l 0 \<le> (case k of (l, n) \<Rightarrow> label_index_key l n)" if "fst k = l" for k
    using that u128_zero_least by (cases k) (simp add: label_index_key_def)
  note sc = labels.scan [OF assms, of ?sel "\<lambda>k. fst k = l" "\<lambda>_ v. v" "label_index_key l 0", OF sel low]
  have "label_scan t l = scan_from (scan_page ?sel) t (label_index_key l 0)"
    using sc(2) unfolding label_scan_def label_scan_leaf_def Let_def by auto
  then show ?thesis
    using sc(1) scan_seconds [of _ m l] unfolding label_index_key_def by auto
qed

lemma type_scan_eq:
  assumes "typed_holds (\<lambda>(l, n). type_index_key l n) 24 slot_bytes 4 (\<lambda>_. True) n m t"
  shows "\<exists>ns. type_scan t l = Some (map (\<lambda>n. the (m (l, n))) ns) \<and> set ns = {n. m (l, n) \<noteq> None} \<and> sorted_wrt (<) ns"
proof -
  let ?sel = "\<lambda>key value. if length key \<ge> 8 \<and> take 8 key = to_be_bytes l then slot_value value else None"
  have sel: "?sel (case k of (l, n) \<Rightarrow> type_index_key l n) (slot_bytes v) = (if fst k = l then Some v else None)" for k v
    by (cases k) (simp add: type_index_key_def)
  have low: "type_index_key l 0 \<le> (case k of (l, n) \<Rightarrow> type_index_key l n)" if "fst k = l" for k
    using that u128_zero_least by (cases k) (simp add: type_index_key_def)
  note sc = types.scan [OF assms, of ?sel "\<lambda>k. fst k = l" "\<lambda>_ v. v" "type_index_key l 0", OF sel low]
  have "type_scan t l = scan_from (scan_page ?sel) t (type_index_key l 0)"
    unfolding type_scan_def type_scan_leaf_def Let_def by simp
  then show ?thesis
    using sc(1) scan_seconds [of _ m l] unfolding type_index_key_def by auto
qed

text \<open>The label index refines a map from labels and nodes to slots: any sequence of fewer than
  2^31 insertions and deletions, within the tree's capacity, returns without a panic or an error;
  a lookup then finds the slot of the map, and the scan of a label returns the slots of all its
  nodes, in the order of the node ids.\<close>

theorem label_index_refines_map:
  assumes "length ops < 2 ^ 31" "ops_fit (typed_fit 24 4 (\<lambda>_. True)) ops Map.empty"
  shows "\<exists>t. run_ops (\<lambda>(l, n). label_insert l n) (\<lambda>(l, n). label_delete l n) ops btree_new = Some (Inr (op_replies ops Map.empty), t) \<and>
    (let m = fold op_map ops Map.empty in
     (\<forall>l n. label_lookup t l n = Some (m (l, n))) \<and>
     (\<forall>l. \<exists>ns. label_scan t l = Some (map (\<lambda>n. the (m (l, n))) ns) \<and> set ns = {n. m (l, n) \<noteq> None} \<and> sorted_wrt (<) ns))"
proof -
  have ops: "(\<lambda>(l, n). label_insert l n) = (\<lambda>k v. bt_insert (case k of (l, n) \<Rightarrow> label_index_key l n) (slot_bytes v))"
    "(\<lambda>(l, n). label_delete l n) = (\<lambda>k. delete_key (case k of (l, n) \<Rightarrow> label_index_key l n))"
    by (auto simp: fun_eq_iff label_insert_def label_delete_def)
  obtain t where t: "run_ops (\<lambda>(l, n). label_insert l n) (\<lambda>(l, n). label_delete l n) ops btree_new = Some (Inr (op_replies ops Map.empty), t)"
    "typed_holds (\<lambda>(l, n). label_index_key l n) 24 slot_bytes 4 (\<lambda>_. True) 0 (fold op_map ops Map.empty) t"
    unfolding ops using labels.store.run_ops_law [OF labels.empty [OF assms(1)] order_refl assms(2)] by blast
  show ?thesis
    using t(1) labels.lookup [OF t(2), of decode_value, OF decode_value_parts] label_scan_eq [OF t(2)]
    by (force simp: label_lookup_def Let_def)
qed

theorem label_index_refines_map_witness:
  "\<exists>t. run_ops (\<lambda>(l, n). label_insert l n) (\<lambda>(l, n). label_delete l n)
      [Put (7, 2) (SlotRef 20), Put (7, 1) (SlotRef 10), Put (8, 1) (SlotRef 30), Remove (8, 1)] btree_new =
        Some (Inr [True, True, True, True], t) \<and>
    label_lookup t 7 2 = Some (Some (SlotRef 20)) \<and> label_scan t 8 = Some []"
proof -
  let ?ops = "[Put (7, 2) (SlotRef 20), Put (7, 1) (SlotRef 10), Put (8, 1) (SlotRef 30), Remove (8, 1)] :: (u64 \<times> u128, slot_ref) store_op list"
  have f: "ops_fit (typed_fit 24 4 (\<lambda>_. True)) ?ops Map.empty"
    by (simp add: room_def capacity_def min_fill_def branch_cap_def)
  have r: "op_replies ?ops Map.empty = [True, True, True, True]" by simp
  have m: "fold op_map ?ops Map.empty = [(7, 2) \<mapsto> SlotRef 20, (7, 1) \<mapsto> SlotRef 10]" by (auto simp: fun_eq_iff)
  let ?m = "[(7, 2) \<mapsto> SlotRef 20, (7, 1) \<mapsto> SlotRef 10] :: u64 \<times> u128 \<rightharpoonup> slot_ref"
  obtain t where t: "run_ops (\<lambda>(l, n). label_insert l n) (\<lambda>(l, n). label_delete l n) ?ops btree_new = Some (Inr [True, True, True, True], t)"
    and l: "\<forall>l n. label_lookup t l n = Some (?m (l, n))"
    and s: "\<forall>l. \<exists>ns. label_scan t l = Some (map (\<lambda>n. the (?m (l, n))) ns) \<and> set ns = {n. ?m (l, n) \<noteq> None} \<and> sorted_wrt (<) ns"
    using label_index_refines_map [OF _ f, unfolded r m Let_def] by auto
  have "label_lookup t 7 2 = Some (Some (SlotRef 20))" using spec [OF spec [OF l, of 7], of 2] by simp
  moreover obtain ns where "label_scan t 8 = Some (map (\<lambda>n. the (?m (8, n))) ns)" "set ns = {n. ?m (8, n) \<noteq> None}"
    using spec [OF s, of 8] by blast
  then have "label_scan t 8 = Some []" by simp
  ultimately show ?thesis using t by blast
qed

text \<open>The type index likewise.\<close>

lemma type_index_refines_map:
  assumes "length ops < 2 ^ 31" "ops_fit (typed_fit 24 4 (\<lambda>_. True)) ops Map.empty"
  shows "\<exists>t. run_ops (\<lambda>(l, n). type_insert l n) (\<lambda>(l, n). type_delete l n) ops btree_new = Some (Inr (op_replies ops Map.empty), t) \<and>
    (let m = fold op_map ops Map.empty in
     (\<forall>l n. type_lookup t l n = Some (m (l, n))) \<and>
     (\<forall>l. \<exists>ns. type_scan t l = Some (map (\<lambda>n. the (m (l, n))) ns) \<and> set ns = {n. m (l, n) \<noteq> None} \<and> sorted_wrt (<) ns))"
proof -
  have ops: "(\<lambda>(l, n). type_insert l n) = (\<lambda>k v. bt_insert (case k of (l, n) \<Rightarrow> type_index_key l n) (slot_bytes v))"
    "(\<lambda>(l, n). type_delete l n) = (\<lambda>k. delete_key (case k of (l, n) \<Rightarrow> type_index_key l n))"
    by (auto simp: fun_eq_iff type_insert_def type_delete_def)
  obtain t where t: "run_ops (\<lambda>(l, n). type_insert l n) (\<lambda>(l, n). type_delete l n) ops btree_new = Some (Inr (op_replies ops Map.empty), t)"
    "typed_holds (\<lambda>(l, n). type_index_key l n) 24 slot_bytes 4 (\<lambda>_. True) 0 (fold op_map ops Map.empty) t"
    unfolding ops using types.store.run_ops_law [OF types.empty [OF assms(1)] order_refl assms(2)] by blast
  show ?thesis
    using t(1) types.lookup [OF t(2), of decode_value, OF decode_value_parts] type_scan_eq [OF t(2)]
    by (force simp: type_lookup_def Let_def)
qed

section \<open>Adjacency\<close>

abbreviation edge_key :: "u128 \<times> u64 \<times> u128 \<Rightarrow> bytes" where
  "edge_key \<equiv> \<lambda>(s, e, d). edge_adjacency_key s e d"

interpretation edges: typed_index edge_key 40 slot_bytes 4 "\<lambda>_. True" slot_value
proof
  show "inj edge_key" by (auto simp: inj_def edge_adjacency_key_def)
qed (auto simp: edge_adjacency_key_def)

lemma edge_key_order: "edge_key (s, e, d) < edge_key (s, e, d') \<longleftrightarrow> d < d'"
  by (simp add: edge_adjacency_key_def lex_append)

lemma edge_key_least: "edge_key (s, e, 0) \<le> edge_key (s, e, d)"
  using edge_key_order [of s e 0 d] by (cases "d = 0") (auto simp: word_gt_0 less_imp_le)

lemma edge_key_zero: "edge_key (0, 0, 0) \<le> edge_key (s, e, d)"
  by (cases "s = 0"; cases "e = 0"; cases "d = 0")
    (auto simp: edge_adjacency_key_def le_less lex_append word_gt_0)

lemma scan_outgoing_eq:
  assumes "typed_holds edge_key 40 slot_bytes 4 (\<lambda>_. True) n m t"
  shows "\<exists>ds. scan_outgoing t s e = Some (map (\<lambda>d. the (m (s, e, d))) ds) \<and> set ds = {d. m (s, e, d) \<noteq> None} \<and> sorted_wrt (<) ds"
proof -
  let ?sel = "\<lambda>key value. if length key \<ge> 24 \<and> take 24 key = take 24 (edge_adjacency_key s e 0) then slot_value value else None"
  let ?P = "\<lambda>k. fst k = s \<and> fst (snd k) = e"
  have sel: "?sel (edge_key k) (slot_bytes v) = (if ?P k then Some v else None)" for k v
    by (cases k) (simp add: edge_adjacency_key_def)
  have low: "edge_adjacency_key s e 0 \<le> edge_key k" if "?P k" for k
    using that edge_key_least [of s e "snd (snd k)"] by (cases k) auto
  note sc = edges.scan [OF assms, of ?sel ?P "\<lambda>_ v. v" "edge_adjacency_key s e 0", OF sel low]
  have "scan_outgoing t s e = scan_from (scan_page ?sel) t (edge_adjacency_key s e 0)"
    using sc(2) unfolding scan_outgoing_def adjacency_scan_leaf_def Let_def by auto
  then obtain ks where ks: "scan_outgoing t s e = Some (map (\<lambda>k. the (m k)) ks)" "set ks = {k \<in> dom m. ?P k}"
    "sorted_wrt (\<lambda>a b. edge_key a < edge_key b) ks"
    using sc(1) by auto
  have f: "x = (s, e, snd (snd x))" if "x \<in> set ks" for x
    using that unfolding ks(2) by auto
  have "sorted_wrt (<) (map (snd \<circ> snd) ks)"
    unfolding sorted_wrt_map
  proof (rule sorted_wrt_mono_rel [OF _ ks(3)])
    fix x y assume a: "x \<in> set ks" "y \<in> set ks" "edge_key x < edge_key y"
    show "(snd \<circ> snd) x < (snd \<circ> snd) y"
      using a(3) f [OF a(1)] f [OF a(2)] edge_key_order [of s e "snd (snd x)" "snd (snd y)"] by (metis comp_apply)
  qed
  moreover have "map (\<lambda>k. the (m k)) ks = map (\<lambda>d. the (m (s, e, d))) (map (snd \<circ> snd) ks)"
    using f by (auto simp: comp_def)
  moreover have "set (map (snd \<circ> snd) ks) = {d. m (s, e, d) \<noteq> None}"
    using ks(2) by force
  ultimately show ?thesis using ks(1) by (intro exI [of _ "map (snd \<circ> snd) ks"]) simp
qed

lemma scan_incoming_eq:
  assumes "typed_holds edge_key 40 slot_bytes 4 (\<lambda>_. True) n m t"
  shows "\<exists>ks. scan_incoming t d = Some (map (\<lambda>k. the (m k)) ks) \<and> set ks = {k \<in> dom m. snd (snd k) = d} \<and>
    sorted_wrt (\<lambda>a b. edge_key a < edge_key b) ks"
proof -
  let ?sel = "\<lambda>key value. if length key \<ge> 40 then let target = from_be_bytes (slice key 24 16) in if target = d then slot_value value else None else None"
  have sel: "?sel (edge_key k) (slot_bytes v) = (if snd (snd k) = d then Some v else None)" for k v
    by (cases k) (simp add: edge_adjacency_key_def slice_def)
  have low: "edge_adjacency_key 0 0 0 \<le> edge_key k" if "snd (snd k) = d" for k
    using edge_key_zero [of "fst k" "fst (snd k)" "snd (snd k)"] by simp
  note sc = edges.scan [OF assms, of ?sel "\<lambda>k. snd (snd k) = d" "\<lambda>_ v. v" "edge_adjacency_key 0 0 0", OF sel low]
  have "scan_incoming t d = scan_from (scan_page ?sel) t (edge_adjacency_key 0 0 0)"
    using sc(2) unfolding scan_incoming_def by auto
  then show ?thesis using sc(1) by simp
qed

text \<open>C13. The adjacency index refines a map from edges (source, type, target) to slots: any sequence
  of fewer than 2^31 insertions and deletions within the capacity returns without a panic or an
  error; a lookup finds the slot of the map, the scan of the outgoing edges of a node by type
  returns their slots in the order of the targets, and the scan of the incoming edges returns the
  slots of all edges to a target.\<close>

theorem adjacency_index_refines_map:
  assumes "length ops < 2 ^ 31" "ops_fit (typed_fit 40 4 (\<lambda>_. True)) ops Map.empty"
  shows "\<exists>t. run_ops (\<lambda>(s, e, d). adjacency_insert s e d) (\<lambda>(s, e, d). adjacency_delete s e d) ops btree_new
      = Some (Inr (op_replies ops Map.empty), t) \<and>
    (let m = fold op_map ops Map.empty in
     (\<forall>s e d. adjacency_lookup t s e d = Some (m (s, e, d))) \<and>
     (\<forall>s e. \<exists>ds. scan_outgoing t s e = Some (map (\<lambda>d. the (m (s, e, d))) ds) \<and> set ds = {d. m (s, e, d) \<noteq> None} \<and> sorted_wrt (<) ds) \<and>
     (\<forall>d. \<exists>ks. scan_incoming t d = Some (map (\<lambda>k. the (m k)) ks) \<and> set ks = {k \<in> dom m. snd (snd k) = d}))"
proof -
  have ops: "(\<lambda>(s, e, d). adjacency_insert s e d) = (\<lambda>k v. bt_insert (edge_key k) (slot_bytes v))"
    "(\<lambda>(s, e, d). adjacency_delete s e d) = (\<lambda>k. delete_key (edge_key k))"
    by (auto simp: fun_eq_iff adjacency_insert_def adjacency_delete_def)
  obtain t where t: "run_ops (\<lambda>(s, e, d). adjacency_insert s e d) (\<lambda>(s, e, d). adjacency_delete s e d) ops btree_new
      = Some (Inr (op_replies ops Map.empty), t)"
    "typed_holds edge_key 40 slot_bytes 4 (\<lambda>_. True) 0 (fold op_map ops Map.empty) t"
    unfolding ops using edges.store.run_ops_law [OF edges.empty [OF assms(1)] order_refl assms(2)] by blast
  have "adjacency_lookup t s e d = Some (fold op_map ops Map.empty (s, e, d))" for s e d
    using edges.lookup [OF t(2), of decode_value, OF decode_value_parts, of "(s, e, d)"] by (simp add: adjacency_lookup_def)
  then show ?thesis
    using t(1) scan_outgoing_eq [OF t(2)] scan_incoming_eq [OF t(2)] unfolding Let_def by blast
qed

theorem adjacency_index_refines_map_witness:
  "\<exists>t. run_ops (\<lambda>(s, e, d). adjacency_insert s e d) (\<lambda>(s, e, d). adjacency_delete s e d)
      [Put (1, 5, 2) (SlotRef 20), Put (1, 5, 3) (SlotRef 30), Remove (1, 5, 3)] btree_new = Some (Inr [True, True, True], t) \<and>
    adjacency_lookup t 1 5 2 = Some (Some (SlotRef 20)) \<and> adjacency_lookup t 1 5 3 = Some None"
proof -
  let ?ops = "[Put (1, 5, 2) (SlotRef 20), Put (1, 5, 3) (SlotRef 30), Remove (1, 5, 3)] :: (u128 \<times> u64 \<times> u128, slot_ref) store_op list"
  have f: "ops_fit (typed_fit 40 4 (\<lambda>_. True)) ?ops Map.empty"
    by (simp add: room_def capacity_def min_fill_def branch_cap_def)
  have r: "op_replies ?ops Map.empty = [True, True, True]" by simp
  have m: "fold op_map ?ops Map.empty = [(1, 5, 2) \<mapsto> SlotRef 20]" by (auto simp: fun_eq_iff)
  let ?m = "[(1, 5, 2) \<mapsto> SlotRef 20] :: u128 \<times> u64 \<times> u128 \<rightharpoonup> slot_ref"
  obtain t where t: "run_ops (\<lambda>(s, e, d). adjacency_insert s e d) (\<lambda>(s, e, d). adjacency_delete s e d) ?ops btree_new = Some (Inr [True, True, True], t)"
    and l: "\<forall>s e d. adjacency_lookup t s e d = Some (?m (s, e, d))"
    using adjacency_index_refines_map [OF _ f, unfolded r m Let_def] by auto
  have "adjacency_lookup t 1 5 2 = Some (Some (SlotRef 20))" "adjacency_lookup t 1 5 3 = Some None"
    using spec [OF spec [OF spec [OF l, of 1], of 5], of 2] spec [OF spec [OF spec [OF l, of 1], of 5], of 3] by simp_all
  then show ?thesis using t by blast
qed

section \<open>Property values\<close>

text \<open>Integers are encoded in nine bytes, so an index of integer properties has keys of one length.\<close>

lemma serialize_int: "serialize_value TInt64 (to_be_bytes i) = 0x02 # to_be_bytes (order_i64 i)"
  by (simp add: serialize_value_def encode_property_value_def value_encode_def slice_def MAX_ENCODED_LEN_def)

abbreviation int_key :: "u64 \<times> i64 \<times> u128 \<Rightarrow> bytes" where
  "int_key \<equiv> \<lambda>(p, i, e). property_index_key p (serialize_value TInt64 (to_be_bytes i)) e"

interpretation ints: typed_index int_key 33 slot_bytes 4 "\<lambda>_. True" slot_value
proof
  show "inj int_key" by (auto simp: inj_def property_index_key_def serialize_int)
  show "layout_ok 33 4"
    by (simp add: layout_ok_def sizes_ok_def merge_ok_def min_fill_def leaf_cap_def branch_cap_def)
qed (auto simp: property_index_key_def serialize_int)

lemma int_key_order: "int_key (p, i, e) < int_key (p, i, e') \<longleftrightarrow> e < e'"
  by (simp add: property_index_key_def serialize_int lex_append)

lemma int_key_least: "int_key (p, i, 0) \<le> int_key (p, i, e)"
  using int_key_order [of p i 0 e] by (cases "e = 0") (auto simp: word_gt_0 less_imp_le)

lemma property_scan_int:
  assumes "typed_holds int_key 33 slot_bytes 4 (\<lambda>_. True) n m t"
  shows "\<exists>es. property_scan t p TInt64 (to_be_bytes i) = Some (map (\<lambda>e. the (m (p, i, e))) es) \<and>
    set es = {e. m (p, i, e) \<noteq> None} \<and> sorted_wrt (<) es"
proof -
  let ?sel = "\<lambda>key value. if length key \<ge> 17 \<and> take 17 key = take 17 (int_key (p, i, 0)) then slot_value value else None"
  let ?P = "\<lambda>k. fst k = p \<and> fst (snd k) = i"
  have sel: "?sel (int_key k) (slot_bytes v) = (if ?P k then Some v else None)" for k v
    by (cases k) (auto simp: property_index_key_def serialize_int)
  have low: "int_key (p, i, 0) \<le> int_key k" if "?P k" for k
    using that int_key_least [of p i "snd (snd k)"] by (cases k) auto
  note sc = ints.scan [OF assms, of ?sel ?P "\<lambda>_ v. v" "int_key (p, i, 0)", OF sel low]
  have "property_scan t p TInt64 (to_be_bytes i) = scan_from (scan_page ?sel) t (int_key (p, i, 0))"
    using sc(2) unfolding property_scan_def property_scan_leaf_def Let_def by (auto simp: serialize_int)
  then obtain ks where ks: "property_scan t p TInt64 (to_be_bytes i) = Some (map (\<lambda>k. the (m k)) ks)" "set ks = {k \<in> dom m. ?P k}"
    "sorted_wrt (\<lambda>a b. int_key a < int_key b) ks"
    using sc(1) by auto
  have f: "x = (p, i, snd (snd x))" if "x \<in> set ks" for x
    using that unfolding ks(2) by auto
  have "sorted_wrt (<) (map (snd \<circ> snd) ks)"
    unfolding sorted_wrt_map
  proof (rule sorted_wrt_mono_rel [OF _ ks(3)])
    fix x y assume a: "x \<in> set ks" "y \<in> set ks" "int_key x < int_key y"
    show "(snd \<circ> snd) x < (snd \<circ> snd) y"
      using a(3) f [OF a(1)] f [OF a(2)] int_key_order [of p i "snd (snd x)" "snd (snd y)"] by (metis comp_apply)
  qed
  moreover have "map (\<lambda>k. the (m k)) ks = map (\<lambda>d. the (m (p, i, d))) (map (snd \<circ> snd) ks)"
    using f by (auto simp: comp_def)
  moreover have "set (map (snd \<circ> snd) ks) = {d. m (p, i, d) \<noteq> None}"
    using ks(2) by force
  ultimately show ?thesis using ks(1) by (intro exI [of _ "map (snd \<circ> snd) ks"]) simp
qed

text \<open>C16. The property index over integer values refines a map from properties, values and entities
  to slots, and its scan of a property and a value returns the slots of exactly the entities with
  that value, in the order of the entity ids.\<close>

theorem property_index_refines_map:
  fixes ops :: "(u64 \<times> i64 \<times> u128, slot_ref) store_op list"
  assumes "length ops < 2 ^ 31" "ops_fit (typed_fit 33 4 (\<lambda>_. True)) ops Map.empty"
  shows "\<exists>t. run_ops (\<lambda>(p, i, e). property_insert p TInt64 (to_be_bytes i) e) (\<lambda>(p, i, e). property_delete p TInt64 (to_be_bytes i) e)
      ops btree_new = Some (Inr (op_replies ops Map.empty), t) \<and>
    (let m = fold op_map ops Map.empty in
     (\<forall>p i e. property_lookup t p TInt64 (to_be_bytes i) e = Some (m (p, i, e))) \<and>
     (\<forall>p i. \<exists>es. property_scan t p TInt64 (to_be_bytes i) = Some (map (\<lambda>e. the (m (p, i, e))) es) \<and>
        set es = {e. m (p, i, e) \<noteq> None} \<and> sorted_wrt (<) es))"
proof -
  have ops: "(\<lambda>(p, i, e). property_insert p TInt64 (to_be_bytes i) e) = (\<lambda>k v. bt_insert (int_key k) (slot_bytes v))"
    "(\<lambda>(p, i, e). property_delete p TInt64 (to_be_bytes i) e) = (\<lambda>k. delete_key (int_key k))"
    by (auto simp: fun_eq_iff property_insert_def property_delete_def)
  obtain t where t: "run_ops (\<lambda>(p, i, e). property_insert p TInt64 (to_be_bytes i) e) (\<lambda>(p, i, e). property_delete p TInt64 (to_be_bytes i) e)
      ops btree_new = Some (Inr (op_replies ops Map.empty), t)"
    "typed_holds int_key 33 slot_bytes 4 (\<lambda>_. True) 0 (fold op_map ops Map.empty) t"
    unfolding ops using ints.store.run_ops_law [OF ints.empty [OF assms(1)] order_refl assms(2)] by blast
  have "property_lookup t p TInt64 (to_be_bytes i) e = Some (fold op_map ops Map.empty (p, i, e))" for p i e
    using ints.lookup [OF t(2), of decode_value, OF decode_value_parts, of "(p, i, e)"] by (simp add: property_lookup_def)
  then show ?thesis
    using t(1) property_scan_int [OF t(2)] unfolding Let_def by blast
qed

theorem property_index_refines_map_witness:
  "\<exists>t. run_ops (\<lambda>(p, i, e). property_insert p TInt64 (to_be_bytes i) e) (\<lambda>(p, i, e). property_delete p TInt64 (to_be_bytes i) e)
      [Put (1, 42 :: i64, 9) (SlotRef 20), Remove (1, 43, 9)] btree_new = Some (Inr [True, False], t) \<and>
    property_lookup t 1 TInt64 (to_be_bytes (42 :: i64)) 9 = Some (Some (SlotRef 20))"
proof -
  let ?ops = "[Put (1, 42, 9) (SlotRef 20), Remove (1, 43, 9)] :: (u64 \<times> i64 \<times> u128, slot_ref) store_op list"
  have f: "ops_fit (typed_fit 33 4 (\<lambda>_. True)) ?ops Map.empty"
    by (simp add: room_def)
  have r: "op_replies ?ops Map.empty = [True, False]" by simp
  have m: "fold op_map ?ops Map.empty = [(1, 42, 9) \<mapsto> SlotRef 20]" by (auto simp: fun_eq_iff)
  let ?m = "[(1, 42, 9) \<mapsto> SlotRef 20] :: u64 \<times> i64 \<times> u128 \<rightharpoonup> slot_ref"
  obtain t where t: "run_ops (\<lambda>(p, i, e). property_insert p TInt64 (to_be_bytes i) e) (\<lambda>(p, i, e). property_delete p TInt64 (to_be_bytes i) e)
      ?ops btree_new = Some (Inr [True, False], t)"
    and l: "\<forall>p i e. property_lookup t p TInt64 (to_be_bytes i) e = Some (?m (p, i, e))"
    using property_index_refines_map [OF _ f, unfolded r m Let_def] by auto
  have "property_lookup t 1 TInt64 (to_be_bytes (42 :: i64)) 9 = Some (Some (SlotRef 20))"
    using spec [OF spec [OF spec [OF l, of 1], of 42], of 9] by simp
  then show ?thesis using t by blast
qed

text \<open>For strings the scan by a prefix of the key is not an equality: it also returns the entities
  whose value continues the string with a NUL character.\<close>

lemma property_scan_longer_string:
  "\<exists>t. property_insert 1 TString [97, 0] 7 slot btree_new = Some (Inr (), t) \<and> property_scan t 1 TString [97] = Some [slot]"
proof -
  have ser: "serialize_value TString [97, 0] = [0x04, 97, 0, 255, 0]" "serialize_value TString [97] = [0x04, 97, 0]"
    by (simp_all add: serialize_value_def encode_property_value_def value_encode_def escape_bytes_def escape_byte_def MAX_ENCODED_LEN_def)
  define k where "k = property_index_key 1 [0x04, 97, 0, 255, 0] 7"
  have k: "length k = 29" by (simp add: k_def property_index_key_def)
  have l: "layout_ok 29 4"
    by (simp add: layout_ok_def sizes_ok_def merge_ok_def min_fill_def leaf_cap_def branch_cap_def)
  have "stores 29 4 1 [] btree_new" using l by (intro stores_new) (simp_all add: layout_ok_def)
  then obtain t where t: "bt_insert k (slot_bytes slot) btree_new = Some (Inr (), t)" "stores 29 4 0 [(k, slot_bytes slot)] t"
    using stores_put [of 29 4 0 "[]" btree_new k "slot_bytes slot"] l k by (auto simp: admits_def)
  let ?sel = "\<lambda>key value. if length key \<ge> 11 \<and> take 11 key = take 11 (property_index_key 1 [0x04, 97, 0] 0) then slot_value value else None"
  have "\<not> k < property_index_key 1 [0x04, 97, 0] 0"
    by (simp add: k_def property_index_key_def lex_append to_be_bytes_def to_le_bytes_def le_digits_numeral)
  then have sc: "get_page t (root_page_id t) \<noteq> None"
    "scan_from (scan_page ?sel) t (property_index_key 1 [0x04, 97, 0] 0) = Some (selected ?sel [(k, slot_bytes slot)])"
    using scan_from_eq [OF t(2), of "property_index_key 1 [0x04, 97, 0] 0" ?sel] by auto
  have "take 11 k = take 11 (property_index_key 1 [0x04, 97, 0] 0)" by (simp add: k_def property_index_key_def)
  then have "selected ?sel [(k, slot_bytes slot)] = [slot]" using k by (simp add: List.map_filter_simps)
  then have "property_scan t 1 TString [97] = Some [slot]"
    using sc unfolding property_scan_def property_scan_leaf_def Let_def ser by auto
  then show ?thesis using t(1) by (simp add: property_insert_def ser k_def)
qed

end
