(* ===== verification/RdfIndex.thy ===== *)
theory RdfIndex
  imports SecondaryIndex
begin

text \<open>
  The RDF triple and quad store of \<open>src/src/index/rdf_store.rs\<close>: three B+ trees over the same
  triples, whose keys permute subject, predicate and object, so that every pattern is a prefix scan
  of one of them. An insertion writes the three trees one after the other; the graph of a quad is
  part of the value. The store of triples (no graph) and that of quads (all with a graph) have
  values of one size.
\<close>

section \<open>Definitions\<close>

record rdf_triple =
  subject :: u128
  predicate :: u64
  rdf_object :: u128

record rdf_quad =
  quad_graph :: u64
  quad_triple :: rdf_triple

definition quad_new :: "u64 \<Rightarrow> u128 \<Rightarrow> u64 \<Rightarrow> u128 \<Rightarrow> rdf_quad" where
  "quad_new graph s p obj = \<lparr>quad_graph = graph, quad_triple = \<lparr>subject = s, predicate = p, rdf_object = obj\<rparr>\<rparr>"

datatype permutation = Spo | Pos | Osp

definition decode_triple :: "permutation \<Rightarrow> bytes \<Rightarrow> rdf_triple option" where
  "decode_triple perm key =
     (if length key < 40 then None
      else Some (case perm of
        Spo \<Rightarrow> \<lparr>subject = from_be_bytes (slice key 0 16), predicate = from_be_bytes (slice key 16 8), rdf_object = from_be_bytes (slice key 24 16)\<rparr>
      | Pos \<Rightarrow> \<lparr>subject = from_be_bytes (slice key 24 16), predicate = from_be_bytes (slice key 0 8), rdf_object = from_be_bytes (slice key 8 16)\<rparr>
      | Osp \<Rightarrow> \<lparr>subject = from_be_bytes (slice key 16 16), predicate = from_be_bytes (slice key 32 8), rdf_object = from_be_bytes (slice key 0 16)\<rparr>))"

record rdf_store =
  spo :: btree
  pos :: btree
  osp :: btree

definition rdf_new :: rdf_store where
  "rdf_new = \<lparr>spo = btree_new, pos = btree_new, osp = btree_new\<rparr>"

definition rdf_encode_value :: "slot_ref \<Rightarrow> u64 option \<Rightarrow> bytes" where
  "rdf_encode_value slot graph = to_be_bytes (slot_raw slot) @ (case graph of Some g \<Rightarrow> to_be_bytes g | None \<Rightarrow> [])"

text \<open>An operation on one of the trees; the store keeps what the tree has become, also when the
  operation fails.\<close>

definition rdf_bind :: "(rdf_store \<Rightarrow> btree) \<Rightarrow> (btree \<Rightarrow> rdf_store \<Rightarrow> rdf_store) \<Rightarrow> 'a bt \<Rightarrow>
    ('a \<Rightarrow> rdf_store \<Rightarrow> ((btree_error + 'b) \<times> rdf_store) option) \<Rightarrow> rdf_store \<Rightarrow> ((btree_error + 'b) \<times> rdf_store) option" where
  "rdf_bind sel upd op k s =
     (case op (sel s) of
        None \<Rightarrow> None
      | Some (Inl e, t) \<Rightarrow> Some (Inl e, upd t s)
      | Some (Inr a, t) \<Rightarrow> k a (upd t s))"

definition rdf_insert :: "rdf_triple \<Rightarrow> slot_ref \<Rightarrow> u64 option \<Rightarrow> rdf_store \<Rightarrow> ((btree_error + unit) \<times> rdf_store) option" where
  "rdf_insert triple slot graph =
     (let value = rdf_encode_value slot graph in
      rdf_bind spo (\<lambda>t s. s\<lparr>spo := t\<rparr>) (bt_insert (rdf_spo_key (subject triple) (predicate triple) (rdf_object triple)) value) (\<lambda>_.
      rdf_bind pos (\<lambda>t s. s\<lparr>pos := t\<rparr>) (bt_insert (rdf_pos_key (predicate triple) (rdf_object triple) (subject triple)) value) (\<lambda>_.
      rdf_bind osp (\<lambda>t s. s\<lparr>osp := t\<rparr>) (bt_insert (rdf_osp_key (rdf_object triple) (subject triple) (predicate triple)) value) (\<lambda>_ s.
      Some (Inr (), s)))))"

definition rdf_delete :: "rdf_triple \<Rightarrow> rdf_store \<Rightarrow> ((btree_error + bool) \<times> rdf_store) option" where
  "rdf_delete triple =
     rdf_bind spo (\<lambda>t s. s\<lparr>spo := t\<rparr>) (delete_key (rdf_spo_key (subject triple) (predicate triple) (rdf_object triple))) (\<lambda>found.
     rdf_bind pos (\<lambda>t s. s\<lparr>pos := t\<rparr>) (delete_key (rdf_pos_key (predicate triple) (rdf_object triple) (subject triple))) (\<lambda>_.
     rdf_bind osp (\<lambda>t s. s\<lparr>osp := t\<rparr>) (delete_key (rdf_osp_key (rdf_object triple) (subject triple) (predicate triple))) (\<lambda>_ s.
     Some (Inr found, s))))"

definition rdf_value :: "bytes \<Rightarrow> (slot_ref \<times> u64 option) option" where
  "rdf_value value =
     (if length value < 4 then None
      else Some (SlotRef (from_be_bytes (slice value 0 4)),
                 if length value \<ge> 12 then Some (from_be_bytes (slice value 4 8)) else None))"

definition rdf_decode_value :: "bytes \<Rightarrow> nat \<Rightarrow> (slot_ref \<times> u64 option) option option" where
  "rdf_decode_value page slot =
     (case bt_key page slot of
        None \<Rightarrow> Some None
      | Some kv \<Rightarrow> map_option (\<lambda>(_, value). rdf_value value) (record_parts kv))"

definition rdf_lookup :: "rdf_store \<Rightarrow> rdf_triple \<Rightarrow> (slot_ref \<times> u64 option) option option" where
  "rdf_lookup s triple =
     index_lookup rdf_decode_value (spo s) (rdf_spo_key (subject triple) (predicate triple) (rdf_object triple))"

definition decode_key_and_value :: "permutation \<Rightarrow> bytes \<Rightarrow> bytes \<Rightarrow> (rdf_triple \<times> slot_ref \<times> u64 option) option" where
  "decode_key_and_value perm key value =
     (case decode_triple perm key of
        None \<Rightarrow> None
      | Some triple \<Rightarrow> map_option (\<lambda>(slot, graph). (triple, slot, graph)) (rdf_value value))"

definition scan_prefix :: "btree \<Rightarrow> permutation \<Rightarrow> bytes \<Rightarrow> (rdf_triple \<times> slot_ref \<times> u64 option) list option" where
  "scan_prefix t perm prefix =
     (if get_page t (root_page_id t) = None then Some []
      else scan_from (scan_page (\<lambda>key value.
          if take (length prefix) key \<noteq> prefix then None else decode_key_and_value perm key value)) t prefix)"

definition scan_by_subject_predicate :: "rdf_store \<Rightarrow> u128 \<Rightarrow> u64 \<Rightarrow> (rdf_triple \<times> slot_ref \<times> u64 option) list option" where
  "scan_by_subject_predicate s sub p = scan_prefix (spo s) Spo (take 24 (rdf_spo_key sub p 0))"

definition scan_by_subject :: "rdf_store \<Rightarrow> u128 \<Rightarrow> (rdf_triple \<times> slot_ref \<times> u64 option) list option" where
  "scan_by_subject s sub = scan_prefix (spo s) Spo (take 16 (rdf_spo_key sub 0 0))"

definition scan_by_predicate_object :: "rdf_store \<Rightarrow> u64 \<Rightarrow> u128 \<Rightarrow> (rdf_triple \<times> slot_ref \<times> u64 option) list option" where
  "scan_by_predicate_object s p obj = scan_prefix (pos s) Pos (take 24 (rdf_pos_key p obj 0))"

definition scan_by_object :: "rdf_store \<Rightarrow> u128 \<Rightarrow> (rdf_triple \<times> slot_ref \<times> u64 option) list option" where
  "scan_by_object s obj = scan_prefix (osp s) Osp (take 16 (rdf_osp_key obj 0 0))"

section \<open>Keys and values\<close>

abbreviation spo_key :: "rdf_triple \<Rightarrow> bytes" where
  "spo_key t \<equiv> rdf_spo_key (subject t) (predicate t) (rdf_object t)"

abbreviation pos_key :: "rdf_triple \<Rightarrow> bytes" where
  "pos_key t \<equiv> rdf_pos_key (predicate t) (rdf_object t) (subject t)"

abbreviation osp_key :: "rdf_triple \<Rightarrow> bytes" where
  "osp_key t \<equiv> rdf_osp_key (rdf_object t) (subject t) (predicate t)"

text \<open>The values of a store of triples and of a store of quads.\<close>

definition rdf_valid :: "bool \<Rightarrow> slot_ref \<times> u64 option \<Rightarrow> bool" where
  "rdf_valid quads v \<longleftrightarrow> (snd v \<noteq> None) = quads"

definition rdf_value_len :: "bool \<Rightarrow> nat" where
  "rdf_value_len quads = (if quads then 12 else 4)"

abbreviation rdf_bytes :: "slot_ref \<times> u64 option \<Rightarrow> bytes" where
  "rdf_bytes v \<equiv> rdf_encode_value (fst v) (snd v)"

lemma rdf_value_round_trip: "rdf_valid quads v \<Longrightarrow> length (rdf_bytes v) = rdf_value_len quads \<and> rdf_value (rdf_bytes v) = Some v"
  by (cases v; cases "snd v")
    (auto simp: rdf_valid_def rdf_encode_value_def rdf_value_def rdf_value_len_def slice_def)

lemma decode_triple_key [simp]:
  "decode_triple Spo (spo_key t) = Some t" "decode_triple Pos (pos_key t) = Some t" "decode_triple Osp (osp_key t) = Some t"
  by (simp_all add: decode_triple_def rdf_spo_key_def rdf_pos_key_def rdf_osp_key_def slice_def)

lemma length_rdf_keys [simp]: "length (spo_key t) = 40" "length (pos_key t) = 40" "length (osp_key t) = 40"
  by (simp_all add: rdf_spo_key_def rdf_pos_key_def rdf_osp_key_def)

lemma rdf_layout: "layout_ok 40 (rdf_value_len quads)"
  by (simp add: rdf_value_len_def)

interpretation by_spo: typed_index spo_key 40 rdf_bytes "rdf_value_len quads" "rdf_valid quads" rdf_value for quads
proof
  show "inj spo_key" by (rule injI) (metis decode_triple_key(1) option.inject)
qed (use rdf_value_round_trip rdf_layout in simp_all)

interpretation by_pos: typed_index pos_key 40 rdf_bytes "rdf_value_len quads" "rdf_valid quads" rdf_value for quads
proof
  show "inj pos_key" by (rule injI) (metis decode_triple_key(2) option.inject)
qed (use rdf_value_round_trip rdf_layout in simp_all)

interpretation by_osp: typed_index osp_key 40 rdf_bytes "rdf_value_len quads" "rdf_valid quads" rdf_value for quads
proof
  show "inj osp_key" by (rule injI) (metis decode_triple_key(3) option.inject)
qed (use rdf_value_round_trip rdf_layout in simp_all)

section \<open>The store as a map of triples\<close>

definition rdf_holds :: "bool \<Rightarrow> nat \<Rightarrow> (rdf_triple \<rightharpoonup> slot_ref \<times> u64 option) \<Rightarrow> rdf_store \<Rightarrow> bool" where
  "rdf_holds quads n m s \<longleftrightarrow>
     typed_holds spo_key 40 rdf_bytes (rdf_value_len quads) (rdf_valid quads) n m (spo s) \<and>
     typed_holds pos_key 40 rdf_bytes (rdf_value_len quads) (rdf_valid quads) n m (pos s) \<and>
     typed_holds osp_key 40 rdf_bytes (rdf_value_len quads) (rdf_valid quads) n m (osp s)"

interpretation rdf: map_store "typed_fit 40 (rdf_value_len quads) (rdf_valid quads)" "rdf_holds quads"
    "\<lambda>t v. rdf_insert t (fst v) (snd v)" rdf_delete for quads
proof (unfold_locales, goal_cases)
  case (1 n m s n')
  then show ?case by (auto simp: rdf_holds_def intro: by_spo.mono by_pos.mono by_osp.mono)
next
  case (2 n m s t v)
  then have f: "rdf_valid quads v" "room 40 (rdf_value_len quads) m" by simp_all
  obtain t1 t2 t3 where r: "bt_insert (spo_key t) (rdf_bytes v) (spo s) = Some (Inr (), t1)"
      "bt_insert (pos_key t) (rdf_bytes v) (pos s) = Some (Inr (), t2)"
      "bt_insert (osp_key t) (rdf_bytes v) (osp s) = Some (Inr (), t3)"
    and h: "rdf_holds quads n (m(t \<mapsto> v)) \<lparr>spo = t1, pos = t2, osp = t3\<rparr>"
    using 2(1) by_spo.insert [OF _ f, of n "spo s" t] by_pos.insert [OF _ f, of n "pos s" t] by_osp.insert [OF _ f, of n "osp s" t]
    unfolding rdf_holds_def by auto
  have "rdf_insert t (fst v) (snd v) s = Some (Inr (), \<lparr>spo = t1, pos = t2, osp = t3\<rparr>)"
    using r by (cases s) (simp add: rdf_insert_def rdf_bind_def Let_def)
  then show ?case using h by blast
next
  case (3 n m s t)
  obtain t1 t2 t3 where r: "delete_key (spo_key t) (spo s) = Some (Inr (t \<in> dom m), t1)"
      "delete_key (pos_key t) (pos s) = Some (Inr (t \<in> dom m), t2)"
      "delete_key (osp_key t) (osp s) = Some (Inr (t \<in> dom m), t3)"
    and h: "rdf_holds quads n (m(t := None)) \<lparr>spo = t1, pos = t2, osp = t3\<rparr>"
    using 3 by_spo.delete [of quads n m "spo s" t] by_pos.delete [of quads n m "pos s" t] by_osp.delete [of quads n m "osp s" t]
    unfolding rdf_holds_def by auto
  have "rdf_delete t s = Some (Inr (t \<in> dom m), \<lparr>spo = t1, pos = t2, osp = t3\<rparr>)"
    using r by (cases s) (simp add: rdf_delete_def rdf_bind_def)
  then show ?case using h by blast
qed

lemma rdf_holds_new: "n < 2 ^ 31 \<Longrightarrow> rdf_holds quads n Map.empty rdf_new"
  by (simp add: rdf_holds_def rdf_new_def by_spo.empty by_pos.empty by_osp.empty)

section \<open>Scans\<close>

lemma take_le: "take n xs \<le> (xs :: bytes)"
  by (induction xs arbitrary: n) (auto simp: take_Cons split: nat.split)

abbreviation matches :: "(rdf_triple \<rightharpoonup> slot_ref \<times> u64 option) \<Rightarrow> (rdf_triple \<Rightarrow> bool) \<Rightarrow> (rdf_triple \<times> slot_ref \<times> u64 option) list option \<Rightarrow> bool" where
  "matches m P r \<equiv> \<exists>ts. r = Some (map (\<lambda>t. (t, the (m t))) ts) \<and> set ts = {t \<in> dom m. P t} \<and> distinct ts"

lemma sorted_keys_distinct: "sorted_wrt (\<lambda>a b. key a < (key b :: bytes)) ts \<Longrightarrow> distinct ts"
  by (induction ts) auto

lemma select_key:
  assumes "decode_triple perm (key t) = Some t" "rdf_valid quads v" "take (length prefix) (key t) = prefix \<longleftrightarrow> P t"
  shows "(if take (length prefix) (key t) \<noteq> prefix then None else decode_key_and_value perm (key t) (rdf_bytes v)) = (if P t then Some (t, v) else None)"
  using assms rdf_value_round_trip [OF assms(2)] by (cases v) (simp add: decode_key_and_value_def)

lemma prefix_low: "take (length prefix) (key t) = prefix \<Longrightarrow> prefix \<le> (key t :: bytes)"
  using take_le [of "length prefix" "key t"] by simp

lemma scan_spo:
  assumes h: "rdf_holds quads n m s" and P: "\<And>t. take (length prefix) (spo_key t) = prefix \<longleftrightarrow> P t"
  shows "matches m P (scan_prefix (spo s) Spo prefix)"
proof -
  let ?sel = "\<lambda>key value. if take (length prefix) key \<noteq> prefix then None else decode_key_and_value Spo key value"
  have sel: "?sel (spo_key t) (rdf_bytes v) = (if P t then Some (t, v) else None)" if "rdf_valid quads v" for t v
    by (rule select_key [OF decode_triple_key(1) that P])
  have low: "prefix \<le> spo_key t" if "P t" for t
    using that P [of t] by (intro prefix_low) simp
  have h': "typed_holds spo_key 40 rdf_bytes (rdf_value_len quads) (rdf_valid quads) n m (spo s)"
    using h by (simp add: rdf_holds_def)
  note sc = by_spo.scan [OF h', of ?sel P "\<lambda>t v. (t, v)" prefix, OF sel low]
  have "scan_prefix (spo s) Spo prefix = scan_from (scan_page ?sel) (spo s) prefix"
    using sc(2) unfolding scan_prefix_def by auto
  moreover obtain ts where ts: "scan_from (scan_page ?sel) (spo s) prefix = Some (map (\<lambda>t. (t, the (m t))) ts)"
    "set ts = {t \<in> dom m. P t}" "sorted_wrt (\<lambda>a b. spo_key a < spo_key b) ts"
    using sc(1) by blast
  ultimately show ?thesis using sorted_keys_distinct [OF ts(3)] by auto
qed

lemma scan_pos:
  assumes h: "rdf_holds quads n m s" and P: "\<And>t. take (length prefix) (pos_key t) = prefix \<longleftrightarrow> P t"
  shows "matches m P (scan_prefix (pos s) Pos prefix)"
proof -
  let ?sel = "\<lambda>key value. if take (length prefix) key \<noteq> prefix then None else decode_key_and_value Pos key value"
  have sel: "?sel (pos_key t) (rdf_bytes v) = (if P t then Some (t, v) else None)" if "rdf_valid quads v" for t v
    by (rule select_key [OF decode_triple_key(2) that P])
  have low: "prefix \<le> pos_key t" if "P t" for t
    using that P [of t] by (intro prefix_low) simp
  have h': "typed_holds pos_key 40 rdf_bytes (rdf_value_len quads) (rdf_valid quads) n m (pos s)"
    using h by (simp add: rdf_holds_def)
  note sc = by_pos.scan [OF h', of ?sel P "\<lambda>t v. (t, v)" prefix, OF sel low]
  have "scan_prefix (pos s) Pos prefix = scan_from (scan_page ?sel) (pos s) prefix"
    using sc(2) unfolding scan_prefix_def by auto
  moreover obtain ts where ts: "scan_from (scan_page ?sel) (pos s) prefix = Some (map (\<lambda>t. (t, the (m t))) ts)"
    "set ts = {t \<in> dom m. P t}" "sorted_wrt (\<lambda>a b. pos_key a < pos_key b) ts"
    using sc(1) by blast
  ultimately show ?thesis using sorted_keys_distinct [OF ts(3)] by auto
qed

lemma scan_osp:
  assumes h: "rdf_holds quads n m s" and P: "\<And>t. take (length prefix) (osp_key t) = prefix \<longleftrightarrow> P t"
  shows "matches m P (scan_prefix (osp s) Osp prefix)"
proof -
  let ?sel = "\<lambda>key value. if take (length prefix) key \<noteq> prefix then None else decode_key_and_value Osp key value"
  have sel: "?sel (osp_key t) (rdf_bytes v) = (if P t then Some (t, v) else None)" if "rdf_valid quads v" for t v
    by (rule select_key [OF decode_triple_key(3) that P])
  have low: "prefix \<le> osp_key t" if "P t" for t
    using that P [of t] by (intro prefix_low) simp
  have h': "typed_holds osp_key 40 rdf_bytes (rdf_value_len quads) (rdf_valid quads) n m (osp s)"
    using h by (simp add: rdf_holds_def)
  note sc = by_osp.scan [OF h', of ?sel P "\<lambda>t v. (t, v)" prefix, OF sel low]
  have "scan_prefix (osp s) Osp prefix = scan_from (scan_page ?sel) (osp s) prefix"
    using sc(2) unfolding scan_prefix_def by auto
  moreover obtain ts where ts: "scan_from (scan_page ?sel) (osp s) prefix = Some (map (\<lambda>t. (t, the (m t))) ts)"
    "set ts = {t \<in> dom m. P t}" "sorted_wrt (\<lambda>a b. osp_key a < osp_key b) ts"
    using sc(1) by blast
  ultimately show ?thesis using sorted_keys_distinct [OF ts(3)] by auto
qed

text \<open>C9. The RDF store refines a map of triples: from an empty store, any sequence of fewer than 2^31
  insertions and deletions of triples (or of quads) within the capacity keeps the three trees in
  agreement; a lookup finds the slot and the graph of the map, and each pattern scan returns exactly
  the triples that match the pattern, with their slots and graphs, in canonical form and without
  duplicates.\<close>

theorem rdf_store_refines_map:
  assumes "length ops < 2 ^ 31" "ops_fit (typed_fit 40 (rdf_value_len quads) (rdf_valid quads)) ops Map.empty"
  shows "\<exists>s. run_ops (\<lambda>t v. rdf_insert t (fst v) (snd v)) rdf_delete ops rdf_new = Some (Inr (op_replies ops Map.empty), s) \<and>
    (let m = fold op_map ops Map.empty in
     (\<forall>t. rdf_lookup s t = Some (m t)) \<and>
     (\<forall>sub. matches m (\<lambda>t. subject t = sub) (scan_by_subject s sub)) \<and>
     (\<forall>sub p. matches m (\<lambda>t. subject t = sub \<and> predicate t = p) (scan_by_subject_predicate s sub p)) \<and>
     (\<forall>p obj. matches m (\<lambda>t. predicate t = p \<and> rdf_object t = obj) (scan_by_predicate_object s p obj)) \<and>
     (\<forall>obj. matches m (\<lambda>t. rdf_object t = obj) (scan_by_object s obj)))"
proof -
  let ?m = "fold op_map ops Map.empty"
  obtain s where s: "run_ops (\<lambda>t v. rdf_insert t (fst v) (snd v)) rdf_delete ops rdf_new = Some (Inr (op_replies ops Map.empty), s)"
    "rdf_holds quads 0 ?m s"
    using rdf.run_ops_law [OF rdf_holds_new [OF assms(1)] order_refl assms(2)] by blast
  have "rdf_lookup s t = Some (?m t)" for t
    using by_spo.lookup [of quads 0 ?m "spo s" rdf_decode_value t] s(2) by (simp add: rdf_holds_def rdf_lookup_def rdf_decode_value_def)
  moreover have "matches ?m (\<lambda>t. subject t = sub) (scan_by_subject s sub)" for sub
    unfolding scan_by_subject_def by (rule scan_spo [OF s(2)]) (simp add: rdf_spo_key_def)
  moreover have "matches ?m (\<lambda>t. subject t = sub \<and> predicate t = p) (scan_by_subject_predicate s sub p)" for sub p
    unfolding scan_by_subject_predicate_def by (rule scan_spo [OF s(2)]) (simp add: rdf_spo_key_def)
  moreover have "matches ?m (\<lambda>t. predicate t = p \<and> rdf_object t = obj) (scan_by_predicate_object s p obj)" for p obj
    unfolding scan_by_predicate_object_def by (rule scan_pos [OF s(2)]) (simp add: rdf_pos_key_def)
  moreover have "matches ?m (\<lambda>t. rdf_object t = obj) (scan_by_object s obj)" for obj
    unfolding scan_by_object_def by (rule scan_osp [OF s(2)]) (simp add: rdf_osp_key_def)
  ultimately show ?thesis using s(1) unfolding Let_def by blast
qed

theorem rdf_store_refines_map_witness:
  "\<exists>s. run_ops (\<lambda>t v. rdf_insert t (fst v) (snd v)) rdf_delete
      [Put \<lparr>subject = 1, predicate = 10, rdf_object = 100\<rparr> (SlotRef 5, Some 7)] rdf_new = Some (Inr [True], s) \<and>
    rdf_lookup s \<lparr>subject = 1, predicate = 10, rdf_object = 100\<rparr> = Some (Some (SlotRef 5, Some 7)) \<and>
    scan_by_object s 100 = Some [(\<lparr>subject = 1, predicate = 10, rdf_object = 100\<rparr>, SlotRef 5, Some 7)]"
proof -
  define t :: rdf_triple where "t = \<lparr>subject = 1, predicate = 10, rdf_object = 100\<rparr>"
  let ?m = "[t \<mapsto> (SlotRef 5, Some (7 :: u64))]"
  have f: "ops_fit (typed_fit 40 (rdf_value_len True) (rdf_valid True)) [Put t (SlotRef 5, Some 7)] Map.empty"
    by (simp add: rdf_valid_def room_def)
  have r: "op_replies [Put t (SlotRef 5, Some 7)] Map.empty = [True]" and m: "fold op_map [Put t (SlotRef 5, Some 7)] Map.empty = ?m"
    by simp_all
  obtain s where s: "run_ops (\<lambda>t v. rdf_insert t (fst v) (snd v)) rdf_delete [Put t (SlotRef 5, Some 7)] rdf_new = Some (Inr [True], s)"
    and l: "\<forall>t. rdf_lookup s t = Some (?m t)" and o: "\<forall>obj. matches ?m (\<lambda>t. rdf_object t = obj) (scan_by_object s obj)"
    using rdf_store_refines_map [OF _ f, unfolded r m Let_def] by auto
  have "rdf_lookup s t = Some (Some (SlotRef 5, Some 7))" using spec [OF l, of t] by simp
  moreover obtain ts where ts: "scan_by_object s 100 = Some (map (\<lambda>t. (t, the (?m t))) ts)" "set ts = {u \<in> dom ?m. rdf_object u = 100}" "distinct ts"
    using spec [OF o, of 100] by blast
  have "rdf_object t = 100" by (simp add: t_def)
  then have "set ts = {t}" using ts(2) by auto
  then have "ts = [t]" using ts(3) by (cases ts; cases "tl ts") auto
  then have "scan_by_object s 100 = Some [(t, SlotRef 5, Some 7)]" using ts(1) by simp
  ultimately show ?thesis using s unfolding t_def by blast
qed

end
