(* ===== verification/Catalog.thy ===== *)
theory Catalog
  imports GraphRecord WalWriter "HOL-Library.AList"
begin

text \<open>
  The schema catalog of \<open>src/src/catalog/mod.rs\<close>: names of labels, relationship types and property
  keys with their ids, the encoding of the three tables, and the sidecar file that keeps them. A
  \<open>HashMap\<close> is the list of its pairs in the order in which it iterates; the theorems hold for every
  order. Names are UTF-8 bytes. The temporary file of \<open>persist\<close> is an argument, since the source
  makes its name unique.
\<close>

section \<open>Definitions\<close>

definition CATALOG_MAGIC :: u64 where
  "CATALOG_MAGIC = 0x52474341544C4700"

definition CATALOG_HEADER_LEN :: nat where
  "CATALOG_HEADER_LEN = 16"

type_synonym name_table = "(bytes \<times> u32) list"
type_synonym id_table = "(u32 \<times> bytes) list"

record catalog =
  labels :: name_table
  labels_rev :: id_table
  next_label_id :: u32
  rel_types :: name_table
  rel_types_rev :: id_table
  next_rel_type_id :: u32
  property_keys :: name_table
  property_keys_rev :: id_table
  next_property_key_id :: u32

definition catalog_new :: catalog where
  "catalog_new =
     \<lparr>labels = [], labels_rev = [], next_label_id = 1, rel_types = [], rel_types_rev = [], next_rel_type_id = 1,
      property_keys = [], property_keys_rev = [], next_property_key_id = 1\<rparr>"

text \<open>The id of a name, and the table, its reverse and the next id behind the call.\<close>

definition intern_name :: "name_table \<Rightarrow> id_table \<Rightarrow> u32 \<Rightarrow> bytes \<Rightarrow> u32 \<times> name_table \<times> id_table \<times> u32" where
  "intern_name names rev_names next_id name =
     (case map_of names name of
        Some nid \<Rightarrow> (nid, names, rev_names, next_id)
      | None \<Rightarrow> (next_id, AList.update name next_id names, AList.update next_id name rev_names, next_id + 1))"

definition get_or_create_label :: "catalog \<Rightarrow> bytes \<Rightarrow> u32 \<times> catalog" where
  "get_or_create_label c label =
     (case intern_name (labels c) (labels_rev c) (next_label_id c) label of
        (nid, names, rev_names, next_id) \<Rightarrow> (nid, c\<lparr>labels := names, labels_rev := rev_names, next_label_id := next_id\<rparr>))"

definition label_id :: "catalog \<Rightarrow> bytes \<Rightarrow> u32 option" where
  "label_id c label = map_of (labels c) label"

definition label_name :: "catalog \<Rightarrow> u32 \<Rightarrow> bytes option" where
  "label_name c nid = map_of (labels_rev c) nid"

definition get_or_create_rel_type :: "catalog \<Rightarrow> bytes \<Rightarrow> u32 \<times> catalog" where
  "get_or_create_rel_type c rel_type =
     (case intern_name (rel_types c) (rel_types_rev c) (next_rel_type_id c) rel_type of
        (nid, names, rev_names, next_id) \<Rightarrow> (nid, c\<lparr>rel_types := names, rel_types_rev := rev_names, next_rel_type_id := next_id\<rparr>))"

definition rel_type_id :: "catalog \<Rightarrow> bytes \<Rightarrow> u32 option" where
  "rel_type_id c rel_type = map_of (rel_types c) rel_type"

definition rel_type_name :: "catalog \<Rightarrow> u32 \<Rightarrow> bytes option" where
  "rel_type_name c nid = map_of (rel_types_rev c) nid"

definition get_or_create_property_key :: "catalog \<Rightarrow> bytes \<Rightarrow> u32 \<times> catalog" where
  "get_or_create_property_key c key =
     (case intern_name (property_keys c) (property_keys_rev c) (next_property_key_id c) key of
        (nid, names, rev_names, next_id) \<Rightarrow>
          (nid, c\<lparr>property_keys := names, property_keys_rev := rev_names, next_property_key_id := next_id\<rparr>))"

definition catalog_property_key_id :: "catalog \<Rightarrow> bytes \<Rightarrow> u32 option" where
  "catalog_property_key_id c key = map_of (property_keys c) key"

definition property_key_name :: "catalog \<Rightarrow> u32 \<Rightarrow> bytes option" where
  "property_key_name c nid = map_of (property_keys_rev c) nid"

subsection \<open>The encoding\<close>

definition encode_section :: "name_table \<Rightarrow> bytes" where
  "encode_section names =
     to_le_bytes (of_nat (length names) :: u32) @
     concat (map (\<lambda>(name, nid). to_le_bytes nid @ to_le_bytes (of_nat (length name) :: u16) @ name) names)"

definition catalog_encode :: "catalog \<Rightarrow> bytes" where
  "catalog_encode c = encode_section (labels c) @ encode_section (rel_types c) @ encode_section (property_keys c)"

definition read_u32_le :: "bytes \<Rightarrow> nat \<Rightarrow> (u32 \<times> nat) option" where
  "read_u32_le bs pos = (if pos + 4 > length bs then None else Some (from_le_bytes (slice bs pos 4), pos + 4))"

definition read_u16_le :: "bytes \<Rightarrow> nat \<Rightarrow> (u16 \<times> nat) option" where
  "read_u16_le bs pos = (if pos + 2 > length bs then None else Some (from_le_bytes (slice bs pos 2), pos + 2))"

fun decode_entries :: "nat \<Rightarrow> bytes \<Rightarrow> nat \<Rightarrow> name_table \<Rightarrow> id_table \<Rightarrow> u32 \<Rightarrow> (name_table \<times> id_table \<times> u32 \<times> nat) option" where
  "decode_entries 0 bs pos names rev_names max_id = Some (names, rev_names, max_id, pos)"
| "decode_entries (Suc n) bs pos names rev_names max_id =
     (case read_u32_le bs pos of
        None \<Rightarrow> None
      | Some (nid, pos) \<Rightarrow>
          (case read_u16_le bs pos of
             None \<Rightarrow> None
           | Some (len, pos) \<Rightarrow>
               (let name_len = unat len in
                if pos + name_len > length bs then None
                else let name = slice bs pos name_len in
                  if \<not> utf8_ok name then None
                  else decode_entries n bs (pos + name_len) (AList.update name nid names) (AList.update nid name rev_names)
                    (if nid > max_id then nid else max_id))))"

definition decode_section :: "bytes \<Rightarrow> nat \<Rightarrow> ((name_table \<times> id_table \<times> u32) \<times> nat) option" where
  "decode_section bs pos =
     (case read_u32_le bs pos of
        None \<Rightarrow> None
      | Some (count, pos) \<Rightarrow>
          map_option (\<lambda>(names, rev_names, max_id, pos). ((names, rev_names, max_id + 1), pos))
            (decode_entries (unat count) bs pos [] [] 0))"

definition catalog_decode :: "bytes \<Rightarrow> catalog option" where
  "catalog_decode bs =
     (case decode_section bs 0 of
        None \<Rightarrow> None
      | Some ((ls, ls_rev, next_l), pos) \<Rightarrow>
          (case decode_section bs pos of
             None \<Rightarrow> None
           | Some ((rs, rs_rev, next_r), pos) \<Rightarrow>
               (case decode_section bs pos of
                  None \<Rightarrow> None
                | Some ((ps, ps_rev, next_p), _) \<Rightarrow>
                    Some \<lparr>labels = ls, labels_rev = ls_rev, next_label_id = next_l,
                          rel_types = rs, rel_types_rev = rs_rev, next_rel_type_id = next_r,
                          property_keys = ps, property_keys_rev = ps_rev, next_property_key_id = next_p\<rparr>)))"

definition catalog_frame :: "digests \<Rightarrow> catalog \<Rightarrow> bytes" where
  "catalog_frame H c =
     (let body = catalog_encode c in
      to_le_bytes CATALOG_MAGIC @ to_le_bytes (crc32c H body) @ to_le_bytes (of_nat (length body) :: u32) @ body)"

definition catalog_unframe :: "digests \<Rightarrow> bytes \<Rightarrow> catalog option" where
  "catalog_unframe H bs =
     (if length bs < CATALOG_HEADER_LEN then None
      else if (from_le_bytes (slice bs 0 8) :: u64) \<noteq> CATALOG_MAGIC then None
      else let crc = from_le_bytes (slice bs 8 4); body_len = unat (from_le_bytes (slice bs 12 4) :: u32) in
        if CATALOG_HEADER_LEN + body_len > length bs then None
        else let body = slice bs CATALOG_HEADER_LEN body_len in
          if crc32c H body \<noteq> crc then None else catalog_decode body)"

subsection \<open>The sidecar file\<close>

definition catalog_persist :: "digests \<Rightarrow> 'p \<Rightarrow> 'p \<Rightarrow> catalog \<Rightarrow> (unit, 'p fsys) io" where
  "catalog_persist H path tmp_path c =
     (let framed = catalog_frame H c in
      io_bind (fs_open tmp_path True) (\<lambda>handle.
      io_bind (fh_set_len handle 0) (\<lambda>_.
      io_bind (fh_write_at handle framed 0) (\<lambda>_.
      io_bind (fh_sync handle) (\<lambda>_.
      io_bind (fs_rename tmp_path path) (\<lambda>_.
      fs_sync_dir))))))"

definition catalog_load :: "digests \<Rightarrow> 'p \<Rightarrow> (catalog option, 'p fsys) io" where
  "catalog_load H path =
     (\<lambda>fs. if \<not> fs_exists path fs then (Inr None, fs)
       else io_bind (fs_open path False) (\<lambda>handle.
         io_bind (fh_len handle) (\<lambda>len.
         if len = 0 then io_return None
         else io_bind (fh_read_at handle 0 len) (\<lambda>buf. io_return (catalog_unframe H buf)))) fs)"

section \<open>Name tables\<close>

text \<open>The ids of a table are 1 to its length, each with one name, and the reverse table is its
  inverse.\<close>

definition table_ok :: "name_table \<Rightarrow> id_table \<Rightarrow> u32 \<Rightarrow> bool" where
  "table_ok names rev_names next_id \<longleftrightarrow>
     distinct (map fst names) \<and> distinct (map snd names) \<and> length names + 1 < 2 ^ 32 \<and>
     unat ` snd ` set names = {1..length names} \<and> unat next_id = length names + 1 \<and>
     (\<forall>nid. map_of rev_names nid = map_of (map prod.swap names) nid)"

lemma table_ok_empty: "table_ok [] [] 1"
  by (simp add: table_ok_def)

lemma update_fresh: "k \<notin> fst ` set xs \<Longrightarrow> AList.update k v xs = xs @ [(k, v)]"
  by (induction xs) auto

lemma intern_known: "map_of names name = Some nid \<Longrightarrow> intern_name names rev_names next_id name = (nid, names, rev_names, next_id)"
  by (simp add: intern_name_def)

lemma intern_new:
  assumes ok: "table_ok names rev_names next_id" and new: "map_of names name = None" and room: "length names + 2 < 2 ^ 32"
  shows "\<exists>names' rev'. intern_name names rev_names next_id name = (next_id, names', rev', next_id + 1) \<and>
    names' = names @ [(name, next_id)] \<and> table_ok names' rev' (next_id + 1)"
proof -
  note o = ok [unfolded table_ok_def]
  have n: "unat (next_id + 1) = length names + 2"
    using o room by (subst unat_add_lem [THEN iffD1]) simp_all
  have fresh: "next_id \<notin> snd ` set names"
  proof
    assume "next_id \<in> snd ` set names"
    then have "unat next_id \<in> {1..length names}" using o by blast
    then show False using o by simp
  qed
  have k: "name \<notin> fst ` set names" using new by (simp add: map_of_eq_None_iff)
  have f: "map_of (map prod.swap names) next_id = None"
    using fresh by (force simp: map_of_eq_None_iff)
  have r: "map_of (AList.update next_id name rev_names) nid = map_of (map prod.swap (names @ [(name, next_id)])) nid" for nid
    using o f by (cases "nid = next_id") (auto simp: AList.update_conv' map_add_def split: option.split)
  have "unat ` snd ` set (names @ [(name, next_id)]) = {1..length (names @ [(name, next_id)])}"
    using o by (simp add: atLeastAtMostSuc_conv)
  then have "table_ok (names @ [(name, next_id)]) (AList.update next_id name rev_names) (next_id + 1)"
    unfolding table_ok_def using o k fresh room n r by simp
  then show ?thesis
    using new k by (simp add: intern_name_def update_fresh)
qed

section \<open>The encoding reads back\<close>

definition names_ok :: "name_table \<Rightarrow> bool" where
  "names_ok names \<longleftrightarrow> (\<forall>(name, nid) \<in> set names. length name < 65536 \<and> utf8_ok name)"

abbreviation entry_bytes :: "bytes \<times> u32 \<Rightarrow> bytes" where
  "entry_bytes \<equiv> \<lambda>(name, nid). to_le_bytes nid @ to_le_bytes (of_nat (length name) :: u16) @ name"

abbreviation max_id_step :: "bytes \<times> u32 \<Rightarrow> u32 \<Rightarrow> u32" where
  "max_id_step \<equiv> \<lambda>(name, nid) m. if nid > m then nid else m"

lemma read_u32_at: "read_u32_le (pre @ to_le_bytes w @ rest) (length pre) = Some (w, length pre + 4)"
  by (simp add: read_u32_le_def slice_def)

lemma read_u16_at: "read_u16_le (pre @ to_le_bytes w @ rest) (length pre) = Some (w, length pre + 2)"
  by (simp add: read_u16_le_def slice_def)

lemma decode_entries_step:
  assumes "length name < 65536" "utf8_ok name"
  shows "decode_entries (Suc n) (pre @ entry_bytes (name, nid) @ rest) (length pre) names rev_names max_id =
    decode_entries n (pre @ entry_bytes (name, nid) @ rest) (length (pre @ entry_bytes (name, nid)))
      (AList.update name nid names) (AList.update nid name rev_names) (max_id_step (name, nid) max_id)"
proof -
  let ?bs = "pre @ entry_bytes (name, nid) @ rest"
  have a: "read_u32_le ?bs (length pre) = Some (nid, length pre + 4)"
    using read_u32_at [of pre nid] by simp
  have b: "read_u16_le ?bs (length pre + 4) = Some (of_nat (length name), length pre + 6)"
    using read_u16_at [of "pre @ to_le_bytes nid" "of_nat (length name)" "name @ rest"] by (simp add: add.commute)
  have c: "unat (of_nat (length name) :: u16) = length name" "slice ?bs (length pre + 6) (length name) = name"
    using assms(1) by (simp_all add: unat_of_nat slice_def)
  show ?thesis
    using assms a b c by (simp add: Let_def add.assoc)
qed

lemma decode_entries_eq:
  assumes "distinct (map fst (names @ es))" "distinct (map snd (names @ es))" "names_ok es"
  shows "decode_entries (length es) (pre @ concat (map entry_bytes es) @ rest) (length pre) names (map prod.swap names) m =
    Some (names @ es, map prod.swap (names @ es), fold max_id_step es m, length pre + length (concat (map entry_bytes es)))"
  using assms
proof (induction es arbitrary: pre names m)
  case (Cons e es)
  obtain name nid where e: "e = (name, nid)" by (cases e)
  have u: "AList.update name nid names = names @ [e]" "AList.update nid name (map prod.swap names) = map prod.swap (names @ [e])"
    using Cons.prems by (force simp: e image_iff intro!: update_fresh)+
  have "decode_entries (length es) ((pre @ entry_bytes e) @ concat (map entry_bytes es) @ rest) (length (pre @ entry_bytes e))
      (names @ [e]) (map prod.swap (names @ [e])) (max_id_step e m) =
    Some ((names @ [e]) @ es, map prod.swap ((names @ [e]) @ es), fold max_id_step es (max_id_step e m),
      length (pre @ entry_bytes e) + length (concat (map entry_bytes es)))"
    by (rule Cons.IH) (use Cons.prems in \<open>auto simp: names_ok_def\<close>)
  moreover have "length name < 65536" "utf8_ok name" using Cons.prems(3) by (auto simp: names_ok_def e)
  ultimately show ?case
    using decode_entries_step [of name "length es" pre nid "concat (map entry_bytes es) @ rest" names "map prod.swap names" m] u
    by (simp add: e)
qed simp

lemma fold_max_id: "unat (fold max_id_step es m) = Max (insert (unat m) (unat ` snd ` set es))"
proof (induction es arbitrary: m)
  case (Cons e es)
  have "unat (max_id_step e m) = max (unat (snd e)) (unat m)"
    by (cases e) (auto simp: word_less_nat_alt max_def)
  then show ?case
    using Cons.IH [of "max_id_step e m"] by (cases "es = []") (simp_all add: max.assoc max.left_commute)
qed simp

lemma table_max:
  assumes "table_ok names rev_names next_id"
  shows "fold max_id_step names 0 + 1 = next_id"
proof -
  have n: "length names + 1 < 2 ^ 32" "unat next_id = length names + 1" "unat ` snd ` set names = {1..length names}"
    using assms by (auto simp: table_ok_def)
  have "unat (fold max_id_step names 0) = length names"
    unfolding fold_max_id n(3) by (cases "length names = 0") (auto intro!: Max_eqI simp: Suc_le_eq)
  then have "unat (fold max_id_step names 0 + 1) = unat next_id"
    using n(1,2) by (subst unat_add_lem [THEN iffD1]) simp_all
  then show ?thesis by (simp only: word_unat_eq_iff)
qed

lemma decode_section_eq:
  assumes ok: "table_ok names rev_names next_id" and n: "names_ok names"
  shows "decode_section (pre @ encode_section names @ rest) (length pre) =
    Some ((names, map prod.swap names, next_id), length pre + length (encode_section names))"
proof -
  let ?cnt = "to_le_bytes (of_nat (length names) :: u32)"
  have l: "unat (of_nat (length names) :: u32) = length names"
    using ok by (simp add: table_ok_def unat_of_nat)
  have "decode_entries (length names) ((pre @ ?cnt) @ concat (map entry_bytes names) @ rest) (length (pre @ ?cnt)) [] (map prod.swap []) 0 =
    Some ([] @ names, map prod.swap ([] @ names), fold max_id_step names 0, length (pre @ ?cnt) + length (concat (map entry_bytes names)))"
    by (rule decode_entries_eq) (use ok n in \<open>simp_all add: table_ok_def\<close>)
  then show ?thesis
    using read_u32_at [of pre "of_nat (length names)" "concat (map entry_bytes names) @ rest"] l table_max [OF ok]
    by (simp add: decode_section_def encode_section_def add.assoc)
qed

definition catalog_ok :: "catalog \<Rightarrow> bool" where
  "catalog_ok c \<longleftrightarrow>
     table_ok (labels c) (labels_rev c) (next_label_id c) \<and> names_ok (labels c) \<and>
     table_ok (rel_types c) (rel_types_rev c) (next_rel_type_id c) \<and> names_ok (rel_types c) \<and>
     table_ok (property_keys c) (property_keys_rev c) (next_property_key_id c) \<and> names_ok (property_keys c) \<and>
     length (catalog_encode c) < 2 ^ 32"

text \<open>Two catalogs that answer every lookup alike and hand out the same ids next.\<close>

definition same_catalog :: "catalog \<Rightarrow> catalog \<Rightarrow> bool" where
  "same_catalog c d \<longleftrightarrow>
     label_id d = label_id c \<and> label_name d = label_name c \<and> next_label_id d = next_label_id c \<and>
     rel_type_id d = rel_type_id c \<and> rel_type_name d = rel_type_name c \<and> next_rel_type_id d = next_rel_type_id c \<and>
     catalog_property_key_id d = catalog_property_key_id c \<and> property_key_name d = property_key_name c \<and>
     next_property_key_id d = next_property_key_id c"

lemma catalog_decode_encode:
  assumes "catalog_ok c"
  shows "\<exists>d. catalog_decode (catalog_encode c) = Some d \<and> same_catalog c d"
proof -
  note o = assms [unfolded catalog_ok_def]
  let ?l = "encode_section (labels c)" and ?r = "encode_section (rel_types c)" and ?p = "encode_section (property_keys c)"
  have "decode_section (?l @ ?r @ ?p) 0 = Some ((labels c, map prod.swap (labels c), next_label_id c), length ?l)"
    using decode_section_eq [of "labels c" "labels_rev c" "next_label_id c" "[]" "?r @ ?p"] o by simp
  moreover have "decode_section (?l @ ?r @ ?p) (length ?l) =
      Some ((rel_types c, map prod.swap (rel_types c), next_rel_type_id c), length (?l @ ?r))"
    using decode_section_eq [of "rel_types c" "rel_types_rev c" "next_rel_type_id c" ?l ?p] o by simp
  moreover have "decode_section (?l @ ?r @ ?p) (length (?l @ ?r)) =
      Some ((property_keys c, map prod.swap (property_keys c), next_property_key_id c), length (?l @ ?r @ ?p))"
    using decode_section_eq [of "property_keys c" "property_keys_rev c" "next_property_key_id c" "?l @ ?r" "[]"] o by simp
  ultimately show ?thesis
    using o by (simp add: catalog_decode_def catalog_encode_def same_catalog_def fun_eq_iff table_ok_def
        label_id_def label_name_def rel_type_id_def rel_type_name_def catalog_property_key_id_def property_key_name_def)
qed

lemma catalog_unframe_frame:
  assumes "catalog_ok c"
  shows "\<exists>d. catalog_unframe H (catalog_frame H c) = Some d \<and> same_catalog c d"
proof -
  have l: "unat (of_nat (length (catalog_encode c)) :: u32) = length (catalog_encode c)"
    using assms by (simp add: catalog_ok_def unat_of_nat)
  have "catalog_unframe H (catalog_frame H c) = catalog_decode (catalog_encode c)"
    using l by (simp add: catalog_unframe_def catalog_frame_def CATALOG_HEADER_LEN_def Let_def slice_def)
  then show ?thesis using catalog_decode_encode [OF assms] by simp
qed

section \<open>The sidecar survives crashes\<close>

abbreviation at_path :: "'p \<Rightarrow> 'p fsys \<Rightarrow> bytes option \<times> bytes option" where
  "at_path p fs \<equiv> (files fs p, durable fs p)"

lemma io_stepE:
  obtains e fs0 where "io_step fs = (e, fs0)" "files fs0 = files fs" "durable fs0 = durable fs" "contents fs0 = contents fs"
  using io_step_frame [of fs] by (cases "io_step fs") auto

lemma open_elsewhere:
  "fs_open q True fs = (r, fs') \<Longrightarrow> p \<noteq> q \<Longrightarrow> at_path p fs' = at_path p fs \<and> (\<forall>h. r = Inr h \<longrightarrow> h = q)"
  by (rule io_stepE [of fs]) (auto simp: fs_open_def io_op_def split: io_event.splits if_splits)

lemma set_len_elsewhere:
  "fh_set_len q 0 fs = (r, fs') \<Longrightarrow> p \<noteq> q \<Longrightarrow> at_path p fs' = at_path p fs \<and> (r = Inr u \<longrightarrow> files fs' q = Some [])"
  by (rule io_stepE [of fs]) (auto simp: fh_set_len_def io_op_def split: io_event.splits)

lemma write_elsewhere:
  "fh_write_at q buf 0 fs = (r, fs') \<Longrightarrow> p \<noteq> q \<Longrightarrow>
    at_path p fs' = at_path p fs \<and> (r = Inr u \<longrightarrow> files fs q = Some [] \<longrightarrow> files fs' q = Some buf)"
  by (rule io_stepE [of fs]) (auto simp: fh_write_at_def file_write_def contents_def split: io_event.splits)

lemma sync_elsewhere:
  "fh_sync q fs = (r, fs') \<Longrightarrow> p \<noteq> q \<Longrightarrow>
    at_path p fs' = at_path p fs \<and> files fs' q = files fs q \<and> (r = Inr u \<longrightarrow> files fs q = Some buf \<longrightarrow> durable fs' q = Some buf)"
  by (rule io_stepE [of fs]) (auto simp: fh_sync_def io_op_def contents_def split: io_event.splits)

lemma rename_to:
  "fs_rename q p fs = (r, fs') \<Longrightarrow> p \<noteq> q \<Longrightarrow>
    (if r = Inr u then at_path p fs' = at_path q fs else at_path p fs' = at_path p fs)"
  by (rule io_stepE [of fs]) (auto simp: fs_rename_def io_op_def split: io_event.splits if_splits)

lemma sync_dir_frame: "fs_sync_dir fs = (r, fs') \<Longrightarrow> at_path p fs' = at_path p fs"
  by (rule io_stepE [of fs]) (auto simp: fs_sync_dir_def io_op_def split: io_event.splits)

lemma persist_outcome:
  assumes run: "catalog_persist H path tmp c fs = (r, fs1)" and ne: "path \<noteq> tmp"
  defines "F \<equiv> Some (catalog_frame H c)"
  shows "at_path path fs1 = (F, F) \<or> r \<noteq> Inr () \<and> at_path path fs1 = at_path path fs"
proof -
  obtain r1 s1 where 1: "fs_open tmp True fs = (r1, s1)" by (rule prod.exhaust)
  obtain r2 s2 where 2: "fh_set_len tmp 0 s1 = (r2, s2)" by (rule prod.exhaust)
  obtain r3 s3 where 3: "fh_write_at tmp (catalog_frame H c) 0 s2 = (r3, s3)" by (rule prod.exhaust)
  obtain r4 s4 where 4: "fh_sync tmp s3 = (r4, s4)" by (rule prod.exhaust)
  obtain r5 s5 where 5: "fs_rename tmp path s4 = (r5, s5)" by (rule prod.exhaust)
  obtain r6 s6 where 6: "fs_sync_dir s5 = (r6, s6)" by (rule prod.exhaust)
  note f = open_elsewhere [OF 1 ne] set_len_elsewhere [OF 2 ne, of "()"] write_elsewhere [OF 3 ne, of "()"]
    sync_elsewhere [OF 4 ne, of "()" "catalog_frame H c"] rename_to [OF 5 ne, of "()"] sync_dir_frame [OF 6, of path]
  have r1: "r1 = Inr tmp \<or> (\<exists>e. r1 = Inl e)" using f(1) by (cases r1) auto
  have R: "catalog_persist H path tmp c fs =
     (case r1 of Inl e \<Rightarrow> (Inl e, s1) | Inr _ \<Rightarrow>
      (case r2 of Inl e \<Rightarrow> (Inl e, s2) | Inr _ \<Rightarrow>
       (case r3 of Inl e \<Rightarrow> (Inl e, s3) | Inr _ \<Rightarrow>
        (case r4 of Inl e \<Rightarrow> (Inl e, s4) | Inr _ \<Rightarrow>
         (case r5 of Inl e \<Rightarrow> (Inl e, s5) | Inr _ \<Rightarrow> (r6, s6))))))"
    using r1 1 2 3 4 5 6 by (auto simp: catalog_persist_def Let_def io_bind_def split: sum.split)
  have a: "at_path path s1 = at_path path fs" "at_path path s2 = at_path path fs" "at_path path s3 = at_path path fs"
    "at_path path s4 = at_path path fs"
    using f(1-4) by simp_all
  show ?thesis
  proof (cases "(\<exists>e. r1 = Inl e) \<or> (\<exists>e. r2 = Inl e) \<or> (\<exists>e. r3 = Inl e) \<or> (\<exists>e. r4 = Inl e)")
    case True
    then have "\<exists>e. r = Inl e \<and> fs1 \<in> {s1, s2, s3, s4}" using run R by (auto split: sum.splits)
    then show ?thesis using a by auto
  next
    case False
    have ok: "r2 = Inr ()" using False by (cases r2) auto
    have ok3: "r3 = Inr ()" using False by (cases r3) auto
    have ok4: "r4 = Inr ()" using False by (cases r4) auto
    note ok = ok ok3 ok4
    have tmp: "at_path tmp s4 = (F, F)" using f(2-4) ok by (simp add: F_def)
    have run': "(r, fs1) = (case r5 of Inl e \<Rightarrow> (Inl e, s5) | Inr _ \<Rightarrow> (r6, s6))"
      using run R False ok by (cases r1) simp_all
    show ?thesis
    proof (cases r5)
      case (Inl e)
      then show ?thesis using run' f(5) a(4) by simp
    next
      case (Inr u)
      then show ?thesis using run' f(5,6) tmp by simp
    qed
  qed
qed

lemma load_frame:
  assumes "plan fs = []" "files fs path = Some (catalog_frame H c)" "catalog_ok c"
  shows "\<exists>d. fst (catalog_load H path fs) = Inr (Some d) \<and> same_catalog c d"
proof -
  obtain d where d: "catalog_unframe H (catalog_frame H c) = Some d" "same_catalog c d"
    using catalog_unframe_frame [OF assms(3)] by blast
  have "catalog_frame H c \<noteq> []" by (simp add: catalog_frame_def Let_def to_le_bytes_def le_digits_numeral)
  then have "catalog_load H path fs = (Inr (Some d), fs)"
    using assms(1,2) d(1)
    by (simp add: catalog_load_def fs_exists_def fs_open_def io_bind_def io_return_def fh_len_def fh_read_at_def contents_def slice_def)
  then show ?thesis using d(2) by simp
qed

lemma load_same_file:
  "plan fs = [] \<Longrightarrow> plan fs' = [] \<Longrightarrow> files fs path = files fs' path \<Longrightarrow>
    fst (catalog_load H path fs) = fst (catalog_load H path fs')"
  by (simp add: catalog_load_def fs_exists_def fs_open_def io_bind_def io_return_def fh_len_def fh_read_at_def contents_def
      split: option.split)


lemma catalog_ok_new: "catalog_ok catalog_new"
  by (simp add: catalog_ok_def catalog_new_def table_ok_empty names_ok_def catalog_encode_def encode_section_def)


section \<open>Ids\<close>

lemma table_inverse:
  assumes "table_ok names rev_names next_id"
  shows "map_of rev_names nid = Some name \<longleftrightarrow> map_of names name = Some nid"
proof -
  have o: "distinct (map fst names)" "distinct (map fst (map prod.swap names))" "map_of rev_names nid = map_of (map prod.swap names) nid"
    using assms by (simp_all add: table_ok_def comp_def)
  show ?thesis
    unfolding o(3) using map_of_eq_Some_iff [OF o(1), of name nid] map_of_eq_Some_iff [OF o(2), of nid name] by force
qed

lemma table_id_range:
  assumes "table_ok names rev_names next_id" "map_of names name = Some nid"
  shows "nid \<noteq> 0" "nid \<noteq> next_id"
proof -
  have "unat nid \<in> unat ` snd ` set names" using map_of_SomeD [OF assms(2)] by force
  then have "unat nid \<in> {1..length names}" "unat next_id = length names + 1" using assms(1) by (simp_all add: table_ok_def)
  then show "nid \<noteq> 0" "nid \<noteq> next_id" by auto
qed

text \<open>Ids are stable: registering a label returns the id it has from then on, under which its name
  is found, gives a name not seen before an id nobody has, never 0, and leaves the other names, the
  other tables and the invariant as they are.\<close>

theorem label_ids_stable:
  assumes ok: "table_ok (labels c) (labels_rev c) (next_label_id c)" and room: "length (labels c) + 2 < 2 ^ 32"
    and run: "get_or_create_label c name = (nid, c')"
  shows "label_id c' name = Some nid \<and> label_name c' nid = Some name \<and> nid \<noteq> 0 \<and>
    (\<forall>other. other \<noteq> name \<longrightarrow> label_id c' other = label_id c other \<and> label_id c' other \<noteq> Some nid) \<and>
    (label_id c name = None \<longrightarrow> label_name c nid = None) \<and> (label_id c name \<noteq> None \<longrightarrow> c' = c) \<and>
    table_ok (labels c') (labels_rev c') (next_label_id c') \<and>
    rel_types c' = rel_types c \<and> property_keys c' = property_keys c"
proof (cases "map_of (labels c) name")
  case (Some i)
  then have c: "c' = c" "nid = i"
    using run by (auto simp: get_or_create_label_def intern_known)
  have "label_id c other \<noteq> Some i" if "other \<noteq> name" for other
    using that table_inverse [OF ok, of i other] table_inverse [OF ok, of i name] Some by (auto simp: label_id_def)
  then show ?thesis
    using Some ok c table_inverse [OF ok, of i name] table_id_range [OF ok Some] by (simp add: label_id_def label_name_def)
next
  case None
  obtain names' rev' where i: "intern_name (labels c) (labels_rev c) (next_label_id c) name = (next_label_id c, names', rev', next_label_id c + 1)"
    "names' = labels c @ [(name, next_label_id c)]" "table_ok names' rev' (next_label_id c + 1)"
    using intern_new [OF ok None room] by blast
  have c: "nid = next_label_id c" "c' = c\<lparr>labels := names', labels_rev := rev', next_label_id := next_label_id c + 1\<rparr>"
    using run unfolding get_or_create_label_def i(1) by auto
  have new: "map_of names' name = Some nid" using i(2) None c(1) by (simp add: map_add_def)
  have other: "map_of names' other = map_of (labels c) other" if "other \<noteq> name" for other
    using i(2) that by (simp add: map_add_def split: option.split)
  have "map_of (labels_rev c) nid = None"
  proof (rule ccontr)
    assume "map_of (labels_rev c) nid \<noteq> None"
    then obtain n where "map_of (labels_rev c) nid = Some n" by blast
    then show False using table_inverse [OF ok, of nid n] table_id_range(2) [OF ok, of n nid] c(1) by simp
  qed
  moreover have "map_of (labels c) other \<noteq> Some nid" for other
    using table_id_range(2) [OF ok, of other nid] c(1) by blast
  ultimately show ?thesis
    using new other i(3) table_inverse [OF i(3), of nid name] table_id_range(1) [OF i(3) new] None
    unfolding c(2) label_id_def label_name_def by simp
qed

theorem label_ids_stable_witness:
  "\<exists>nid c'. get_or_create_label catalog_new [80] = (nid, c') \<and> label_id c' [80] = Some nid \<and> label_name c' nid = Some [80]"
proof -
  obtain nid c' where run: "get_or_create_label catalog_new [80] = (nid, c')" by (rule prod.exhaust)
  have "table_ok (labels catalog_new) (labels_rev catalog_new) (next_label_id catalog_new)" "length (labels catalog_new) + 2 < 2 ^ 32"
    by (simp_all add: catalog_new_def table_ok_empty)
  then show ?thesis using label_ids_stable [OF _ _ run] run by blast
qed

end
