(* ===== verification/Csr.thy ===== *)
theory Csr
  imports GraphRecord "HOL-Library.Product_Lexorder" "HOL-Library.Multiset"
begin

text \<open>
  The compressed sparse row snapshot of the adjacency (\<open>src/src/graph/csr.rs\<close>): the builder collects
  the live edges, sorts them, counts the edges per source, turns the counts into offsets and fills
  the columns with a cursor per source. Offsets are 32-bit integers that wrap; an index out of range
  panics (\<open>None\<close>), and \<open>idx + 1\<close> wraps at the largest id. The sort of the source is unstable, which
  leaves the order of edges with the same endpoints and id open: \<open>csr_build\<close> uses a stable sort, and
  the theorem is proved for every sorted order.
\<close>

section \<open>Definitions\<close>

record csr_adjacency =
  row_ptr :: "u32 list"
  col_idx :: "u64 list"
  edge_ids :: "u64 list"
  edge_types :: "u32 list"
  csr_max_node_id :: u64

record csr_edge =
  ce_target_id :: u64
  ce_edge_id :: u64
  ce_edge_type :: u32

definition csr_edge_count :: "csr_adjacency \<Rightarrow> nat" where
  "csr_edge_count csr = length (edge_ids csr)"

definition csr_node_count :: "csr_adjacency \<Rightarrow> u64" where
  "csr_node_count csr = csr_max_node_id csr"

text \<open>The views of the edges \<open>start..end\<close>.\<close>

fun csr_views :: "csr_adjacency \<Rightarrow> nat list \<Rightarrow> csr_edge list option" where
  "csr_views csr [] = Some []"
| "csr_views csr (i # is) =
     (if i < length (col_idx csr) \<and> i < length (edge_ids csr) \<and> i < length (edge_types csr) then
        map_option ((#) \<lparr>ce_target_id = col_idx csr ! i, ce_edge_id = edge_ids csr ! i, ce_edge_type = edge_types csr ! i\<rparr>)
          (csr_views csr is)
      else None)"

definition outgoing_edges :: "csr_adjacency \<Rightarrow> u64 \<Rightarrow> csr_edge list option" where
  "outgoing_edges csr src_node_id =
     (let idx = unat src_node_id; next_idx = unat (src_node_id + 1) in
      if next_idx < length (row_ptr csr) then
        if idx < length (row_ptr csr) then csr_views csr [unat (row_ptr csr ! idx)..<unat (row_ptr csr ! next_idx)]
        else None
      else csr_views csr [0..<0])"

definition out_degree :: "csr_adjacency \<Rightarrow> u64 \<Rightarrow> u32 option" where
  "out_degree csr src_node_id =
     (let idx = unat src_node_id; next_idx = unat (src_node_id + 1) in
      if next_idx < length (row_ptr csr) then
        if idx < length (row_ptr csr) then Some (row_ptr csr ! next_idx - row_ptr csr ! idx) else None
      else Some 0)"

type_synonym edge_tuple = "u64 \<times> u64 \<times> u64 \<times> u32"

record csr_builder =
  cb_edges :: "edge_tuple list"
  cb_max_node_id :: u64

definition csr_builder_new :: csr_builder where
  "csr_builder_new = \<lparr>cb_edges = [], cb_max_node_id = 0\<rparr>"

definition csr_add_edge :: "edge_record \<Rightarrow> csr_builder \<Rightarrow> csr_builder" where
  "csr_add_edge rec b =
     (if er_flags rec AND EDGE_DELETED \<noteq> 0 then b
      else let src = er_source_id rec; dst = er_target_id rec in
        \<lparr>cb_edges = cb_edges b @ [(src, dst, er_edge_id rec, er_type_id rec)],
         cb_max_node_id = max (max (cb_max_node_id b) src) dst\<rparr>)"

definition csr_add_node :: "node_record \<Rightarrow> csr_builder \<Rightarrow> csr_builder" where
  "csr_add_node rec b = b\<lparr>cb_max_node_id := max (cb_max_node_id b) (nr_node_id rec)\<rparr>"

definition edge_sort_key :: "edge_tuple \<Rightarrow> u64 \<times> u64 \<times> u64" where
  "edge_sort_key = (\<lambda>(src, dst, eid, typ). (src, dst, eid))"

definition count_degree :: "nat \<Rightarrow> edge_tuple \<Rightarrow> u32 list \<Rightarrow> u32 list" where
  "count_degree n e rp =
     (let next_idx = unat (fst e + 1) in if next_idx < n then rp[next_idx := rp ! next_idx + 1] else rp)"

definition prefix_sum :: "nat \<Rightarrow> u32 list \<Rightarrow> u32 list" where
  "prefix_sum n rp = fold (\<lambda>i rp. rp[i := rp ! i + rp ! (i - 1)]) [1..<n] rp"

fun fill_columns :: "edge_tuple list \<Rightarrow> u32 list \<Rightarrow> u64 list \<Rightarrow> u64 list \<Rightarrow> u32 list \<Rightarrow>
    (u64 list \<times> u64 list \<times> u32 list) option" where
  "fill_columns [] cursor cols eids types = Some (cols, eids, types)"
| "fill_columns ((src, dst, eid, typ) # es) cursor cols eids types =
     (if unat src < length cursor then
        let pos = unat (cursor ! unat src) in
        if pos < length cols then
          fill_columns es (cursor[unat src := cursor ! unat src + 1]) (cols[pos := dst]) (eids[pos := eid]) (types[pos := typ])
        else None
      else None)"

text \<open>The part of \<open>build\<close> behind the sort. A vector of more than \<open>isize::MAX\<close> bytes panics.\<close>

definition csr_build_sorted :: "u64 \<Rightarrow> edge_tuple list \<Rightarrow> csr_adjacency option" where
  "csr_build_sorted max_id edges =
     (let n = min (unat max_id + 2) (2 ^ 64 - 1) in
      if n * 4 > 2 ^ 63 - 1 then None
      else let rp = prefix_sum n (fold (count_degree n) edges (replicate n 0)); m = length edges in
        map_option (\<lambda>(cols, eids, types).
            \<lparr>row_ptr = rp, col_idx = cols, edge_ids = eids, edge_types = types, csr_max_node_id = max_id\<rparr>)
          (fill_columns edges rp (replicate m 0) (replicate m 0) (replicate m 0)))"

definition csr_build :: "csr_builder \<Rightarrow> csr_adjacency option" where
  "csr_build b = csr_build_sorted (cb_max_node_id b) (sort_key edge_sort_key (cb_edges b))"

text \<open>The holder of the published snapshot.\<close>

record csr_holder =
  csr_snapshot :: "csr_adjacency option"

definition csr_holder_new :: csr_holder where
  "csr_holder_new = \<lparr>csr_snapshot = None\<rparr>"

definition csr_freeze :: "csr_adjacency \<Rightarrow> csr_holder \<Rightarrow> csr_holder" where
  "csr_freeze csr h = h\<lparr>csr_snapshot := Some csr\<rparr>"

definition csr_thaw :: "csr_holder \<Rightarrow> csr_holder" where
  "csr_thaw h = h\<lparr>csr_snapshot := None\<rparr>"

definition csr_is_frozen :: "csr_holder \<Rightarrow> bool" where
  "csr_is_frozen h \<longleftrightarrow> csr_snapshot h \<noteq> None"

section \<open>Counting and offsets\<close>

definition below_src :: "edge_tuple list \<Rightarrow> nat \<Rightarrow> nat" where
  "below_src es i = length (filter (\<lambda>e. unat (fst e) < i) es)"

definition from_src :: "edge_tuple list \<Rightarrow> nat \<Rightarrow> nat" where
  "from_src es i = length (filter (\<lambda>e. unat (fst e) = i) es)"

lemma below_src_0 [simp]: "below_src es 0 = 0"
  by (simp add: below_src_def)

lemma below_src_Suc: "below_src es (Suc i) = below_src es i + from_src es i"
  by (induction es) (auto simp: below_src_def from_src_def)

lemma below_src_le: "below_src es i \<le> length es"
  by (simp add: below_src_def)

lemma unat_next: "unat (s :: u64) + 1 < 2 ^ 64 \<Longrightarrow> unat (s + 1) = unat s + 1"
  by (simp add: unat_word_ariths)

lemma unat_next_less:
  assumes "s \<noteq> - 1"
  shows "unat ((s :: u64) + 1) = unat s + 1"
proof (rule unat_next, rule ccontr)
  assume "\<not> unat s + 1 < 2 ^ 64"
  moreover have "unat s < 2 ^ LENGTH(64)" by (rule unsigned_less)
  ultimately have "unat s = 2 ^ 64 - 1" by simp
  then have "unat s = unat (- 1 :: u64)" by (simp add: unsigned_minus_1_eq_mask mask_eq_exp_minus_1)
  then show False using assms by (simp add: unsigned_word_eqI)
qed

lemma unat_u32_of_nat: "n < 2 ^ 32 \<Longrightarrow> unat (of_nat n :: u32) = n"
  by (simp add: unat_of_nat)

lemma count_degree_length: "length (fold (count_degree n) es rp) = length rp"
  by (induction es arbitrary: rp) (auto simp: count_degree_def Let_def)

lemma count_degree_nth:
  assumes "\<forall>e\<in>set es. unat (fst e) + 1 < n" "length rp = n" "n \<le> 2 ^ 64" "i < n"
  shows "fold (count_degree n) es rp ! i = rp ! i + (if i = 0 then 0 else of_nat (from_src es (i - 1)))"
  using assms
proof (induction es arbitrary: rp)
  case (Cons e es)
  have u: "unat (fst e + 1) = unat (fst e) + 1" using Cons.prems by (intro unat_next) auto
  have "fold (count_degree n) es (count_degree n e rp) ! i =
      count_degree n e rp ! i + (if i = 0 then 0 else of_nat (from_src es (i - 1)))"
    using Cons.prems by (intro Cons.IH) (auto simp: count_degree_def Let_def)
  moreover have "count_degree n e rp ! i = rp ! i + (if i = unat (fst e) + 1 then 1 else 0)"
    using Cons.prems u by (auto simp: count_degree_def Let_def nth_list_update)
  ultimately show ?case by (auto simp: from_src_def)
qed (simp add: from_src_def)

lemma prefix_sum_nth:
  assumes "length rp = n" "k \<le> n" "0 < k" "rp ! 0 = 0" "\<And>i. Suc i < n \<Longrightarrow> rp ! Suc i = of_nat (from_src es i)"
  shows "length (prefix_sum k rp) = n \<and> (\<forall>i<n. prefix_sum k rp ! i = (if i < k then of_nat (below_src es i) else rp ! i))"
  using assms(2,3)
proof (induction k)
  case (Suc k)
  show ?case
  proof (cases "k = 0")
    case True
    then show ?thesis using assms by (auto simp: prefix_sum_def)
  next
    case False
    then obtain j where k: "k = Suc j" using not0_implies_Suc by blast
    have ih: "length (prefix_sum k rp) = n" "\<And>i. i < n \<Longrightarrow> prefix_sum k rp ! i = (if i < k then of_nat (below_src es i) else rp ! i)"
      using Suc False by auto
    have st: "prefix_sum (Suc k) rp = (prefix_sum k rp)[k := prefix_sum k rp ! k + prefix_sum k rp ! (k - 1)]"
      using False by (simp add: prefix_sum_def)
    show ?thesis unfolding st
      using ih Suc.prems assms(5) [of j] by (auto simp: nth_list_update k below_src_Suc less_Suc_eq)
  qed
qed simp

text \<open>The offsets of a row are the numbers of edges from smaller sources.\<close>

lemma offsets:
  assumes "\<forall>e\<in>set es. unat (fst e) + 1 < n" "0 < n" "n \<le> 2 ^ 64"
  shows "length (prefix_sum n (fold (count_degree n) es (replicate n 0))) = n"
    and "\<And>i. i < n \<Longrightarrow> prefix_sum n (fold (count_degree n) es (replicate n 0)) ! i = of_nat (below_src es i)"
proof -
  let ?rp = "fold (count_degree n) es (replicate n 0)"
  have "length ?rp = n" by (simp add: count_degree_length)
  moreover have "?rp ! 0 = 0" using count_degree_nth [OF assms(1) _ assms(3), of "replicate n 0" 0] assms(2) by simp
  moreover have "?rp ! Suc i = of_nat (from_src es i)" if "Suc i < n" for i
    using count_degree_nth [OF assms(1) _ assms(3) that, of "replicate n 0"] that by simp
  ultimately have "length (prefix_sum n ?rp) = n \<and> (\<forall>i<n. prefix_sum n ?rp ! i = (if i < n then of_nat (below_src es i) else ?rp ! i))"
    by (intro prefix_sum_nth [OF _ order_refl assms(2)]) auto
  then show "length (prefix_sum n ?rp) = n" and "\<And>i. i < n \<Longrightarrow> prefix_sum n ?rp ! i = of_nat (below_src es i)" by auto
qed

section \<open>Filling the columns\<close>

lemma key_src: "edge_sort_key a \<le> edge_sort_key b \<Longrightarrow> unat (fst a) \<le> unat (fst b)"
  by (cases a; cases b) (auto simp: edge_sort_key_def word_le_nat_alt word_less_nat_alt)

lemma sorted_key_src: "sorted (map edge_sort_key es) \<Longrightarrow> sorted (map (unat \<circ> fst) es)"
  by (induction es) (auto simp: key_src)

text \<open>In a sorted list the next edge stands behind the smaller sources and the edges of its own
  source already seen.\<close>

lemma cursor_position:
  assumes "sorted (map (unat \<circ> fst) (seen @ e # rest))"
  shows "below_src (seen @ e # rest) (unat (fst e)) + from_src seen (unat (fst e)) = length seen"
proof -
  let ?s = "unat (fst e)"
  have "filter (\<lambda>e. unat (fst e) < ?s) (e # rest) = []"
    using assms by (auto simp: sorted_append filter_empty_conv)
  then have "below_src (seen @ e # rest) ?s = below_src seen ?s" by (simp add: below_src_def)
  moreover have "below_src seen (Suc ?s) = length seen"
    using assms by (auto simp: below_src_def sorted_append less_Suc_eq_le intro: arg_cong [where f = length])
  ultimately show ?thesis by (simp add: below_src_Suc)
qed

lemma fill_columns_sorted:
  assumes "sorted (map (unat \<circ> fst) (seen @ todo))" "\<forall>e\<in>set todo. unat (fst e) < length cursor"
    and "length (seen @ todo) < 2 ^ 32"
    and "\<And>s. s < length cursor \<Longrightarrow> cursor ! s = of_nat (below_src (seen @ todo) s + from_src seen s)"
  shows "fill_columns todo cursor (map (fst \<circ> snd) seen @ replicate (length todo) 0)
      (map (fst \<circ> snd \<circ> snd) seen @ replicate (length todo) 0) (map (snd \<circ> snd \<circ> snd) seen @ replicate (length todo) 0) =
    Some (map (fst \<circ> snd) (seen @ todo), map (fst \<circ> snd \<circ> snd) (seen @ todo), map (snd \<circ> snd \<circ> snd) (seen @ todo))"
  using assms
proof (induction todo arbitrary: seen cursor)
  case (Cons e rest)
  obtain s d i t where e: "e = (s, d, i, t)" by (cases e) auto
  have s: "unat s < length cursor" using Cons.prems(2) by (simp add: e)
  have pos: "cursor ! unat s = of_nat (length seen)"
    unfolding Cons.prems(4) [OF s] using cursor_position [OF Cons.prems(1)] by (simp only: e fst_conv)
  have u: "unat (of_nat (length seen) :: u32) = length seen"
    using Cons.prems(3) by (intro unat_u32_of_nat) simp
  have "fill_columns rest (cursor[unat s := cursor ! unat s + 1])
      (map (fst \<circ> snd) (seen @ [e]) @ replicate (length rest) 0) (map (fst \<circ> snd \<circ> snd) (seen @ [e]) @ replicate (length rest) 0)
      (map (snd \<circ> snd \<circ> snd) (seen @ [e]) @ replicate (length rest) 0) =
    Some (map (fst \<circ> snd) ((seen @ [e]) @ rest), map (fst \<circ> snd \<circ> snd) ((seen @ [e]) @ rest), map (snd \<circ> snd \<circ> snd) ((seen @ [e]) @ rest))"
  proof (rule Cons.IH)
    fix r assume "r < length (cursor[unat s := cursor ! unat s + 1])"
    then show "cursor[unat s := cursor ! unat s + 1] ! r = of_nat (below_src ((seen @ [e]) @ rest) r + from_src (seen @ [e]) r)"
      using Cons.prems(4) [of r] s by (auto simp: nth_list_update from_src_def e)
  qed (use Cons.prems(1-3) in auto)
  then show ?case using s by (simp add: e pos u list_update_append comp_def)
qed simp

section \<open>Rows\<close>

definition edge_view :: "edge_tuple \<Rightarrow> csr_edge" where
  "edge_view = (\<lambda>(src, dst, eid, typ). \<lparr>ce_target_id = dst, ce_edge_id = eid, ce_edge_type = typ\<rparr>)"

lemma sorted_row:
  assumes "sorted (map (unat \<circ> fst) es)"
  shows "map ((!) es) [below_src es s..<below_src es (Suc s)] = filter (\<lambda>e. unat (fst e) = s) es"
proof -
  have "es = filter (\<lambda>e. unat (fst e) < s) es @ filter (\<lambda>e. unat (fst e) = s) es @ filter (\<lambda>e. unat (fst e) > s) es"
    using assms
  proof (induction es)
    case (Cons e es)
    have le: "\<forall>x\<in>set es. unat (fst e) \<le> unat (fst x)" using Cons.prems by auto
    have split: "es = filter (\<lambda>e. unat (fst e) < s) es @ filter (\<lambda>e. unat (fst e) = s) es @ filter (\<lambda>e. unat (fst e) > s) es"
      using Cons by simp
    consider "unat (fst e) < s" | "unat (fst e) = s" | "unat (fst e) > s" by linarith
    then show ?case
    proof cases
      case 1
      then show ?thesis using split by simp
    next
      case 2
      then have "filter (\<lambda>e. unat (fst e) < s) es = []" using le by (auto simp: filter_empty_conv)
      then show ?thesis using 2 split by simp
    next
      case 3
      then have "filter (\<lambda>e. unat (fst e) < s) es = []" "filter (\<lambda>e. unat (fst e) = s) es = []"
        using le by (force simp: filter_empty_conv)+
      then show ?thesis using 3 split by simp
    qed
  qed simp
  then obtain xs ys zs where p: "es = xs @ ys @ zs" "xs = filter (\<lambda>e. unat (fst e) < s) es" "ys = filter (\<lambda>e. unat (fst e) = s) es"
    by blast
  have "map ((!) es) [length xs..<length xs + length ys] = ys"
    unfolding p(1) by (intro nth_equalityI) (auto simp: nth_append)
  moreover have "below_src es s = length xs" "from_src es s = length ys"
    by (simp_all only: below_src_def from_src_def flip: p(2,3))
  ultimately show ?thesis by (simp add: below_src_Suc flip: p(3))
qed

lemma csr_views_map:
  assumes "col_idx csr = map (fst \<circ> snd) es" "edge_ids csr = map (fst \<circ> snd \<circ> snd) es" "edge_types csr = map (snd \<circ> snd \<circ> snd) es"
    and "\<forall>i\<in>set is. i < length es"
  shows "csr_views csr is = Some (map (\<lambda>i. edge_view (es ! i)) is)"
  using assms(4) by (induction "is") (auto simp: assms(1-3) edge_view_def split_beta)

lemma csr_build_columns:
  assumes "sorted (map edge_sort_key es)" "\<forall>e\<in>set es. fst e \<le> max_id" "length es < 2 ^ 32" "unat max_id + 2 < 2 ^ 61"
  obtains csr where "csr_build_sorted max_id es = Some csr" "length (row_ptr csr) = unat max_id + 2"
    "\<forall>i<unat max_id + 2. row_ptr csr ! i = of_nat (below_src es i)"
    "col_idx csr = map (fst \<circ> snd) es" "edge_ids csr = map (fst \<circ> snd \<circ> snd) es" "edge_types csr = map (snd \<circ> snd \<circ> snd) es"
proof -
  define n where "n = unat max_id + 2"
  define rp where "rp = prefix_sum n (fold (count_degree n) es (replicate n 0))"
  have src: "\<forall>e\<in>set es. unat (fst e) + 1 < n" using assms(2) by (auto simp: n_def word_le_nat_alt)
  have rp: "length rp = n" "\<And>i. i < n \<Longrightarrow> rp ! i = of_nat (below_src es i)"
    unfolding rp_def using offsets [OF src] assms(4) by (auto simp: n_def)
  have "fill_columns es rp (replicate (length es) 0) (replicate (length es) 0) (replicate (length es) 0) =
      Some (map (fst \<circ> snd) es, map (fst \<circ> snd \<circ> snd) es, map (snd \<circ> snd \<circ> snd) es)"
    using fill_columns_sorted [of "[]" es rp] sorted_key_src [OF assms(1)] src rp assms(3)
    by (simp add: from_src_def Suc_lessD)
  moreover have "min (unat max_id + 2) (2 ^ 64 - 1) = n" "\<not> n * 4 > 2 ^ 63 - 1" using assms(4) by (simp_all add: n_def)
  ultimately have "csr_build_sorted max_id es = Some \<lparr>row_ptr = rp, col_idx = map (fst \<circ> snd) es, edge_ids = map (fst \<circ> snd \<circ> snd) es,
      edge_types = map (snd \<circ> snd \<circ> snd) es, csr_max_node_id = max_id\<rparr>"
    unfolding csr_build_sorted_def Let_def by (simp only: if_False flip: rp_def) simp
  then show thesis using that rp by (simp add: n_def)
qed

lemma csr_row:
  assumes "sorted (map edge_sort_key es)" "\<forall>e\<in>set es. fst e \<le> max_id" "length es < 2 ^ 32" "unat max_id + 2 < 2 ^ 61"
    and "csr_build_sorted max_id es = Some csr" "s \<noteq> - 1"
  shows "outgoing_edges csr s = Some (map edge_view (filter (\<lambda>e. fst e = s) es)) \<and>
    out_degree csr s = Some (of_nat (length (filter (\<lambda>e. fst e = s) es)))"
proof -
  obtain csr' where c: "csr_build_sorted max_id es = Some csr'" "length (row_ptr csr') = unat max_id + 2"
    "\<forall>i<unat max_id + 2. row_ptr csr' ! i = of_nat (below_src es i)"
    "col_idx csr' = map (fst \<circ> snd) es" "edge_ids csr' = map (fst \<circ> snd \<circ> snd) es" "edge_types csr' = map (snd \<circ> snd \<circ> snd) es"
    by (rule csr_build_columns [OF assms(1-4)])
  have eq: "csr' = csr" using c(1) assms(5) by simp
  have nx: "unat (s + 1) = unat s + 1" using assms(6) by (rule unat_next_less)
  have src_eq: "(unat (fst e) = unat s) = (fst e = s)" for e :: edge_tuple by (simp add: word_unat_eq_iff)
  show ?thesis
  proof (cases "unat s + 1 < unat max_id + 2")
    case True
    have views: "csr_views csr [below_src es (unat s)..<below_src es (Suc (unat s))] =
        Some (map edge_view (map ((!) es) [below_src es (unat s)..<below_src es (Suc (unat s))]))"
      using csr_views_map [OF c(4-6) [unfolded eq]] below_src_le [of es "Suc (unat s)"] by (simp add: comp_def)
    have row: "row_ptr csr ! unat s = of_nat (below_src es (unat s))"
      "row_ptr csr ! Suc (unat s) = of_nat (below_src es (unat s) + from_src es (unat s))"
      using c(3) True by (simp_all add: eq flip: below_src_Suc)
    have bound: "below_src es i < 2 ^ 32" for i using below_src_le [of es i] assms(3) by simp
    have un: "unat (row_ptr csr ! unat s) = below_src es (unat s)" "unat (row_ptr csr ! Suc (unat s)) = below_src es (Suc (unat s))"
      unfolding row below_src_Suc [symmetric] by (simp_all only: unat_u32_of_nat bound)
    show ?thesis
      using True views c(2) sorted_row [OF sorted_key_src [OF assms(1)], of "unat s"] src_eq
      by (simp add: outgoing_edges_def out_degree_def Let_def nx eq un) (simp add: row from_src_def)
  next
    case False
    then have "filter (\<lambda>e. fst e = s) es = []" using assms(2) by (auto simp: filter_empty_conv word_le_nat_alt)
    then show ?thesis using False c(2) by (simp add: outgoing_edges_def out_degree_def Let_def nx eq)
  qed
qed

section \<open>The snapshot of the collected records\<close>

text \<open>The builder as \<open>freeze_adjacency\<close> drives it: every edge record, then every node record (the
  records with id 0, which it leaves out, are not in the lists).\<close>

definition csr_collect :: "edge_record list \<Rightarrow> node_record list \<Rightarrow> csr_builder" where
  "csr_collect edges nodes = fold csr_add_node nodes (fold csr_add_edge edges csr_builder_new)"

definition edge_live :: "edge_record \<Rightarrow> bool" where
  "edge_live rec \<longleftrightarrow> er_flags rec AND EDGE_DELETED = 0"

definition record_tuple :: "edge_record \<Rightarrow> edge_tuple" where
  "record_tuple rec = (er_source_id rec, er_target_id rec, er_edge_id rec, er_type_id rec)"

definition record_view :: "edge_record \<Rightarrow> csr_edge" where
  "record_view rec = \<lparr>ce_target_id = er_target_id rec, ce_edge_id = er_edge_id rec, ce_edge_type = er_type_id rec\<rparr>"

definition covers :: "csr_builder \<Rightarrow> bool" where
  "covers b \<longleftrightarrow> (\<forall>e\<in>set (cb_edges b). fst e \<le> cb_max_node_id b)"

lemma add_edges:
  "cb_edges (fold csr_add_edge edges b) = cb_edges b @ map record_tuple (filter edge_live edges)"
  "covers b \<Longrightarrow> covers (fold csr_add_edge edges b)"
  by (induction edges arbitrary: b) (auto simp: csr_add_edge_def edge_live_def record_tuple_def covers_def Let_def max.coboundedI1)

lemma add_nodes:
  "cb_edges (fold csr_add_node nodes b) = cb_edges b"
  "covers b \<Longrightarrow> covers (fold csr_add_node nodes b)"
  by (induction nodes arbitrary: b) (auto simp: csr_add_node_def covers_def max.coboundedI1)

lemma collected:
  "cb_edges (csr_collect edges nodes) = map record_tuple (filter edge_live edges)"
  "covers (csr_collect edges nodes)"
  by (simp_all add: csr_collect_def add_nodes add_edges csr_builder_new_def covers_def [of "\<lparr>cb_edges = [], cb_max_node_id = 0\<rparr>"])

lemma row_sorted:
  "sorted (map edge_sort_key es) \<Longrightarrow>
   sorted (map (\<lambda>v. (ce_target_id v, ce_edge_id v)) (map edge_view (filter (\<lambda>e. fst e = s) es)))"
  by (induction es) (auto simp: edge_sort_key_def edge_view_def)

lemma row_mset:
  assumes "mset es = mset (map record_tuple rs)"
  shows "mset (map edge_view (filter (\<lambda>e. fst e = s) es)) = mset (map record_view (filter (\<lambda>r. er_source_id r = s) rs))"
proof -
  have "mset (map edge_view (filter (\<lambda>e. fst e = s) es)) = image_mset edge_view (filter_mset (\<lambda>e. fst e = s) (mset es))" by simp
  also have "\<dots> = mset (map edge_view (filter (\<lambda>e. fst e = s) (map record_tuple rs)))" by (simp add: assms)
  also have "map edge_view (filter (\<lambda>e. fst e = s) (map record_tuple rs)) = map record_view (filter (\<lambda>r. er_source_id r = s) rs)"
    by (induction rs) (auto simp: edge_view_def record_tuple_def record_view_def)
  finally show ?thesis .
qed



end
