(* ===== verification/Spec2Isabelle.thy ===== *)
theory Spec2Isabelle
  imports Mvcc TxManager Aries Allocator DoubleWriteCrash IndexKey IndexPrefix RdfIndex Catalog Csr
begin

text \<open>
  RGraph is an embedded property-graph and RDF database. Its source is under \<open>src/src/\<close>. This
  development models the parts that decide whether stored data is right: transactions, the
  write-ahead log and recovery, the page store, and the indexes over it.

  \<^bold>\<open>The parts and how they interact.\<close> A transaction (\<open>txn/manager.rs\<close>) gets an id
  (\<open>txn/txid.rs\<close>) and a snapshot (\<open>txn/state.rs\<close>, \<open>txn/snapshot.rs\<close>), takes locks under the
  wound-wait rule (\<open>txn/lock_table.rs\<close>, \<open>txn/wound_wait.rs\<close>), tracks antidependencies when it is
  serializable (\<open>txn/phantom.rs\<close>), and commits by appending and flushing log records
  (\<open>wal/record.rs\<close>, \<open>wal/writer.rs\<close>) through the file-system interface (\<open>io/mod.rs\<close>). After a
  crash, recovery (\<open>wal/aries.rs\<close>) replays the log onto the pages of the data file, which the page
  manager (\<open>storage/manager.rs\<close> with \<open>storage/meta.rs\<close>, \<open>storage/bitmap.rs\<close>) writes through the
  double-write buffer (\<open>wal/doublewrite.rs\<close>). Slotted pages (\<open>storage/page.rs\<close>) carry records;
  B+ tree pages (\<open>index/page.rs\<close>) are slotted pages, and the B+ tree (\<open>index/btree.rs\<close>) over them
  stores byte-string keys (\<open>index/key.rs\<close>, \<open>index/value_codec.rs\<close>) for the secondary indexes
  (\<open>index/label.rs\<close>, \<open>type_index.rs\<close>, \<open>adjacency_index.rs\<close>, \<open>property.rs\<close>) and for the three
  permutations of the RDF store (\<open>index/rdf_store.rs\<close>), whose values refer to the records of
  \<open>graph/record.rs\<close>. The catalog (\<open>catalog/mod.rs\<close>) gives labels, relationship types and property keys
  their ids and keeps them in a file of its own, and \<open>graph/csr.rs\<close> builds a read-only snapshot of the
  adjacency from the edge records.

  \<^bold>\<open>Conventions.\<close> Machine integers are words of their width and wrap as in a release build;
  \<open>usize\<close> is \<open>nat\<close>. Bytes are lists of 8-bit words; \<open>#[repr(C)]\<close> structs are their fields in order,
  little-endian. A struct is a record, an enum a datatype, one definition stands for one function. A
  result is a sum type (\<open>Inl\<close> the error), a panic is \<open>None\<close> of an outer option, effects are state
  passing; the file system is the state of an I/O monad in which any call may fail. Loops that need
  not end are \<open>partial_function (option)\<close>; where termination is claimed it is proved. The checksums
  (CRC32C, xxHash) come from external crates and are the parameter \<open>H\<close>; what is assumed of them is
  written in the theorems that need it.

  \<^bold>\<open>Theories, in the order of their dependencies.\<close>

  \<^item> \<open>Prelude\<close>: words, byte strings, integer encodings, binary search, the locale \<open>codec\<close>.
  \<^item> \<open>Txid\<close>, \<open>Mvcc\<close>, \<open>Snapshot\<close>, \<open>TxState\<close>: ids, tuple headers, visibility, and the registry of
    active and aborted transactions. Every reachable interleaving gives snapshot isolation; the
    garbage-collection horizon is monotone and below every active transaction, but a version it
    releases can still be visible.
  \<^item> \<open>LockTable\<close>, \<open>WoundWait\<close>, \<open>Phantom\<close>: locks stay pairwise compatible, waiting is acyclic, a
    pivot of antidependencies is doomed; lock upgrades are granted but not recorded.
  \<^item> \<open>Io\<close>, \<open>WalRecord\<close>, \<open>WalWriter\<close>: the file system with what a crash leaves of it, the record
    format (decoding is canonical), and the writer (a flush makes exactly the appended records
    durable; reopening cuts a torn tail).
  \<^item> \<open>TxManager\<close>: begin, lock acquisition, commit and rollback over all of the above. A commit is
    durable before it is acknowledged, finished transactions hold nothing, and the wound path has
    two errors that are proved as such.
  \<^item> \<open>Page\<close>, \<open>DiskPages\<close>, \<open>Aries\<close>: slotted pages, the file as pages, and the three phases of
    recovery: analysis, redo and undo are each equal to what they should compute, undo terminates.
  \<^item> \<open>Meta\<close>, \<open>Bitmap\<close>, \<open>DoubleWrite\<close>, \<open>PageManager\<close>, \<open>StorageCrash\<close>, \<open>DoubleWriteCrash\<close>,
    \<open>Allocator\<close>: the page store. Page and superblock writes are atomic under tearing crashes, and
    the allocator hands out no page twice, but for the reopened allocator.
  \<^item> \<open>IndexKey\<close>, \<open>IndexPrefix\<close>: order-preserving keys and prefix compression.
  \<^item> \<open>BTreePage\<close>, \<open>BTree\<close>: the pages and the code of the tree. \<open>BTreeNode\<close>: what a page holds.
    \<open>BTreeShape\<close>: the tree a page map stands for (\<open>btree_ok\<close>), search and range scan.
    \<open>BTreeInsert\<close>: splits. \<open>BTreeRebalance\<close>, \<open>BTreeDelete\<close>: borrowing, merging and root collapse.
    \<open>BTreeMap\<close>: the locales \<open>map_store\<close> and \<open>ordered_store\<close>, and that the tree refines a map.
  \<^item> \<open>GraphRecord\<close>: the record formats, with the locale \<open>struct_image\<close>.
  \<^item> \<open>IndexScan\<close>, \<open>SecondaryIndex\<close>, \<open>RdfIndex\<close>: the indexes as clients of the tree; the locale
    \<open>typed_index\<close> turns an injective fixed-length key encoding into an index that refines a map, and
    is interpreted on every index.
  \<^item> \<open>Catalog\<close>: the name tables and their sidecar file, which survives every crash of \<open>persist\<close>.
  \<^item> \<open>Csr\<close>: the snapshot of the adjacency; counting, prefix sums and filling give every node exactly its
    live edges, but for the largest id, where an index wraps.
  \<^item> \<open>Spec2Isabelle\<close>: commit, crash and recovery together.

  \<^bold>\<open>Interfaces.\<close> The locales are \<open>codec\<close> and \<open>struct_image\<close> (formats), \<open>id_source\<close> (id allocation),
  \<open>lock_service\<close> (what the manager relies on of locks), \<open>page_set\<close> (allocation bitmaps and the free
  list), \<open>map_store\<close>, \<open>ordered_store\<close> and \<open>typed_index\<close> (stores); each is interpreted on the model's
  own operations.

  \<^bold>\<open>Bounds.\<close> Theorems about the tree ask for records of one size for which two pages that may not
  lend fit into one (\<open>layout_ok\<close>), for fewer than 2^31 operations, so that page ids and LSNs do not
  wrap, and, because \<open>try_build_branch\<close> accepts one entry too many for most key lengths
  (\<open>branch_overflow_corrupts\<close>), for at most \<open>capacity\<close> entries when the tree grows: every leaf holds
  more than the minimum fill, so that many entries cannot fill one branch. For the 24-byte keys of
  the label index this is 81 * 224 = 18144 entries. The undo phase gets as much fuel as there are
  records, which \<open>undo_terminates\<close> shows to be enough.

  \<^bold>\<open>Not modelled.\<close> Concurrency inside one call (latches, atomics, condition variables): operations
  that take a lock are atomic steps, and interleavings are sequences of such steps. The buffer pool
  and the tree's pages in it, epochs and optimistic reads; the graph engine, the Cypher
  front end, the server, the command line and the I/O backends below \<open>io/mod.rs\<close>. The manifest
  lists every part with its status.
\<close>

section \<open>Commit, crash and recovery together\<close>

lemma sorted_wrt_all: "(\<And>x y. x \<in> set xs \<Longrightarrow> P x y) \<Longrightarrow> sorted_wrt P xs"
  by (induction xs) auto

lemma record_type_stamped: "r \<in> set (map2 (set_lsn H) rs lsns) \<Longrightarrow>
    \<exists>r' \<in> set rs. record_type r = record_type r' \<and> r_txid r = r_txid r' \<and> r_payload r = r_payload r'
      \<and> r_prev_lsn r = r_prev_lsn r'"
  by (auto dest!: set_zip_leftD)

text \<open>The log of a transaction that appended page images and committed, in the shape recovery
  expects of the engine's logs.\<close>

lemma committed_log_shape:
  assumes "engine_log rs0" and "\<forall>r \<in> set rs0. record_type r = Abort \<longrightarrow> r_txid r \<noteq> t"
    and "\<forall>r \<in> set prs. is_page_record (record_type r) \<and> r_txid r = t"
    and "record_type c = Commit" and "r_txid c = t"
  shows "engine_log (rs0 @ map2 (set_lsn H) prs lsns @ [c])"
proof -
  define ps where "ps = map2 (set_lsn H) prs lsns"
  have ps: "is_page_record (record_type r)" "r_txid r = t" if "r \<in> set ps" for r
    using record_type_stamped that assms(3) unfolding ps_def by fastforce+
  have "is_page_record x \<Longrightarrow> x \<notin> {Begin, Clr, Abort}" for x
    by (auto simp: is_page_record_def)
  then have no: "record_type r \<notin> {Begin, Clr, Abort}" if "r \<in> set ps" for r
    using ps(1) [OF that] by blast
  have e: "sorted_wrt (\<lambda>a b. record_type a = Abort \<longrightarrow> r_txid b \<noteq> r_txid a) rs0"
    "\<forall>r \<in> set rs0. record_type r \<noteq> Begin \<and> record_type r \<noteq> Clr \<and> (record_type r = Abort \<longrightarrow> r_prev_lsn r = 0)"
    using assms(1) by (simp_all add: engine_log_def)
  have "sorted_wrt (\<lambda>a b. record_type a = Abort \<longrightarrow> r_txid b \<noteq> r_txid a) (ps @ [c])"
    by (rule sorted_wrt_all) (use no assms(4) in auto)
  moreover have "\<forall>a \<in> set rs0. \<forall>b \<in> set (ps @ [c]). record_type a = Abort \<longrightarrow> r_txid b \<noteq> r_txid a"
  proof (intro ballI impI)
    fix a b
    assume "a \<in> set rs0" "b \<in> set (ps @ [c])" "record_type a = Abort"
    then have "r_txid a \<noteq> t" "b = c \<or> b \<in> set ps"
      using assms(2) by simp_all
    then show "r_txid b \<noteq> r_txid a"
      using ps(2) [of b] assms(5) by metis
  qed
  ultimately have "sorted_wrt (\<lambda>a b. record_type a = Abort \<longrightarrow> r_txid b \<noteq> r_txid a) (rs0 @ ps @ [c])"
    using e(1) by (simp only: sorted_wrt_append [of _ rs0] simp_thms)
  moreover have "\<forall>r \<in> set (rs0 @ ps @ [c]). record_type r \<noteq> Begin \<and> record_type r \<noteq> Clr \<and> (record_type r = Abort \<longrightarrow> r_prev_lsn r = 0)"
    using e(2) no assms(4) by auto
  ultimately show ?thesis
    by (simp only: engine_log_def ps_def simp_thms)
qed



text \<open>The transaction of the witness: number 7 logs an image of page 3 and commits.\<close>

lemma demo_survivor:
  "\<exists>w1 fs1 w2 fs2 tm'. append_all demo_digests [demo_image 7 3 [1, 2]] (demo_writer, demo_fs) = (Inr [1], (w1, fs1))
     \<and> commit demo_digests 5 tx_manager_new demo_tx (w1, fs1) = (Inr (), tm', demo_tx\<lparr>t_status := Committed\<rparr>, (w2, fs2))"
proof -
  let ?r = "demo_image 7 3 [1, 2]"
  have sz: "on_disk_size ?r = 68" "on_disk_size (wal_record_new demo_digests 5 Commit 7 0 0 []) = 58"
    by (simp_all add: demo_image_def on_disk_size_def WAL_RECORD_MIN_SIZE_def)
  obtain w1 fs1 where a: "wal_append demo_digests ?r (demo_writer, demo_fs) = (Inr 1, (w1, fs1))" "plan fs1 = []"
    using wal_append_ok [of demo_fs ?r DataFile demo_writer demo_digests] sz
    by (auto simp: demo_fs_def demo_writer_def BUFFER_SIZE_def)
  obtain w3 fs3 lsn where c: "wal_append demo_digests (wal_record_new demo_digests 5 Commit 7 0 0 []) (w1, fs1) = (Inr lsn, (w3, fs3))"
      "plan fs3 = []"
    using wal_append_ok [of fs1 "wal_record_new demo_digests 5 Commit 7 0 0 []" DataFile w1 demo_digests] a sz
      wal_append_Inr [OF a(1)] by (auto simp: demo_writer_def BUFFER_SIZE_def)
  obtain w2 fs2 where f: "wal_flush (w3, fs3) = (Inr (), (w2, fs2))"
    using wal_flush_ok [OF c(2)] by blast
  show ?thesis
    using a(1) c(1) f
    by (auto simp: io_bind_def io_return_def commit_def is_active_def demo_tx_def release_locks_eq Let_def on_state_def
        tm_wound_cleanup_def tm_ssi_cleanup_def)
qed


end
